(* ===== verification/CPrelude.thy ===== *)
theory CPrelude
  imports Main "HOL-Library.Word" "HOL-Library.Signed_Division" "HOL-Library.Char_ord"
    "HOL-Library.List_Lexorder"
begin

text \<open>
  Shared vocabulary of the development: the result type of a C function that may fail, the
  two's complement reading of C integers, C strings, C pointers, and the generic lemmas the
  component theories use.

  A run of the code that leaves defined behaviour (a null or wild dereference, an access outside
  an array, an uninitialised read, a division by zero, a \<open>double\<close> converted to an integer type that does not have it, a failed \<open>assert\<close>, a wait of the only
  thread for a lock it holds, a loop that never ends, a call of \<open>exit\<close>) is a value \<open>Inl e\<close>; a normal return is \<open>Inr v\<close>.
\<close>

section \<open>Results\<close>

datatype c_error =
    NullDeref
  | BadPointer
  | OutOfBounds
  | Uninitialised
  | DivByZero
  | ShiftRange
  | AssertFail
  | Blocked
  | Loops
  | BadConversion
  | Exit int

type_synonym 'a cres = "c_error + 'a"

definition c_bind :: "'a cres \<Rightarrow> ('a \<Rightarrow> 'b cres) \<Rightarrow> 'b cres" where
  "c_bind m f = (case m of Inl e \<Rightarrow> Inl e | Inr x \<Rightarrow> f x)"

definition c_assert :: "bool \<Rightarrow> unit cres" where
  "c_assert b = (if b then Inr () else Inl AssertFail)"

named_theorems cres_simps \<open>evaluation and inversion of results\<close>

lemma c_bind_Inr [simp, cres_simps]: "c_bind (Inr x) f = f x"
  by (simp add: c_bind_def)

lemma c_bind_Inl [simp, cres_simps]: "c_bind (Inl e) f = Inl e"
  by (simp add: c_bind_def)

lemma c_bind_eq_Inr: "c_bind m f = Inr y \<longleftrightarrow> (\<exists>x. m = Inr x \<and> f x = Inr y)"
  by (cases m) simp_all

lemma c_bind_eq_Inl: "c_bind m f = Inl e \<longleftrightarrow> m = Inl e \<or> (\<exists>x. m = Inr x \<and> f x = Inl e)"
  by (cases m) simp_all

lemma c_bind_assoc: "c_bind (c_bind m f) g = c_bind m (\<lambda>x. c_bind (f x) g)"
  by (cases m) simp_all

lemma c_bind_cong [fundef_cong]:
  "m = m' \<Longrightarrow> (\<And>x. m' = Inr x \<Longrightarrow> f x = f' x) \<Longrightarrow> c_bind m f = c_bind m' f'"
  by (cases m') (auto simp: c_bind_def)

lemma c_bindE:
  assumes "c_bind m f = Inr y"
  obtains x where "m = Inr x" and "f x = Inr y"
  using assms by (auto simp: c_bind_eq_Inr)

lemma c_assert_True [simp, cres_simps]: "b \<Longrightarrow> c_assert b = Inr ()"
  by (simp add: c_assert_def)

lemma c_assert_False [simp, cres_simps]: "\<not> b \<Longrightarrow> c_assert b = Inl AssertFail"
  by (simp add: c_assert_def)

lemma c_assert_eq_Inr [simp, cres_simps]: "c_assert b = Inr u \<longleftrightarrow> b"
  by (simp add: c_assert_def)

section \<open>Integers\<close>

text \<open>
  A C \<open>int\<close> and a \<open>long long\<close> are integers kept in range by \<open>s32\<close> and \<open>s64\<close>, the two's
  complement wrap of the target (the theorems that rely on it show that nothing wraps).
  Division and remainder truncate towards zero: \<open>sdiv\<close> and \<open>smod\<close>.
\<close>

definition s32 :: "int \<Rightarrow> int" where
  "s32 x = signed_take_bit 31 x"

definition s64 :: "int \<Rightarrow> int" where
  "s64 x = signed_take_bit 63 x"

named_theorems c_arith \<open>machine arithmetic that stays in range\<close>

lemma s32_id [c_arith]: "- (2 ^ 31) \<le> x \<Longrightarrow> x < 2 ^ 31 \<Longrightarrow> s32 x = x"
  unfolding s32_def by (rule signed_take_bit_int_eq_self) simp_all

lemma s64_id [c_arith]: "- (2 ^ 63) \<le> x \<Longrightarrow> x < 2 ^ 63 \<Longrightarrow> s64 x = x"
  unfolding s64_def by (rule signed_take_bit_int_eq_self) simp_all

lemma s32_mod: "s32 x = (x + 2147483648) mod 4294967296 - 2147483648"
  by (simp add: s32_def signed_take_bit_eq_take_bit_shift take_bit_eq_mod)

lemma s32_add: "s32 (s32 a + b) = s32 (a + b)"
proof -
  have 1: "s32 a + b + 2147483648 = (a + 2147483648) mod 4294967296 + b" by (simp add: s32_mod)
  have 2: "a + b + 2147483648 = a + 2147483648 + b" by simp
  show ?thesis unfolding s32_mod [of "s32 a + b"] s32_mod [of "a + b"] 1 2
    by (simp only: mod_add_left_eq)
qed

lemma s32_range: "- (2 ^ 31) \<le> s32 x \<and> s32 x < 2 ^ 31"
  unfolding s32_def
  using signed_take_bit_int_greater_eq_minus_exp [of 31 x] signed_take_bit_int_less_exp [of 31 x]
  by simp

lemma s64_range: "- (2 ^ 63) \<le> s64 x \<and> s64 x < 2 ^ 63"
  unfolding s64_def
  using signed_take_bit_int_greater_eq_minus_exp [of 63 x] signed_take_bit_int_less_exp [of 63 x]
  by simp

lemma smod_nonneg [c_arith]: "0 \<le> x \<Longrightarrow> 0 < m \<Longrightarrow> x smod m = x mod (m::int)"
  by (cases "x = 0") (auto simp: signed_modulo_int_def)

lemma sdiv_nonneg [c_arith]: "0 \<le> x \<Longrightarrow> 0 < m \<Longrightarrow> x sdiv m = x div (m::int)"
  by (cases "x = 0") (auto simp: signed_divide_int_def)

lemma smod_eq_0_iff: "x smod m = 0 \<longleftrightarrow> m dvd (x::int)"
proof -
  have "x smod m = 0 \<longleftrightarrow> x = 0 \<or> \<bar>x\<bar> mod \<bar>m\<bar> = 0"
    by (simp add: signed_modulo_int_def sgn_0_0)
  also have "\<dots> \<longleftrightarrow> x = 0 \<or> m dvd x"
    by (simp only: mod_eq_0_iff_dvd abs_dvd_iff dvd_abs_iff)
  finally show ?thesis by auto
qed

section \<open>Characters and strings\<close>

text \<open>
  A \<open>char\<close> is signed on the target: \<open>char_val\<close> is the value it is promoted to.
  A C string is the list of its characters before the terminator; its object is one byte
  longer, so reading at index \<open>length s\<close> gives the terminator and reading beyond is outside
  the object. A pointer that walks through a string is the list of what is left of it, and
  reading an exhausted one gives the terminator.
\<close>

abbreviation NUL :: char where "NUL \<equiv> CHR 0x00"

definition char_val :: "char \<Rightarrow> int" where
  "char_val c = signed_take_bit 7 (of_char c)"

definition cstring :: "char list \<Rightarrow> bool" where
  "cstring s \<longleftrightarrow> NUL \<notin> set s"

definition ascii :: "char list \<Rightarrow> bool" where
  "ascii s \<longleftrightarrow> (\<forall>c \<in> set s. 0 < char_val c)"

definition deref :: "char list \<Rightarrow> char" where
  "deref p = (case p of [] \<Rightarrow> NUL | c # _ \<Rightarrow> c)"

definition cstr_at :: "char list \<Rightarrow> int \<Rightarrow> char cres" where
  "cstr_at s i =
     (if 0 \<le> i \<and> i < int (length s) then Inr (s ! nat i)
      else if i = int (length s) then Inr NUL else Inl OutOfBounds)"

lemma deref_simps [simp]: "deref [] = NUL" "deref (c # p) = c"
  by (simp_all add: deref_def)

lemma char_val_NUL [simp]: "char_val NUL = 0"
  by (simp add: char_val_def)

lemma char_val_range: "- 128 \<le> char_val c \<and> char_val c < 128"
  unfolding char_val_def
  using signed_take_bit_int_greater_eq_minus_exp [of 7 "of_char c"]
    signed_take_bit_int_less_exp [of 7 "of_char c"]
  by simp

lemma char_val_char_of: "0 \<le> x \<Longrightarrow> x < 128 \<Longrightarrow> char_val (char_of (x::int)) = x"
  by (simp add: char_val_def of_char_of signed_take_bit_int_eq_self)

lemma char_val_inj: "char_val c = char_val d \<Longrightarrow> c = d"
proof -
  assume "char_val c = char_val d"
  then have "take_bit 8 (of_char c :: int) = take_bit 8 (of_char d)"
    unfolding char_val_def using signed_take_bit_eq_iff_take_bit_eq [of 7 "of_char c :: int" "of_char d"] by simp
  then have "(of_char c :: int) mod 256 = of_char d mod 256" by (simp add: take_bit_eq_mod)
  then show "c = d" by simp
qed

lemma cstring_Nil [simp]: "cstring []"
  by (simp add: cstring_def)

lemma cstring_Cons [simp]: "cstring (c # s) \<longleftrightarrow> c \<noteq> NUL \<and> cstring s"
  by (auto simp: cstring_def)

lemma cstring_append [simp]: "cstring (s @ t) \<longleftrightarrow> cstring s \<and> cstring t"
  by (auto simp: cstring_def)

lemma cstring_drop [simp]: "cstring s \<Longrightarrow> cstring (drop n s)"
  by (auto simp: cstring_def dest: in_set_dropD)

lemma cstring_nth: "cstring s \<Longrightarrow> i < length s \<Longrightarrow> s ! i \<noteq> NUL"
  by (metis cstring_def nth_mem)

lemma ascii_cstring: "ascii s \<Longrightarrow> cstring s"
  by (force simp: ascii_def cstring_def)

lemma ascii_nth: "ascii s \<Longrightarrow> i < length s \<Longrightarrow> 0 < char_val (s ! i) \<and> char_val (s ! i) < 128"
  using char_val_range by (auto simp: ascii_def)

lemma cstr_at_nth [simp]: "i < length s \<Longrightarrow> cstr_at s (int i) = Inr (s ! i)"
  by (simp add: cstr_at_def)

lemma cstr_at_end [simp]: "cstr_at s (int (length s)) = Inr NUL"
  by (simp add: cstr_at_def)

lemma cstr_at_ok:
  assumes "n \<le> length s"
  obtains c where "cstr_at s (int n) = Inr c" "n < length s \<longrightarrow> c = s ! n" "n = length s \<longrightarrow> c = NUL"
  using assms by (cases "n = length s") auto

lemma cstr_at_beyond [simp]: "int (length s) < i \<Longrightarrow> cstr_at s i = Inl OutOfBounds"
  by (simp add: cstr_at_def)

definition strlen :: "char list \<Rightarrow> int" where
  "strlen s = int (length (takeWhile (\<lambda>c. c \<noteq> NUL) s))"

lemma strlen_cstring [simp]: "cstring s \<Longrightarrow> strlen s = int (length s)"
  by (auto simp: strlen_def cstring_def intro!: arg_cong [of _ _ length] takeWhile_eq_all_conv [THEN iffD2])

text \<open>\<open>strcmp\<close> compares bytes as unsigned characters; only the sign of the result is used.\<close>

fun strcmp :: "char list \<Rightarrow> char list \<Rightarrow> int" where
  "strcmp [] [] = 0"
| "strcmp [] (b # bs) = - 1"
| "strcmp (a # as) [] = 1"
| "strcmp (a # as) (b # bs) =
     (if a = b then strcmp as bs else if (of_char a :: nat) < of_char b then - 1 else 1)"

lemma strcmp_eq_0 [simp]: "strcmp s t = 0 \<longleftrightarrow> s = t"
  by (induction s t rule: strcmp.induct) auto

lemma strcmp_less: "strcmp s t < 0 \<longleftrightarrow> s < t"
  by (induction s t rule: strcmp.induct) (auto simp: less_char_def)

lemma strcmp_greater: "0 < strcmp s t \<longleftrightarrow> t < s"
proof -
  have "0 < strcmp s t \<longleftrightarrow> \<not> strcmp s t < 0 \<and> strcmp s t \<noteq> 0" by linarith
  then show ?thesis by (auto simp: strcmp_less)
qed

lemmas strcmp_order = strcmp_less strcmp_greater strcmp_eq_0

text \<open>\<open>atoi\<close>: white space, a sign, and the digits up to the first other character; the result is only used where it is an \<open>int\<close>.\<close>

fun digits_val :: "char list \<Rightarrow> int \<Rightarrow> int" where
  "digits_val [] a = a"
| "digits_val (c # cs) a =
     (if 48 \<le> char_val c \<and> char_val c \<le> 57 then digits_val cs (10 * a + (char_val c - 48)) else a)"

definition atoi :: "char list \<Rightarrow> int" where
  "atoi s = (case dropWhile (\<lambda>c. char_val c = 32 \<or> 9 \<le> char_val c \<and> char_val c \<le> 13) s of
     [] \<Rightarrow> 0
   | c # cs \<Rightarrow> if c = CHR ''-'' then - digits_val cs 0 else if c = CHR ''+'' then digits_val cs 0 else digits_val (c # cs) 0)"

section \<open>Arrays\<close>

text \<open>An array is a list; reads and writes outside it are errors.\<close>

definition arr_at :: "'a list \<Rightarrow> int \<Rightarrow> 'a cres" where
  "arr_at xs i = (if 0 \<le> i \<and> i < int (length xs) then Inr (xs ! nat i) else Inl OutOfBounds)"

definition arr_set :: "'a list \<Rightarrow> int \<Rightarrow> 'a \<Rightarrow> 'a list cres" where
  "arr_set xs i v =
     (if 0 \<le> i \<and> i < int (length xs) then Inr (xs[nat i := v]) else Inl OutOfBounds)"

lemma arr_at_nth [simp]: "i < length xs \<Longrightarrow> arr_at xs (int i) = Inr (xs ! i)"
  by (simp add: arr_at_def)

lemma arr_at_int: "0 \<le> i \<Longrightarrow> i < int (length xs) \<Longrightarrow> arr_at xs i = Inr (xs ! nat i)"
  by (simp add: arr_at_def)

lemma arr_set_nth [simp]: "i < length xs \<Longrightarrow> arr_set xs (int i) v = Inr (xs[i := v])"
  by (simp add: arr_set_def)

lemma arr_set_int: "0 \<le> i \<Longrightarrow> i < int (length xs) \<Longrightarrow> arr_set xs i v = Inr (xs[nat i := v])"
  by (simp add: arr_set_def)

lemma arr_neg [simp]: "i < 0 \<Longrightarrow> arr_at xs i = Inl OutOfBounds" "i < 0 \<Longrightarrow> arr_set xs i v = Inl OutOfBounds"
  by (simp_all add: arr_at_def arr_set_def)

lemma arr_beyond [simp]: "int (length xs) \<le> i \<Longrightarrow> arr_at xs i = Inl OutOfBounds"
  "int (length xs) \<le> i \<Longrightarrow> arr_set xs i v = Inl OutOfBounds"
  by (simp_all add: arr_at_def arr_set_def)

section \<open>Counting loops\<close>

text \<open>\<open>for (i = lo; i < hi; i++) body\<close>, with the state that the body changes, and its invariant rule.\<close>

function c_for :: "int \<Rightarrow> int \<Rightarrow> (int \<Rightarrow> 's \<Rightarrow> 's cres) \<Rightarrow> 's \<Rightarrow> 's cres" where
  "c_for i hi body s = (if i < hi then c_bind (body i s) (c_for (i + 1) hi body) else Inr s)"
  by auto
termination by (relation "measure (\<lambda>(i, hi, body, s). nat (hi - i))") auto

declare c_for.simps [simp del]

lemma c_for_end [simp]: "hi \<le> i \<Longrightarrow> c_for i hi body s = Inr s"
  by (subst c_for.simps) simp

lemma c_for_step: "i < hi \<Longrightarrow> c_for i hi body s = c_bind (body i s) (c_for (i + 1) hi body)"
  by (subst c_for.simps) simp

lemma c_for_inv:
  assumes "lo \<le> hi" "P lo s"
    and "\<And>i s. lo \<le> i \<Longrightarrow> i < hi \<Longrightarrow> P i s \<Longrightarrow> \<exists>s'. body i s = Inr s' \<and> P (i + 1) s'"
  shows "\<exists>s'. c_for lo hi body s = Inr s' \<and> P hi s'"
  using assms
proof (induction "nat (hi - lo)" arbitrary: lo s)
  case 0
  then show ?case by simp
next
  case (Suc n)
  then have "lo < hi" by simp
  then obtain s1 where s1: "body lo s = Inr s1" "P (lo + 1) s1" using Suc.prems(2,3) by blast
  have "\<exists>s'. c_for (lo + 1) hi body s1 = Inr s' \<and> P hi s'"
    using Suc.hyps \<open>lo < hi\<close> s1(2) Suc.prems(3) by (intro Suc.hyps(1)) auto
  then show ?case using \<open>lo < hi\<close> s1(1) by (simp add: c_for_step)
qed

section \<open>Pointers\<close>

datatype ptr = Null | Addr nat

text \<open>Comparison of pointers into one heap: by address, the null pointer lowest.\<close>

instantiation ptr :: linorder
begin

fun less_eq_ptr :: "ptr \<Rightarrow> ptr \<Rightarrow> bool" where
  "less_eq_ptr Null q = True"
| "less_eq_ptr (Addr a) Null = False"
| "less_eq_ptr (Addr a) (Addr b) = (a \<le> b)"

definition less_ptr :: "ptr \<Rightarrow> ptr \<Rightarrow> bool" where
  "less_ptr p q \<longleftrightarrow> p \<le> q \<and> \<not> q \<le> p"

instance
proof
  fix p q r :: ptr
  show "p < q \<longleftrightarrow> p \<le> q \<and> \<not> q \<le> p" by (rule less_ptr_def)
  show "p \<le> p" by (cases p) simp_all
  show "p \<le> q \<Longrightarrow> q \<le> r \<Longrightarrow> p \<le> r" by (cases p; cases q; cases r) simp_all
  show "p \<le> q \<Longrightarrow> q \<le> p \<Longrightarrow> p = q" by (cases p; cases q) simp_all
  show "p \<le> q \<or> q \<le> p" by (cases p; cases q) auto
qed

end

lemma less_ptr_simps [simp]:
  "Addr a < Addr b \<longleftrightarrow> a < b" "Null < Addr b" "\<not> p < Null"
  by (auto simp: less_ptr_def elim: less_eq_ptr.elims)

section \<open>State machines\<close>

inductive reachable :: "'s \<Rightarrow> ('s \<Rightarrow> 's \<Rightarrow> bool) \<Rightarrow> 's \<Rightarrow> bool" for start step where
  reach_start: "reachable start step start"
| reach_step: "reachable start step s \<Longrightarrow> step s t \<Longrightarrow> reachable start step t"

locale inductive_invariant =
  fixes start :: 's
    and step :: "'s \<Rightarrow> 's \<Rightarrow> bool"
    and inv :: "'s \<Rightarrow> bool"
  assumes inv_start: "inv start"
    and inv_step: "inv s \<Longrightarrow> step s t \<Longrightarrow> inv t"
begin

lemma reachable_inv: "reachable start step s \<Longrightarrow> inv s"
  by (induction rule: reachable.induct) (auto intro: inv_start inv_step)

end

section \<open>Lists\<close>

lemma take_Suc_drop_nth:
  "i + m < length s \<Longrightarrow> take (Suc m) (drop i s) = take m (drop i s) @ [s ! (i + m)]"
  by (simp add: take_Suc_conv_app_nth)

lemma take_drop_Cons:
  "0 < m \<Longrightarrow> i < length s \<Longrightarrow> take m (drop i s) = s ! i # take (m - 1) (drop (Suc i) s)"
  by (cases m) (simp_all add: Cons_nth_drop_Suc [symmetric])

end
