(* ===== verification/RkHash.thy ===== *)
theory RkHash
  imports CPrelude
begin

text \<open>
  The hash of rklab/rkgrep.c: modular arithmetic on \<open>long long\<close> (\<open>madd\<close>, \<open>msub\<close>, \<open>mmul\<close>),
  \<open>strlength\<close>, \<open>rkhash_init\<close> and \<open>rkhash_next\<close>, and the locale \<open>rolling_hash\<close>, the interface
  the two scanning loops of rkgrep.c rely on.
\<close>

section \<open>Arithmetic modulo PRIME\<close>

definition PRIME :: int where "PRIME = 961748941"

definition rk_madd :: "int \<Rightarrow> int \<Rightarrow> int" where
  "rk_madd a b = s64 (a + b) smod PRIME"

definition rk_msub :: "int \<Rightarrow> int \<Rightarrow> int" where
  "rk_msub a b = (if a > b then s64 (a - b) else s64 (s64 (a + PRIME) - b))"

definition rk_mmul :: "int \<Rightarrow> int \<Rightarrow> int" where
  "rk_mmul a b = s64 (a * b) smod PRIME"

lemma PRIME_bounds: "0 < PRIME" "PRIME < 2 ^ 30" "1 < PRIME"
  by (simp_all add: PRIME_def)

lemma rk_madd_mod:
  assumes "0 \<le> a" "a < 2 ^ 62" "0 \<le> b" "b < 2 ^ 62"
  shows "rk_madd a b = (a + b) mod PRIME"
  using assms PRIME_bounds by (simp add: rk_madd_def s64_id smod_nonneg)

lemma rk_mmul_mod:
  assumes "0 \<le> a" "a < 2 ^ 30" "0 \<le> b" "b < 2 ^ 30"
  shows "rk_mmul a b = (a * b) mod PRIME"
proof -
  have "a * b \<le> 2 ^ 30 * 2 ^ 30"
    using assms by (intro mult_mono) auto
  moreover have "0 \<le> a * b" using assms by simp
  ultimately show ?thesis
    using PRIME_bounds by (simp add: rk_mmul_def s64_id smod_nonneg)
qed

lemma rk_msub_mod:
  assumes "0 \<le> a" "a < PRIME" "0 \<le> b" "b < PRIME"
  shows "rk_msub a b mod PRIME = (a - b) mod PRIME"
    and "0 < rk_msub a b" and "rk_msub a b \<le> PRIME"
proof -
  have "rk_msub a b = a - b \<or> rk_msub a b = (a - b) + PRIME"
    using assms PRIME_bounds by (simp add: rk_msub_def s64_id algebra_simps)
  then show "rk_msub a b mod PRIME = (a - b) mod PRIME" by (metis mod_add_self2)
  show "0 < rk_msub a b" "rk_msub a b \<le> PRIME"
    using assms PRIME_bounds by (simp_all add: rk_msub_def s64_id)
qed

lemma mod_PRIME_range [simp]: "0 \<le> x mod PRIME" "x mod PRIME < PRIME" "x mod PRIME < 1073741824"
  using PRIME_bounds order_less_trans [of "x mod PRIME" PRIME "2 ^ 30"] by (simp_all add: PRIME_def)


section \<open>String length\<close>

fun strlength_loop :: "char list \<Rightarrow> 32 word \<Rightarrow> 32 word" where
  "strlength_loop [] count = count"
| "strlength_loop (c # tmp) count = (if c = NUL then count else strlength_loop tmp (count + 1))"

definition strlength :: "char list \<Rightarrow> 32 word" where
  "strlength pattern = strlength_loop pattern 0"

lemma strlength_loop_word: "cstring s \<Longrightarrow> strlength_loop s n = n + of_nat (length s)"
  by (induction s n rule: strlength_loop.induct) (auto simp: ac_simps)

lemma strlength_sint:
  assumes "cstring s" "length s < 2 ^ 31"
  shows "sint (strlength s) = int (length s)"
proof -
  have "strlength s = of_nat (length s)"
    using assms by (simp add: strlength_def strlength_loop_word)
  then show ?thesis
    using assms by (simp add: signed_of_nat signed_take_bit_int_eq_self)
qed

section \<open>The hash of a window\<close>

text \<open>\<open>rkhash_init\<close> walks the buffer from the last character to the first; the pair it returns is
  the hash and the value stored through \<open>h\<close>.\<close>

fun rkhash_loop :: "char list \<Rightarrow> nat \<Rightarrow> int \<Rightarrow> int \<Rightarrow> (int \<times> int) cres" where
  "rkhash_loop charbuf 0 hashret rkval = Inr (hashret, rkval)"
| "rkhash_loop charbuf (Suc i) hashret rkval =
     c_bind (cstr_at charbuf (int i)) (\<lambda>c.
       rkhash_loop charbuf i (rk_madd hashret (rk_mmul rkval (char_val c))) (rk_mmul rkval 256))"

definition rkhash_init :: "char list \<Rightarrow> int \<Rightarrow> (int \<times> int) cres" where
  "rkhash_init charbuf m = rkhash_loop charbuf (nat m) 0 1"

definition rkhash_next :: "int \<Rightarrow> int \<Rightarrow> char \<Rightarrow> char \<Rightarrow> int" where
  "rkhash_next curr_hash h leftmost rightmost =
     rk_madd (rk_msub (rk_mmul 256 curr_hash) (rk_mmul (char_val leftmost) h)) (char_val rightmost)"

text \<open>The number a window stands for in base 256, the last character the lowest digit.\<close>

definition rk_poly :: "char list \<Rightarrow> int" where
  "rk_poly w = foldl (\<lambda>v c. 256 * v + char_val c) 0 w"

definition rk_hash :: "char list \<Rightarrow> int" where
  "rk_hash w = rk_poly w mod PRIME"

lemma rk_poly_Nil [simp]: "rk_poly [] = 0"
  by (simp add: rk_poly_def)

lemma rk_poly_snoc [simp]: "rk_poly (w @ [c]) = 256 * rk_poly w + char_val c"
  by (simp add: rk_poly_def)

lemma rk_poly_Cons: "rk_poly (c # w) = char_val c * 256 ^ length w + rk_poly w"
proof (induction w rule: rev_induct)
  case Nil
  show ?case by (simp add: rk_poly_def)
next
  case (snoc x w)
  then show ?case using rk_poly_snoc [of "c # w" x] by (simp add: algebra_simps)
qed

lemma rk_hash_range [simp]: "0 \<le> rk_hash w" "rk_hash w < PRIME"
  by (simp_all add: rk_hash_def)

lemma rkhash_loop_step:
  assumes "0 \<le> c" "c < 128"
  shows "rk_madd (x mod PRIME) (rk_mmul (v mod PRIME) c) = (x + v * c) mod PRIME"
    and "rk_mmul (v mod PRIME) 256 = (256 * v) mod PRIME"
proof -
  have "rk_mmul (v mod PRIME) c = (v * c) mod PRIME"
    using assms by (simp add: rk_mmul_mod mod_mult_left_eq)
  moreover have "x mod PRIME < 2 ^ 62" "(v * c) mod PRIME < 2 ^ 62"
    by (rule order_less_trans [OF mod_PRIME_range(3)], simp)+
  ultimately show "rk_madd (x mod PRIME) (rk_mmul (v mod PRIME) c) = (x + v * c) mod PRIME"
    by (simp add: rk_madd_mod mod_add_eq)
  show "rk_mmul (v mod PRIME) 256 = (256 * v) mod PRIME"
    by (simp add: rk_mmul_mod mod_mult_left_eq mult.commute)
qed

lemma rkhash_loop_poly:
  assumes "i + length t \<le> length buf" "ascii buf"
  shows "rkhash_loop buf i (rk_poly t mod PRIME) (256 ^ length t mod PRIME) =
    Inr (rk_poly (take i buf @ t) mod PRIME, 256 ^ (i + length t) mod PRIME)"
  using assms
proof (induction i arbitrary: t)
  case 0
  then show ?case by simp
next
  case (Suc i)
  let ?c = "buf ! i"
  from Suc.prems have i: "i < length buf" by simp
  have c: "0 \<le> char_val ?c" "char_val ?c < 128"
    using ascii_nth [OF Suc.prems(2) i] by auto
  have hash: "rk_madd (rk_poly t mod PRIME) (rk_mmul (256 ^ length t mod PRIME) (char_val ?c)) =
      rk_poly (?c # t) mod PRIME"
    by (subst rkhash_loop_step(1) [OF c]) (simp add: rk_poly_Cons algebra_simps)
  have val: "rk_mmul (256 ^ length t mod PRIME) 256 = 256 ^ length (?c # t) mod PRIME"
    by (subst rkhash_loop_step(2) [OF c]) simp
  have "rkhash_loop buf (Suc i) (rk_poly t mod PRIME) (256 ^ length t mod PRIME) =
      rkhash_loop buf i (rk_poly (?c # t) mod PRIME) (256 ^ length (?c # t) mod PRIME)"
    using i by (simp only: rkhash_loop.simps cstr_at_nth c_bind_Inr hash val)
  also have "\<dots> = Inr (rk_poly (take i buf @ ?c # t) mod PRIME, 256 ^ (i + length (?c # t)) mod PRIME)"
    by (rule Suc.IH) (use Suc.prems in auto)
  finally show ?case
    using i by (simp add: take_Suc_conv_app_nth)
qed

lemma rkhash_init_prefix:
  assumes "m \<le> length buf" "ascii buf"
  shows "rkhash_init buf (int m) = Inr (rk_hash (take m buf), 256 ^ m mod PRIME)"
  using rkhash_loop_poly [of m "[]" buf] assms PRIME_bounds
  by (simp add: rkhash_init_def rk_hash_def)

lemma rkhash_init_beyond:
  assumes "length buf + 1 < m"
  shows "rkhash_init buf (int m) = Inl OutOfBounds"
proof -
  obtain i where "m = Suc i" and "int (length buf) < int i"
    using assms by (cases m) auto
  then show ?thesis by (simp add: rkhash_init_def nat_add_distrib del: of_nat_Suc)
qed

lemma rkhash_next_slides:
  assumes "ascii (l # w)" "0 \<le> char_val r"
  shows "rkhash_next (rk_hash (l # w)) (256 ^ Suc (length w) mod PRIME) l r = rk_hash (w @ [r])"
proof -
  let ?x = "rk_hash (l # w)" and ?h = "256 ^ Suc (length w) mod PRIME" and ?l = "char_val l"
  have l: "0 \<le> ?l" "?l < 128" using assms char_val_range [of l] by (auto simp: ascii_def)
  have a: "rk_mmul 256 ?x = (256 * rk_poly (l # w)) mod PRIME"
    using order_less_trans [OF rk_hash_range(2) [of "l # w"] PRIME_bounds(2)]
    by (simp add: rk_mmul_mod) (simp add: rk_hash_def mod_mult_right_eq)
  have b: "rk_mmul ?l ?h = (?l * 256 ^ Suc (length w)) mod PRIME"
    using l by (subst rk_mmul_mod) (simp_all add: mod_mult_right_eq)
  let ?d = "rk_msub (rk_mmul 256 ?x) (rk_mmul ?l ?h)"
  have d: "?d mod PRIME = (256 * rk_poly (l # w) - ?l * 256 ^ Suc (length w)) mod PRIME"
    "0 < ?d" "?d \<le> PRIME"
    unfolding a b
    using rk_msub_mod [OF mod_PRIME_range(1,2) mod_PRIME_range(1,2)] by (simp_all only: mod_diff_eq)
  have big: "PRIME < 2 ^ 62" "128 < (2 ^ 62 :: int)" by (simp_all add: PRIME_def)
  have "rkhash_next ?x ?h l r = (?d + char_val r) mod PRIME"
    unfolding rkhash_next_def
    by (rule rk_madd_mod) (use d big assms char_val_range [of r] in linarith)+
  also have "\<dots> = (?d mod PRIME + char_val r) mod PRIME"
    by (simp add: mod_add_left_eq)
  also have "\<dots> = (256 * rk_poly (l # w) - ?l * 256 ^ Suc (length w) + char_val r) mod PRIME"
    by (simp only: d(1) mod_add_left_eq)
  also have "\<dots> = rk_poly (w @ [r]) mod PRIME"
    by (simp add: rk_poly_Cons algebra_simps)
  finally show ?thesis by (simp add: rk_hash_def)
qed

section \<open>The interface of the scanning loops\<close>

text \<open>
  A scanning loop keeps the hash of the window of \<open>m\<close> characters at the current index, got from
  the previous window by dropping its first character and appending the next one. \<open>whash\<close> is what
  the hash of a window must be, \<open>good\<close> the characters it is defined for.
\<close>

locale rolling_hash =
  fixes whash :: "char list \<Rightarrow> int"
    and start :: "char list \<Rightarrow> int \<Rightarrow> (int \<times> int) cres"
    and slide :: "int \<Rightarrow> int \<Rightarrow> char \<Rightarrow> char \<Rightarrow> int"
    and factor :: "nat \<Rightarrow> int"
    and good :: "char list \<Rightarrow> bool"
  assumes start_window: "m \<le> length buf \<Longrightarrow> good buf \<Longrightarrow> start buf (int m) = Inr (whash (take m buf), factor m)"
    and slide_window: "good (l # w) \<Longrightarrow> good (w @ [r]) \<or> r = NUL \<Longrightarrow>
      slide (whash (l # w)) (factor (Suc (length w))) l r = whash (w @ [r])"
    and good_take: "good s \<Longrightarrow> good (take n s)"
    and good_drop: "good s \<Longrightarrow> good (drop n s)"
begin

definition window :: "char list \<Rightarrow> nat \<Rightarrow> nat \<Rightarrow> char list" where
  "window doc m i = take m (drop i doc)"

lemma window_slide:
  assumes "0 < m" "i + m < length doc" "good doc"
  shows "slide (whash (window doc m i)) (factor m) (doc ! i) (doc ! (i + m)) =
    whash (window doc m (Suc i))"
proof -
  obtain k where m: "m = Suc k" using assms(1) by (cases m) auto
  let ?w = "take k (drop (Suc i) doc)"
  have len: "length ?w = k" using assms m by simp
  have cur: "window doc m i = doc ! i # ?w"
    using take_drop_Cons [of m i doc] assms m by (simp add: window_def)
  have nxt: "window doc m (Suc i) = ?w @ [doc ! (i + m)]"
    using take_Suc_drop_nth [of "Suc i" k doc] assms m by (simp add: window_def)
  have "good (window doc m i)" "good (window doc m (Suc i))"
    using assms(3) by (simp_all add: window_def good_take good_drop)
  then have "slide (whash (doc ! i # ?w)) (factor (Suc (length ?w))) (doc ! i) (doc ! (i + m)) =
      whash (?w @ [doc ! (i + m)])"
    by (intro slide_window) (simp_all only: cur nxt simp_thms)
  then show ?thesis unfolding cur nxt len m [symmetric] .
qed

end

interpretation rk: rolling_hash rk_hash rkhash_init rkhash_next "\<lambda>m. 256 ^ m mod PRIME" ascii
proof
  show "rkhash_init buf (int m) = Inr (rk_hash (take m buf), 256 ^ m mod PRIME)"
    if "m \<le> length buf" "ascii buf" for m buf
    using that by (rule rkhash_init_prefix)
  show "rkhash_next (rk_hash (l # w)) (256 ^ Suc (length w) mod PRIME) l r = rk_hash (w @ [r])"
    if "ascii (l # w)" "ascii (w @ [r]) \<or> r = NUL" for l w r
    using that by (intro rkhash_next_slides) (auto simp: ascii_def)
  show "ascii (take n s)" "ascii (drop n s)" if "ascii s" for n s
    using that by (auto simp: ascii_def dest: in_set_takeD in_set_dropD)
qed

lemmas rk_window_slide = rk.window_slide [unfolded rk.window_def]

section \<open>The properties\<close>

text \<open>C24: on ASCII text the Rabin-Karp hash is the number the window stands for in base 256, modulo
  \<open>PRIME\<close>: \<open>rkhash_init\<close> computes it for the first \<open>m\<close> characters of a buffer, together with the weight
  256 to the power \<open>m\<close>, and \<open>rkhash_next\<close> carries the hash of any window to the hash of the next one;
  none of the 64-bit operations wraps around.\<close>

theorem rkhash_correct:
  assumes "ascii doc" "0 < m" "i + m < length doc"
  shows "rkhash_init (drop i doc) (int m) = Inr (rk_hash (take m (drop i doc)), 256 ^ m mod PRIME) \<and>
    rkhash_next (rk_hash (take m (drop i doc))) (256 ^ m mod PRIME) (doc ! i) (doc ! (i + m)) =
      rk_hash (take m (drop (Suc i) doc))"
proof
  have "ascii (drop i doc)" using assms(1) by (auto simp: ascii_def dest: in_set_dropD)
  then show "rkhash_init (drop i doc) (int m) = Inr (rk_hash (take m (drop i doc)), 256 ^ m mod PRIME)"
    using assms(3) by (intro rkhash_init_prefix) auto
  show "rkhash_next (rk_hash (take m (drop i doc))) (256 ^ m mod PRIME) (doc ! i) (doc ! (i + m)) =
      rk_hash (take m (drop (Suc i) doc))"
    using assms by (intro rk_window_slide)
qed

theorem rkhash_correct_witness:
  "rkhash_init ''babc'' 2 = Inr (rk_hash ''ba'', 65536) \<and>
   rkhash_next (rk_hash ''ba'') 65536 (CHR ''b'') (CHR ''b'') = rk_hash ''ab''"
proof -
  have a: "ascii ''babc''" by (simp add: ascii_def char_val_def)
  have p: "(256 ^ 2 :: int) mod PRIME = 65536" by (simp add: PRIME_def)
  show ?thesis using rkhash_correct [of "''babc''" 2 0, OF a] unfolding p by simp
qed

end
