(* ===== verification/RkMatch.thy ===== *)
theory RkMatch
  imports RkHash
begin

text \<open>
  The two matchers of rklab/rkgrep.c, \<open>naive_substring_match\<close> and \<open>rk_substring_match\<close>. Both
  return the number of matches and store the first matching index through \<open>first_match_ind\<close>
  (-1 for none); the model returns the pair. The pointers \<open>doctmp\<close>, \<open>docsub\<close> and \<open>pattmp\<close> are the
  rest of the string they point into. The counters \<open>index\<close> and \<open>count\<close> never exceed the length
  of the document, so they are not wrapped.
\<close>

section \<open>Occurrences\<close>

text \<open>Where a pattern occurs in a document (an empty pattern occurs nowhere), and what a matcher
  reports for a list of positions, in ascending order.\<close>

definition occurrences :: "char list \<Rightarrow> char list \<Rightarrow> nat list" where
  "occurrences pattern doc = (if pattern = [] then [] else
     filter (\<lambda>i. take (length pattern) (drop i doc) = pattern) [0..<length doc])"

definition report :: "nat list \<Rightarrow> int \<times> int" where
  "report is = (int (length is), case is of [] \<Rightarrow> - 1 | i # _ \<Rightarrow> int i)"

text \<open>The statements both matchers run when a match is found.\<close>

definition record_match :: "int \<Rightarrow> int \<times> int \<Rightarrow> int \<times> int" where
  "record_match index acc = (case acc of (count, first_match_ind) \<Rightarrow>
     (count + 1, if first_match_ind = - 1 then index else first_match_ind))"

definition tally :: "nat list \<Rightarrow> int \<times> int \<Rightarrow> int \<times> int" where
  "tally is acc = fold (\<lambda>i. record_match (int i)) is acc"

lemma tally_simps [simp]:
  "tally [] acc = acc" "tally (i # is) acc = tally is (record_match (int i) acc)"
  by (simp_all add: tally_def)

lemma tally_found: "f \<noteq> - 1 \<Longrightarrow> tally is (c, f) = (c + int (length is), f)"
  by (induction "is" arbitrary: c) (auto simp: record_match_def)

lemma tally_report: "tally is (0, - 1) = report is"
  by (cases "is") (auto simp: record_match_def report_def tally_found)

lemma take_drop_fits:
  assumes "take (length p) (drop i d) = p" "p \<noteq> []"
  shows "i + length p \<le> length d"
proof -
  have "length p \<le> length d - i"
    using arg_cong [OF assms(1), of length] by (simp add: min_def split: if_splits)
  moreover have "0 < length p" using assms(2) by simp
  ultimately show ?thesis by linarith
qed

lemma occurrences_fit: "i \<in> set (occurrences p d) \<Longrightarrow> i + length p \<le> length d \<and> p \<noteq> []"
  by (auto simp: occurrences_def take_drop_fits split: if_splits)

lemma filter_upt_split:
  "(\<And>i. k \<le> i \<Longrightarrow> \<not> P i) \<Longrightarrow> k \<le> n \<Longrightarrow> filter P [j..<n] = filter P [j..<k]"
proof (induction n)
  case (Suc n)
  then show ?case by (cases "k = Suc n") (auto simp: le_Suc_eq)
qed simp

lemma occurrences_upto:
  assumes "p \<noteq> []" "length p \<le> length d"
  shows "occurrences p d =
    filter (\<lambda>i. take (length p) (drop i d) = p) [0..<length d - length p + 1]"
proof -
  have "take (length p) (drop i d) \<noteq> p" if "length d - length p + 1 \<le> i" for i
    using take_drop_fits [of p i d] that assms by auto
  then have "filter (\<lambda>i. take (length p) (drop i d) = p) [0..<length d] =
      filter (\<lambda>i. take (length p) (drop i d) = p) [0..<length d - length p + 1]"
    using assms length_greater_0_conv [of p]
    by (intro filter_upt_split) (auto simp: Suc_le_eq simp del: length_greater_0_conv)
  with assms(1) show ?thesis by (simp only: occurrences_def if_False)
qed

lemma occurrences_too_long: "length d < length p \<Longrightarrow> occurrences p d = []"
  using occurrences_fit [of _ p d] by (fastforce simp flip: set_empty)

section \<open>The naive matcher\<close>

text \<open>The test \<open>pattmp != '\0'\<close> of the source compares a pointer into the pattern with the null
  pointer, so it is always true and does not appear in the condition.\<close>

fun naive_cmp :: "char list \<Rightarrow> char list \<Rightarrow> bool \<Rightarrow> bool" where
  "naive_cmp [] docsub found = found"
| "naive_cmp (p # pattmp) docsub found =
     (if p = NUL then found
      else if p = deref docsub then
        (if deref (tl docsub) = NUL then False else naive_cmp pattmp (tl docsub) True)
      else False)"

fun naive_loop :: "char list \<Rightarrow> char list \<Rightarrow> int \<Rightarrow> int \<times> int \<Rightarrow> int \<times> int" where
  "naive_loop pattern [] index acc = acc"
| "naive_loop pattern (d # doctmp) index acc =
     (if d = NUL then acc
      else naive_loop pattern doctmp (index + 1)
        (if naive_cmp pattern (d # doctmp) False then record_match index acc else acc))"

definition naive_substring_match :: "char list \<Rightarrow> char list \<Rightarrow> int \<times> int" where
  "naive_substring_match pattern doc = naive_loop pattern doc 0 (0, - 1)"

lemma naive_cmp_prefix:
  assumes "cstring p" "cstring s" "p \<noteq> []"
  shows "naive_cmp p s f \<longleftrightarrow> take (length p) s = p \<and> length p < length s"
  using assms
proof (induction p s f rule: naive_cmp.induct)
  case (2 p ps s f)
  show ?case
  proof (cases s)
    case Nil
    with 2 show ?thesis by simp
  next
    case (Cons d ds)
    with 2 show ?thesis by (cases ds; cases ps) auto
  qed
qed simp

lemma naive_loop_tally:
  assumes "cstring p" "cstring d" "p \<noteq> []" "i \<le> length d"
  shows "naive_loop p (drop i d) (int i) acc =
    tally (filter (\<lambda>j. take (length p) (drop j d) = p \<and> j + length p < length d) [i..<length d]) acc"
  using assms(4)
proof (induction "length d - i" arbitrary: i acc)
  case 0
  then show ?case by simp
next
  case (Suc k)
  then have i: "i < length d" by simp
  then have d: "drop i d = d ! i # drop (Suc i) d" by (simp add: Cons_nth_drop_Suc)
  have nz: "d ! i \<noteq> NUL" using assms(2) i by (rule cstring_nth)
  have cmp: "naive_cmp p (drop i d) False \<longleftrightarrow> take (length p) (drop i d) = p \<and> i + length p < length d"
    using naive_cmp_prefix [of p "drop i d" False] assms by auto
  have IH: "naive_loop p (drop (Suc i) d) (int (Suc i)) acc' =
      tally (filter (\<lambda>j. take (length p) (drop j d) = p \<and> j + length p < length d) [Suc i..<length d]) acc'"
    for acc'
    using Suc i by (intro Suc.hyps) auto
  show ?case
    using IH [of acc] IH [of "record_match (int i) acc"] nz cmp i
    by (auto simp: d upt_conv_Cons ac_simps)
qed

lemma naive_substring_match_eq:
  assumes "cstring pattern" "cstring doc"
  shows "naive_substring_match pattern doc =
    report (filter (\<lambda>i. i + length pattern < length doc) (occurrences pattern doc))"
proof (cases "pattern = []")
  case True
  have "naive_loop [] s i acc = acc" for s i acc
    by (induction s arbitrary: i) auto
  with True show ?thesis
    by (simp add: naive_substring_match_def occurrences_def report_def)
next
  case False
  then show ?thesis
    using naive_loop_tally [of pattern doc 0 "(0, - 1)"] assms
    by (simp add: naive_substring_match_def occurrences_def conj_commute flip: tally_report)
qed

section \<open>The Rabin-Karp matcher\<close>

fun rk_cmp :: "char list \<Rightarrow> char list \<Rightarrow> bool \<Rightarrow> bool" where
  "rk_cmp [] docsub found = found"
| "rk_cmp (p # pattmp) docsub found =
     (if p = NUL then found
      else if p = deref docsub then rk_cmp pattmp (tl docsub) True else False)"

function rk_loop :: "char list \<Rightarrow> char list \<Rightarrow> int \<Rightarrow> int \<Rightarrow> int \<Rightarrow> int \<Rightarrow> int \<Rightarrow> int \<Rightarrow> int \<times> int
    \<Rightarrow> (int \<times> int) cres" where
  "rk_loop pattern doc pattern_length doc_length h pattern_hash index doc_hash acc =
     (if index \<le> doc_length - pattern_length then
        let found = pattern_hash = doc_hash \<and> rk_cmp pattern (drop (nat index) doc) False in
        c_bind (cstr_at doc index) (\<lambda>leftmost.
        c_bind (cstr_at doc (index + pattern_length)) (\<lambda>rightmost.
          rk_loop pattern doc pattern_length doc_length h pattern_hash (index + 1)
            (rkhash_next doc_hash h leftmost rightmost)
            (if found then record_match index acc else acc)))
      else Inr acc)"
  by pat_completeness auto
termination
  by (relation "measure (\<lambda>(p, d, m, n, h, ph, i, dh, acc). nat (n - m + 1 - i))") auto

declare rk_loop.simps [simp del]

definition rk_substring_match :: "char list \<Rightarrow> char list \<Rightarrow> (int \<times> int) cres" where
  "rk_substring_match pattern doc =
     (let pattern_length = sint (strlength pattern);
          doc_length = sint (strlength doc) in
      if pattern_length > doc_length then Inr (0, - 1)
      else
        c_bind (rkhash_init pattern pattern_length) (\<lambda>(pattern_hash, h).
        c_bind (rkhash_init doc pattern_length) (\<lambda>(doc_hash, h).
          rk_loop pattern doc pattern_length doc_length h pattern_hash 0 doc_hash (0, - 1))))"

lemma rk_cmp_prefix:
  "cstring p \<Longrightarrow> cstring s \<Longrightarrow> rk_cmp p s f \<longleftrightarrow> take (length p) s = p \<and> (p = [] \<longrightarrow> f)"
proof (induction p s f rule: rk_cmp.induct)
  case (2 p ps s f)
  then show ?case by (cases s) auto
qed simp

lemma rk_loop_tally:
  assumes "ascii p" "ascii d" "0 < length p" "length p \<le> length d"
    and "i \<le> length d - length p + 1"
    and "i + length p \<le> length d \<longrightarrow> dh = rk_hash (take (length p) (drop i d))"
  shows "rk_loop p d (int (length p)) (int (length d)) (256 ^ length p mod PRIME) (rk_hash p) (int i) dh acc =
    Inr (tally (filter (\<lambda>j. take (length p) (drop j d) = p) [i..<length d - length p + 1]) acc)"
  using assms(5,6)
proof (induction "length d - length p + 1 - i" arbitrary: i dh acc)
  case 0
  with assms(3,4) show ?case by (subst rk_loop.simps) auto
next
  case (Suc k)
  let ?m = "length p" and ?n = "length d"
  let ?match = "take ?m (drop i d) = p"
  from Suc.hyps(2) assms(4) have i: "i + ?m \<le> ?n" by simp
  have dh: "dh = rk_hash (take ?m (drop i d))" using Suc.prems i by simp
  have found: "rk_hash p = dh \<and> rk_cmp p (drop i d) False \<longleftrightarrow> ?match"
    using assms rk_cmp_prefix [of p "drop i d" False] by (auto simp: dh ascii_cstring)
  obtain r where r: "cstr_at d (int i + int ?m) = Inr r" "i + ?m < ?n \<longrightarrow> r = d ! (i + ?m)"
    using cstr_at_ok [OF i] by (metis of_nat_add)
  let ?dh = "rkhash_next dh (256 ^ ?m mod PRIME) (d ! i) r"
  have dh': "Suc i + ?m \<le> ?n \<longrightarrow> ?dh = rk_hash (take ?m (drop (Suc i) d))"
    using rk_window_slide [of ?m i d] assms r(2) by (simp add: dh)
  let ?acc = "if ?match then record_match (int i) acc else acc"
  have upt: "[i..<?n - ?m + 1] = i # [Suc i..<?n - ?m + 1]"
    by (rule upt_conv_Cons) (use i in simp)
  have l: "cstr_at d (int i) = Inr (d ! i)" using i assms(3) by (intro cstr_at_nth) linarith
  have "rk_loop p d (int ?m) (int ?n) (256 ^ ?m mod PRIME) (rk_hash p) (int i) dh acc =
      rk_loop p d (int ?m) (int ?n) (256 ^ ?m mod PRIME) (rk_hash p) (int (Suc i)) ?dh ?acc"
    using i by (subst rk_loop.simps) (simp add: Let_def found l r(1) add.commute)
  also have "\<dots> = Inr (tally (filter (\<lambda>j. take ?m (drop j d) = p) [Suc i..<?n - ?m + 1]) ?acc)"
    using Suc.hyps i dh' by (intro Suc.hyps(1)) auto
  also have "tally (filter (\<lambda>j. take ?m (drop j d) = p) [Suc i..<?n - ?m + 1]) ?acc =
      tally (filter (\<lambda>j. take ?m (drop j d) = p) [i..<?n - ?m + 1]) acc"
    unfolding upt by (simp del: upt_Suc)
  finally show ?case .
qed

lemma rk_loop_empty:
  assumes "i \<le> length d + 1"
  shows "rk_loop [] d 0 (int (length d)) h ph (int i) dh acc = Inr acc"
  using assms
proof (induction "length d + 1 - i" arbitrary: i dh)
  case 0
  then show ?case by (subst rk_loop.simps) simp
next
  case (Suc k)
  then have i: "i \<le> length d" by simp
  then obtain c where c: "cstr_at d (int i) = Inr c"
    by (cases "i = length d") auto
  have "rk_loop [] d 0 (int (length d)) h ph (int (Suc i)) (rkhash_next dh h c c) acc = Inr acc"
    using Suc i by (intro Suc.hyps(1)) auto
  then show ?case
    using i c by (subst rk_loop.simps) (simp add: add.commute)
qed

lemma rk_substring_match_eq:
  assumes "ascii pattern" "ascii doc" "length pattern < 2 ^ 31" "length doc < 2 ^ 31"
  shows "rk_substring_match pattern doc = Inr (report (occurrences pattern doc))"
proof -
  have len: "sint (strlength pattern) = int (length pattern)" "sint (strlength doc) = int (length doc)"
    using assms by (simp_all only: strlength_sint ascii_cstring)
  consider "length doc < length pattern" | "pattern = []"
    | "0 < length pattern" "length pattern \<le> length doc" by fastforce
  then show ?thesis
  proof cases
    case 1
    then show ?thesis
      by (simp add: rk_substring_match_def len occurrences_too_long report_def)
  next
    case 2
    then show ?thesis
      using rk_loop_empty [of 0 doc] rkhash_init_prefix [of 0] assms
      by (simp add: rk_substring_match_def len [unfolded 2] occurrences_def report_def)
  next
    case 3
    have "rk_loop pattern doc (int (length pattern)) (int (length doc))
        (256 ^ length pattern mod PRIME) (rk_hash pattern) 0 (rk_hash (take (length pattern) doc)) (0, - 1) =
      Inr (tally (occurrences pattern doc) (0, - 1))"
      using rk_loop_tally [of pattern doc 0 "rk_hash (take (length pattern) doc)" "(0, - 1)"] assms 3
        occurrences_upto [of pattern doc] by simp
    then show ?thesis
      using 3 assms rkhash_init_prefix [of "length pattern" pattern]
        rkhash_init_prefix [of "length pattern" doc]
      by (simp add: rk_substring_match_def len tally_report)
  qed
qed

section \<open>The properties\<close>

text \<open>C22: the Rabin-Karp matcher is correct: on ASCII strings shorter than 2 to the power 31 it stays inside
  both strings, returns the number of positions at which the pattern occurs, and stores the first of them
  (-1 for none); it agrees with the exhaustive search of \<open>occurrences\<close> whatever hashes collide.\<close>

theorem rk_substring_match_correct:
  assumes "ascii pattern" "ascii doc" "length pattern < 2 ^ 31" "length doc < 2 ^ 31"
  shows "rk_substring_match pattern doc = Inr (report (occurrences pattern doc))"
  using assms by (rule rk_substring_match_eq)

theorem rk_substring_match_correct_witness:
  "rk_substring_match ''ab'' ''abcab'' = Inr (2, 0)"
proof -
  have a: "ascii ''ab''" "ascii ''abcab''" by (simp_all add: ascii_def char_val_def)
  have r: "report (occurrences ''ab'' ''abcab'') = (2, 0)"
    by (simp add: report_def occurrences_def upt_rec)
  show ?thesis using rk_substring_match_correct [OF a] r by simp
qed

text \<open>The naive matcher does not report a match that ends at the end of the document: it tests the
  pointer \<open>pattmp\<close> where it means the character, so it counts exactly the occurrences that are followed by
  at least one more character.\<close>

lemma naive_misses_end:
  assumes "cstring pattern" "cstring doc"
  shows "naive_substring_match pattern doc =
    report (filter (\<lambda>i. i + length pattern < length doc) (occurrences pattern doc))"
  using assms by (rule naive_substring_match_eq)

end
