(* ===== verification/Bloom.thy ===== *)
theory Bloom
  imports CPrelude
begin

unbundle bit_operations_syntax

text \<open>
  rklab/bloom.c: a bitmap of \<open>bsz\<close> bits packed in bytes, the most significant bit of a byte first,
  and ten hash functions. The locale \<open>membership_filter\<close> is the contract the matcher of rkgrep.c
  relies on: what was added is found again, and adding never makes a query fail.
\<close>

section \<open>The filter\<close>

record bloom_filter =
  buf :: "8 word list"
  bsz :: int

definition H1PRIME :: int where "H1PRIME = 4189793"
definition H2PRIME :: int where "H2PRIME = 3296731"
definition BLOOM_HASH_NUM :: int where "BLOOM_HASH_NUM = 10"

definition hash_i :: "int \<Rightarrow> int \<Rightarrow> int" where
  "hash_i i x = s32 (s64 (x smod H1PRIME + i * (x smod H2PRIME) + 1 + i * i))"

text \<open>\<open>malloc\<close> succeeds for every size an \<open>int\<close> can give, and fails for the huge size a negative
  one is converted to.\<close>

definition bloom_init :: "int \<Rightarrow> bloom_filter cres" where
  "bloom_init sz =
     c_bind (c_assert (sz smod 8 = 0)) (\<lambda>_.
       if drop_bit 3 sz < 0 then Inl (Exit 1)
       else Inr \<lparr>buf = replicate (nat (drop_bit 3 sz)) 0, bsz = sz\<rparr>)"

definition bloom_set_pos :: "bloom_filter \<Rightarrow> int \<Rightarrow> bloom_filter cres" where
  "bloom_set_pos bf bloom_pos =
     (let which_byte = bloom_pos sdiv 8; which_bit = bloom_pos smod 8 in
      if which_bit < 0 then Inl ShiftRange
      else
        c_bind (arr_at (buf bf) which_byte) (\<lambda>byte.
        c_bind (arr_set (buf bf) which_byte (byte OR drop_bit (nat which_bit) 0x80)) (\<lambda>buf'.
          Inr (bf\<lparr>buf := buf'\<rparr>))))"

function bloom_add_loop :: "bloom_filter \<Rightarrow> int \<Rightarrow> int \<Rightarrow> bloom_filter cres" where
  "bloom_add_loop bf elm i =
     (if i < BLOOM_HASH_NUM then
        if bsz bf = 0 then Inl DivByZero
        else c_bind (bloom_set_pos bf (hash_i i elm smod bsz bf)) (\<lambda>bf'. bloom_add_loop bf' elm (i + 1))
      else Inr bf)"
  by pat_completeness auto
termination
  by (relation "measure (\<lambda>(bf, elm, i). nat (BLOOM_HASH_NUM - i))") auto

definition bloom_add :: "bloom_filter \<Rightarrow> int \<Rightarrow> bloom_filter cres" where
  "bloom_add bf elm = bloom_add_loop bf elm 0"

definition bloom_bit_at_pos :: "bloom_filter \<Rightarrow> int \<Rightarrow> bool cres" where
  "bloom_bit_at_pos bf pos =
     c_bind (c_assert (pos < bsz bf)) (\<lambda>_.
       let which_byte = pos sdiv 8; which_bit = pos smod 8; mask = push_bit (nat (7 - which_bit)) 1 in
       c_bind (arr_at (buf bf) which_byte) (\<lambda>byte. Inr (sint byte AND mask \<noteq> 0)))"

function bloom_query_loop :: "bloom_filter \<Rightarrow> int \<Rightarrow> int \<Rightarrow> bool cres" where
  "bloom_query_loop f elm i =
     (if i < BLOOM_HASH_NUM then
        if bsz f = 0 then Inl DivByZero
        else c_bind (bloom_bit_at_pos f (hash_i i elm smod bsz f)) (\<lambda>b.
          if \<not> b then Inr False else bloom_query_loop f elm (i + 1))
      else Inr True)"
  by pat_completeness auto
termination
  by (relation "measure (\<lambda>(f, elm, i). nat (BLOOM_HASH_NUM - i))") auto

definition bloom_query :: "bloom_filter \<Rightarrow> int \<Rightarrow> bool cres" where
  "bloom_query f elm = bloom_query_loop f elm 0"

declare bloom_add_loop.simps [simp del] bloom_query_loop.simps [simp del]

section \<open>The bitmap\<close>

definition bloom_wf :: "bloom_filter \<Rightarrow> bool" where
  "bloom_wf bf \<longleftrightarrow> 0 < bsz bf \<and> bsz bf = 8 * int (length (buf bf))"

lemma bloom_wfD: "bloom_wf bf \<Longrightarrow> 0 < bsz bf"
  "bloom_wf bf \<Longrightarrow> p < nat (bsz bf) \<Longrightarrow> p div 8 < length (buf bf)"
  by (auto simp: bloom_wf_def)

definition bit_set :: "bloom_filter \<Rightarrow> nat \<Rightarrow> bool" where
  "bit_set bf p \<longleftrightarrow> bit (buf bf ! (p div 8)) (7 - p mod 8)"

definition bloom_positions :: "int \<Rightarrow> int \<Rightarrow> int \<Rightarrow> nat set" where
  "bloom_positions n elm k = {nat (hash_i i elm mod n) |i. k \<le> i \<and> i < BLOOM_HASH_NUM}"

lemma hash_i_exact:
  assumes "0 \<le> x" "0 \<le> i" "i < BLOOM_HASH_NUM"
  shows "hash_i i x = x mod H1PRIME + i * (x mod H2PRIME) + 1 + i * i"
    and "0 \<le> hash_i i x"
proof -
  let ?v = "x mod H1PRIME + i * (x mod H2PRIME) + 1 + i * i"
  have i: "0 \<le> i" "i \<le> 9" using assms by (simp_all add: BLOOM_HASH_NUM_def)
  have m1: "0 \<le> x mod H1PRIME" "x mod H1PRIME < 4189793" by (simp_all add: H1PRIME_def)
  have m2: "0 \<le> x mod H2PRIME" "x mod H2PRIME \<le> 3296731" by (simp_all add: H2PRIME_def order_less_imp_le)
  have "0 \<le> i * (x mod H2PRIME)" "i * (x mod H2PRIME) \<le> 9 * 3296731"
    using i m2 by (simp, intro mult_mono) auto
  moreover have "0 \<le> i * i" "i * i \<le> 9 * 9"
    using i by (simp, intro mult_mono) auto
  ultimately have v: "0 \<le> ?v" "?v < 1000000000" using m1 by linarith+
  have "hash_i i x = s32 (s64 ?v)"
    using assms by (simp add: hash_i_def smod_nonneg H1PRIME_def H2PRIME_def)
  also have "\<dots> = ?v" using v by (simp add: s32_id s64_id)
  finally show "hash_i i x = ?v" .
  with v show "0 \<le> hash_i i x" by simp
qed

lemma bit_mask_128: "k < 8 \<Longrightarrow> bit (drop_bit k (128 :: 8 word)) j \<longleftrightarrow> j = 7 - k"
proof -
  assume k: "k < 8"
  have "bit (128 :: 8 word) n \<longleftrightarrow> n = 7" for n
    using bit_exp_iff [where 'a = "8 word", of 7 n] by auto
  then have "bit (drop_bit k (128 :: 8 word)) j \<longleftrightarrow> k + j = 7"
    unfolding bit_drop_bit_eq comp_apply .
  with k show ?thesis by linarith
qed

lemma div_mod_8_eq: "(p::nat) div 8 = q div 8 \<Longrightarrow> 7 - p mod 8 = 7 - q mod 8 \<Longrightarrow> p = q"
proof -
  assume "p div 8 = q div 8" "7 - p mod 8 = 7 - q mod 8"
  moreover have "p mod 8 < 8" "q mod 8 < 8" by simp_all
  ultimately have "p mod 8 = q mod 8" "p div 8 = q div 8" by linarith+
  then show ?thesis by (metis div_mult_mod_eq)
qed

lemma bloom_set_pos_ok:
  assumes "bloom_wf bf" "p < nat (bsz bf)"
  obtains bf' where "bloom_set_pos bf (int p) = Inr bf'" "bloom_wf bf'" "bsz bf' = bsz bf"
    "\<And>q. q < nat (bsz bf) \<Longrightarrow> bit_set bf' q \<longleftrightarrow> bit_set bf q \<or> q = p"
proof -
  have len: "p div 8 < length (buf bf)" using assms by (simp add: bloom_wf_def)
  let ?b = "buf bf ! (p div 8) OR drop_bit (p mod 8) 0x80"
  let ?bf = "bf\<lparr>buf := (buf bf)[p div 8 := ?b]\<rparr>"
  have ints: "int p sdiv 8 = int (p div 8)" "int p smod 8 = int (p mod 8)"
    by (simp_all add: sdiv_nonneg smod_nonneg zdiv_int zmod_int)
  have "bloom_set_pos bf (int p) = Inr ?bf"
    using len by (simp add: bloom_set_pos_def ints Let_def)
  moreover have "bloom_wf ?bf" "bsz ?bf = bsz bf" using assms(1) by (auto simp: bloom_wf_def)
  moreover have "bit_set ?bf q \<longleftrightarrow> bit_set bf q \<or> q = p" if "q < nat (bsz bf)" for q
  proof (cases "q div 8 = p div 8")
    case True
    have "bit (drop_bit (p mod 8) (128 :: 8 word)) (7 - q mod 8) \<longleftrightarrow> q = p"
      using div_mod_8_eq [of q p] True by (auto simp: bit_mask_128)
    then show ?thesis using True len by (simp add: bit_set_def bit_or_iff)
  next
    case False
    then show ?thesis using len by (auto simp: bit_set_def)
  qed
  ultimately show thesis using that by blast
qed

lemma bloom_bit_at_pos_ok:
  assumes "bloom_wf bf" "p < nat (bsz bf)"
  shows "bloom_bit_at_pos bf (int p) = Inr (bit_set bf p)"
proof -
  have len: "p div 8 < length (buf bf)" and p: "int p < bsz bf"
    using assms by (simp_all add: bloom_wf_def)
  have ints: "int p sdiv 8 = int (p div 8)" "int p smod 8 = int (p mod 8)"
    by (simp_all add: sdiv_nonneg smod_nonneg zdiv_int zmod_int)
  have n: "nat (7 - int (p mod 8)) = 7 - p mod 8" by (simp add: nat_diff_distrib)
  have b: "sint w AND 2 ^ k \<noteq> 0 \<longleftrightarrow> bit w k" if "k < 8" for w :: "8 word" and k
    using that by (simp add: and_exp_eq_0_iff_not_bit bit_sint_iff min_def)
  show ?thesis
    using len p b [of "7 - p mod 8"]
    by (simp add: bloom_bit_at_pos_def ints n Let_def bit_set_def push_bit_of_1)
qed

lemma hash_pos:
  assumes "bloom_wf bf" "0 \<le> x" "0 \<le> i" "i < BLOOM_HASH_NUM"
  shows "hash_i i x smod bsz bf = int (nat (hash_i i x mod bsz bf))"
    and "nat (hash_i i x mod bsz bf) < nat (bsz bf)" and "bsz bf \<noteq> 0"
  using bloom_wfD(1) [OF assms(1)] hash_i_exact(2) [OF assms(2-4)]
  by (simp_all add: smod_nonneg nat_mono_iff)

lemma bloom_positions_step:
  "i < BLOOM_HASH_NUM \<Longrightarrow> bloom_positions n x i = insert (nat (hash_i i x mod n)) (bloom_positions n x (i + 1))"
  by (auto simp: bloom_positions_def) (metis order_le_less zless_add1_eq zless_imp_add1_zle)

lemma bloom_positions_done: "BLOOM_HASH_NUM \<le> i \<Longrightarrow> bloom_positions n x i = {}"
  by (auto simp: bloom_positions_def)

lemma bloom_add_loop_ok:
  assumes "bloom_wf bf" "0 \<le> x" "0 \<le> i"
  shows "\<exists>bf'. bloom_add_loop bf x i = Inr bf' \<and> bloom_wf bf' \<and> bsz bf' = bsz bf \<and>
    (\<forall>q < nat (bsz bf). bit_set bf' q \<longleftrightarrow> bit_set bf q \<or> q \<in> bloom_positions (bsz bf) x i)"
  using assms
proof (induction bf x i rule: bloom_add_loop.induct)
  case (1 bf x i)
  show ?case
  proof (cases "i < BLOOM_HASH_NUM")
    case False
    with 1 show ?thesis by (subst bloom_add_loop.simps) (simp add: bloom_positions_done)
  next
    case True
    note h = hash_pos [OF 1(2,3,4) True]
    obtain bf1 where bf1: "bloom_set_pos bf (hash_i i x smod bsz bf) = Inr bf1" "bloom_wf bf1"
      "bsz bf1 = bsz bf"
      "\<And>q. q < nat (bsz bf) \<Longrightarrow> bit_set bf1 q \<longleftrightarrow> bit_set bf q \<or> q = nat (hash_i i x mod bsz bf)"
      using bloom_set_pos_ok [OF 1(2) h(2)] unfolding h(1) by blast
    obtain bf2 where bf2: "bloom_add_loop bf1 x (i + 1) = Inr bf2" "bloom_wf bf2" "bsz bf2 = bsz bf"
      "\<forall>q < nat (bsz bf). bit_set bf2 q \<longleftrightarrow> bit_set bf1 q \<or> q \<in> bloom_positions (bsz bf) x (i + 1)"
      using 1(1) [OF True h(3) bf1(1,2) 1(3)] 1(4) bf1(3) by auto
    have "bloom_add_loop bf x i = Inr bf2"
      using True h(3) bf1(1) bf2(1) by (subst bloom_add_loop.simps) simp
    then show ?thesis
      using bf1 bf2 bloom_positions_step [OF True] by auto
  qed
qed

lemma bloom_add_bits:
  assumes "bloom_wf bf" "0 \<le> x"
  obtains bf' where "bloom_add bf x = Inr bf'" "bloom_wf bf'" "bsz bf' = bsz bf"
    "\<And>q. q < nat (bsz bf) \<Longrightarrow> bit_set bf' q \<longleftrightarrow> bit_set bf q \<or> q \<in> bloom_positions (bsz bf) x 0"
  using bloom_add_loop_ok [OF assms, of 0] unfolding bloom_add_def by auto

lemma bloom_query_loop_ok:
  assumes "bloom_wf f" "0 \<le> x" "0 \<le> i"
  shows "bloom_query_loop f x i = Inr (\<forall>q \<in> bloom_positions (bsz f) x i. bit_set f q)"
  using assms
proof (induction f x i rule: bloom_query_loop.induct)
  case (1 f x i)
  show ?case
  proof (cases "i < BLOOM_HASH_NUM")
    case False
    then show ?thesis by (subst bloom_query_loop.simps) (simp add: bloom_positions_done)
  next
    case True
    note h = hash_pos [OF 1(2,3,4) True]
    have b: "bloom_bit_at_pos f (hash_i i x smod bsz f) = Inr (bit_set f (nat (hash_i i x mod bsz f)))"
      unfolding h(1) by (rule bloom_bit_at_pos_ok [OF 1(2) h(2)])
    show ?thesis
      using True h(3) 1(1) [OF True h(3) b] 1(2-4) bloom_positions_step [OF True]
      by (subst bloom_query_loop.simps) (auto simp: b)
  qed
qed

lemma bloom_query_bits:
  "bloom_wf f \<Longrightarrow> 0 \<le> x \<Longrightarrow> bloom_query f x = Inr (\<forall>q \<in> bloom_positions (bsz f) x 0. bit_set f q)"
  by (simp add: bloom_query_def bloom_query_loop_ok)

lemma bloom_positions_bound: "bloom_wf f \<Longrightarrow> q \<in> bloom_positions (bsz f) x k \<Longrightarrow> q < nat (bsz f)"
  by (auto simp: bloom_positions_def bloom_wf_def nat_mono_iff)

lemma bloom_init_empty:
  assumes "0 < n" "n mod 8 = 0"
  obtains bf where "bloom_init n = Inr bf" "bloom_wf bf" "bsz bf = n"
    "\<And>q. q < nat n \<Longrightarrow> \<not> bit_set bf q"
proof -
  let ?bf = "\<lparr>buf = replicate (nat (n div 8)) (0 :: 8 word), bsz = n\<rparr>"
  have "bloom_init n = Inr ?bf"
    using assms by (simp add: bloom_init_def smod_nonneg drop_bit_int_def)
  moreover have "bloom_wf ?bf" using assms by (simp add: bloom_wf_def) presburger
  moreover have "\<not> bit_set ?bf q" if "q < nat n" for q
  proof -
    from assms obtain k where "n = 8 * k" by (metis mod_eq_0_iff_dvd dvdE)
    with that have "q div 8 < nat (n div 8)" by (simp add: less_mult_imp_div_less nat_mult_distrib ac_simps)
    then show ?thesis by (simp add: bit_set_def)
  qed
  ultimately show thesis using that [of ?bf] by simp
qed

section \<open>The contract of a membership filter\<close>

locale membership_filter =
  fixes invar :: "'f \<Rightarrow> bool"
    and valid :: "'e \<Rightarrow> bool"
    and add :: "'f \<Rightarrow> 'e \<Rightarrow> 'f cres"
    and query :: "'f \<Rightarrow> 'e \<Rightarrow> bool cres"
  assumes add_ok: "invar f \<Longrightarrow> valid x \<Longrightarrow> \<exists>f'. add f x = Inr f' \<and> invar f'"
    and query_ok: "invar f \<Longrightarrow> valid x \<Longrightarrow> \<exists>b. query f x = Inr b"
    and query_added: "invar f \<Longrightarrow> valid x \<Longrightarrow> add f x = Inr f' \<Longrightarrow> query f' x = Inr True"
    and query_kept: "invar f \<Longrightarrow> valid x \<Longrightarrow> valid y \<Longrightarrow> add f x = Inr f' \<Longrightarrow>
      query f y = Inr True \<Longrightarrow> query f' y = Inr True"
begin

primrec add_all :: "'f \<Rightarrow> 'e list \<Rightarrow> 'f cres" where
  "add_all f [] = Inr f"
| "add_all f (x # xs) = c_bind (add f x) (\<lambda>f'. add_all f' xs)"

lemma add_all_ok:
  assumes "invar f" "\<forall>x \<in> set xs. valid x"
  shows "\<exists>f'. add_all f xs = Inr f' \<and> invar f'"
  using assms
proof (induction xs arbitrary: f)
  case (Cons x xs)
  then obtain f1 where "add f x = Inr f1" "invar f1" using add_ok by (metis list.set_intros(1))
  with Cons show ?case by simp
qed simp

lemma add_all_query:
  assumes "invar f" "\<forall>x \<in> set xs. valid x" "add_all f xs = Inr f'"
    and "valid y" "y \<in> set xs \<or> query f y = Inr True"
  shows "query f' y = Inr True"
  using assms
proof (induction xs arbitrary: f)
  case (Cons x xs)
  obtain f1 where f1: "add f x = Inr f1" "invar f1" using Cons.prems add_ok by (metis list.set_intros(1))
  have "y \<in> set xs \<or> query f1 y = Inr True"
    using Cons.prems f1 query_added query_kept by (metis list.set_intros(1) set_ConsD)
  with Cons f1 show ?case by auto
qed simp

end

interpretation bloom: membership_filter bloom_wf "\<lambda>x. 0 \<le> x" bloom_add bloom_query
proof
  fix f f' x y
  assume f: "bloom_wf f" and x: "(0::int) \<le> x"
  obtain f1 where f1: "bloom_add f x = Inr f1" "bloom_wf f1" "bsz f1 = bsz f"
    "\<And>q. q < nat (bsz f) \<Longrightarrow> bit_set f1 q \<longleftrightarrow> bit_set f q \<or> q \<in> bloom_positions (bsz f) x 0"
    by (rule bloom_add_bits [OF f x]) blast
  show "\<exists>f'. bloom_add f x = Inr f' \<and> bloom_wf f'" using f1 by blast
  show "\<exists>b. bloom_query f x = Inr b" using bloom_query_bits [OF f x] by blast
  show "bloom_query f' x = Inr True" if "bloom_add f x = Inr f'"
    using that f1 bloom_query_bits [OF f1(2) x] bloom_positions_bound [OF f1(2)] by auto
  show "bloom_query f' y = Inr True" if "0 \<le> y" "bloom_add f x = Inr f'" "bloom_query f y = Inr True"
    using that f1 bloom_query_bits [OF f1(2), of y] bloom_query_bits [OF f, of y]
      bloom_positions_bound [OF f1(2)] by auto
qed


lemma bloom_add_all_bits:
  assumes "bloom_wf f" "\<forall>y \<in> set ys. 0 \<le> y"
  shows "\<exists>f'. bloom.add_all f ys = Inr f' \<and> bloom_wf f' \<and> bsz f' = bsz f \<and>
    (\<forall>q < nat (bsz f). bit_set f' q \<longleftrightarrow> bit_set f q \<or> (\<exists>y \<in> set ys. q \<in> bloom_positions (bsz f) y 0))"
  using assms
proof (induction ys arbitrary: f)
  case (Cons y ys)
  obtain f1 where f1: "bloom_add f y = Inr f1" "bloom_wf f1" "bsz f1 = bsz f"
    "\<And>q. q < nat (bsz f) \<Longrightarrow> bit_set f1 q \<longleftrightarrow> bit_set f q \<or> q \<in> bloom_positions (bsz f) y 0"
    using Cons.prems by (auto elim: bloom_add_bits)
  obtain f' where "bloom.add_all f1 ys = Inr f'" "bloom_wf f'" "bsz f' = bsz f"
    "\<forall>q < nat (bsz f). bit_set f' q \<longleftrightarrow> bit_set f1 q \<or> (\<exists>y \<in> set ys. q \<in> bloom_positions (bsz f) y 0)"
    using Cons.IH [OF f1(2)] Cons.prems(2) unfolding f1(3) by auto
  then show ?case using f1 by auto
qed simp

section \<open>The properties\<close>

text \<open>C25: \<open>bloom_init\<close> with a positive multiple of 8 gives an empty filter, adding any hashes to it one
  after the other stays inside the bitmap and succeeds, and a query answers "yes" exactly for the hashes
  all of whose ten bit positions belong to an added hash: there are no false negatives, and a false
  positive needs every one of its bits set by another hash.\<close>

theorem bloom_filter_exact:
  assumes "0 < n" "n mod 8 = 0" "0 \<le> x" "\<forall>y \<in> set ys. 0 \<le> y"
  shows "\<exists>bf bf'. bloom_init n = Inr bf \<and> bloom.add_all bf ys = Inr bf' \<and>
    bloom_query bf' x = Inr (bloom_positions n x 0 \<subseteq> (\<Union>y \<in> set ys. bloom_positions n y 0))"
proof -
  obtain bf where bf: "bloom_init n = Inr bf" "bloom_wf bf" "bsz bf = n" "\<And>q. q < nat n \<Longrightarrow> \<not> bit_set bf q"
    using bloom_init_empty [OF assms(1,2)] by blast
  obtain bf' where bf': "bloom.add_all bf ys = Inr bf'" "bloom_wf bf'" "bsz bf' = n"
      "\<forall>q < nat n. bit_set bf' q \<longleftrightarrow> bit_set bf q \<or> (\<exists>y \<in> set ys. q \<in> bloom_positions n y 0)"
    using bloom_add_all_bits [OF bf(2) assms(4)] unfolding bf(3) by blast
  have "(\<forall>q \<in> bloom_positions n x 0. bit_set bf' q) \<longleftrightarrow>
      bloom_positions n x 0 \<subseteq> (\<Union>y \<in> set ys. bloom_positions n y 0)"
  proof -
    have "bit_set bf' q \<longleftrightarrow> q \<in> (\<Union>y \<in> set ys. bloom_positions n y 0)" if "q \<in> bloom_positions n x 0" for q
    proof -
      have q: "q < nat n" using bloom_positions_bound [OF bf'(2)] that unfolding bf'(3) by simp
      show ?thesis using bf'(4) [rule_format, OF q] bf(4) [OF q] by simp
    qed
    then show ?thesis unfolding subset_eq by (intro ball_cong) simp_all
  qed
  moreover have "bloom_query bf' x = Inr (\<forall>q \<in> bloom_positions n x 0. bit_set bf' q)"
    using bloom_query_bits [OF bf'(2) assms(3)] unfolding bf'(3) .
  ultimately show ?thesis using bf(1) bf'(1) by (intro exI [of _ bf] exI [of _ bf']) (simp only: simp_thms)
qed

theorem bloom_filter_exact_witness:
  "\<exists>bf bf'. bloom_init 64 = Inr bf \<and> bloom.add_all bf [5, 7] = Inr bf' \<and> bloom_query bf' 7 = Inr True"
  using bloom_filter_exact [of 64 7 "[5, 7]"] by auto

end
