(* ===== verification/RkBloom.thy ===== *)
theory RkBloom
  imports RkMatch Bloom
begin

text \<open>
  The Bloom-filter front end of rklab/rkgrep.c: \<open>rk_create_doc_bloom\<close> adds the hash of every
  window of a document to a filter, and \<open>rk_substring_match_using_bloom\<close> asks the filter before it
  runs the Rabin-Karp matcher. \<open>doctmp\<close> is \<open>doc + (index - 1)\<close> at the head of the loop.

  The second function leaves \<open>*first_match_ind\<close> as it is when the filter says no, so its model
  takes the old contents of that variable (\<open>None\<close> for one that was never written).
\<close>

function create_doc_bloom_loop ::
  "char list \<Rightarrow> int \<Rightarrow> int \<Rightarrow> int \<Rightarrow> int \<Rightarrow> int \<Rightarrow> bloom_filter \<Rightarrow> bloom_filter cres" where
  "create_doc_bloom_loop doc m doc_length h index doc_hash bf =
     (if index \<le> doc_length - m then
        c_bind (cstr_at doc (index - 1)) (\<lambda>leftmost.
        c_bind (cstr_at doc (index - 1 + m)) (\<lambda>rightmost.
          let doc_hash' = rkhash_next doc_hash h leftmost rightmost in
          c_bind (bloom_add bf doc_hash') (\<lambda>bf'.
            create_doc_bloom_loop doc m doc_length h (index + 1) doc_hash' bf')))
      else Inr bf)"
  by pat_completeness auto
termination
  by (relation "measure (\<lambda>(doc, m, n, h, i, dh, bf). nat (n - m + 1 - i))") auto

declare create_doc_bloom_loop.simps [simp del]

definition rk_create_doc_bloom :: "int \<Rightarrow> char list \<Rightarrow> int \<Rightarrow> bloom_filter cres" where
  "rk_create_doc_bloom m doc bloom_size =
     c_bind (bloom_init bloom_size) (\<lambda>bf.
     c_bind (rkhash_init doc m) (\<lambda>(doc_hash, h).
     c_bind (bloom_add bf doc_hash) (\<lambda>bf'.
       create_doc_bloom_loop doc m (sint (strlength doc)) h 1 doc_hash bf')))"

definition rk_substring_match_using_bloom ::
  "char list \<Rightarrow> char list \<Rightarrow> bloom_filter \<Rightarrow> int option \<Rightarrow> (int \<times> int option) cres" where
  "rk_substring_match_using_bloom pattern doc bf first_match_ind =
     (let pattern_length = sint (strlength pattern) in
      c_bind (rkhash_init pattern pattern_length) (\<lambda>(pattern_hash, h).
      c_bind (bloom_query bf pattern_hash) (\<lambda>b.
        if b then c_bind (rk_substring_match pattern doc) (\<lambda>(count, first). Inr (count, Some first))
        else Inr (0, first_match_ind))))"

section \<open>The filter holds the hash of every window\<close>

definition window_hash :: "char list \<Rightarrow> nat \<Rightarrow> nat \<Rightarrow> int" where
  "window_hash doc m i = rk_hash (take m (drop i doc))"

lemma window_hash_nonneg [simp]: "0 \<le> window_hash doc m i"
  by (simp add: window_hash_def)

lemma create_doc_bloom_loop_adds:
  assumes "ascii doc" "0 < m" "m \<le> length doc" "0 < i" "i \<le> length doc - m + 1"
  shows "create_doc_bloom_loop doc (int m) (int (length doc)) (256 ^ m mod PRIME) (int i)
      (window_hash doc m (i - 1)) bf =
    bloom.add_all bf (map (window_hash doc m) [i..<length doc - m + 1])"
  using assms(4,5)
proof (induction "length doc - m + 1 - i" arbitrary: i bf)
  case 0
  with assms(3) have "i = length doc - m + 1" by simp
  with assms(3) show ?case by (subst create_doc_bloom_loop.simps) (simp add: of_nat_diff)
next
  case (Suc k)
  then obtain j where j: "i = Suc j" by (cases i) auto
  from Suc.hyps(2) assms(3) j have i: "j + m < length doc" by simp
  have upt: "[i..<length doc - m + 1] = i # [Suc i..<length doc - m + 1]"
    by (rule upt_conv_Cons) (use i j in simp)
  have l: "cstr_at doc (int j) = Inr (doc ! j)" using i by (intro cstr_at_nth) simp
  have r: "cstr_at doc (int j + int m) = Inr (doc ! (j + m))"
    using cstr_at_nth [OF i] by simp
  have dh: "rkhash_next (window_hash doc m j) (256 ^ m mod PRIME) (doc ! j) (doc ! (j + m)) =
      window_hash doc m i"
    using rk_window_slide [of m j doc] assms i j by (simp add: window_hash_def)
  have IH: "create_doc_bloom_loop doc (int m) (int (length doc)) (256 ^ m mod PRIME) (int (Suc i))
      (window_hash doc m i) bf' =
      bloom.add_all bf' (map (window_hash doc m) [Suc i..<length doc - m + 1])" for bf'
    using Suc.hyps(1) [of "Suc i"] Suc.hyps(2) i j by simp
  have "create_doc_bloom_loop doc (int m) (int (length doc)) (256 ^ m mod PRIME) (int i)
      (window_hash doc m (i - 1)) bf =
    c_bind (bloom_add bf (window_hash doc m i)) (\<lambda>bf'.
      create_doc_bloom_loop doc (int m) (int (length doc)) (256 ^ m mod PRIME) (int (Suc i))
        (window_hash doc m i) bf')"
    using i j l r dh by (subst create_doc_bloom_loop.simps) (simp add: Let_def add.commute)
  then show ?case by (simp only: IH upt list.map bloom.add_all.simps)
qed

lemma rk_create_doc_bloom_adds:
  assumes "ascii doc" "0 < m" "m \<le> length doc" "length doc < 2 ^ 31"
  shows "rk_create_doc_bloom (int m) doc n =
    c_bind (bloom_init n) (\<lambda>bf. bloom.add_all bf (map (window_hash doc m) [0..<length doc - m + 1]))"
proof -
  have len: "sint (strlength doc) = int (length doc)"
    using assms by (simp only: strlength_sint ascii_cstring)
  have upt: "[0..<length doc - m + 1] = 0 # [1..<length doc - m + 1]"
    by (simp add: upt_conv_Cons del: upt_Suc)
  have h0: "rk_hash (take m doc) = window_hash doc m 0" by (simp add: window_hash_def)
  have "create_doc_bloom_loop doc (int m) (int (length doc)) (256 ^ m mod PRIME) 1 (window_hash doc m 0) bf
    = bloom.add_all bf (map (window_hash doc m) [1..<length doc - m + 1])" for bf
    using create_doc_bloom_loop_adds [of doc m 1 bf] assms by simp
  then have "create_doc_bloom_loop doc (int m) (int (length doc)) (256 ^ m mod PRIME) 1 (window_hash doc m 0)
    = (\<lambda>bf. bloom.add_all bf (map (window_hash doc m) [1..<length doc - m + 1]))" by (rule ext)
  then show ?thesis
    unfolding upt list.map bloom.add_all.simps
    by (simp add: rk_create_doc_bloom_def len rkhash_init_prefix assms h0 del: upt_Suc)
qed

lemma rk_create_doc_bloom_ok:
  assumes "ascii doc" "0 < m" "m \<le> length doc" "length doc < 2 ^ 31" "0 < n" "n mod 8 = 0"
  obtains bf where "rk_create_doc_bloom (int m) doc n = Inr bf" "bloom_wf bf"
    "\<And>i. i + m \<le> length doc \<Longrightarrow> bloom_query bf (window_hash doc m i) = Inr True"
proof -
  let ?hs = "map (window_hash doc m) [0..<length doc - m + 1]"
  obtain bf0 where bf0: "bloom_init n = Inr bf0" "bloom_wf bf0"
    using bloom_init_empty [OF assms(5,6)] by blast
  have valid: "\<forall>x \<in> set ?hs. 0 \<le> x" by auto
  obtain bf where bf: "bloom.add_all bf0 ?hs = Inr bf" "bloom_wf bf"
    using bloom.add_all_ok [OF bf0(2) valid] by blast
  have "bloom_query bf (window_hash doc m i) = Inr True" if "i + m \<le> length doc" for i
    by (rule bloom.add_all_query [OF bf0(2) valid bf(1)]) (use that in \<open>auto simp del: upt_Suc\<close>)
  then show thesis
    using that [of bf] bf bf0 rk_create_doc_bloom_adds [OF assms(1-4)] by simp
qed

lemma occurrence_window: "i \<in> set (occurrences p d) \<Longrightarrow> window_hash d (length p) i = rk_hash p"
  by (auto simp: occurrences_def window_hash_def split: if_splits)

lemma using_bloom_cases:
  assumes "ascii p" "ascii d" "length p < 2 ^ 31" "length d < 2 ^ 31" "bloom_wf bf"
  obtains b where "bloom_query bf (rk_hash p) = Inr b"
    "rk_substring_match_using_bloom p d bf old =
      Inr (if b then (fst (report (occurrences p d)), Some (snd (report (occurrences p d)))) else (0, old))"
proof -
  have len: "sint (strlength p) = int (length p)"
    using assms by (simp only: strlength_sint ascii_cstring)
  have h: "rkhash_init p (int (length p)) = Inr (rk_hash p, 256 ^ length p mod PRIME)"
    using rkhash_init_prefix [of "length p" p] assms by simp
  obtain b where b: "bloom_query bf (rk_hash p) = Inr b"
    using bloom.query_ok [OF assms(5) rk_hash_range(1)] by blast
  show thesis
    using that [OF b] rk_substring_match_eq [OF assms(1-4)]
    by (simp add: rk_substring_match_using_bloom_def len h b split: prod.split)
qed

lemma rkbloom_finds:
  assumes "ascii pattern" "ascii doc" "pattern \<noteq> []" "length pattern \<le> length doc" "length doc < 2 ^ 31"
    and "0 < bloom_size" "bloom_size mod 8 = 0"
  shows "\<exists>bf. rk_create_doc_bloom (int (length pattern)) doc bloom_size = Inr bf \<and>
    (\<exists>first. rk_substring_match_using_bloom pattern doc bf old =
        Inr (int (length (occurrences pattern doc)), first) \<and>
      (if occurrences pattern doc = [] then first = Some (- 1) \<or> first = old
       else first = Some (int (hd (occurrences pattern doc)))))"
proof -
  obtain bf where bf: "rk_create_doc_bloom (int (length pattern)) doc bloom_size = Inr bf" "bloom_wf bf"
    "\<And>i. i + length pattern \<le> length doc \<Longrightarrow> bloom_query bf (window_hash doc (length pattern) i) = Inr True"
    using rk_create_doc_bloom_ok [OF assms(2) _ assms(4-7)] assms(3) by blast
  have lp: "length pattern < 2 ^ 31" using assms(4,5) by simp
  obtain b where b: "bloom_query bf (rk_hash pattern) = Inr b"
    "rk_substring_match_using_bloom pattern doc bf old = Inr (if b
       then (fst (report (occurrences pattern doc)), Some (snd (report (occurrences pattern doc)))) else (0, old))"
    using using_bloom_cases [OF assms(1,2) lp assms(5) bf(2)] by blast
  show ?thesis
  proof (cases "occurrences pattern doc")
    case Nil
    then show ?thesis using bf(1) b(2) by (auto simp: report_def)
  next
    case (Cons i js)
    then have i: "i \<in> set (occurrences pattern doc)" by simp
    have "bloom_query bf (rk_hash pattern) = Inr True"
      using bf(3) [of i] occurrences_fit [OF i] occurrence_window [OF i] by simp
    then have b: "b" using b(1) by simp
    show ?thesis using bf(1) b Cons \<open>rk_substring_match_using_bloom _ _ _ _ = _\<close> by (simp add: report_def)
  qed
qed

section \<open>The properties\<close>

text \<open>C23: searching through the Bloom filter loses no match: for every pattern whose length is the one the
  filter of the document was built for, the function answers the number of occurrences; when there is one
  it stores the first, and when there is none it either stores -1 or leaves the variable as it was.\<close>

theorem rkbloom_correct:
  assumes "ascii pattern" "ascii doc" "pattern \<noteq> []" "length pattern \<le> length doc" "length doc < 2 ^ 31"
    and "0 < bloom_size" "bloom_size mod 8 = 0"
  shows "\<exists>bf. rk_create_doc_bloom (int (length pattern)) doc bloom_size = Inr bf \<and>
    (\<exists>first. rk_substring_match_using_bloom pattern doc bf old =
        Inr (int (length (occurrences pattern doc)), first) \<and>
      (if occurrences pattern doc = [] then first = Some (- 1) \<or> first = old
       else first = Some (int (hd (occurrences pattern doc)))))"
  using assms by (rule rkbloom_finds)

theorem rkbloom_correct_witness:
  "\<exists>bf. rk_create_doc_bloom 2 ''abcab'' 40 = Inr bf \<and>
    rk_substring_match_using_bloom ''ab'' ''abcab'' bf None = Inr (2, Some 0)"
proof -
  have a: "ascii ''ab''" "ascii ''abcab''" by (simp_all add: ascii_def char_val_def)
  have o: "occurrences ''ab'' ''abcab'' = [0, 3]" by (simp add: occurrences_def upt_rec)
  show ?thesis using rkbloom_correct [OF a, of 40 None] unfolding o by simp
qed

end
