(* ===== verification/RkGrepMain.thy ===== *)
theory RkGrepMain
  imports RkBloom
begin

text \<open>
  The driver of rklab/rkgrep_main.c. A file is the list of its bytes (as \<open>char\<close>s), or \<open>None\<close>
  when it cannot be opened; a buffer returned by \<open>malloc\<close> is a list of cells, \<open>None\<close> for a byte
  that was never written. The text a function prints is the list of characters it writes.
\<close>

section \<open>Reading the document\<close>

datatype doc_ptr = NullDoc | Doc "char option list"

text \<open>The loop that looks for bytes that are not ASCII; it goes on after it has freed the buffer and
  set \<open>doc\<close> to null.\<close>

fun check_ascii_loop :: "char list \<Rightarrow> doc_ptr \<Rightarrow> doc_ptr cres" where
  "check_ascii_loop [] doc = Inr doc"
| "check_ascii_loop (c # cs) NullDoc = Inl NullDeref"
| "check_ascii_loop (c # cs) (Doc b) =
     (if char_val c \<le> 0 then check_ascii_loop cs NullDoc else check_ascii_loop cs (Doc b))"

text \<open>\<open>st_size\<close> is the size \<open>fstat\<close> reports and \<open>content\<close> what \<open>read\<close> delivers.\<close>

definition read_ascii_file :: "(nat \<times> char list) option \<Rightarrow> doc_ptr cres" where
  "read_ascii_file file =
     (case file of
        None \<Rightarrow> Inl (Exit 1)
      | Some (st_size, content) \<Rightarrow>
          let doc = Doc (map Some content @ replicate (st_size + 1 - length content) None) in
          c_bind
            (if length content \<noteq> st_size then Inr NullDoc else check_ascii_loop content doc)
            (\<lambda>doc. case doc of NullDoc \<Rightarrow> Inl NullDeref | Doc b \<Rightarrow> Inr (Doc b)))"

lemma check_ascii_loop_ascii: "ascii cs \<Longrightarrow> check_ascii_loop cs (Doc b) = Inr (Doc b)"
  by (induction cs) (auto simp: ascii_def)

lemma check_ascii_loop_bad:
  "\<not> ascii cs \<Longrightarrow> check_ascii_loop cs (Doc b) \<in> {Inr NullDoc, Inl NullDeref}"
proof (induction cs)
  case (Cons c cs)
  then show ?case by (cases cs) (auto simp: ascii_def)
qed (simp add: ascii_def)

lemma read_ascii_file_eq:
  "read_ascii_file (Some (length content, content)) =
    (if ascii content then Inr (Doc (map Some content @ [None])) else Inl NullDeref)"
  using check_ascii_loop_ascii [of content] check_ascii_loop_bad [of content "map Some content @ [None]"]
  by (auto simp: read_ascii_file_def)

section \<open>Printing a match\<close>

definition NORMALCOLOR :: "char list" where "NORMALCOLOR = CHR 0x1B # ''[0m''"
definition REDCOLOR :: "char list" where "REDCOLOR = CHR 0x1B # ''[31m''"

fun start_of_sentence :: "char list \<Rightarrow> nat \<Rightarrow> nat cres" where
  "start_of_sentence doc 0 = Inr 0"
| "start_of_sentence doc (Suc s) =
     c_bind (cstr_at doc (int s)) (\<lambda>c. if c \<noteq> CHR 0x0A then start_of_sentence doc s else Inr (Suc s))"

text \<open>\<open>while (doc[i+pos] == pattern[i])\<close>: the result is what was printed and the last \<open>i\<close>. The
  terminators compare equal too, and then both reads go outside their strings.\<close>

function print_pattern :: "char list \<Rightarrow> char list \<Rightarrow> int \<Rightarrow> int \<Rightarrow> (char list \<times> int) cres" where
  "print_pattern doc pattern pos i =
     (if 0 \<le> i \<and> i \<le> int (length pattern) then
        c_bind (cstr_at doc (i + pos)) (\<lambda>d. c_bind (cstr_at pattern i) (\<lambda>p.
          if d = p then c_bind (print_pattern doc pattern pos (i + 1)) (\<lambda>(out, j). Inr (d # out, j))
          else Inr ([], i)))
      else Inl OutOfBounds)"
  by pat_completeness auto
termination
  by (relation "measure (\<lambda>(doc, pattern, pos, i). nat (int (length pattern) + 1 - i))") auto

text \<open>The rest of the line, from a pointer into the document.\<close>

fun print_rest :: "char list \<Rightarrow> char list" where
  "print_rest [] = []"
| "print_rest (c # cs) = (if c \<noteq> CHR 0x0A \<and> c \<noteq> NUL then c # print_rest cs else [])"

definition print_matched_sentence :: "int \<Rightarrow> char list \<Rightarrow> char list \<Rightarrow> char list cres" where
  "print_matched_sentence pos pattern doc =
     (if pos < 0 then Inr []
      else
        c_bind (start_of_sentence doc (nat pos)) (\<lambda>start_sentence.
        c_bind (print_pattern doc pattern pos 0) (\<lambda>(matched, i).
          Inr (take (nat pos - start_sentence) (drop start_sentence doc) @ REDCOLOR @ matched
            @ NORMALCOLOR @ print_rest (drop (nat (i + pos)) doc) @ [CHR 0x0A]))))"

declare print_pattern.simps [simp del]

lemma print_pattern_match:
  assumes "pos + length p < length d" "take (length p) (drop pos d) = p" "cstring d" "i \<le> length p"
  shows "print_pattern d p (int pos) (int i) = Inr (drop i p, int (length p))"
  using assms(4)
proof (induction "length p - i" arbitrary: i)
  case 0
  then have i: "i = length p" by simp
  have "d ! (i + pos) \<noteq> NUL"
    using assms(1,3) i by (intro cstring_nth) simp_all
  then show ?case
    using assms i cstr_at_nth [of "i + pos" d]
    by (subst print_pattern.simps) (simp add: add.commute)
next
  case (Suc k)
  then have i: "i < length p" by simp
  then have "d ! (i + pos) = p ! i" using assms(1,2) by (metis add.commute nth_drop nth_take less_imp_le
        add_leD1 order_less_imp_le trans_le_add1 nat_less_le)
  moreover have "print_pattern d p (int pos) (int (Suc i)) = Inr (drop (Suc i) p, int (length p))"
    using Suc by (intro Suc.hyps) auto
  ultimately show ?case
    using i assms cstr_at_nth [of "i + pos" d]
    by (subst print_pattern.simps) (simp add: Cons_nth_drop_Suc add.commute)
qed

lemma print_pattern_at_end:
  assumes "pos + length p = length d" "drop pos d = p" "i \<le> length p"
  shows "print_pattern d p (int pos) (int i) = Inl OutOfBounds"
  using assms(3)
proof (induction "length p - i" arbitrary: i)
  case 0
  then have i: "i = length p" by simp
  have "print_pattern d p (int pos) (int (Suc i)) = Inl OutOfBounds"
    by (subst print_pattern.simps) (simp add: i)
  moreover have "cstr_at d (int i + int pos) = Inr NUL"
    using assms i cstr_at_end [of d] by (metis add.commute of_nat_add)
  ultimately show ?case
    using i by (subst print_pattern.simps) (simp add: add.commute)
next
  case (Suc k)
  then have i: "i < length p" by simp
  then have "d ! (i + pos) = p ! i" using assms(1,2) by (metis add.commute nth_drop add_leD1 le_add1)
  moreover have "print_pattern d p (int pos) (int (Suc i)) = Inl OutOfBounds"
    using Suc by (intro Suc.hyps) auto
  ultimately show ?case
    using i assms cstr_at_nth [of "i + pos" d]
    by (subst print_pattern.simps) (simp add: add.commute)
qed

lemma start_of_sentence_ok:
  "n \<le> length d \<Longrightarrow> \<exists>s \<le> n. start_of_sentence d n = Inr s \<and>
    (\<forall>j. s \<le> j \<and> j < n \<longrightarrow> d ! j \<noteq> CHR 0x0A) \<and> (s = 0 \<or> d ! (s - 1) = CHR 0x0A)"
proof (induction n)
  case (Suc n)
  show ?case
  proof (cases "d ! n = CHR 0x0A")
    case True
    with Suc.prems show ?thesis by (intro exI [of _ "Suc n"]) auto
  next
    case False
    from Suc obtain s where "s \<le> n" "start_of_sentence d n = Inr s"
      "\<forall>j. s \<le> j \<and> j < n \<longrightarrow> d ! j \<noteq> CHR 0x0A" "s = 0 \<or> d ! (s - 1) = CHR 0x0A" by auto
    with False Suc.prems show ?thesis
      by (intro exI [of _ s]) (auto simp: less_Suc_eq)
  qed
qed simp

section \<open>The main function\<close>

datatype algo_type = Naive | RK | Bloom | RKBloom | All

definition MAX_PATTERNS :: nat where "MAX_PATTERNS = 1000"

text \<open>The document as the matchers see it: the characters up to the terminator. The buffer that
  \<open>read_ascii_file\<close> returns is read to its end to find one.\<close>

fun as_string :: "char option list \<Rightarrow> char list cres" where
  "as_string [] = Inl OutOfBounds"
| "as_string (None # cells) = Inl Uninitialised"
| "as_string (Some c # cells) = (if c = NUL then Inr [] else c_bind (as_string cells) (\<lambda>s. Inr (c # s)))"

text \<open>What is printed for one pattern: the sentence, then how many further matches there are (the
  number is kept as a number).\<close>

type_synonym printed = "char list \<times> int option"

definition print_result :: "char list \<Rightarrow> char list \<Rightarrow> int \<times> int option \<Rightarrow> printed cres" where
  "print_result doc pattern result =
     (case result of (n_matches, first_match_ind) \<Rightarrow>
        case first_match_ind of
          None \<Rightarrow> Inl Uninitialised
        | Some first \<Rightarrow>
            c_bind (print_matched_sentence first pattern doc) (\<lambda>out.
              Inr (out, if n_matches > 1 then Some n_matches else None)))"

primrec each_pattern :: "(char list \<Rightarrow> (int \<times> int option) cres) \<Rightarrow> char list \<Rightarrow> char list list \<Rightarrow> printed list cres" where
  "each_pattern match doc [] = Inr []"
| "each_pattern match doc (p # patterns) =
     c_bind (match p) (\<lambda>r. c_bind (print_result doc p r) (\<lambda>out.
       c_bind (each_pattern match doc patterns) (\<lambda>outs. Inr (out # outs))))"

definition run_algo :: "algo_type \<Rightarrow> char list list \<Rightarrow> char option list \<Rightarrow> printed list cres" where
  "run_algo which_algo patterns cells =
     (case which_algo of
        Naive \<Rightarrow> c_bind (as_string cells) (\<lambda>doc.
          each_pattern (\<lambda>p. case naive_substring_match p doc of (n, f) \<Rightarrow> Inr (n, Some f)) doc patterns)
      | RK \<Rightarrow> c_bind (as_string cells) (\<lambda>doc.
          each_pattern (\<lambda>p. c_bind (rk_substring_match p doc) (\<lambda>(n, f). Inr (n, Some f))) doc patterns)
      | RKBloom \<Rightarrow>
          c_bind (arr_at patterns 0) (\<lambda>p0.
            let m = strlen p0 in
            c_bind (c_assert (\<forall>p \<in> set (tl patterns). strlen p = m)) (\<lambda>_.
            c_bind (as_string cells) (\<lambda>doc.
            c_bind (rk_create_doc_bloom m doc (s32 (strlen doc * 8))) (\<lambda>bf.
              each_pattern (\<lambda>p. rk_substring_match_using_bloom p doc bf None) doc patterns))))
      | _ \<Rightarrow> Inl (Exit 1))"

text \<open>The options as \<open>getopt\<close> delivers them, the last one wins; the pieces that \<open>strtok_r\<close> cuts the
  pattern argument into are its maximal runs of characters other than \<open>|\<close>. \<open>args\<close> are the arguments from \<open>optind\<close> on.\<close>

fun parse_options :: "(char \<times> char list) list \<Rightarrow> algo_type \<Rightarrow> algo_type cres" where
  "parse_options [] which_algo = Inr which_algo"
| "parse_options ((c, optarg) # opts) which_algo =
     (if c = CHR ''a'' then
        if optarg = ''naive'' then parse_options opts Naive
        else if optarg = ''rk'' then parse_options opts RK
        else if optarg = ''rkbloom'' then parse_options opts RKBloom
        else Inl (Exit 1)
      else Inl (Exit 1))"

fun strtok_pieces :: "char \<Rightarrow> char list \<Rightarrow> char list \<Rightarrow> char list list" where
  "strtok_pieces delim [] piece = (if piece = [] then [] else [rev piece])"
| "strtok_pieces delim (c # s) piece =
     (if c = delim then (if piece = [] then [] else [rev piece]) @ strtok_pieces delim s []
      else strtok_pieces delim s (c # piece))"

definition rkgrep_main ::
  "(char list \<Rightarrow> (nat \<times> char list) option) \<Rightarrow> (char \<times> char list) list \<Rightarrow> char list list \<Rightarrow> printed list cres" where
  "rkgrep_main files opts args =
     c_bind (parse_options opts RK) (\<lambda>which_algo.
       case args of
         [] \<Rightarrow> Inl (Exit 1)
       | pats # rest \<Rightarrow>
           let patterns = strtok_pieces (CHR ''|'') pats [] in
           c_bind (c_assert (length patterns < MAX_PATTERNS)) (\<lambda>_.
           if patterns = [] then Inl (Exit 1)
           else c_bind (read_ascii_file (case rest of [] \<Rightarrow> None | fname # _ \<Rightarrow> files fname)) (\<lambda>doc.
             case doc of NullDoc \<Rightarrow> Inl (Exit 1) | Doc cells \<Rightarrow> run_algo which_algo patterns cells)))"

lemma as_string_unterminated: "ascii s \<Longrightarrow> as_string (map Some s @ [None]) = Inl Uninitialised"
  by (induction s) (auto simp: ascii_def)

lemma run_algo_unterminated:
  assumes "ascii s"
  shows "\<exists>e. run_algo a patterns (map Some s @ [None]) = Inl e"
proof (cases a)
  case RKBloom
  then show ?thesis using as_string_unterminated [OF assms]
    by (auto simp: run_algo_def Let_def arr_at_def c_bind_eq_Inl c_assert_def)
qed (simp_all add: run_algo_def as_string_unterminated [OF assms])

lemma as_string_terminated: "cstring s \<Longrightarrow> as_string (map Some s @ [Some NUL]) = Inr s"
  by (induction s) auto

section \<open>The properties\<close>

text \<open>C31: no run of the program gets as far as printing a match. The test before the store of the terminator is
  inverted (\<open>if (!doc)\<close>): when the file cannot be read or is not ASCII the null pointer is written
  through, and when it can the buffer stays without a terminator, so the first use of the document as a
  string reads a byte that was never written. Whatever the options, the patterns and the file, the run
  ends in an error or an \<open>exit(1)\<close>.\<close>

theorem rkgrep_main_fails:
  "\<exists>e. rkgrep_main files opts args = Inl e"
proof (cases "rkgrep_main files opts args")
  case (Inr out)
  obtain pats rest where args: "args = pats # rest"
    using Inr by (cases args) (auto simp: rkgrep_main_def c_bind_eq_Inr)
  obtain a where a: "parse_options opts RK = Inr a"
    using Inr by (auto simp: rkgrep_main_def c_bind_eq_Inr)
  let ?patterns = "strtok_pieces (CHR ''|'') pats []"
  let ?file = "case rest of [] \<Rightarrow> None | fname # _ \<Rightarrow> files fname"
  have "c_bind (read_ascii_file ?file)
      (\<lambda>doc. case doc of NullDoc \<Rightarrow> Inl (Exit 1) | Doc cells \<Rightarrow> run_algo a ?patterns cells) = Inr out"
    using Inr unfolding rkgrep_main_def args a by (simp add: Let_def c_bind_eq_Inr split: if_splits)
  then obtain doc where doc: "read_ascii_file ?file = Inr doc"
      "(case doc of NullDoc \<Rightarrow> Inl (Exit 1) | Doc cells \<Rightarrow> run_algo a ?patterns cells) = Inr out"
    by (rule c_bindE)
  obtain st_size content where f: "?file = Some (st_size, content)"
    using doc(1) by (cases ?file) (auto simp: read_ascii_file_def)
  have "length content = st_size"
    using doc(1) unfolding f by (auto simp: read_ascii_file_def split: if_splits)
  then have "ascii content" "doc = Doc (map Some content @ [None])"
    using doc(1) read_ascii_file_eq [of content] unfolding f by (auto split: if_splits)
  then show ?thesis using doc(2) run_algo_unterminated [of content a ?patterns] by auto
qed blast

text \<open>\<open>print_matched_sentence\<close> on a match that is followed by another character prints the line around
  the match: what precedes it since the last newline, the pattern in red, and the rest of the line, without
  leaving the document; a negative position prints nothing.\<close>

lemma print_matched_sentence_correct:
  assumes "cstring doc" "i + length pattern < length doc" "take (length pattern) (drop i doc) = pattern"
  shows "(\<exists>s \<le> i. print_matched_sentence (int i) pattern doc = Inr (take (i - s) (drop s doc) @ REDCOLOR @ pattern
      @ NORMALCOLOR @ takeWhile (\<lambda>c. c \<noteq> CHR 0x0A) (drop (i + length pattern) doc) @ [CHR 0x0A]) \<and>
      (\<forall>j. s \<le> j \<and> j < i \<longrightarrow> doc ! j \<noteq> CHR 0x0A) \<and> (s = 0 \<or> doc ! (s - 1) = CHR 0x0A)) \<and>
    print_matched_sentence (- 1) pattern doc = Inr []"
proof
  have rest: "print_rest s = takeWhile (\<lambda>c. c \<noteq> CHR 0x0A) s" if "cstring s" for s
    using that by (induction s) auto
  obtain s where s: "s \<le> i" "start_of_sentence doc i = Inr s"
      "\<forall>j. s \<le> j \<and> j < i \<longrightarrow> doc ! j \<noteq> CHR 0x0A" "s = 0 \<or> doc ! (s - 1) = CHR 0x0A"
    using start_of_sentence_ok [of i doc] assms(2) by auto
  have p: "print_pattern doc pattern (int i) 0 = Inr (pattern, int (length pattern))"
    using print_pattern_match [OF assms(2,3,1), of 0] by simp
  have n: "nat (int (length pattern) + int i) = i + length pattern" by simp
  have "print_matched_sentence (int i) pattern doc = Inr (take (i - s) (drop s doc) @ REDCOLOR @ pattern
      @ NORMALCOLOR @ takeWhile (\<lambda>c. c \<noteq> CHR 0x0A) (drop (i + length pattern) doc) @ [CHR 0x0A])"
    using s p assms(1) by (simp add: print_matched_sentence_def n rest)
  then show "\<exists>s \<le> i. print_matched_sentence (int i) pattern doc = Inr (take (i - s) (drop s doc) @ REDCOLOR @ pattern
      @ NORMALCOLOR @ takeWhile (\<lambda>c. c \<noteq> CHR 0x0A) (drop (i + length pattern) doc) @ [CHR 0x0A]) \<and>
      (\<forall>j. s \<le> j \<and> j < i \<longrightarrow> doc ! j \<noteq> CHR 0x0A) \<and> (s = 0 \<or> doc ! (s - 1) = CHR 0x0A)"
    using s by (intro exI [of _ s]) simp
qed (simp add: print_matched_sentence_def)

text \<open>On a match that ends where the document ends, \<open>print_matched_sentence\<close> compares the two
  terminators, finds them equal, and goes on comparing bytes outside both strings.\<close>

lemma print_matched_sentence_overruns:
  assumes "cstring doc" "i + length pattern = length doc" "drop i doc = pattern"
  shows "print_matched_sentence (int i) pattern doc = Inl OutOfBounds"
proof -
  obtain s where "start_of_sentence doc i = Inr s"
    using start_of_sentence_ok [of i doc] assms(2) by auto
  then show ?thesis
    using print_pattern_at_end [OF assms(2,3), of 0] by (simp add: print_matched_sentence_def)
qed

text \<open>When the Bloom filter rules a pattern out, \<open>rk_substring_match_using_bloom\<close> returns 0 without
  storing a position, and the driver passes its uninitialised \<open>first_match_ind\<close> on to be printed.\<close>

lemma rkbloom_uninitialised:
  assumes "ascii pattern" "length pattern < 2 ^ 31" "bloom_query bf (rk_hash pattern) = Inr False"
  shows "rk_substring_match_using_bloom pattern doc bf None = Inr (0, None) \<and>
    each_pattern (\<lambda>p. rk_substring_match_using_bloom p doc bf None) doc (pattern # patterns) = Inl Uninitialised"
proof -
  have len: "sint (strlength pattern) = int (length pattern)"
    using assms by (simp only: strlength_sint ascii_cstring)
  have "rk_substring_match_using_bloom pattern doc bf None = Inr (0, None)"
    using rkhash_init_prefix [of "length pattern" pattern] assms
    by (simp add: rk_substring_match_using_bloom_def len)
  then show ?thesis by (simp add: print_result_def)
qed

end
