(* ===== verification/RkTest.thy ===== *)
theory RkTest
  imports RkGrepMain
begin

text \<open>
  rklab/rkgrep_test.c, the unit tests of rkgrep.c and bloom.c. \<open>rnd k\<close> is the result of the \<open>k\<close>-th call of \<open>rand\<close>, and a test
  returns the number of the next call. The functions it compares with are only there as an object file: they are
  the record \<open>reference\<close>, an argument, and \<open>reference_ok\<close> is what they are meant to compute. \<open>panic_cond\<close> aborts the
  program as a failed assertion does. The clock readings and what is printed are left out.
\<close>

section \<open>Random text\<close>

definition generate_random_word :: "(nat \<Rightarrow> int) \<Rightarrow> int \<Rightarrow> int \<Rightarrow> string \<times> nat \<Rightarrow> (string \<times> nat) cres" where
  "generate_random_word rnd off len st =
     c_bind (c_for 0 len (\<lambda>i (buf, k). c_bind (arr_set buf (off + i) (char_of (97 + rnd k smod 26))) (\<lambda>buf. Inr (buf, Suc k))) st)
       (\<lambda>(buf, k). c_bind (arr_set buf (off + len) NUL) (\<lambda>buf. Inr (buf, k)))"

definition next_word_len :: "int \<Rightarrow> int \<Rightarrow> int" where
  "next_word_len r left =
     (let word_len = r smod 5 + 5 in
      if word_len > left then left else if word_len = left - 1 then word_len + 1 else word_len)"

lemma next_word_len_pos: "0 < left \<Longrightarrow> 0 < next_word_len r left"
  using smod_int_range [of 5 r] by (auto simp: next_word_len_def Let_def)

function generate_loop :: "(nat \<Rightarrow> int) \<Rightarrow> int \<Rightarrow> int \<Rightarrow> string \<times> nat \<Rightarrow> (string \<times> nat) cres" where
  "generate_loop rnd len i st =
     (if i < len then
        let word_len = next_word_len (rnd (snd st)) (len - i) in
        c_bind (generate_random_word rnd i word_len (fst st, Suc (snd st))) (\<lambda>(buf, k).
        if i + word_len = len then Inr (buf, k)
        else c_bind (arr_set buf (i + word_len) (CHR '' '')) (\<lambda>buf. generate_loop rnd len (i + word_len) (buf, k)))
      else Inr st)"
  by auto
termination
  by (relation "measure (\<lambda>(rnd, len, i, st). nat (len - i))") (auto intro!: next_word_len_pos simp: Let_def)

declare generate_loop.simps [simp del]

text \<open>\<open>garbage\<close> is what \<open>malloc\<close> leaves in the buffer.\<close>

definition generate_random_document :: "(nat \<Rightarrow> int) \<Rightarrow> (nat \<Rightarrow> char) \<Rightarrow> int \<Rightarrow> nat \<Rightarrow> (string \<times> nat) cres" where
  "generate_random_document rnd garbage len k =
     c_bind (generate_loop rnd len 0 (map garbage [0..<nat (len + 1)], k)) (\<lambda>(buf, k).
     c_bind (arr_set buf len NUL) (\<lambda>buf. Inr (takeWhile (\<lambda>c. c \<noteq> NUL) buf, k)))"

section \<open>The tests of the matchers\<close>

type_synonym matcher = "string \<Rightarrow> string \<Rightarrow> (int \<times> int) cres"

definition run_match :: "matcher option \<Rightarrow> bloom_filter option \<Rightarrow> string \<Rightarrow> string \<Rightarrow> (int \<times> int option) cres" where
  "run_match matchFunc bf p doc =
     (case bf of
        Some f \<Rightarrow> rk_substring_match_using_bloom p doc f None
      | None \<Rightarrow> (case matchFunc of
          None \<Rightarrow> Inl NullDeref
        | Some f \<Rightarrow> c_bind (f p doc) (\<lambda>(n_matches, first). Inr (n_matches, Some first))))"

definition test_pattern :: "(nat \<Rightarrow> int) \<Rightarrow> string \<Rightarrow> int \<Rightarrow> int \<Rightarrow> nat \<Rightarrow> (string \<times> nat) cres" where
  "test_pattern rnd doc pos pattern_len k =
     (if pos \<ge> 0 then
        if pos \<le> strlen doc then Inr (take (nat pattern_len) (drop (nat pos) doc), k) else Inl OutOfBounds
      else
        c_bind (generate_random_word rnd 0 pattern_len (replicate (nat (pattern_len + 1)) NUL, k)) (\<lambda>(p, k).
        c_bind (arr_set p (pattern_len - 1) (CHR ''!'')) (\<lambda>p. Inr (takeWhile (\<lambda>c. c \<noteq> NUL) p, k))))"

definition test_match_at_pos ::
  "(nat \<Rightarrow> int) \<Rightarrow> matcher option \<Rightarrow> string \<Rightarrow> int \<Rightarrow> int \<Rightarrow> int \<Rightarrow> bloom_filter option \<Rightarrow> nat \<Rightarrow> nat cres" where
  "test_match_at_pos rnd matchFunc doc pos expected_n_matches pattern_len bf k =
     c_bind (test_pattern rnd doc pos pattern_len k) (\<lambda>(p, k).
     c_bind (run_match matchFunc bf p doc) (\<lambda>(n_matches, first_match_ind).
     c_bind (if expected_n_matches \<ge> 0 then c_assert (n_matches = expected_n_matches) else Inr ()) (\<lambda>_.
     c_bind (if expected_n_matches \<noteq> 0
       then (case first_match_ind of None \<Rightarrow> Inl Uninitialised | Some i \<Rightarrow> c_assert (i = pos))
       else Inr ()) (\<lambda>_. Inr k))))"

definition naive_matcher :: matcher where
  "naive_matcher p doc = Inr (naive_substring_match p doc)"

text \<open>The loop for the worst case, the same in \<open>test_naive\<close> and \<open>test_rk\<close>: the document is all \<open>a\<close>, but for a \<open>b\<close> that ends the
  pattern.\<close>

definition worst_case :: "(nat \<Rightarrow> int) \<Rightarrow> matcher \<Rightarrow> int \<Rightarrow> int \<Rightarrow> nat \<Rightarrow> nat cres" where
  "worst_case rnd f test_pattern_len test_document_len k =
     c_bind (c_for 0 100 (\<lambda>count (doc, k).
         if test_document_len - test_pattern_len = 0 then Inl DivByZero
         else let pos = rnd k smod (test_document_len - test_pattern_len) in
           c_bind (arr_set doc (pos + test_pattern_len - 1) (CHR ''b'')) (\<lambda>doc.
           c_bind (test_match_at_pos rnd (Some f) doc pos 1 test_pattern_len None (Suc k)) (\<lambda>k.
           c_bind (arr_set doc (pos + test_pattern_len - 1) (CHR ''a'')) (\<lambda>doc. Inr (doc, k)))))
       (replicate (nat test_document_len) (CHR ''a''), k)) (\<lambda>(doc, k). Inr k)"

definition test_naive :: "(nat \<Rightarrow> int) \<Rightarrow> int \<Rightarrow> int \<Rightarrow> nat \<Rightarrow> nat cres" where
  "test_naive rnd test_pattern_len test_document_len k =
     (let doc = ''abracadabra''; short_pattern_len = 3 in
      c_bind (test_match_at_pos rnd (Some naive_matcher) doc 0 2 short_pattern_len None k) (\<lambda>k.
      c_bind (test_match_at_pos rnd (Some naive_matcher) doc 6 1 short_pattern_len None k) (\<lambda>k.
      c_bind (c_assert (fst (naive_substring_match ''aaa'' doc) = 0)) (\<lambda>_.
      worst_case rnd naive_matcher test_pattern_len test_document_len k))))"

section \<open>The tests of the hash and of the filter\<close>

record reference =
  rkhash_init_1 :: "string \<Rightarrow> int \<Rightarrow> (int \<times> int) cres"
  rkhash_next_1 :: "int \<Rightarrow> int \<Rightarrow> char \<Rightarrow> char \<Rightarrow> int"
  bloom_init_1 :: "int \<Rightarrow> bloom_filter cres"
  bloom_add_1 :: "bloom_filter \<Rightarrow> int \<Rightarrow> bloom_filter cres"
  rk_create_doc_bloom_1 :: "int \<Rightarrow> string \<Rightarrow> int \<Rightarrow> bloom_filter cres"

definition test_rkhash :: "reference \<Rightarrow> int \<Rightarrow> string \<Rightarrow> unit cres" where
  "test_rkhash R pattern_len doc =
     c_bind (rkhash_init doc pattern_len) (\<lambda>(hash, h).
     c_bind (rkhash_init_1 R doc pattern_len) (\<lambda>(hash1, h1).
     c_bind (c_assert (hash = hash1)) (\<lambda>_.
     c_bind (c_for pattern_len (strlen doc) (\<lambda>i (hash, hash1).
         c_bind (cstr_at doc (i - pattern_len)) (\<lambda>prev.
         c_bind (cstr_at doc i) (\<lambda>next.
         let hash = rkhash_next hash h prev next; hash1 = rkhash_next_1 R hash1 h prev next in
         c_bind (c_assert (hash = hash1)) (\<lambda>_. Inr (hash, hash1))))) (hash, hash1)) (\<lambda>_. Inr ()))))"

definition test_rk :: "(nat \<Rightarrow> int) \<Rightarrow> reference \<Rightarrow> int \<Rightarrow> int \<Rightarrow> nat \<Rightarrow> nat cres" where
  "test_rk rnd R test_pattern_len test_document_len k =
     (let doc = ''abracadabra''; short_pattern_len = 3 in
      c_bind (test_rkhash R short_pattern_len doc) (\<lambda>_.
      c_bind (rk_substring_match ''aaa'' doc) (\<lambda>(n_matches, pos).
      c_bind (c_assert (n_matches = 0)) (\<lambda>_.
      worst_case rnd rk_substring_match test_pattern_len test_document_len k))))"

definition compare_bits :: "int \<Rightarrow> bloom_filter \<Rightarrow> bloom_filter \<Rightarrow> unit cres" where
  "compare_bits n bf bf1 = c_for 0 n (\<lambda>i _.
     c_bind (bloom_bit_at_pos bf i) (\<lambda>b. c_bind (bloom_bit_at_pos bf1 i) (\<lambda>b1. c_assert (b = b1)))) ()"

definition test_bloom :: "(nat \<Rightarrow> int) \<Rightarrow> reference \<Rightarrow> nat \<Rightarrow> nat cres" where
  "test_bloom rnd R k =
     (let small = 80; large = 8000; n_inserted = large sdiv 10; x = rnd k smod 100 in
      c_bind (bloom_init small) (\<lambda>bf. c_bind (bloom_init_1 R small) (\<lambda>bf1.
      c_bind (bloom_add bf x) (\<lambda>bf. c_bind (bloom_add_1 R bf1 x) (\<lambda>bf1.
      c_bind (compare_bits small bf bf1) (\<lambda>_.
      c_bind (c_bind (bloom_query bf x) c_assert) (\<lambda>_.
      c_bind (bloom_init large) (\<lambda>bf. c_bind (bloom_init_1 R large) (\<lambda>bf1.
      c_bind (c_for 0 n_inserted (\<lambda>i (bf, bf1, test_numbers, k).
          let x = push_bit 31 (rnd k) OR rnd (Suc k) in
          c_bind (arr_set test_numbers i x) (\<lambda>test_numbers.
          c_bind (bloom_add bf x) (\<lambda>bf. c_bind (bloom_add_1 R bf1 x) (\<lambda>bf1.
          Inr (bf, bf1, test_numbers, Suc (Suc k))))))
        (bf, bf1, replicate (nat n_inserted) 0, Suc k)) (\<lambda>(bf, bf1, test_numbers, k).
      c_bind (c_for 0 n_inserted (\<lambda>i _.
          c_bind (arr_at test_numbers i) (\<lambda>x. c_bind (bloom_query bf x) c_assert)) ()) (\<lambda>_.
      c_bind (compare_bits large bf bf1) (\<lambda>_. Inr k))))))))))))"

definition test_rk_bloom :: "(nat \<Rightarrow> int) \<Rightarrow> (nat \<Rightarrow> char) \<Rightarrow> reference \<Rightarrow> int \<Rightarrow> int \<Rightarrow> nat \<Rightarrow> nat cres" where
  "test_rk_bloom rnd garbage R test_pattern_len test_document_len k =
     (let doc = ''123 456 789''; pattern = ''456''; small = 80 in
      c_bind (rk_create_doc_bloom (strlen pattern) doc small) (\<lambda>bf.
      c_bind (rk_create_doc_bloom_1 R (strlen pattern) doc small) (\<lambda>bf1.
      c_bind (compare_bits small bf bf1) (\<lambda>_.
      c_bind (rk_substring_match_using_bloom pattern doc bf None) (\<lambda>(n_matches, pos).
      c_bind (case pos of None \<Rightarrow> Inl Uninitialised | Some i \<Rightarrow> c_assert (i = 4)) (\<lambda>_.
      c_bind (generate_random_document rnd garbage test_document_len k) (\<lambda>(doc, k).
      let bloom_size = s32 (test_document_len * 10) in
      c_bind (rk_create_doc_bloom test_pattern_len doc bloom_size) (\<lambda>bf.
      c_bind (rk_create_doc_bloom_1 R test_pattern_len doc bloom_size) (\<lambda>bf1.
      c_bind (compare_bits bloom_size bf bf1) (\<lambda>_.
      c_for 0 100 (\<lambda>count k.
        if rnd k smod 10 \<ge> 1 then test_match_at_pos rnd None doc (- 1) 0 test_pattern_len (Some bf) (Suc k)
        else if test_document_len - test_pattern_len = 0 then Inl DivByZero
        else test_match_at_pos rnd None doc (rnd (Suc k) smod (test_document_len - test_pattern_len)) 1
          test_pattern_len (Some bf) (Suc (Suc k))) k))))))))))"

section \<open>The program\<close>

record rk_test_args =
  which_test :: algo_type
  pattern_len :: int
  document_len :: int
  seed :: int

text \<open>One turn of the option loop; \<open>time\<close> is the clock.\<close>

definition rk_test_option :: "int \<Rightarrow> char \<times> string \<Rightarrow> rk_test_args \<Rightarrow> rk_test_args cres" where
  "rk_test_option time opt a =
     (case opt of (c, optarg) \<Rightarrow>
      if c = CHR ''a'' then
        if strcmp optarg ''naive'' = 0 then Inr (a\<lparr>which_test := Naive\<rparr>)
        else if strcmp optarg ''rk'' = 0 then Inr (a\<lparr>which_test := RK\<rparr>)
        else if strcmp optarg ''bloom'' = 0 then Inr (a\<lparr>which_test := Bloom\<rparr>)
        else if strcmp optarg ''rkbloom'' = 0 then Inr (a\<lparr>which_test := RKBloom\<rparr>)
        else Inl (Exit 1)
      else if c = CHR ''m'' then Inr (a\<lparr>pattern_len := atoi optarg\<rparr>)
      else if c = CHR ''n'' then Inr (a\<lparr>document_len := atoi optarg\<rparr>)
      else if c = CHR ''s'' then Inr (a\<lparr>seed := atoi optarg mod 2 ^ 32\<rparr>)
      else if c = CHR ''r'' then Inr (a\<lparr>seed := time mod 2 ^ 32\<rparr>)
      else Inl (Exit 1))"

fun rk_test_options :: "int \<Rightarrow> (char \<times> string) list \<Rightarrow> rk_test_args \<Rightarrow> rk_test_args cres" where
  "rk_test_options time [] a = Inr a"
| "rk_test_options time (opt # opts) a = c_bind (rk_test_option time opt a) (rk_test_options time opts)"

definition default_args :: rk_test_args where
  "default_args = \<lparr>which_test = All, pattern_len = 800, document_len = 100000, seed = 42\<rparr>"

text \<open>The tests that the arguments ask for; \<open>random s\<close> are the numbers of \<open>rand\<close> after \<open>srand(s)\<close>.\<close>

definition run_tests :: "(nat \<Rightarrow> int) \<Rightarrow> (nat \<Rightarrow> char) \<Rightarrow> reference \<Rightarrow> rk_test_args \<Rightarrow> nat cres" where
  "run_tests rnd garbage R a =
     (let m = pattern_len a; n = document_len a; asked = (\<lambda>t. which_test a = t \<or> which_test a = All) in
      c_bind (if asked Naive then test_naive rnd m n 0 else Inr 0) (\<lambda>k.
      c_bind (if asked RK then test_rk rnd R m n k else Inr k) (\<lambda>k.
      c_bind (if asked Bloom then test_bloom rnd R k else Inr k) (\<lambda>k.
      if asked RKBloom then test_rk_bloom rnd garbage R m n k else Inr k))))"

definition rkgrep_test_main ::
  "(int \<Rightarrow> nat \<Rightarrow> int) \<Rightarrow> int \<Rightarrow> (nat \<Rightarrow> char) \<Rightarrow> reference \<Rightarrow> (char \<times> string) list \<Rightarrow> int cres" where
  "rkgrep_test_main random time garbage R opts =
     c_bind (rk_test_options time opts default_args) (\<lambda>a.
     c_bind (run_tests (random (seed a)) garbage R a) (\<lambda>_. Inr 0))"

section \<open>What the reference computes\<close>

definition filter_is :: "int \<Rightarrow> nat set \<Rightarrow> bloom_filter \<Rightarrow> bool" where
  "filter_is n S f \<longleftrightarrow> bloom_wf f \<and> bsz f = n \<and> (\<forall>q < nat n. bit_set f q \<longleftrightarrow> q \<in> S)"

definition doc_bits :: "nat \<Rightarrow> string \<Rightarrow> int \<Rightarrow> nat set" where
  "doc_bits m doc n = (\<Union>i \<in> {..length doc - m}. bloom_positions n (rk_hash (take m (drop i doc))) 0)"

definition reference_ok :: "reference \<Rightarrow> bool" where
  "reference_ok R \<longleftrightarrow>
     (\<forall>buf m. ascii buf \<and> m \<le> length buf \<longrightarrow> (\<exists>h1. rkhash_init_1 R buf (int m) = Inr (rk_hash (take m buf), h1))) \<and>
     (\<forall>l w r. ascii (l # w @ [r]) \<longrightarrow>
        rkhash_next_1 R (rk_hash (l # w)) (256 ^ Suc (length w) mod PRIME) l r = rk_hash (w @ [r])) \<and>
     (\<forall>n. 0 < n \<and> n mod 8 = 0 \<longrightarrow> (\<exists>f. bloom_init_1 R n = Inr f \<and> filter_is n {} f)) \<and>
     (\<forall>f n S x. filter_is n S f \<and> 0 \<le> x \<longrightarrow>
        (\<exists>f'. bloom_add_1 R f x = Inr f' \<and> filter_is n (S \<union> bloom_positions n x 0) f')) \<and>
     (\<forall>m doc n. ascii doc \<and> 0 < m \<and> m \<le> length doc \<and> length doc < 2 ^ 31 \<and> 0 < n \<and> n mod 8 = 0 \<longrightarrow>
        (\<exists>f. rk_create_doc_bloom_1 R (int m) doc n = Inr f \<and> filter_is n (doc_bits m doc n) f))"

text \<open>The functions of bloom.c and rkgrep.c keep the same contract.\<close>

lemma bloom_init_is:
  assumes "0 < n" "n mod 8 = 0"
  shows "\<exists>f. bloom_init n = Inr f \<and> filter_is n {} f"
proof -
  obtain f where "bloom_init n = Inr f" "bloom_wf f" "bsz f = n" "\<And>q. q < nat n \<Longrightarrow> \<not> bit_set f q"
    using bloom_init_empty [OF assms] by blast
  then show ?thesis by (simp add: filter_is_def)
qed

lemma bloom_add_is:
  assumes "filter_is n S f" "0 \<le> x"
  shows "\<exists>f'. bloom_add f x = Inr f' \<and> filter_is n (S \<union> bloom_positions n x 0) f'"
proof -
  have f: "bloom_wf f" "bsz f = n" using assms(1) by (simp_all add: filter_is_def)
  obtain f' where "bloom_add f x = Inr f'" "bloom_wf f'" "bsz f' = n"
      "\<And>q. q < nat n \<Longrightarrow> bit_set f' q \<longleftrightarrow> bit_set f q \<or> q \<in> bloom_positions n x 0"
    using bloom_add_bits [OF f(1) assms(2)] unfolding f(2) by blast
  then show ?thesis using assms(1) by (simp add: filter_is_def)
qed

lemma bloom_query_is:
  assumes "filter_is n S f" "0 \<le> x" "bloom_positions n x 0 \<subseteq> S"
  shows "bloom_query f x = Inr True"
proof -
  have f: "bloom_wf f" "bsz f = n" "\<forall>q < nat n. bit_set f q \<longleftrightarrow> q \<in> S" using assms(1) by (simp_all add: filter_is_def)
  then show ?thesis using bloom_query_bits [OF f(1) assms(2)] bloom_positions_bound [OF f(1)] assms(3) by auto
qed

lemma create_doc_is:
  assumes "ascii doc" "0 < m" "m \<le> length doc" "length doc < 2 ^ 31" "0 < n" "n mod 8 = 0"
  shows "\<exists>f. rk_create_doc_bloom (int m) doc n = Inr f \<and> filter_is n (doc_bits m doc n) f"
proof -
  obtain f where f: "bloom_init n = Inr f" "filter_is n {} f" using bloom_init_is [OF assms(5,6)] by blast
  let ?hs = "map (window_hash doc m) [0..<length doc - m + 1]"
  have w: "bloom_wf f" "bsz f = n" using f(2) by (simp_all add: filter_is_def)
  have "\<forall>y \<in> set ?hs. 0 \<le> y" by auto
  from bloom_add_all_bits [OF w(1) this] obtain g where g: "bloom.add_all f ?hs = Inr g" "bloom_wf g" "bsz g = n"
      "\<forall>q < nat n. bit_set g q \<longleftrightarrow> bit_set f q \<or> (\<exists>y \<in> set ?hs. q \<in> bloom_positions n y 0)"
    unfolding w(2) by blast
  have "(\<exists>y \<in> set ?hs. q \<in> bloom_positions n y 0) \<longleftrightarrow> q \<in> doc_bits m doc n" for q
    by (auto simp: doc_bits_def window_hash_def less_Suc_eq_le simp del: upt_Suc)
  then have "filter_is n (doc_bits m doc n) g" using g(2-4) f(2) by (simp add: filter_is_def)
  then show ?thesis using g(1) f(1) rk_create_doc_bloom_adds [OF assms(1-4)] by simp
qed

lemma reference_exists: "reference_ok \<lparr>rkhash_init_1 = rkhash_init, rkhash_next_1 = rkhash_next, bloom_init_1 = bloom_init,
  bloom_add_1 = bloom_add, rk_create_doc_bloom_1 = rk_create_doc_bloom\<rparr>"
proof -
  have next_ok: "rkhash_next (rk_hash (l # w)) (256 ^ Suc (length w) mod PRIME) l r = rk_hash (w @ [r])"
    if "ascii (l # w @ [r])" for l w r
    using that by (intro rkhash_next_slides) (auto simp: ascii_def)
  show ?thesis unfolding reference_ok_def reference.simps
  proof (intro conjI allI impI; (elim conjE)?)
    show "\<exists>h1. rkhash_init buf (int m) = Inr (rk_hash (take m buf), h1)" if "ascii buf" "m \<le> length buf" for buf m
      using rkhash_init_prefix that by blast
  qed (simp_all add: next_ok [simplified] bloom_init_is bloom_add_is create_doc_is)
qed

text \<open>Filters with the same bits pass the comparison.\<close>

lemma compare_bits_same:
  assumes "filter_is n S f" "filter_is n S g"
  shows "compare_bits n f g = Inr ()"
proof -
  have f: "bloom_wf f" "bsz f = n" and g: "bloom_wf g" "bsz g = n" using assms by (simp_all add: filter_is_def)
  have b: "\<exists>u. c_bind (bloom_bit_at_pos f i) (\<lambda>b. c_bind (bloom_bit_at_pos g i) (\<lambda>b1. c_assert (b = b1))) = Inr u \<and> True"
    if "0 \<le> i" "i < n" for i
  proof -
    have q: "int (nat i) = i" "nat i < nat n" using that by simp_all
    show ?thesis using bloom_bit_at_pos_ok [OF f(1), of "nat i"] bloom_bit_at_pos_ok [OF g(1), of "nat i"] assms q
      by (simp add: f g filter_is_def)
  qed
  have "0 \<le> n" using bloom_wfD(1) [OF f(1)] f(2) by simp
  then have "\<exists>u. compare_bits n f g = Inr u \<and> True" unfolding compare_bits_def by (intro c_for_inv) (use b in auto)
  then show ?thesis by simp
qed

section \<open>Random text\<close>

definition rand_range :: "(nat \<Rightarrow> int) \<Rightarrow> bool" where
  "rand_range rnd \<longleftrightarrow> (\<forall>k. 0 \<le> rnd k \<and> rnd k < 2 ^ 31)"

definition lower :: "char \<Rightarrow> bool" where
  "lower c \<longleftrightarrow> 97 \<le> char_val c \<and> char_val c \<le> 122"

lemma lower_random: "rand_range rnd \<Longrightarrow> lower (char_of (97 + rnd k smod 26))"
proof -
  assume "rand_range rnd"
  then have "0 \<le> rnd k smod 26" "rnd k smod 26 < 26" by (simp_all add: rand_range_def smod_nonneg)
  then show ?thesis by (simp add: lower_def char_val_char_of)
qed

lemma lower_not: "lower c \<Longrightarrow> c \<noteq> NUL" "lower c \<Longrightarrow> c \<noteq> CHR ''!''"
  by (auto simp: lower_def char_val_def)

lemma lower_ascii: "\<forall>c \<in> set s. lower c \<Longrightarrow> ascii s"
  by (force simp: ascii_def lower_def)

lemma nth_set_int: "0 \<le> i \<Longrightarrow> nat i < length xs \<Longrightarrow> arr_set xs i v = Inr (xs[nat i := v])"
  by (simp add: arr_set_def nat_less_iff)

lemma random_word:
  assumes r: "rand_range rnd" and n: "off + n < length s"
  shows "\<exists>buf' k'. generate_random_word rnd (int off) (int n) (s, k) = Inr (buf', k') \<and> length buf' = length s \<and>
    (\<forall>j < off. buf' ! j = s ! j) \<and> (\<forall>j. off \<le> j \<and> j < off + n \<longrightarrow> lower (buf' ! j)) \<and> buf' ! (off + n) = NUL"
proof -
  let ?P = "\<lambda>i (b, k' :: nat). length b = length s \<and> (\<forall>j < off. b ! j = s ! j) \<and>
    (\<forall>j. off \<le> j \<and> j < off + nat i \<longrightarrow> lower (b ! j))"
  let ?body = "\<lambda>i (b, k). c_bind (arr_set b (int off + i) (char_of (97 + rnd k smod 26))) (\<lambda>b. Inr (b, Suc k))"
  have "\<exists>st. c_for 0 (int n) ?body (s, k) = Inr st \<and> ?P (int n) st"
  proof (rule c_for_inv)
    fix i st assume i: "0 \<le> i" "i < int n" and st: "?P i st"
    obtain b k' where b: "st = (b, k')" by (cases st)
    have w: "arr_set b (int off + i) c = Inr (b[off + nat i := c])" for c
      using i n st b by (simp add: nth_set_int nat_add_distrib)
    have "lower (b[off + nat i := char_of (97 + rnd k' smod 26)] ! j)" if "off \<le> j" "j < off + nat (i + 1)" for j
      using that st b i n lower_random [OF r] by (cases "j = off + nat i") (auto simp: nat_add_distrib)
    then show "\<exists>s'. ?body i st = Inr s' \<and> ?P (i + 1) s'"
      using st by (simp add: b w)
  qed auto
  then obtain b k' where b: "c_for 0 (int n) ?body (s, k) = Inr (b, k')" "?P (int n) (b, k')" by fastforce
  have "arr_set b (int off + int n) NUL = Inr (b[off + n := NUL])" using b(2) n by (simp add: nth_set_int nat_add_distrib)
  then show ?thesis using b n by (auto simp: generate_random_word_def)
qed

lemma generate_loop_ok:
  assumes "rand_range rnd" "length (fst st) = Suc len" "i \<le> len" "\<forall>j < i. lower (fst st ! j)"
  shows "\<exists>buf k. generate_loop rnd (int len) (int i) st = Inr (buf, k) \<and> length buf = Suc len \<and> (\<forall>j < len. lower (buf ! j))"
  using assms(2-)
proof (induction "len - i" arbitrary: i st rule: less_induct)
  case less
  show ?case
  proof (cases "i = len")
    case True
    then show ?thesis using less.prems by (cases st) (simp add: generate_loop.simps)
  next
    case False
    define w where "w = next_word_len (rnd (snd st)) (int len - int i)"
    define n where "n = nat w"
    have wp: "0 < w" using next_word_len_pos False less.prems(2) by (simp add: w_def)
    have "w \<le> int len - int i" using False less.prems(2) by (auto simp: w_def next_word_len_def Let_def)
    then have n: "w = int n" "0 < n" "i + n \<le> len" using wp less.prems(2) by (auto simp: n_def)
    obtain b k where b: "generate_random_word rnd (int i) (int n) (fst st, Suc (snd st)) = Inr (b, k)" "length b = Suc len"
        "\<forall>j < i. b ! j = fst st ! j" "\<forall>j. i \<le> j \<and> j < i + n \<longrightarrow> lower (b ! j)"
      using random_word [OF assms(1), of i n "fst st" "Suc (snd st)"] n less.prems(1) by auto
    have low: "\<forall>j < i + n. lower (b ! j)" using b(3,4) less.prems(3) by (metis not_le_imp_less)
    show ?thesis
    proof (cases "i + n = len")
      case True
      then have "generate_loop rnd (int len) (int i) st = Inr (b, k)"
        using False less.prems(2) b(1) by (subst generate_loop.simps) (simp add: n(1) flip: w_def)
      then show ?thesis using b(2) low True by blast
    next
      case F: False
      let ?b = "b[i + n := CHR '' '']"
      have "generate_loop rnd (int len) (int i) st = generate_loop rnd (int len) (int (i + n)) (?b, k)"
        using False F less.prems(2) b(1,2) n by (subst generate_loop.simps) (simp add: nth_set_int nat_add_distrib n(1) flip: w_def)
      then show ?thesis using less.hyps [of "i + n" "(?b, k)"] n F b(2) low by simp
    qed
  qed
qed

lemma takeWhile_upto: "n < length xs \<Longrightarrow> xs ! n = c \<Longrightarrow> \<forall>j < n. xs ! j \<noteq> c \<Longrightarrow> takeWhile (\<lambda>x. x \<noteq> c) xs = take n xs"
  by (metis (mono_tags, lifting) takeWhile_eq_take_P_nth)

lemma random_document:
  assumes "rand_range rnd"
  shows "\<exists>doc k'. generate_random_document rnd garbage (int len) k = Inr (doc, k') \<and> length doc = len \<and> (\<forall>c \<in> set doc. lower c)"
proof -
  have "length (fst (map garbage [0..<nat (int len + 1)], k)) = Suc len" by (simp add: nat_add_distrib)
  from generate_loop_ok [OF assms this, of 0] obtain b k' where b:
    "generate_loop rnd (int len) 0 (map garbage [0..<nat (int len + 1)], k) = Inr (b, k')" "length b = Suc len" "\<forall>j < len. lower (b ! j)"
    by auto
  have t: "takeWhile (\<lambda>c. c \<noteq> NUL) (b[len := NUL]) = take len b"
    using takeWhile_upto [of len "b[len := NUL]" NUL] b(2,3) lower_not(1) by simp
  have "\<forall>c \<in> set (take len b). lower c" using b(2,3) by (auto simp: in_set_conv_nth)
  then show ?thesis using b(1,2) by (simp add: generate_random_document_def t)
qed

section \<open>The matchers\<close>

lemma filter_single: "k < n \<Longrightarrow> (\<And>i. i < n \<Longrightarrow> P i \<longleftrightarrow> i = k) \<Longrightarrow> filter P [0..<n] = [k]"
proof (induction n)
  case (Suc n)
  show ?case
  proof (cases "k = n")
    case True
    have "filter P [0..<n] = []" using Suc.prems(2) True by (auto simp: filter_empty_conv)
    then show ?thesis using Suc.prems(2) [of n] True by simp
  next
    case False
    then show ?thesis using Suc by simp
  qed
qed simp

lemma unique_occurrence:
  assumes "0 < m" "pos + m \<le> length doc"
    and "\<And>i. i + m \<le> length doc \<Longrightarrow> take m (drop i doc) = take m (drop pos doc) \<Longrightarrow> i = pos"
  shows "occurrences (take m (drop pos doc)) doc = [pos]"
proof -
  let ?p = "take m (drop pos doc)"
  have len: "length ?p = m" and ne: "?p \<noteq> []" using assms(1,2) by auto
  have "take m (drop i doc) = ?p \<longleftrightarrow> i = pos" for i
    using assms(3) take_drop_fits [of ?p i doc] ne len by auto
  then have "filter (\<lambda>i. take m (drop i doc) = ?p) [0..<length doc] = [pos]"
    using assms(1,2) by (intro filter_single) auto
  then show ?thesis using ne len by (simp add: occurrences_def)
qed

lemma no_occurrence: "c \<in> set p \<Longrightarrow> c \<notin> set doc \<Longrightarrow> occurrences p doc = []"
proof -
  assume c: "c \<in> set p" "c \<notin> set doc"
  have "take (length p) (drop i doc) \<noteq> p" for i
    using c by (metis in_set_dropD in_set_takeD)
  then show ?thesis by (simp add: occurrences_def)
qed

text \<open>What both matchers do on documents in which no match is at the very end.\<close>

definition matcher_ok :: "matcher \<Rightarrow> bool" where
  "matcher_ok f \<longleftrightarrow> (\<forall>p doc. ascii p \<and> ascii doc \<and> length p < 2 ^ 31 \<and> length doc < 2 ^ 31 \<and>
     (\<forall>i \<in> set (occurrences p doc). i + length p < length doc) \<longrightarrow> f p doc = Inr (report (occurrences p doc)))"

lemma naive_matcher_ok: "matcher_ok naive_matcher"
  unfolding matcher_ok_def naive_matcher_def
  by (auto simp: naive_substring_match_eq ascii_cstring intro!: arg_cong [of _ _ report] filter_True)

lemma rk_matcher_ok: "matcher_ok rk_substring_match"
  by (auto simp: matcher_ok_def rk_substring_match_eq)

lemma match_found:
  assumes "cstring doc" "pos \<le> length doc" "run_match f bf (take m (drop pos doc)) doc = Inr (e, Some (int pos))"
  shows "test_match_at_pos rnd f doc (int pos) e (int m) bf k = Inr k"
  using assms by (simp add: test_match_at_pos_def test_pattern_def)

lemma worst_document:
  assumes "0 < m" "pos + m < n"
  defines "doc \<equiv> (replicate n (CHR ''a''))[pos + m - 1 := CHR ''b'']"
  shows "occurrences (take m (drop pos doc)) doc = [pos]"
proof (rule unique_occurrence)
  show "0 < m" "pos + m \<le> length doc" using assms by simp_all
  fix i assume i: "i + m \<le> length doc" "take m (drop i doc) = take m (drop pos doc)"
  have "take m (drop i doc) ! (m - 1) = doc ! (i + (m - 1))" "take m (drop pos doc) ! (m - 1) = doc ! (pos + (m - 1))"
    using i(1) assms(1,2) by (simp_all add: doc_def)
  moreover have "doc ! (pos + (m - 1)) = CHR ''b''" using assms(1,2) by (simp add: doc_def)
  ultimately have "doc ! (i + (m - 1)) = CHR ''b''" using i(2) by (simp only:)
  moreover have "i + (m - 1) < n" using i(1) assms(1) by (simp add: doc_def)
  ultimately show "i = pos" using assms(1) by (cases "i + m - 1 = pos + m - 1") (auto simp: doc_def)
qed

text \<open>One turn of the loop for the worst case.\<close>

lemma worst_step:
  assumes f: "matcher_ok f" and len: "0 < m" "pos + m < n" "n < 2 ^ 31"
  defines "doc \<equiv> (replicate n (CHR ''a''))[pos + m - 1 := CHR ''b'']"
  shows "test_match_at_pos rnd (Some f) doc (int pos) 1 (int m) None k = Inr k"
proof -
  note o = worst_document [OF len(1,2), folded doc_def]
  have a: "ascii doc"
    using set_update_subset_insert [of "replicate n (CHR ''a'')" "pos + m - 1" "CHR ''b''"] by (auto simp: doc_def ascii_def char_val_def)
  then have "ascii (take m (drop pos doc))" by (auto simp: ascii_def dest: in_set_takeD in_set_dropD)
  moreover have l: "length doc = n" by (simp add: doc_def)
  ultimately have "f (take m (drop pos doc)) doc = Inr (1, int pos)"
    using f a o len unfolding matcher_ok_def by (simp add: report_def)
  then show ?thesis using ascii_cstring [OF a] len l by (intro match_found) (simp_all add: run_match_def)
qed

lemma worst_case_passes:
  assumes f: "matcher_ok f" and r: "rand_range rnd" and len: "0 < m" "m < n" "n < 2 ^ 31"
  shows "worst_case rnd f (int m) (int n) k = Inr (k + 100)"
proof -
  let ?as = "replicate n (CHR ''a'')"
  define body where "body = (\<lambda>(count :: int) (doc, k).
         if int n - int m = 0 then Inl DivByZero
         else let pos = rnd k smod (int n - int m) in
           c_bind (arr_set doc (pos + int m - 1) (CHR ''b'')) (\<lambda>doc.
           c_bind (test_match_at_pos rnd (Some f) doc pos 1 (int m) None (Suc k)) (\<lambda>k.
           c_bind (arr_set doc (pos + int m - 1) (CHR ''a'')) (\<lambda>doc. Inr (doc, k)))))"
  have step: "body i (?as, k) = Inr (?as, Suc k)" for i k
  proof -
    define pos where "pos = nat (rnd k smod (int n - int m))"
    have s: "0 \<le> rnd k smod (int n - int m)" "rnd k smod (int n - int m) < int n - int m"
      using r len by (simp_all add: rand_range_def smod_nonneg)
    then have p: "rnd k smod (int n - int m) = int pos" "pos + m < n" by (simp_all add: pos_def)
    define q where "q = pos + m - 1"
    have q: "int pos + int m - 1 = int q" "q < n" using len(1) p(2) by (simp_all add: q_def)
    have "?as[q := CHR ''a''] = ?as" using list_update_id [of ?as q] q(2) by (simp only: nth_replicate)
    moreover note worst_step [OF f len(1) p(2) len(3), of rnd "Suc k", folded q_def]
    ultimately show ?thesis using len q(2) by (simp add: body_def p(1) q(1) Let_def)
  qed
  have "\<exists>st. c_for 0 100 body (?as, k) = Inr st \<and> st = (?as, k + nat 100)"
    by (rule c_for_inv [where P = "\<lambda>i st. st = (?as, k + nat i)"]) (simp_all add: step nat_add_distrib)
  then have "c_for 0 100 body (?as, k) = Inr (?as, k + 100)" by simp
  then show ?thesis unfolding worst_case_def body_def [symmetric] nat_int by simp
qed

lemma small_matches: "naive_substring_match ''abr'' ''abracadabra'' = (2, 0)" "naive_substring_match ''dab'' ''abracadabra'' = (1, 6)"
  "naive_substring_match ''aaa'' ''abracadabra'' = (0, - 1)"
  by code_simp+

lemma test_naive_passes:
  assumes "rand_range rnd" "0 < m" "m < n" "n < 2 ^ 31"
  shows "test_naive rnd (int m) (int n) k = Inr (k + 100)"
  using match_found [of "''abracadabra''" 0 "Some naive_matcher" None 3 2 rnd k]
    match_found [of "''abracadabra''" 6 "Some naive_matcher" None 3 1 rnd k] worst_case_passes [OF naive_matcher_ok assms]
  by (simp add: test_naive_def run_match_def naive_matcher_def small_matches)

lemma abracadabra: "ascii ''abracadabra''" "ascii ''aaa''" "occurrences ''aaa'' ''abracadabra'' = []"
  by (simp_all add: ascii_def char_val_def) code_simp

lemma test_rkhash_passes:
  assumes R: "reference_ok R" and doc: "ascii doc" and m: "0 < m" "m \<le> length doc"
  shows "test_rkhash R (int m) doc = Inr ()"
proof -
  obtain h1 where h1: "rkhash_init_1 R doc (int m) = Inr (rk_hash (take m doc), h1)"
    using R doc m(2) unfolding reference_ok_def by blast
  have nx: "\<forall>l w r. ascii (l # w @ [r]) \<longrightarrow>
      rkhash_next_1 R (rk_hash (l # w)) (256 ^ Suc (length w) mod PRIME) l r = rk_hash (w @ [r])"
    using R unfolding reference_ok_def by blast
  note init = rkhash_init_prefix [OF m(2) doc]
  let ?h = "256 ^ m mod PRIME"
  let ?body = "\<lambda>i (hash, hash1). c_bind (cstr_at doc (i - int m)) (\<lambda>prev. c_bind (cstr_at doc i) (\<lambda>next.
         let hash = rkhash_next hash ?h prev next; hash1 = rkhash_next_1 R hash1 ?h prev next in
         c_bind (c_assert (hash = hash1)) (\<lambda>_. Inr (hash, hash1))))"
  let ?w = "\<lambda>i. rk_hash (take m (drop (nat (i - int m)) doc))"
  have "\<exists>st. c_for (int m) (int (length doc)) ?body (?w (int m), ?w (int m)) = Inr st \<and> st = (?w (int (length doc)), ?w (int (length doc)))"
  proof (rule c_for_inv [where P = "\<lambda>i st. st = (?w i, ?w i)"])
    fix i st assume i: "int m \<le> i" "i < int (length doc)" and st: "st = (?w i, ?w i)"
    define j where "j = nat (i - int m)"
    have ij: "i = int (j + m)" using i(1) by (simp add: j_def)
    have j: "j + m < length doc" using i ij by simp
    obtain m' where m': "m = Suc m'" using m(1) by (cases m) auto
    have w: "take m (drop j doc) = doc ! j # take m' (drop (Suc j) doc)"
        "take m (drop (Suc j) doc) = take m' (drop (Suc j) doc) @ [doc ! (j + m)]"
      using take_drop_Cons [of m j doc] take_Suc_drop_nth [of "Suc j" m' doc] j m' by simp_all
    have l: "length (take m' (drop (Suc j) doc)) = m'" using j m' by simp
    have "ascii (doc ! j # take m' (drop (Suc j) doc) @ [doc ! (j + m)])"
      using doc j by (auto simp: ascii_def dest: in_set_takeD in_set_dropD)
    from nx [rule_format, OF this]
    have n1: "rkhash_next_1 R (rk_hash (take m (drop j doc))) ?h (doc ! j) (doc ! (j + m)) = rk_hash (take m (drop (Suc j) doc))"
      unfolding l m' [symmetric] w [symmetric] .
    have n: "rkhash_next (rk_hash (take m (drop j doc))) ?h (doc ! j) (doc ! (j + m)) = rk_hash (take m (drop (Suc j) doc))"
      using rk_window_slide [OF m(1) j doc] .
    have c: "cstr_at doc (i - int m) = Inr (doc ! j)" "cstr_at doc i = Inr (doc ! (j + m))"
      using cstr_at_nth [of j doc] cstr_at_nth [OF j] j ij by simp_all
    have "nat (i + 1 - int m) = Suc j" using ij by simp
    then show "\<exists>s'. ?body i st = Inr s' \<and> s' = (?w (i + 1), ?w (i + 1))"
      using c n n1 by (simp add: st Let_def flip: j_def)
  qed (use m in simp_all)
  then show ?thesis using h1 init doc by (auto simp: test_rkhash_def ascii_cstring)
qed

lemma test_rk_passes:
  assumes "rand_range rnd" "reference_ok R" "0 < m" "m < n" "n < 2 ^ 31"
  shows "test_rk rnd R (int m) (int n) k = Inr (k + 100)"
  using test_rkhash_passes [OF assms(2) abracadabra(1), of 3] worst_case_passes [OF rk_matcher_ok assms(1,3-)]
    rk_substring_match_eq [OF abracadabra(2,1)]
  by (simp add: test_rk_def abracadabra(3) report_def)

section \<open>The filter\<close>

lemma reference_bloom:
  assumes "reference_ok R"
  shows "0 < n \<Longrightarrow> n mod 8 = 0 \<Longrightarrow> \<exists>f. bloom_init_1 R n = Inr f \<and> filter_is n {} f"
    "filter_is n S f \<Longrightarrow> 0 \<le> x \<Longrightarrow> \<exists>f'. bloom_add_1 R f x = Inr f' \<and> filter_is n (S \<union> bloom_positions n x 0) f'"
    "ascii doc \<Longrightarrow> 0 < m \<Longrightarrow> m \<le> length doc \<Longrightarrow> length doc < 2 ^ 31 \<Longrightarrow> 0 < n \<Longrightarrow> n mod 8 = 0 \<Longrightarrow>
      \<exists>f. rk_create_doc_bloom_1 R (int m) doc n = Inr f \<and> filter_is n (doc_bits m doc n) f"
proof -
  show "0 < n \<Longrightarrow> n mod 8 = 0 \<Longrightarrow> \<exists>f. bloom_init_1 R n = Inr f \<and> filter_is n {} f"
    using assms unfolding reference_ok_def by simp
  show "filter_is n S f \<Longrightarrow> 0 \<le> x \<Longrightarrow> \<exists>f'. bloom_add_1 R f x = Inr f' \<and> filter_is n (S \<union> bloom_positions n x 0) f'"
    using assms unfolding reference_ok_def by simp
  show "ascii doc \<Longrightarrow> 0 < m \<Longrightarrow> m \<le> length doc \<Longrightarrow> length doc < 2 ^ 31 \<Longrightarrow> 0 < n \<Longrightarrow> n mod 8 = 0 \<Longrightarrow>
      \<exists>f. rk_create_doc_bloom_1 R (int m) doc n = Inr f \<and> filter_is n (doc_bits m doc n) f"
    using assms unfolding reference_ok_def by simp
qed

text \<open>The loop that fills both filters.\<close>

definition filled :: "int \<Rightarrow> int \<Rightarrow> nat \<Rightarrow> int \<Rightarrow> bloom_filter \<times> bloom_filter \<times> int list \<times> nat \<Rightarrow> bool" where
  "filled n cap k0 i st = (case st of (f, g, xs, k) \<Rightarrow> \<exists>S. filter_is n S f \<and> filter_is n S g \<and> length xs = nat cap \<and>
     k = k0 + 2 * nat i \<and>
     (\<forall>j < nat i. 0 \<le> xs ! j \<and> bloom_positions n (xs ! j) 0 \<subseteq> S))"

lemma filled_step:
  assumes R: "reference_ok R" and st: "filled n cap k0 i (f, g, xs, k)" and i: "0 \<le> i" "i < cap" and x: "0 \<le> x"
  shows "\<exists>f' g'. bloom_add f x = Inr f' \<and> bloom_add_1 R g x = Inr g' \<and> arr_set xs i x = Inr (xs[nat i := x]) \<and>
    filled n cap k0 (i + 1) (f', g', xs[nat i := x], Suc (Suc k))"
proof -
  obtain S where S: "filter_is n S f" "filter_is n S g" "length xs = nat cap"
      "\<forall>j < nat i. 0 \<le> xs ! j \<and> bloom_positions n (xs ! j) 0 \<subseteq> S"
    using st by (auto simp: filled_def)
  obtain f' g' where fg: "bloom_add f x = Inr f'" "bloom_add_1 R g x = Inr g'"
      "filter_is n (S \<union> bloom_positions n x 0) f'" "filter_is n (S \<union> bloom_positions n x 0) g'"
    using bloom_add_is [OF S(1) x] reference_bloom(2) [OF R S(2) x] by blast
  have "0 \<le> xs[nat i := x] ! j \<and> bloom_positions n (xs[nat i := x] ! j) 0 \<subseteq> S \<union> bloom_positions n x 0" if "j < nat (i + 1)" for j
    using that S(3,4) i x by (cases "j = nat i") (auto simp: nat_add_distrib less_Suc_eq)
  then have "filled n cap k0 (i + 1) (f', g', xs[nat i := x], Suc (Suc k))" using fg(3,4) S(3) st i(1) by (auto simp: filled_def nat_add_distrib)
  then show ?thesis using fg(1,2) S(3) i by (simp add: nth_set_int)
qed

lemma test_bloom_passes:
  assumes R: "reference_ok R" and r: "rand_range rnd"
  shows "test_bloom rnd R k = Inr (k + 1601)"
proof -
  have x: "0 \<le> rnd k smod 100" and big: "0 \<le> push_bit 31 (rnd j) OR rnd (Suc j)" for j
    using r by (simp_all add: rand_range_def smod_nonneg)
  obtain f g where fg: "bloom_init 80 = Inr f" "bloom_init_1 R 80 = Inr g" "filter_is 80 {} f" "filter_is 80 {} g"
    using bloom_init_is [of 80] reference_bloom(1) [OF R, of 80] by auto
  obtain f' g' where fg': "bloom_add f (rnd k smod 100) = Inr f'" "bloom_add_1 R g (rnd k smod 100) = Inr g'"
      "filter_is 80 (bloom_positions 80 (rnd k smod 100) 0) f'" "filter_is 80 (bloom_positions 80 (rnd k smod 100) 0) g'"
    using bloom_add_is [OF fg(3) x] reference_bloom(2) [OF R fg(4) x] by auto
  have small: "compare_bits 80 f' g' = Inr ()" "bloom_query f' (rnd k smod 100) = Inr True"
    using compare_bits_same [OF fg'(3,4)] bloom_query_is [OF fg'(3) x] by simp_all
  obtain F G where FG: "bloom_init 8000 = Inr F" "bloom_init_1 R 8000 = Inr G" "filter_is 8000 {} F" "filter_is 8000 {} G"
    using bloom_init_is [of 8000] reference_bloom(1) [OF R, of 8000] by auto
  define body where "body = (\<lambda>i (bf, bf1, test_numbers, k).
          let x = push_bit 31 (rnd k) OR rnd (Suc k) in
          c_bind (arr_set test_numbers i x) (\<lambda>test_numbers.
          c_bind (bloom_add bf x) (\<lambda>bf. c_bind (bloom_add_1 R bf1 x) (\<lambda>bf1.
          Inr (bf, bf1, test_numbers, Suc (Suc k))))))"
  have "\<exists>st. c_for 0 800 body (F, G, replicate 800 0, Suc k) = Inr st \<and> filled 8000 800 (Suc k) 800 st"
  proof (rule c_for_inv [where P = "filled 8000 800 (Suc k)"])
    show "filled 8000 800 (Suc k) 0 (F, G, replicate 800 0, Suc k)" using FG(3,4) by (auto simp: filled_def)
    fix i st assume i: "0 \<le> i" "i < 800" and st: "filled 8000 800 (Suc k) i st"
    obtain a b xs j where s: "st = (a, b, xs, j)" by (cases st)
    show "\<exists>s'. body i st = Inr s' \<and> filled 8000 800 (Suc k) (i + 1) s'"
      using filled_step [OF R st [unfolded s] i big [of j]] by (auto simp: body_def s Let_def)
  qed simp
  then obtain F' G' xs k' where loop: "c_for 0 800 body (F, G, replicate 800 0, Suc k) = Inr (F', G', xs, k')"
      and "filled 8000 800 (Suc k) 800 (F', G', xs, k')" by (metis prod_cases4)
  then obtain S where S: "filter_is 8000 S F'" "filter_is 8000 S G'" "length xs = 800" "k' = k + 1601"
      "\<forall>j < 800. 0 \<le> xs ! j \<and> bloom_positions 8000 (xs ! j) 0 \<subseteq> S" by (auto simp: filled_def)
  have q: "\<exists>u. c_bind (arr_at xs i) (\<lambda>x. c_bind (bloom_query F' x) c_assert) = Inr u \<and> True" if "0 \<le> i" "i < 800" for i
  proof -
    have "nat i < 800" "arr_at xs i = Inr (xs ! nat i)" using that S(3) by (simp_all add: arr_at_def)
    then show ?thesis using bloom_query_is [OF S(1), of "xs ! nat i"] S(5) by simp
  qed
  have "\<exists>u. c_for 0 800 (\<lambda>i _. c_bind (arr_at xs i) (\<lambda>x. c_bind (bloom_query F' x) c_assert)) () = Inr u \<and> True"
    by (rule c_for_inv) (use q in auto)
  then have "c_for 0 800 (\<lambda>i _. c_bind (arr_at xs i) (\<lambda>x. c_bind (bloom_query F' x) c_assert)) () = Inr ()" by simp
  then show ?thesis
    using S(4) loop fg fg' small FG compare_bits_same [OF S(1,2)]
    unfolding test_bloom_def Let_def body_def [unfolded Let_def, symmetric] by simp
qed

section \<open>The matcher with the filter\<close>

lemma no_match_pattern:
  assumes r: "rand_range rnd" and m: "0 < m"
  shows "\<exists>p k'. test_pattern rnd doc (- 1) (int m) k = Inr (p, k') \<and> length p = m \<and> ascii p \<and> CHR ''!'' \<in> set p"
proof -
  obtain b k' where b: "generate_random_word rnd 0 (int m) (replicate (nat (int m + 1)) NUL, k) = Inr (b, k')"
      "length b = Suc m" "\<forall>j < m. lower (b ! j)" "b ! m = NUL"
    using random_word [OF r, of 0 m "replicate (nat (int m + 1)) NUL" k] by (auto simp: nat_add_distrib)
  let ?b = "b[m - 1 := CHR ''!'']"
  have w: "arr_set b (int m - 1) (CHR ''!'') = Inr ?b" using arr_set_nth [of "m - 1" b] b(2) m by (simp add: of_nat_diff)
  have nth: "?b ! j = (if j = m - 1 then CHR ''!'' else b ! j)" if "j < Suc m" for j using that b(2) by (simp add: nth_list_update)
  then have "\<forall>j < m. ?b ! j \<noteq> NUL" using b(3) lower_not(1) by simp
  then have t: "takeWhile (\<lambda>c. c \<noteq> NUL) ?b = take m ?b" using takeWhile_upto [of m ?b NUL] b(2,4) m nth [of m] by simp
  have "take m ?b ! (m - 1) = CHR ''!''" using nth m by simp
  then have "CHR ''!'' \<in> set (take m ?b)" using nth_mem [of "m - 1" "take m ?b"] m b(2) by simp
  moreover have "0 < char_val (take m ?b ! j)" if "j < m" for j
    using that nth b(3) by (cases "j = m - 1") (force simp: lower_def char_val_def)+
  then have "ascii (take m ?b)" using b(2) by (auto simp: ascii_def in_set_conv_nth)
  ultimately show ?thesis using b(1,2) w t by (simp add: test_pattern_def)
qed

definition windows_distinct :: "nat \<Rightarrow> string \<Rightarrow> bool" where
  "windows_distinct m doc \<longleftrightarrow> distinct (map (\<lambda>i. take m (drop i doc)) [0..<length doc - m + 1])"

lemma window_occurrence:
  assumes "windows_distinct m doc" "0 < m" "pos + m \<le> length doc"
  shows "occurrences (take m (drop pos doc)) doc = [pos]"
proof (rule unique_occurrence [OF assms(2,3)])
  fix i assume "i + m \<le> length doc" "take m (drop i doc) = take m (drop pos doc)"
  then show "i = pos" using assms by (auto simp: windows_distinct_def distinct_map inj_on_def simp del: upt_Suc)
qed

lemma small_doc: "ascii ''123 456 789''" "occurrences ''456'' ''123 456 789'' = [4]"
  by (simp add: ascii_def char_val_def) code_simp

lemma test_rk_bloom_passes:
  assumes R: "reference_ok R" and r: "rand_range rnd" and len: "0 < m" "m < n" "n mod 4 = 0" "10 * n < 2 ^ 31"
    and unique: "\<And>doc k'. generate_random_document rnd garbage (int n) k = Inr (doc, k') \<Longrightarrow> windows_distinct m doc"
  shows "\<exists>k'. test_rk_bloom rnd garbage R (int m) (int n) k = Inr k'"
proof -
  have p: "''456'' \<noteq> []" "ascii ''456''" "length ''456'' \<le> length ''123 456 789''" "strlen ''456'' = int 3"
    by (simp_all add: ascii_def char_val_def strlen_def)
  obtain f g where fg: "rk_create_doc_bloom 3 ''123 456 789'' 80 = Inr f" "rk_create_doc_bloom_1 R 3 ''123 456 789'' 80 = Inr g"
      "compare_bits 80 f g = Inr ()"
    using create_doc_is [OF small_doc(1), of 3 80] reference_bloom(3) [OF R small_doc(1), of 3 80] compare_bits_same by fastforce
  have small: "rk_substring_match_using_bloom ''456'' ''123 456 789'' f None = Inr (1, Some 4)"
    using rkbloom_finds [OF p(2) small_doc(1) p(1,3), of 80 None] fg(1) small_doc(2) by auto
  obtain doc k1 where doc: "generate_random_document rnd garbage (int n) k = Inr (doc, k1)" "length doc = n" "\<forall>c \<in> set doc. lower c"
    using random_document [OF r] by blast
  note a = lower_ascii [OF doc(3)] and u = unique [OF doc(1)]
  have sz: "s32 (int n * 10) = int (10 * n)" using len(4) by (simp add: s32_id)
  have m8: "int (10 * n) mod 8 = 0" "0 < int (10 * n)" using len(2,3) by (simp_all, presburger)
  obtain F G where FG: "rk_create_doc_bloom (int m) doc (int (10 * n)) = Inr F" "rk_create_doc_bloom_1 R (int m) doc (int (10 * n)) = Inr G"
      "compare_bits (int (10 * n)) F G = Inr ()"
    using create_doc_is [OF a len(1) _ _ m8(2,1)] reference_bloom(3) [OF R a len(1) _ _ m8(2,1)] compare_bits_same doc(2) len(2,4)
    by fastforce
  have find: "\<exists>first. rk_substring_match_using_bloom q doc F None = Inr (int (length (occurrences q doc)), first) \<and>
      (occurrences q doc \<noteq> [] \<longrightarrow> first = Some (int (hd (occurrences q doc))))" if "ascii q" "length q = m" for q
    using rkbloom_finds [OF that(1) a, of "int (10 * n)" None] that(2) FG(1) m8 doc(2) len by (auto split: if_splits)
  have none: "\<exists>k'. test_match_at_pos rnd None doc (- 1) 0 (int m) (Some F) j = Inr k'" for j
  proof -
    obtain q k' where q: "test_pattern rnd doc (- 1) (int m) j = Inr (q, k')" "length q = m" "ascii q" "CHR ''!'' \<in> set q"
      using no_match_pattern [OF r len(1)] by blast
    have "occurrences q doc = []" using no_occurrence [OF q(4)] doc(3) lower_not(2) by blast
    then show ?thesis using find [OF q(3,2)] q(1) by (auto simp: test_match_at_pos_def run_match_def)
  qed
  have one: "test_match_at_pos rnd None doc (rnd i smod (int n - int m)) 1 (int m) (Some F) j = Inr j" for i j
  proof -
    define pos where "pos = nat (rnd i smod (int n - int m))"
    have s: "0 \<le> rnd i smod (int n - int m)" "rnd i smod (int n - int m) < int n - int m"
      using r len by (simp_all add: rand_range_def smod_nonneg)
    then have p: "rnd i smod (int n - int m) = int pos" "pos + m < n" by (simp_all add: pos_def)
    have "ascii (take m (drop pos doc))" using a by (auto simp: ascii_def dest: in_set_takeD in_set_dropD)
    then have "rk_substring_match_using_bloom (take m (drop pos doc)) doc F None = Inr (1, Some (int pos))"
      using find [of "take m (drop pos doc)"] window_occurrence [OF u len(1)] p(2) doc(2) by auto
    then show ?thesis unfolding p(1) using p(2) doc(2) ascii_cstring [OF a] by (intro match_found) (simp_all add: run_match_def)
  qed
  have "\<exists>k'. c_for 0 100 (\<lambda>count k.
        if rnd k smod 10 \<ge> 1 then test_match_at_pos rnd None doc (- 1) 0 (int m) (Some F) (Suc k)
        else if int n - int m = 0 then Inl DivByZero
        else test_match_at_pos rnd None doc (rnd (Suc k) smod (int n - int m)) 1 (int m) (Some F) (Suc (Suc k))) k1 = Inr k' \<and> True"
    by (rule c_for_inv) (use none one len(2) in auto)
  then show ?thesis
    using fg small FG p(4) by (simp add: test_rk_bloom_def Let_def doc(1) sz)
qed

section \<open>The properties\<close>

text \<open>The number of the call of \<open>rand\<close> that starts the document of \<open>test_rk_bloom\<close>.\<close>

definition doc_start :: "rk_test_args \<Rightarrow> nat" where
  "doc_start a = (if which_test a = All then 1801 else 0)"

text \<open>C40: the tests of rkgrep.c and bloom.c pass, for every seed and every sensible pair of lengths: when the pattern is shorter than the
  document, the size of the filter (ten bits for a character) is a multiple of 8, the reference computes the
  polynomial hash and the bits of the ten hash functions, and no window occurs twice in the random document.\<close>

theorem rkgrep_test_passes:
  assumes "rk_test_options time opts default_args = Inr a" "pattern_len a = int m" "document_len a = int n"
    and "0 < m" "m < n" "n mod 4 = 0" "10 * n < 2 ^ 31" "reference_ok R" "rand_range (random (seed a))"
    and "\<And>doc k. generate_random_document (random (seed a)) garbage (int n) (doc_start a) = Inr (doc, k) \<Longrightarrow> windows_distinct m doc"
  shows "rkgrep_test_main random time garbage R opts = Inr 0"
proof -
  have n: "n < 2 ^ 31" using assms(7) by simp
  note t = test_naive_passes [OF assms(9,4,5) n] test_rk_passes [OF assms(9,8,4,5) n] test_bloom_passes [OF assms(8,9)]
    and b = test_rk_bloom_passes [OF assms(8,9,4-7), where garbage = garbage and k = "doc_start a", OF assms(10)]
  have "\<exists>k. run_tests (random (seed a)) garbage R a = Inr k"
    using t b assms(2,3) by (cases "which_test a") (auto simp: run_tests_def doc_start_def)
  then show ?thesis using assms(1) by (auto simp: rkgrep_test_main_def)
qed

lemma example_document: "generate_random_document (\<lambda>k. int (k mod 26)) (\<lambda>_. CHR ''x'') 8 0 = Inr (''bcdefhij'', 10)"
  by code_simp

lemma example_windows: "windows_distinct 4 ''bcdefhij''"
  by code_simp

lemma example_args: "rk_test_options 0 [(CHR ''a'', ''rkbloom''), (CHR ''m'', ''4''), (CHR ''n'', ''8'')] default_args =
  Inr \<lparr>which_test = RKBloom, pattern_len = 4, document_len = 8, seed = 42\<rparr>"
  by code_simp

theorem rkgrep_test_passes_witness:
  "rkgrep_test_main (\<lambda>s k. int (k mod 26)) 0 (\<lambda>_. CHR ''x'')
     \<lparr>rkhash_init_1 = rkhash_init, rkhash_next_1 = rkhash_next, bloom_init_1 = bloom_init, bloom_add_1 = bloom_add,
      rk_create_doc_bloom_1 = rk_create_doc_bloom\<rparr>
     [(CHR ''a'', ''rkbloom''), (CHR ''m'', ''4''), (CHR ''n'', ''8'')] = Inr 0"
proof (rule rkgrep_test_passes [where m = 4 and n = 8, OF example_args _ _ _ _ _ _ reference_exists])
  show "rand_range (\<lambda>k. int (k mod 26))" unfolding rand_range_def
  proof
    fix k :: nat
    have "int (k mod 26) < 26" by simp
    then show "0 \<le> int (k mod 26) \<and> int (k mod 26) < 2 ^ 31" by simp
  qed
  fix doc k
  assume "generate_random_document (\<lambda>k. int (k mod 26)) (\<lambda>_. CHR ''x'') (int 8)
    (doc_start \<lparr>which_test = RKBloom, pattern_len = 4, document_len = 8, seed = 42\<rparr>) = Inr (doc, k)"
  then show "windows_distinct 4 doc" using example_document example_windows by (simp add: doc_start_def)
qed simp_all

end
