(* ===== verification/BmGrep.thy ===== *)
theory BmGrep
  imports CPrelude
begin

text \<open>
  rklab/bmgrep.c: the two shift tables of the Boyer-Moore matcher and the matcher itself. Arrays
  returned by \<open>malloc\<close> have exactly the requested number of cells, so the read of \<open>delta2[patlen]\<close>
  is outside its array. What the functions print while debugging is not modelled. The outer loop
  of \<open>boyer_moore\<close> is a \<open>partial_function\<close>: \<open>None\<close> would be a run that does not end.
\<close>

section \<open>delta1\<close>

fun delta1_loop :: "char list \<Rightarrow> int \<Rightarrow> int \<Rightarrow> int list \<Rightarrow> int list cres" where
  "delta1_loop [] patlen index delta1 = Inr delta1"
| "delta1_loop (c # tmp) patlen index delta1 =
     (if c = NUL then Inr delta1
      else c_bind (arr_set delta1 (char_val c) (patlen - index - 1)) (\<lambda>delta1'.
        delta1_loop tmp patlen (index + 1) delta1'))"

definition init_delta1 :: "char list \<Rightarrow> int list cres" where
  "init_delta1 pattern =
     c_bind (delta1_loop pattern (strlen pattern) 0 (replicate 128 (- 1))) (\<lambda>delta1.
       Inr (map (\<lambda>d. if d = - 1 then strlen pattern else d) delta1))"

section \<open>delta2\<close>

definition rpr_inner :: "char list \<Rightarrow> nat \<Rightarrow> nat \<Rightarrow> int \<Rightarrow> int" where
  "rpr_inner pattern j i matchpos =
     fold (\<lambda>k matchpos. if pattern ! k = pattern ! i
                       then (if matchpos = - 1 then int k else matchpos) else - 1) [0..<j] matchpos"

definition find_rpr :: "char list \<Rightarrow> int \<Rightarrow> int" where
  "find_rpr pattern j =
     (let patlen = strlen pattern in
      if j < 0 \<or> j \<ge> patlen then - 1
      else if j = patlen - 1 then 1
      else fold (rpr_inner pattern (nat j)) [nat (j + 1)..<nat patlen] (- 1))"

definition init_delta2 :: "char list \<Rightarrow> int list" where
  "init_delta2 pattern =
     (let plen = strlen pattern in map (\<lambda>i. plen - find_rpr pattern (int i)) [0..<nat plen])"

section \<open>The matcher\<close>

text \<open>The inner loop returns \<open>found\<close>, \<open>i\<close>, \<open>j\<close> and the number of alignments.\<close>

fun bm_inner :: "char list \<Rightarrow> char list \<Rightarrow> int \<Rightarrow> nat \<Rightarrow> int \<Rightarrow> (bool \<times> int \<times> nat \<times> int) cres" where
  "bm_inner pattern doc i 0 n_aligns = Inr (True, i, 0, n_aligns)"
| "bm_inner pattern doc i (Suc j) n_aligns =
     c_bind (cstr_at doc i) (\<lambda>d. c_bind (cstr_at pattern (int (Suc j))) (\<lambda>p.
       if d = p then bm_inner pattern doc (i - 1) j (n_aligns + 1)
       else Inr (False, i, Suc j, n_aligns + 1)))"

definition bm_shift :: "char list \<Rightarrow> int list \<Rightarrow> int list \<Rightarrow> int \<Rightarrow> nat \<Rightarrow> int cres" where
  "bm_shift doc delta1 delta2 i j =
     c_bind (cstr_at doc i) (\<lambda>c. c_bind (arr_at delta1 (char_val c)) (\<lambda>d1.
       c_bind (arr_at delta2 (int j)) (\<lambda>d2. Inr (i + (if d1 > d2 then d1 else d2)))))"

partial_function (option) bm_loop ::
  "char list \<Rightarrow> char list \<Rightarrow> int list \<Rightarrow> int list \<Rightarrow> int \<Rightarrow> int \<Rightarrow> (int \<times> int) cres option" where
  "bm_loop pattern doc delta1 delta2 i n_aligns =
     (if i < strlen doc then
        case bm_inner pattern doc i (nat (strlen pattern)) n_aligns of
          Inl e \<Rightarrow> Some (Inl e)
        | Inr r \<Rightarrow>
            case r of (found, i', j, n') \<Rightarrow>
              if found then Some (Inr (i', n'))
              else case bm_shift doc delta1 delta2 i' j of
                Inl e \<Rightarrow> Some (Inl e)
              | Inr i'' \<Rightarrow> bm_loop pattern doc delta1 delta2 i'' n'
      else Some (Inr (- 1, n_aligns)))"

definition boyer_moore :: "char list \<Rightarrow> char list \<Rightarrow> int \<Rightarrow> (int \<times> int) cres option" where
  "boyer_moore pattern doc n_aligns =
     (case init_delta1 pattern of
        Inl e \<Rightarrow> Some (Inl e)
      | Inr delta1 \<Rightarrow>
          let delta2 = init_delta2 pattern; i = strlen pattern in
          if i > strlen doc then Some (Inr (- 1, n_aligns))
          else bm_loop pattern doc delta1 delta2 i n_aligns)"

section \<open>Facts\<close>

lemma delta1_loop_ok:
  assumes "ascii s" "length d = 128" "int (length s) + k = n" "0 \<le> k"
  shows "\<exists>d'. delta1_loop s n k d = Inr d' \<and> length d' = 128 \<and>
    (\<forall>c. 0 < char_val c \<longrightarrow> d' ! nat (char_val c) =
      (if c \<in> set s then int (length (takeWhile (\<lambda>x. x \<noteq> c) (rev s))) else d ! nat (char_val c)))"
  using assms
proof (induction s arbitrary: d k)
  case (Cons a s)
  have a: "0 < char_val a" "char_val a < 128" "a \<noteq> NUL" "ascii s"
    using Cons.prems(1) char_val_range [of a] by (auto simp: ascii_def)
  let ?d = "d[nat (char_val a) := n - k - 1]"
  obtain d' where d': "delta1_loop s n (k + 1) ?d = Inr d'" "length d' = 128"
    "\<forall>c. 0 < char_val c \<longrightarrow> d' ! nat (char_val c) =
      (if c \<in> set s then int (length (takeWhile (\<lambda>x. x \<noteq> c) (rev s))) else ?d ! nat (char_val c))"
    using Cons.IH [of ?d "k + 1"] Cons.prems a by auto
  have eq: "?d ! nat (char_val c) = (if c = a then int (length s) else d ! nat (char_val c))"
    if "0 < char_val c" for c
  proof -
    have "nat (char_val c) = nat (char_val a) \<longleftrightarrow> c = a"
      using that a char_val_inj [of c a] by (auto simp: eq_nat_nat_iff)
    then show ?thesis using Cons.prems a by (auto simp: nth_list_update)
  qed
  have tw: "length (takeWhile (\<lambda>x. x \<noteq> c) (rev s @ [a])) =
      (if c \<in> set s then length (takeWhile (\<lambda>x. x \<noteq> c) (rev s)) else if c = a then length s else Suc (length s))"
    for c
    by (auto simp: takeWhile_append intro!: arg_cong [of _ _ length] takeWhile_eq_all_conv [THEN iffD2])
  show ?case
    using a d' Cons.prems eq tw by (auto simp: arr_set_int)
qed simp

lemma init_delta1_ok:
  assumes "ascii p"
  obtains d where "init_delta1 p = Inr d" "length d = 128"
    "\<And>c. 0 < char_val c \<Longrightarrow> d ! nat (char_val c) = int (length (takeWhile (\<lambda>x. x \<noteq> c) (rev p)))"
proof -
  have n: "strlen p = int (length p)" using assms by (simp add: ascii_cstring)
  obtain d' where d': "delta1_loop p (int (length p)) 0 (replicate 128 (- 1)) = Inr d'" "length d' = 128"
    "\<forall>c. 0 < char_val c \<longrightarrow> d' ! nat (char_val c) =
      (if c \<in> set p then int (length (takeWhile (\<lambda>x. x \<noteq> c) (rev p)))
       else replicate 128 (- 1) ! nat (char_val c))"
    using delta1_loop_ok [of p "replicate 128 (- 1)" 0 "int (length p)"] assms by auto
  let ?d = "map (\<lambda>d. if d = - 1 then int (length p) else d) d'"
  have dist: "?d ! nat (char_val c) = int (length (takeWhile (\<lambda>x. x \<noteq> c) (rev p)))"
    if "0 < char_val c" for c
  proof -
    let ?k = "nat (char_val c)"
    have k: "?k < 128" using that char_val_range [of c] by simp
    have at: "?d ! ?k = (if d' ! ?k = - 1 then int (length p) else d' ! ?k)"
      using k d'(2) by simp
    show ?thesis
    proof (cases "c \<in> set p")
      case True
      then have "d' ! ?k = int (length (takeWhile (\<lambda>x. x \<noteq> c) (rev p)))"
        using d'(3) that by presburger
      then show ?thesis unfolding at by (simp only:) simp
    next
      case False
      then have tw: "takeWhile (\<lambda>x. x \<noteq> c) (rev p) = rev p" by (auto simp: takeWhile_eq_all_conv)
      from False have "d' ! ?k = replicate 128 (- 1) ! ?k" using d'(3) that by presburger
      also have "\<dots> = - 1" using k by (rule nth_replicate)
      finally have "?d ! ?k = int (length p)" unfolding at by (rule if_P)
      then show ?thesis unfolding tw by (simp only: length_rev)
    qed
  qed
  have "init_delta1 p = Inr ?d" unfolding init_delta1_def n d'(1) c_bind_Inr ..
  moreover have "length ?d = 128" using d'(2) by (simp only: length_map)
  ultimately show thesis by (rule that) (rule dist)
qed

lemma init_delta2_length: "cstring p \<Longrightarrow> length (init_delta2 p) = length p"
  by (simp add: init_delta2_def Let_def)

lemma bm_inner_first:
  assumes "cstring d" "i < length d"
  shows "bm_inner p d (int i) (length p) n =
    (if p = [] then Inr (True, int i, 0, n) else Inr (False, int i, length p, n + 1))"
proof (cases p)
  case (Cons a q)
  have "cstr_at p (int (length p)) = Inr NUL" by simp
  then show ?thesis using assms Cons cstring_nth [of d i] by simp
qed simp

lemma bm_loop_reads_beyond:
  assumes "ascii d" "ascii p" "p \<noteq> []" "i < length d" "length d1 = 128"
  shows "bm_loop p d d1 (init_delta2 p) (int i) n = Some (Inl OutOfBounds)"
proof -
  have c: "cstring d" "cstring p" using assms by (auto simp: ascii_cstring)
  have v: "0 < char_val (d ! i)" "char_val (d ! i) < 128" using assms ascii_nth by auto
  have "bm_shift d d1 (init_delta2 p) (int i) (length p) = Inl OutOfBounds"
    using assms v init_delta2_length [OF c(2)] by (simp add: bm_shift_def arr_at_int)
  then show ?thesis
    using assms c bm_inner_first [OF c(1) assms(4), of p n]
    by (subst bm_loop.simps) simp
qed

section \<open>The properties\<close>

text \<open>On an ASCII pattern \<open>init_delta1\<close> stays inside its table and returns, for every character, the
  distance from the right end of the pattern to its last occurrence, and the length of the pattern for a
  character that does not occur.\<close>

lemma init_delta1_correct:
  assumes "ascii pattern"
  shows "\<exists>delta1. init_delta1 pattern = Inr delta1 \<and> length delta1 = 128 \<and>
    (\<forall>c. 0 < char_val c \<longrightarrow>
      delta1 ! nat (char_val c) = int (length (takeWhile (\<lambda>x. x \<noteq> c) (rev pattern))))"
proof -
  obtain d where "init_delta1 pattern = Inr d" "length d = 128"
    "\<And>c. 0 < char_val c \<Longrightarrow> d ! nat (char_val c) = int (length (takeWhile (\<lambda>x. x \<noteq> c) (rev pattern)))"
    using init_delta1_ok [OF assms] by blast
  then show ?thesis by (intro exI [of _ d]) simp
qed

lemma boyer_moore_result:
  assumes "ascii pattern" "ascii doc" "pattern \<noteq> []"
  shows "boyer_moore pattern doc n =
    Some (if length pattern < length doc then Inl OutOfBounds else Inr (- 1, n))"
proof -
  have s: "strlen pattern = int (length pattern)" "strlen doc = int (length doc)"
    using assms by (simp_all add: ascii_cstring)
  obtain d1 where d1: "init_delta1 pattern = Inr d1" "length d1 = 128"
    using init_delta1_ok [OF assms(1)] by blast
  show ?thesis
  proof (cases "length pattern < length doc")
    case True
    then show ?thesis
      using bm_loop_reads_beyond [OF assms(2,1,3) True d1(2)] d1(1) s
      by (simp add: boyer_moore_def Let_def)
  next
    case False
    then show ?thesis using d1(1) s by (simp add: boyer_moore_def Let_def bm_loop.simps)
  qed
qed

text \<open>C32: \<open>boyer_moore\<close> finds no match anywhere: it starts comparing at the terminator of the pattern
  (\<open>j = patlen\<close>), which never equals a character of the document, and then reads \<open>delta2[patlen]\<close>, one
  cell beyond its array. For every non-empty pattern shorter than the document the run leaves defined
  behaviour, and for one of the same length it reports that there is no match, even when they are equal.\<close>

theorem boyer_moore_never_matches:
  assumes "ascii pattern" "ascii doc" "pattern \<noteq> []"
  shows "boyer_moore pattern doc n =
    Some (if length pattern < length doc then Inl OutOfBounds else Inr (- 1, n))"
  using assms by (rule boyer_moore_result)

theorem boyer_moore_never_matches_witness:
  "boyer_moore ''ab'' ''abc'' 0 = Some (Inl OutOfBounds) \<and> boyer_moore ''ab'' ''ab'' 0 = Some (Inr (- 1, 0))"
proof -
  have a: "ascii ''ab''" "ascii ''abc''" by (simp_all add: ascii_def char_val_def)
  show ?thesis
    using boyer_moore_never_matches [OF a(1,2), of 0] boyer_moore_never_matches [OF a(1,1), of 0] by simp
qed

end
