(* ===== verification/BmTest.thy ===== *)
theory BmTest
  imports BmGrep
begin

text \<open>
  rklab/bmgrep_test.c, the test program of bmgrep.c: the examples of \<open>basic_test\<close>, one definition for each kind of block,
  and \<open>random_test\<close>. \<open>rnd k\<close> is the result of the \<open>k\<close>-th call of \<open>rand\<close>; the variable that counts alignments is not
  initialised, its content is an argument. A result \<open>None\<close> would be a run of the matcher that does not end.
\<close>

definition o_bind :: "'a cres option \<Rightarrow> ('a \<Rightarrow> 'b cres option) \<Rightarrow> 'b cres option" where
  "o_bind m f = (case m of None \<Rightarrow> None | Some (Inl e) \<Rightarrow> Some (Inl e) | Some (Inr x) \<Rightarrow> f x)"

section \<open>The examples\<close>

definition delta1_test_1 :: "unit cres" where
  "delta1_test_1 =
     (let p = ''abcxxxabc''; pn = strlen p in
      c_bind (init_delta1 p) (\<lambda>d1.
      c_bind (c_bind (arr_at d1 97) (\<lambda>d. c_assert (d = 2))) (\<lambda>_.
      c_bind (c_bind (arr_at d1 98) (\<lambda>d. c_assert (d = 1))) (\<lambda>_.
      c_bind (c_bind (arr_at d1 99) (\<lambda>d. c_assert (d = 0))) (\<lambda>_.
      c_bind (c_bind (arr_at d1 120) (\<lambda>d. c_assert (d = 3))) (\<lambda>_.
      c_for 1 128 (\<lambda>c _. if c \<noteq> 97 \<and> c \<noteq> 98 \<and> c \<noteq> 99 \<and> c \<noteq> 120
        then c_bind (arr_at d1 c) (\<lambda>d. c_assert (d = pn)) else Inr ()) ()))))))"

definition delta1_test_2 :: "unit cres" where
  "delta1_test_2 =
     (let p = ''abcdefghi''; pn = strlen p in
      c_bind (init_delta1 p) (\<lambda>d1.
      c_for 1 128 (\<lambda>c _. c_bind (arr_at d1 c) (\<lambda>d.
        if 97 \<le> c \<and> c \<le> 105 then c_assert (d = pn - 1 - (c - 97)) else c_assert (d = pn))) ()))"

definition check_delta2 :: "string \<Rightarrow> int list \<Rightarrow> unit cres" where
  "check_delta2 p correct =
     (let pn = strlen p; d2 = init_delta2 p in
      c_for 0 pn (\<lambda>j _. c_bind (arr_at correct j) (\<lambda>c. c_bind (arr_at d2 j) (\<lambda>d. c_assert (c = d)))) ())"

definition delta2_tests :: "(string \<times> int list) list" where
  "delta2_tests =
     [(''abcxxxabc'', [14, 13, 12, 11, 10, 9, 11, 10, 1]), (''abyxcdeyx'', [17, 16, 15, 14, 13, 12, 7, 10, 1]),
      (''abcdefghi'', [17, 16, 15, 14, 13, 12, 11, 10, 1]), (''babb'', [6, 5, 2, 1])]"

definition check_match :: "int \<Rightarrow> string \<times> string \<times> int \<times> int \<Rightarrow> unit cres option" where
  "check_match n_aligns example =
     (case example of (p, doc, pos_correct, n_aligns_correct) \<Rightarrow>
      o_bind (boyer_moore p doc n_aligns) (\<lambda>(pos, n_aligns).
      Some (c_bind (c_assert (pos = pos_correct)) (\<lambda>_. c_assert (n_aligns = n_aligns_correct)))))"

definition match_tests :: "(string \<times> string \<times> int \<times> int) list" where
  "match_tests =
     [(''at-that'', ''which-finally-halts.--at-that-point'', 22, 5), (''abcdef'', ''ghijklmnopqrstuvwzyz1234'', - 1, 4),
      (''abcxxxabc'', ''abcabcxxxxxxabcabcxxxabc'', 15, 5)]"

fun run_all :: "('a \<Rightarrow> unit cres option) \<Rightarrow> 'a list \<Rightarrow> unit cres option" where
  "run_all test [] = Some (Inr ())"
| "run_all test (x # xs) = o_bind (test x) (\<lambda>_. run_all test xs)"

definition basic_test :: "int \<Rightarrow> unit cres option" where
  "basic_test n_aligns =
     o_bind (Some delta1_test_1) (\<lambda>_. o_bind (Some delta1_test_2) (\<lambda>_.
     o_bind (run_all (\<lambda>(p, correct). Some (check_delta2 p correct)) delta2_tests) (\<lambda>_.
     run_all (check_match n_aligns) match_tests)))"

section \<open>Random tests\<close>

definition random_string :: "(nat \<Rightarrow> int) \<Rightarrow> nat \<Rightarrow> int \<Rightarrow> nat \<Rightarrow> string" where
  "random_string rnd k nchar n = map (\<lambda>i. char_of (97 + rnd (k + i) smod nchar)) [0..<n]"

fun strstr :: "string \<Rightarrow> string \<Rightarrow> nat option" where
  "strstr [] p = (if p = [] then Some 0 else None)"
| "strstr (c # cs) p = (if take (length p) (c # cs) = p then Some 0 else map_option Suc (strstr cs p))"

text \<open>One run uses the random numbers from \<open>k\<close> on; the result says where the next one goes on.\<close>

definition random_test :: "(nat \<Rightarrow> int) \<Rightarrow> int \<Rightarrow> nat \<Rightarrow> nat cres option" where
  "random_test rnd n_align k =
     (let pn = 4; dn = 100;
          pattern = random_string rnd k (int pn sdiv 2) pn;
          doc = random_string rnd (k + pn) (int pn) dn
      in o_bind (boyer_moore pattern doc n_align) (\<lambda>(pos, n_align).
         case strstr doc pattern of
           Some found \<Rightarrow> Some (c_bind (c_assert (pos = int found)) (\<lambda>_. Inr (k + pn + dn)))
         | None \<Rightarrow> o_bind (Some (c_assert (pos = - 1))) (\<lambda>_.
             let loc = rnd (k + pn + dn) smod int dn - int pn;
                 matching_loc = nat (if loc < 0 then 0 else loc);
                 newdoc = take matching_loc doc @ pattern @ drop matching_loc doc
             in o_bind (Some (c_assert (length newdoc = pn + dn))) (\<lambda>_.
                case strstr newdoc pattern of
                  None \<Rightarrow> Some (Inl AssertFail)
                | Some found \<Rightarrow> o_bind (boyer_moore pattern newdoc n_align) (\<lambda>(pos, n_align).
                    Some (c_bind (c_assert (pos = int found)) (\<lambda>_. Inr (k + pn + dn + 1))))))))"

fun random_tests :: "(nat \<Rightarrow> int) \<Rightarrow> int \<Rightarrow> nat \<Rightarrow> nat \<Rightarrow> unit cres option" where
  "random_tests rnd n_align 0 k = Some (Inr ())"
| "random_tests rnd n_align (Suc m) k = o_bind (random_test rnd n_align k) (random_tests rnd n_align m)"

definition bmgrep_test_main :: "(nat \<Rightarrow> int) \<Rightarrow> int \<Rightarrow> int cres option" where
  "bmgrep_test_main rnd n_align =
     o_bind (basic_test n_align) (\<lambda>_.
     o_bind (random_tests rnd n_align 1000 0) (\<lambda>_. Some (Inr 0)))"

section \<open>What the tests find\<close>

lemma o_bind_simps [simp]: "o_bind (Some (Inr x)) f = f x" "o_bind (Some (Inl e)) f = Some (Inl e)" "o_bind None f = None"
  by (simp_all add: o_bind_def)

lemma delta1_tests: "delta1_test_1 = Inr ()" "delta1_test_2 = Inr ()"
  by code_simp+

lemma delta2_tests: "list_all (\<lambda>(p, correct). check_delta2 p correct = Inl AssertFail) delta2_tests"
  by code_simp

lemma random_string_ascii:
  assumes "\<forall>k. 0 \<le> rnd k" "0 < nchar" "nchar < 26"
  shows "ascii (random_string rnd k nchar n)"
proof -
  have "char_val (char_of (97 + rnd j smod nchar)) = 97 + rnd j smod nchar \<and> 0 < 97 + rnd j smod nchar" for j
  proof -
    have "rnd j smod nchar = rnd j mod nchar" using assms by (simp add: smod_nonneg)
    moreover have "0 \<le> rnd j mod nchar" "rnd j mod nchar < nchar" using assms(2) by simp_all
    ultimately show ?thesis using assms(3) char_val_char_of [of "97 + rnd j mod nchar"] by simp
  qed
  then show ?thesis by (auto simp: ascii_def random_string_def)
qed

lemma length_random_string [simp]: "length (random_string rnd k nchar n) = n"
  by (simp add: random_string_def)

lemma random_test_overruns: "\<forall>k. 0 \<le> rnd k \<Longrightarrow> random_test rnd n k = Some (Inl OutOfBounds)"
  using boyer_moore_result [OF random_string_ascii random_string_ascii, of rnd 2 rnd 4 k 4 "k + 4" 100 n]
  by (simp add: random_test_def Let_def sdiv_nonneg flip: length_greater_0_conv)

lemma check_match_overruns:
  "ascii p \<Longrightarrow> ascii doc \<Longrightarrow> p \<noteq> [] \<Longrightarrow> length p < length doc \<Longrightarrow> check_match n (p, doc, e) = Some (Inl OutOfBounds)"
  by (cases e) (simp add: check_match_def boyer_moore_result)

lemma match_tests_overrun: "(p, doc, e) \<in> set match_tests \<Longrightarrow> check_match n (p, doc, e) = Some (Inl OutOfBounds)"
  by (rule check_match_overruns) (auto simp: match_tests_def ascii_def char_val_def)

text \<open>The examples for the first table pass; every example for the second table, every example for the matcher and
  every random test fails, whatever numbers \<open>rand\<close> gives, so that the test program of bmgrep.c never passes: it stops
  at the first assertion about the second table.\<close>

lemma bmgrep_test_fails:
  assumes "\<forall>k. 0 \<le> rnd k"
  shows "delta1_test_1 = Inr () \<and> delta1_test_2 = Inr () \<and>
    list_all (\<lambda>(p, correct). check_delta2 p correct = Inl AssertFail) delta2_tests \<and>
    list_all (\<lambda>example. check_match n example = Some (Inl OutOfBounds)) match_tests \<and>
    random_test rnd n k = Some (Inl OutOfBounds) \<and> bmgrep_test_main rnd n = Some (Inl AssertFail)"
proof -
  have "check_delta2 ''abcxxxabc'' [14, 13, 12, 11, 10, 9, 11, 10, 1] = Inl AssertFail"
    using delta2_tests by (simp add: delta2_tests_def)
  then have "bmgrep_test_main rnd n = Some (Inl AssertFail)"
    by (simp add: bmgrep_test_main_def basic_test_def delta1_tests delta2_tests_def)
  then show ?thesis
    using delta1_tests delta2_tests match_tests_overrun random_test_overruns [OF assms] by (auto simp: list_all_iff)
qed

end
