(* ===== verification/RwLock.thy ===== *)
theory RwLock
  imports CPrelude
begin

text \<open>
  threadlab/rwlock.c: the reader-writer lock. The record \<open>rwl\<close> holds the four counters; the mutex
  and the two condition variables are part of the system state: who holds the mutex, and for every
  thread where it is in the code (a thread in \<open>Waiting m\<close> is in the wait set of the condition
  variable of mode \<open>m\<close>). The operations on the counters are functions, one per stretch of code
  that runs with the mutex held; \<open>rwl_step\<close> interleaves them. POSIX allows a wait to
  return without a signal, and a timed wait to time out at any moment, so both are steps. The counters
  never exceed the number of threads, so they are unbounded integers.
\<close>

section \<open>The counters\<close>

record rwl =
  n_waiting_readers :: int
  n_waiting_writers :: int
  n_writers :: int
  n_readers :: int

definition rwl_init :: rwl where
  "rwl_init = \<lparr>n_waiting_readers = 0, n_waiting_writers = 0, n_writers = 0, n_readers = 0\<rparr>"

definition rwl_nwaiters :: "rwl \<Rightarrow> int" where
  "rwl_nwaiters l = n_waiting_readers l + n_waiting_writers l"

text \<open>\<open>rwl_rlock\<close>: the entry, the test of the loop, the way out after a timeout, the acquisition.\<close>

definition rlock_enter :: "rwl \<Rightarrow> rwl" where
  "rlock_enter l = l\<lparr>n_waiting_readers := n_waiting_readers l + 1\<rparr>"

definition rlock_blocked :: "rwl \<Rightarrow> bool" where
  "rlock_blocked l \<longleftrightarrow> n_writers l \<noteq> 0 \<or> n_waiting_writers l \<noteq> 0"

definition rlock_giveup :: "rwl \<Rightarrow> rwl" where
  "rlock_giveup l = l\<lparr>n_waiting_readers := n_waiting_readers l - 1\<rparr>"

definition rlock_take :: "rwl \<Rightarrow> rwl" where
  "rlock_take l = l\<lparr>n_waiting_readers := n_waiting_readers l - 1, n_readers := n_readers l + 1\<rparr>"

text \<open>\<open>rwl_wlock\<close>, likewise.\<close>

definition wlock_enter :: "rwl \<Rightarrow> rwl" where
  "wlock_enter l = l\<lparr>n_waiting_writers := n_waiting_writers l + 1\<rparr>"

definition wlock_blocked :: "rwl \<Rightarrow> bool" where
  "wlock_blocked l \<longleftrightarrow> n_writers l \<noteq> 0 \<or> n_readers l \<noteq> 0"

definition wlock_giveup :: "rwl \<Rightarrow> rwl" where
  "wlock_giveup l = l\<lparr>n_waiting_writers := n_waiting_writers l - 1\<rparr>"

definition wlock_take :: "rwl \<Rightarrow> rwl" where
  "wlock_take l = l\<lparr>n_waiting_writers := n_waiting_writers l - 1, n_writers := n_writers l + 1\<rparr>"

text \<open>The two unlocks: the new counters and whom they wake.\<close>

datatype wakeup = WakeNone | SignalWriter | BroadcastReaders

definition rwl_runlock :: "rwl \<Rightarrow> rwl \<times> wakeup" where
  "rwl_runlock l =
     (let l' = l\<lparr>n_readers := n_readers l - 1\<rparr> in
      (l', if n_waiting_writers l' \<noteq> 0 then SignalWriter else WakeNone))"

definition rwl_wunlock :: "rwl \<Rightarrow> rwl \<times> wakeup" where
  "rwl_wunlock l =
     (let l' = l\<lparr>n_writers := n_writers l - 1\<rparr> in
      (l', if n_waiting_writers l' \<noteq> 0 then SignalWriter
           else if n_waiting_readers l' \<noteq> 0 then BroadcastReaders else WakeNone))"

datatype mode = Reader | Writer

fun lock_enter :: "mode \<Rightarrow> rwl \<Rightarrow> rwl" where
  "lock_enter Reader = rlock_enter" | "lock_enter Writer = wlock_enter"

fun lock_blocked :: "mode \<Rightarrow> rwl \<Rightarrow> bool" where
  "lock_blocked Reader = rlock_blocked" | "lock_blocked Writer = wlock_blocked"

fun lock_giveup :: "mode \<Rightarrow> rwl \<Rightarrow> rwl" where
  "lock_giveup Reader = rlock_giveup" | "lock_giveup Writer = wlock_giveup"

fun lock_take :: "mode \<Rightarrow> rwl \<Rightarrow> rwl" where
  "lock_take Reader = rlock_take" | "lock_take Writer = wlock_take"

fun lock_release :: "mode \<Rightarrow> rwl \<Rightarrow> rwl \<times> wakeup" where
  "lock_release Reader = rwl_runlock" | "lock_release Writer = rwl_wunlock"

lemmas rwl_op_defs = rlock_enter_def rlock_blocked_def rlock_giveup_def rlock_take_def
  wlock_enter_def wlock_blocked_def wlock_giveup_def wlock_take_def rwl_runlock_def rwl_wunlock_def

section \<open>Threads\<close>

text \<open>The flag of a location says whether \<open>expire\<close> is not null, that of \<open>Woken\<close> whether the wait
  returned \<open>ETIMEDOUT\<close>.\<close>

datatype pc =
    Idle
  | Calling mode bool
  | Looping mode bool
  | Waiting mode bool
  | Woken mode bool bool
  | Holding mode
  | Releasing mode

record sys =
  lk :: rwl
  mu :: "nat option"
  pcs :: "nat \<Rightarrow> pc"

definition init_sys :: sys where
  "init_sys = \<lparr>lk = rwl_init, mu = None, pcs = (\<lambda>_. Idle)\<rparr>"

text \<open>What a wake-up does to the wait sets: a signal moves one waiting thread, if there is one.\<close>

inductive wake :: "wakeup \<Rightarrow> (nat \<Rightarrow> pc) \<Rightarrow> (nat \<Rightarrow> pc) \<Rightarrow> bool" where
  wake_none: "wake WakeNone ps ps"
| wake_signal: "ps u = Waiting Writer tm \<Longrightarrow> wake SignalWriter ps (ps(u := Woken Writer tm False))"
| wake_nobody: "(\<forall>u tm. ps u \<noteq> Waiting Writer tm) \<Longrightarrow> wake SignalWriter ps ps"
| wake_all: "wake BroadcastReaders ps (\<lambda>u. case ps u of Waiting Reader tm \<Rightarrow> Woken Reader tm False | p \<Rightarrow> p)"

inductive rwl_step :: "sys \<Rightarrow> sys \<Rightarrow> bool" where
  call: "pcs s t = Idle \<Longrightarrow> rwl_step s (s\<lparr>pcs := (pcs s)(t := Calling m tm)\<rparr>)"
| enter: "pcs s t = Calling m tm \<Longrightarrow> mu s = None \<Longrightarrow>
    rwl_step s (s\<lparr>lk := lock_enter m (lk s), mu := Some t, pcs := (pcs s)(t := Looping m tm)\<rparr>)"
| block: "pcs s t = Looping m tm \<Longrightarrow> lock_blocked m (lk s) \<Longrightarrow>
    rwl_step s (s\<lparr>mu := None, pcs := (pcs s)(t := Waiting m tm)\<rparr>)"
| acquire: "pcs s t = Looping m tm \<Longrightarrow> \<not> lock_blocked m (lk s) \<Longrightarrow>
    rwl_step s (s\<lparr>lk := lock_take m (lk s), mu := None, pcs := (pcs s)(t := Holding m)\<rparr>)"
| spurious: "pcs s t = Waiting m tm \<Longrightarrow> rwl_step s (s\<lparr>pcs := (pcs s)(t := Woken m tm False)\<rparr>)"
| expire: "pcs s t = Waiting m True \<Longrightarrow> rwl_step s (s\<lparr>pcs := (pcs s)(t := Woken m True True)\<rparr>)"
| resume: "pcs s t = Woken m tm False \<Longrightarrow> mu s = None \<Longrightarrow>
    rwl_step s (s\<lparr>mu := Some t, pcs := (pcs s)(t := Looping m tm)\<rparr>)"
| giveup: "pcs s t = Woken m tm True \<Longrightarrow> mu s = None \<Longrightarrow>
    rwl_step s (s\<lparr>lk := lock_giveup m (lk s), pcs := (pcs s)(t := Idle)\<rparr>)"
| unlock: "pcs s t = Holding m \<Longrightarrow> rwl_step s (s\<lparr>pcs := (pcs s)(t := Releasing m)\<rparr>)"
| release: "pcs s t = Releasing m \<Longrightarrow> mu s = None \<Longrightarrow> lock_release m (lk s) = (l', w) \<Longrightarrow>
    wake w ((pcs s)(t := Idle)) ps' \<Longrightarrow> rwl_step s (s\<lparr>lk := l', pcs := ps'\<rparr>)"

inductive_simps wake_simps [simp]: "wake WakeNone ps qs" "wake SignalWriter ps qs" "wake BroadcastReaders ps qs"
inductive_cases rwl_stepE [consumes 1, case_names call enter block acquire spurious expire resume giveup
  unlock release]: "rwl_step s s'"

section \<open>Counting threads\<close>

fun is_waiting :: "mode \<Rightarrow> pc \<Rightarrow> bool" where
  "is_waiting m (Looping m' tm) = (m = m')"
| "is_waiting m (Waiting m' tm) = (m = m')"
| "is_waiting m (Woken m' tm x) = (m = m')"
| "is_waiting m _ = False"

fun is_holding :: "mode \<Rightarrow> pc \<Rightarrow> bool" where
  "is_holding m (Holding m') = (m = m')"
| "is_holding m (Releasing m') = (m = m')"
| "is_holding m _ = False"

definition count_pcs :: "(pc \<Rightarrow> bool) \<Rightarrow> (nat \<Rightarrow> pc) \<Rightarrow> int" where
  "count_pcs P ps = int (card {t. P (ps t)})"

definition finite_threads :: "(nat \<Rightarrow> pc) \<Rightarrow> bool" where
  "finite_threads ps \<longleftrightarrow> finite {t. ps t \<noteq> Idle}"

lemma finite_threads_upd [simp]: "finite_threads (ps(t := p)) \<longleftrightarrow> finite_threads ps"
proof -
  have "{u. (ps(t := p)) u \<noteq> Idle} \<subseteq> insert t {u. ps u \<noteq> Idle}"
    "{u. ps u \<noteq> Idle} \<subseteq> insert t {u. (ps(t := p)) u \<noteq> Idle}" by auto
  then show ?thesis unfolding finite_threads_def by (metis finite_insert finite_subset)
qed

lemma count_pcs_upd:
  assumes "finite_threads ps" "\<not> P Idle"
  shows "count_pcs P (ps(t := p)) = count_pcs P ps - of_bool (P (ps t)) + of_bool (P p)"
proof -
  define A where "A = {u. P (ps u)} - {t}"
  have "{u. P (ps u)} \<subseteq> {u. ps u \<noteq> Idle}" using assms(2) by auto
  then have "finite {u. P (ps u)}" using assms(1) finite_subset by (auto simp: finite_threads_def)
  then have A: "finite A" "t \<notin> A" by (simp_all add: A_def)
  have "{u. P (ps u)} = (if P (ps t) then insert t A else A)" by (auto simp: A_def)
  moreover have "{u. P ((ps(t := p)) u)} = (if P p then insert t A else A)" by (auto simp: A_def)
  ultimately show ?thesis unfolding count_pcs_def using A by (cases "P p"; cases "P (ps t)") simp_all
qed

lemma count_pcs_cong: "(\<And>t. P (ps t) = P (qs t)) \<Longrightarrow> count_pcs P ps = count_pcs P qs"
  by (simp add: count_pcs_def)

lemma count_pcs_pos:
  assumes "finite_threads ps" "\<not> P Idle" "P (ps t)"
  shows "0 < count_pcs P ps"
proof -
  have "{u. P (ps u)} \<subseteq> {u. ps u \<noteq> Idle}" using assms(2) by auto
  then have "finite {u. P (ps u)}" using assms(1) finite_subset by (auto simp: finite_threads_def)
  then show ?thesis using assms(3) by (auto simp: count_pcs_def card_gt_0_iff)
qed

lemma count_pcs_two:
  assumes "finite_threads ps" "\<not> P Idle" "P (ps t)" "P (ps u)" "t \<noteq> u"
  shows "1 < count_pcs P ps"
  using count_pcs_upd [of ps P t Idle] count_pcs_pos [of "ps(t := Idle)" P u] assms by simp

lemma count_pcs_zero:
  assumes "count_pcs P ps = 0" "finite_threads ps" "\<not> P Idle"
  shows "\<not> P (ps t)"
  using count_pcs_pos [of ps P t] assms by auto

lemma count_pcs_eq_0:
  assumes "finite_threads ps" "\<not> P Idle"
  shows "count_pcs P ps = 0 \<longleftrightarrow> (\<forall>t. \<not> P (ps t))"
proof
  assume "count_pcs P ps = 0"
  then show "\<forall>t. \<not> P (ps t)" using count_pcs_zero assms by blast
qed (simp add: count_pcs_def)

lemma count_pcs_nonneg: "0 \<le> count_pcs P ps"
  by (simp add: count_pcs_def)

text \<open>A wake-up moves threads of a wait set only, and only to \<open>Woken\<close>.\<close>

lemma wake_moves:
  assumes "wake w ps qs"
  shows "qs t = ps t \<or> (\<exists>m tm. ps t = Waiting m tm \<and> qs t = Woken m tm False)"
  using assms by (cases rule: wake.cases) (auto split: pc.split mode.split)

lemma wake_keeps:
  assumes "wake w ps qs"
  shows "is_waiting m (qs t) = is_waiting m (ps t)" "is_holding m (qs t) = is_holding m (ps t)"
    "qs t = Idle \<longleftrightarrow> ps t = Idle" "qs t = Looping m tm \<longleftrightarrow> ps t = Looping m tm"
    "qs t = Calling m tm \<longleftrightarrow> ps t = Calling m tm" "qs t = Woken m tm True \<longleftrightarrow> ps t = Woken m tm True"
  using wake_moves [OF assms, of t] by auto

lemma wake_counts:
  assumes "wake w ps qs"
  shows "count_pcs (is_waiting m) qs = count_pcs (is_waiting m) ps"
    "count_pcs (is_holding m) qs = count_pcs (is_holding m) ps"
    "finite_threads qs = finite_threads ps"
  using wake_keeps [OF assms] by (auto intro: count_pcs_cong simp: finite_threads_def)

section \<open>Mutual exclusion\<close>

definition counts_ok :: "rwl \<Rightarrow> (nat \<Rightarrow> pc) \<Rightarrow> bool" where
  "counts_ok l ps \<longleftrightarrow>
     n_waiting_readers l = count_pcs (is_waiting Reader) ps \<and>
     n_waiting_writers l = count_pcs (is_waiting Writer) ps \<and>
     n_readers l = count_pcs (is_holding Reader) ps \<and>
     n_writers l = count_pcs (is_holding Writer) ps"

definition mutex_ok :: "nat option \<Rightarrow> (nat \<Rightarrow> pc) \<Rightarrow> bool" where
  "mutex_ok q ps \<longleftrightarrow> (\<forall>t. q = Some t \<longleftrightarrow> (\<exists>m tm. ps t = Looping m tm))"

definition excl_ok :: "rwl \<Rightarrow> bool" where
  "excl_ok l \<longleftrightarrow> n_writers l = 0 \<or> n_writers l = 1 \<and> n_readers l = 0"

definition rwl_inv :: "sys \<Rightarrow> bool" where
  "rwl_inv s \<longleftrightarrow> finite_threads (pcs s) \<and> counts_ok (lk s) (pcs s) \<and> mutex_ok (mu s) (pcs s) \<and> excl_ok (lk s)"

lemma rwl_inv_init: "rwl_inv init_sys"
  by (simp add: rwl_inv_def init_sys_def rwl_init_def counts_ok_def mutex_ok_def excl_ok_def
      count_pcs_def finite_threads_def)

lemma counts_ok_wake: "wake w ps qs \<Longrightarrow> counts_ok l qs = counts_ok l ps"
  by (simp add: counts_ok_def wake_counts)

lemma mutex_ok_wake: "wake w ps qs \<Longrightarrow> mutex_ok q qs = mutex_ok q ps"
  by (simp add: mutex_ok_def wake_keeps(4))

lemma rwl_inv_step_counts:
  assumes "rwl_step s s'" "finite_threads (pcs s)" "counts_ok (lk s) (pcs s)"
  shows "finite_threads (pcs s')" "counts_ok (lk s') (pcs s')"
proof -
  have "finite_threads (pcs s') \<and> counts_ok (lk s') (pcs s')"
    using assms
  proof (cases rule: rwl_stepE)
    case (enter t m tm)
    with assms show ?thesis by (cases m) (simp_all add: counts_ok_def count_pcs_upd rwl_op_defs)
  next
    case (acquire t m tm)
    with assms show ?thesis by (cases m) (simp_all add: counts_ok_def count_pcs_upd rwl_op_defs)
  next
    case (giveup t m tm)
    with assms show ?thesis by (cases m) (simp_all add: counts_ok_def count_pcs_upd rwl_op_defs)
  next
    case (release t m l' w ps')
    have "counts_ok l' ((pcs s)(t := Idle))"
      using release(2,4) assms(2,3)
      by (cases m) (auto simp: counts_ok_def count_pcs_upd rwl_op_defs Let_def)
    moreover have "finite_threads ((pcs s)(t := Idle))" using assms(2) by simp
    ultimately show ?thesis
      unfolding release(1) using counts_ok_wake [OF release(5), of l'] wake_counts(3) [OF release(5)]
      by simp
  qed (simp_all add: counts_ok_def count_pcs_upd)
  then show "finite_threads (pcs s')" "counts_ok (lk s') (pcs s')" by simp_all
qed

lemma rwl_inv_step_mutex:
  assumes "rwl_step s s'" "mutex_ok (mu s) (pcs s)"
  shows "mutex_ok (mu s') (pcs s')"
  using assms
proof (cases rule: rwl_stepE)
  case (release t m l' w ps')
  with assms(2) show ?thesis
    using mutex_ok_wake [OF release(5), of "mu s"] by (auto simp: mutex_ok_def)
qed (auto simp: mutex_ok_def; metis option.inject pc.distinct)+

lemma rwl_inv_step_excl:
  assumes "rwl_step s s'" "rwl_inv s"
  shows "excl_ok (lk s')"
  using assms(1)
proof (cases rule: rwl_stepE)
  case (release t m l' w ps')
  have "0 < count_pcs (is_holding m) (pcs s)"
    using assms(2) release(2) by (intro count_pcs_pos [of _ _ t]) (auto simp: rwl_inv_def)
  with release assms(2) show ?thesis
    by (cases m) (auto simp: rwl_inv_def excl_ok_def counts_ok_def rwl_op_defs Let_def)
next
  case (enter t m tm)
  with assms(2) show ?thesis by (cases m) (auto simp: rwl_inv_def excl_ok_def rwl_op_defs)
next
  case (acquire t m tm)
  with assms(2) show ?thesis by (cases m) (auto simp: rwl_inv_def excl_ok_def rwl_op_defs)
next
  case (giveup t m tm)
  with assms(2) show ?thesis by (cases m) (auto simp: rwl_inv_def excl_ok_def rwl_op_defs)
qed (use assms(2) in \<open>simp_all add: rwl_inv_def\<close>)

interpretation rwl_safety: inductive_invariant init_sys rwl_step rwl_inv
proof
  show "rwl_inv init_sys" by (rule rwl_inv_init)
  show "rwl_inv t" if "rwl_inv s" "rwl_step s t" for s t
    using rwl_inv_step_counts [OF that(2)] rwl_inv_step_mutex [OF that(2)]
      rwl_inv_step_excl [OF that(2,1)] that(1)
    by (simp add: rwl_inv_def)
qed

lemma rwl_inv_exclusive:
  assumes "rwl_inv s" "is_holding Writer (pcs s t)" "is_holding m (pcs s u)" "t \<noteq> u"
  shows False
proof -
  have "0 < n_writers (lk s)"
    using assms count_pcs_pos [of "pcs s" "is_holding Writer" t] by (simp add: rwl_inv_def counts_ok_def)
  then have 1: "n_writers (lk s) = 1" "n_readers (lk s) = 0"
    using assms(1) by (auto simp: rwl_inv_def excl_ok_def)
  show False
  proof (cases m)
    case Reader
    then show False
      using assms 1 count_pcs_pos [of "pcs s" "is_holding Reader" u]
      by (simp add: rwl_inv_def counts_ok_def)
  next
    case Writer
    then show False
      using assms 1 count_pcs_two [of "pcs s" "is_holding Writer" t u]
      by (simp add: rwl_inv_def counts_ok_def)
  qed
qed


lemma rwl_inv_flags:
  assumes "rwl_inv s"
  shows "n_writers (lk s) = 0 \<longleftrightarrow> (\<forall>t. \<not> is_holding Writer (pcs s t))"
    "n_readers (lk s) = 0 \<longleftrightarrow> (\<forall>t. \<not> is_holding Reader (pcs s t))"
    "n_waiting_writers (lk s) = 0 \<longleftrightarrow> (\<forall>t. \<not> is_waiting Writer (pcs s t))"
    "n_waiting_readers (lk s) = 0 \<longleftrightarrow> (\<forall>t. \<not> is_waiting Reader (pcs s t))"
  using assms by (simp_all add: rwl_inv_def counts_ok_def count_pcs_eq_0)

lemma rwl_inv_nonneg:
  assumes "rwl_inv s"
  shows "0 \<le> n_writers (lk s)" "0 \<le> n_readers (lk s)"
    "0 \<le> n_waiting_writers (lk s)" "0 \<le> n_waiting_readers (lk s)"
  using assms by (simp_all add: rwl_inv_def counts_ok_def count_pcs_nonneg)

section \<open>The specification: a set of readers and a set of writers\<close>

definition holders :: "mode \<Rightarrow> sys \<Rightarrow> nat set" where
  "holders m s = {t. is_holding m (pcs s t)}"

definition abs_lock :: "sys \<Rightarrow> nat set \<times> nat set" where
  "abs_lock s = (holders Reader s, holders Writer s)"

inductive lock_spec :: "nat set \<times> nat set \<Rightarrow> nat set \<times> nat set \<Rightarrow> bool" where
  spec_stay: "lock_spec a a"
| spec_read: "t \<notin> R \<Longrightarrow> lock_spec (R, {}) (insert t R, {})"
| spec_write: "lock_spec ({}, {}) ({}, {t})"
| spec_drop_read: "t \<in> R \<Longrightarrow> lock_spec (R, W) (R - {t}, W)"
| spec_drop_write: "t \<in> W \<Longrightarrow> lock_spec (R, W) (R, W - {t})"

lemma holders_upd:
  "holders m (s\<lparr>lk := l, pcs := (pcs s)(t := p)\<rparr>) =
     (if is_holding m p then insert t (holders m s) else holders m s - {t})"
  "holders m (s\<lparr>mu := q, pcs := (pcs s)(t := p)\<rparr>) =
     (if is_holding m p then insert t (holders m s) else holders m s - {t})"
  "holders m (s\<lparr>pcs := (pcs s)(t := p)\<rparr>) =
     (if is_holding m p then insert t (holders m s) else holders m s - {t})"
  "holders m (s\<lparr>lk := l, mu := q, pcs := (pcs s)(t := p)\<rparr>) =
     (if is_holding m p then insert t (holders m s) else holders m s - {t})"
  by (auto simp: holders_def)

lemma holders_out [simp]: "\<not> is_holding m (pcs s t) \<Longrightarrow> holders m s - {t} = holders m s"
  by (auto simp: holders_def)

lemma holders_in [simp]: "is_holding m (pcs s t) \<Longrightarrow> insert t (holders m s) = holders m s"
  by (auto simp: holders_def)

lemma holders_wake: "wake w qs ps' \<Longrightarrow> {u. is_holding m (ps' u)} = {u. is_holding m (qs u)}"
  by (simp add: wake_keeps)

lemma rwl_step_refines:
  assumes "rwl_inv s" "rwl_step s s'"
  shows "lock_spec (abs_lock s) (abs_lock s')"
  using assms(2)
proof (cases rule: rwl_stepE)
  case (acquire t m tm)
  show ?thesis
  proof (cases m)
    case Reader
    then have "holders Writer s = {}" "t \<notin> holders Reader s"
      using acquire rwl_inv_flags(1) [OF assms(1)] by (auto simp: holders_def rwl_op_defs)
    then show ?thesis
      using acquire Reader by (simp add: abs_lock_def holders_upd spec_read)
  next
    case Writer
    then have "holders Writer s = {}" "holders Reader s = {}"
      using acquire rwl_inv_flags(1,2) [OF assms(1)] by (auto simp: holders_def rwl_op_defs)
    then show ?thesis
      using acquire Writer by (simp add: abs_lock_def holders_upd spec_write)
  qed
next
  case (release t m l' w ps')
  have "holders n s' = (if n = m then holders n s - {t} else holders n s)" for n
    using release(1,2) holders_wake [OF release(5), of n] by (auto simp: holders_def)
  moreover have "t \<in> holders m s" using release(2) by (simp add: holders_def)
  ultimately show ?thesis
    by (cases m) (simp_all add: abs_lock_def spec_drop_read spec_drop_write)
qed (simp_all add: abs_lock_def holders_upd spec_stay)

lemma writer_preference_step:
  assumes "rwl_step s s'" "n_waiting_writers (lk s) \<noteq> 0" "pcs s' t = Holding Reader"
  shows "pcs s t = Holding Reader"
  using assms(1)
proof (cases rule: rwl_stepE)
  case (release u m l' w ps')
  then show ?thesis
    using assms(3) wake_moves [OF release(5), of t] by (auto split: if_splits)
qed (use assms(2,3) in \<open>auto simp: rwl_op_defs split: if_splits\<close>)


section \<open>Wake-ups\<close>

text \<open>A waiting writer whose lock is free is never forgotten: some writer is on its way.\<close>

fun queued :: "mode \<Rightarrow> pc \<Rightarrow> bool" where
  "queued m (Waiting m' tm) = (m = m')"
| "queued m _ = False"

fun due_writer :: "pc \<Rightarrow> bool" where
  "due_writer (Woken Writer tm False) = True"
| "due_writer (Looping Writer tm) = True"
| "due_writer _ = False"

definition writer_due :: "sys \<Rightarrow> bool" where
  "writer_due s \<longleftrightarrow>
     (\<exists>t. queued Writer (pcs s t)) \<longrightarrow> n_readers (lk s) = 0 \<longrightarrow> n_writers (lk s) = 0 \<longrightarrow>
     (\<exists>u. due_writer (pcs s u))"

lemma queued_waiting: "queued m p \<Longrightarrow> is_waiting m p"
  by (cases p) simp_all

lemma writer_due_release:
  assumes "rwl_inv s'" "lock_release m l = (l', w)" "wake w ps (pcs s')" "lk s' = l'"
  shows "writer_due s'"
  unfolding writer_due_def
proof (intro impI, elim exE)
  fix t assume t: "queued Writer (pcs s' t)"
  then have "n_waiting_writers l' \<noteq> 0"
    using rwl_inv_flags(3) [OF assms(1)] assms(4) queued_waiting by blast
  then have "w = SignalWriter"
    using assms(2) by (cases m) (auto simp: rwl_op_defs Let_def)
  then have w: "wake SignalWriter ps (pcs s')" using assms(3) by simp
  from t obtain tm where tm: "pcs s' t = Waiting Writer tm" by (cases "pcs s' t") auto
  from w show "\<exists>u. due_writer (pcs s' u)"
  proof cases
    case (wake_signal u tu)
    then have "due_writer (pcs s' u)" by simp
    then show ?thesis ..
  next
    case wake_nobody
    then show ?thesis using tm by simp
  qed
qed

lemma writer_due_upd:
  assumes "writer_due s" "n_readers (lk s') = n_readers (lk s)" "n_writers (lk s') = n_writers (lk s)"
    "pcs s' = (pcs s)(t := p)" "queued Writer p \<Longrightarrow> queued Writer (pcs s t)"
    "due_writer (pcs s t) \<Longrightarrow> due_writer p"
  shows "writer_due s'"
  unfolding writer_due_def
proof (intro impI, elim exE)
  fix u assume u: "queued Writer (pcs s' u)" and z: "n_readers (lk s') = 0" "n_writers (lk s') = 0"
  have "queued Writer (pcs s u)" using u assms(4,5) by (cases "u = t") simp_all
  then obtain v where "due_writer (pcs s v)" using assms(1-3) z unfolding writer_due_def by auto
  then have "due_writer (pcs s' v)" using assms(4,6) by (cases "v = t") simp_all
  then show "\<exists>v. due_writer (pcs s' v)" ..
qed

lemma writer_due_step:
  assumes "rwl_inv s" "rwl_inv s'" "writer_due s" "rwl_step s s'"
  shows "writer_due s'"
  using assms(4)
proof (cases rule: rwl_stepE)
  case (block t m tm)
  show ?thesis
  proof (cases m)
    case Reader
    with block show ?thesis by (intro writer_due_upd [OF assms(3), of s' t "Waiting Reader tm"]) simp_all
  next
    case Writer
    with block show ?thesis by (auto simp: writer_due_def rwl_op_defs)
  qed
next
  case (acquire t m tm)
  then show ?thesis
    using rwl_inv_nonneg [OF assms(1)] by (cases m) (auto simp: writer_due_def rwl_op_defs)
next
  case (release t m l' w ps')
  then show ?thesis by (intro writer_due_release [OF assms(2) release(4)]) simp_all
next
  case (enter t m tm)
  then show ?thesis
    by (cases m) (intro writer_due_upd [OF assms(3), of s' t "Looping m tm"]; simp add: rwl_op_defs)+
next
  case (giveup t m tm)
  then show ?thesis
    by (cases m) (intro writer_due_upd [OF assms(3), of s' t "Idle"]; simp add: rwl_op_defs)+
next
  case (resume t m tm)
  then show ?thesis
    by (cases m) (intro writer_due_upd [OF assms(3), of s' t "Looping m tm"]; simp)+
next
  case (call t m tm)
  then show ?thesis by (intro writer_due_upd [OF assms(3), of s' t "Calling m tm"]) simp_all
next
  case (spurious t m tm)
  then show ?thesis by (intro writer_due_upd [OF assms(3), of s' t "Woken m tm False"]) simp_all
next
  case (expire t m)
  then show ?thesis by (intro writer_due_upd [OF assms(3), of s' t "Woken m True True"]) simp_all
next
  case (unlock t m)
  then show ?thesis by (intro writer_due_upd [OF assms(3), of s' t "Releasing m"]) simp_all
qed

interpretation rwl_wakeups: inductive_invariant init_sys rwl_step "\<lambda>s. rwl_inv s \<and> writer_due s"
proof
  show "rwl_inv init_sys \<and> writer_due init_sys"
    using rwl_inv_init by (simp add: writer_due_def init_sys_def)
  show "rwl_inv t \<and> writer_due t" if "rwl_inv s \<and> writer_due s" "rwl_step s t" for s t
    using that rwl_safety.inv_step writer_due_step by blast
qed


text \<open>
  When no writer passes a time limit, a reader in the wait set is there for a reason: a writer holds
  the lock or waits for it. \<open>untimed_step\<close> is a step after which no writer's call has a limit.
\<close>

fun timed_writer :: "pc \<Rightarrow> bool" where
  "timed_writer (Calling Writer tm) = tm"
| "timed_writer (Looping Writer tm) = tm"
| "timed_writer (Waiting Writer tm) = tm"
| "timed_writer (Woken Writer tm x) = (tm \<or> x)"
| "timed_writer _ = False"

definition untimed_step :: "sys \<Rightarrow> sys \<Rightarrow> bool" where
  "untimed_step s s' \<longleftrightarrow> rwl_step s s' \<and> (\<forall>t. \<not> timed_writer (pcs s' t))"

definition readers_blocked :: "sys \<Rightarrow> bool" where
  "readers_blocked s \<longleftrightarrow> (\<forall>t. queued Reader (pcs s t) \<longrightarrow> rlock_blocked (lk s))"

lemma readers_blocked_upd:
  assumes "readers_blocked s" "pcs s' = (pcs s)(t := p)" "\<not> queued Reader p"
    "rlock_blocked (lk s) \<Longrightarrow> rlock_blocked (lk s')"
  shows "readers_blocked s'"
  using assms by (auto simp: readers_blocked_def)

lemma readers_blocked_release:
  assumes "lock_release m l = (l', w)" "wake w ps (pcs s')" "lk s' = l'"
    "rwl_inv s'" "m = Reader \<Longrightarrow> (\<exists>t. queued Reader (ps t)) \<Longrightarrow> rlock_blocked l"
  shows "readers_blocked s'"
  unfolding readers_blocked_def
proof (intro allI impI)
  fix t assume t: "queued Reader (pcs s' t)"
  show "rlock_blocked (lk s')"
  proof (cases m)
    case Reader
    have "queued Reader (ps t)" using t wake_moves [OF assms(2), of t] by auto
    then have "rlock_blocked l" using assms(5) Reader by blast
    moreover have "lk s' = l\<lparr>n_readers := n_readers l - 1\<rparr>"
      using assms(1,3) Reader by (simp add: rwl_op_defs Let_def)
    ultimately show ?thesis by (simp add: rlock_blocked_def)
  next
    case Writer
    show ?thesis
    proof (rule ccontr)
      assume nb: "\<not> rlock_blocked (lk s')"
      have "n_waiting_readers l' \<noteq> 0"
        using rwl_inv_flags(4) [OF assms(4)] t assms(3) queued_waiting by blast
      moreover have "lk s' = l\<lparr>n_writers := n_writers l - 1\<rparr>" "l' = lk s'"
        using assms(1,3) Writer by (simp_all add: rwl_op_defs Let_def)
      moreover have "w = snd (rwl_wunlock l)" using assms(1) Writer by simp
      ultimately have "w = BroadcastReaders"
        using nb by (simp add: rwl_wunlock_def rlock_blocked_def)
      then show False using t assms(2) by (auto split: pc.splits mode.splits)
    qed
  qed
qed

lemma readers_blocked_step:
  assumes "rwl_inv s" "rwl_inv s'" "readers_blocked s" "\<forall>t. \<not> timed_writer (pcs s t)" "rwl_step s s'"
  shows "readers_blocked s'"
  using assms(5)
proof (cases rule: rwl_stepE)
  case (block t m tm)
  then show ?thesis
    using assms(3) by (cases m) (auto simp: readers_blocked_def)
next
  case (acquire t m tm)
  then show ?thesis
    using assms(3) rwl_inv_nonneg [OF assms(1)]
    by (cases m) (auto simp: readers_blocked_def rwl_op_defs)
next
  case (release t m l' w ps')
  then show ?thesis
    using assms(3) by (intro readers_blocked_release [OF release(4) _ _ assms(2)])
      (auto simp: readers_blocked_def split: if_splits)
next
  case (enter t m tm)
  then show ?thesis
    using rwl_inv_nonneg [OF assms(1)]
    by (intro readers_blocked_upd [OF assms(3), of s' t "Looping m tm"]; cases m)
      (simp_all add: rwl_op_defs)
next
  case (giveup t m tm)
  then have "m = Reader" using assms(4) [THEN spec, of t] by (cases m) auto
  with giveup show ?thesis
    by (intro readers_blocked_upd [OF assms(3), of s' t Idle]) (simp_all add: rwl_op_defs)
next
  case (resume t m tm)
  then show ?thesis by (intro readers_blocked_upd [OF assms(3), of s' t "Looping m tm"]) simp_all
next
  case (call t m tm)
  then show ?thesis by (intro readers_blocked_upd [OF assms(3), of s' t "Calling m tm"]) simp_all
next
  case (spurious t m tm)
  then show ?thesis by (intro readers_blocked_upd [OF assms(3), of s' t "Woken m tm False"]) simp_all
next
  case (expire t m)
  then show ?thesis by (intro readers_blocked_upd [OF assms(3), of s' t "Woken m True True"]) simp_all
next
  case (unlock t m)
  then show ?thesis by (intro readers_blocked_upd [OF assms(3), of s' t "Releasing m"]) simp_all
qed

interpretation rwl_untimed: inductive_invariant init_sys untimed_step
  "\<lambda>s. rwl_inv s \<and> readers_blocked s \<and> (\<forall>t. \<not> timed_writer (pcs s t))"
proof
  show "rwl_inv init_sys \<and> readers_blocked init_sys \<and> (\<forall>t. \<not> timed_writer (pcs init_sys t))"
    using rwl_inv_init by (simp add: readers_blocked_def init_sys_def)
  show "rwl_inv t \<and> readers_blocked t \<and> (\<forall>u. \<not> timed_writer (pcs t u))"
    if "rwl_inv s \<and> readers_blocked s \<and> (\<forall>u. \<not> timed_writer (pcs s u))" "untimed_step s t" for s t
    using that rwl_safety.inv_step readers_blocked_step unfolding untimed_step_def by blast
qed

section \<open>Runs of three threads\<close>

definition pcs3 :: "pc \<Rightarrow> pc \<Rightarrow> pc \<Rightarrow> nat \<Rightarrow> pc" where
  "pcs3 a b c = (\<lambda>_. Idle)(0 := a, 1 := b, 2 := c)"

definition sys3 :: "int \<Rightarrow> int \<Rightarrow> int \<Rightarrow> int \<Rightarrow> nat option \<Rightarrow> pc \<Rightarrow> pc \<Rightarrow> pc \<Rightarrow> sys" where
  "sys3 wr ww w r q a b c =
     \<lparr>lk = \<lparr>n_waiting_readers = wr, n_waiting_writers = ww, n_writers = w, n_readers = r\<rparr>,
      mu = q, pcs = pcs3 a b c\<rparr>"

lemma pcs3_simps [simp]:
  "pcs3 a b c 0 = a" "pcs3 a b c (Suc 0) = b" "pcs3 a b c 2 = c"
  "(pcs3 a b c)(0 := p) = pcs3 p b c" "(pcs3 a b c)(Suc 0 := p) = pcs3 a p c" "(pcs3 a b c)(2 := p) = pcs3 a b p"
  by (auto simp: pcs3_def)

lemma sys3_init: "init_sys = sys3 0 0 0 0 None Idle Idle Idle"
  by (auto simp: init_sys_def rwl_init_def sys3_def pcs3_def)

lemma sys3_fields [simp]:
  "pcs (sys3 wr ww w r q a b c) = pcs3 a b c" "mu (sys3 wr ww w r q a b c) = q"
  "lk (sys3 wr ww w r q a b c) =
     \<lparr>n_waiting_readers = wr, n_waiting_writers = ww, n_writers = w, n_readers = r\<rparr>"
  by (simp_all add: sys3_def)

text \<open>Thread 0 acquires the lock for reading.\<close>

lemma reach_reading: "reachable init_sys rwl_step (sys3 0 0 0 1 None (Holding Reader) Idle Idle)"
proof -
  let ?R = "reachable init_sys rwl_step"
  have "?R (sys3 0 0 0 0 None Idle Idle Idle)" using reach_start [of init_sys] by (simp add: sys3_init)
  then have "?R (sys3 0 0 0 0 None (Calling Reader False) Idle Idle)"
    by (rule reach_step) (use call [of "sys3 0 0 0 0 None Idle Idle Idle" 0 Reader False] in \<open>simp add: sys3_def\<close>)
  then have "?R (sys3 1 0 0 0 (Some 0) (Looping Reader False) Idle Idle)"
    by (rule reach_step)
      (use enter [of "sys3 0 0 0 0 None (Calling Reader False) Idle Idle" 0 Reader False] in \<open>simp add: sys3_def rwl_op_defs\<close>)
  then show ?thesis
    by (rule reach_step)
      (use acquire [of "sys3 1 0 0 0 (Some 0) (Looping Reader False) Idle Idle" 0 Reader False] in \<open>simp add: sys3_def rwl_op_defs\<close>)
qed

text \<open>Thread 1 then waits for writing with a time limit, thread 2 for reading without one.\<close>

lemma reach_writer_waits:
  "reachable init_sys rwl_step (sys3 0 1 0 1 None (Holding Reader) (Waiting Writer True) Idle)"
proof -
  let ?R = "reachable init_sys rwl_step" and ?h = "Holding Reader"
  have "?R (sys3 0 0 0 1 None ?h (Calling Writer True) Idle)"
    using reach_reading
    by (rule reach_step) (use call [of "sys3 0 0 0 1 None ?h Idle Idle" 1 Writer True] in \<open>simp add: sys3_def\<close>)
  then have "?R (sys3 0 1 0 1 (Some 1) ?h (Looping Writer True) Idle)"
    by (rule reach_step)
      (use enter [of "sys3 0 0 0 1 None ?h (Calling Writer True) Idle" 1] in \<open>simp add: sys3_def rwl_op_defs\<close>)
  then show ?thesis
    by (rule reach_step)
      (use block [of "sys3 0 1 0 1 (Some 1) ?h (Looping Writer True) Idle" 1 Writer True]
        in \<open>simp add: sys3_def rwl_op_defs\<close>)
qed

lemma reach_queue:
  "reachable init_sys rwl_step (sys3 1 1 0 1 None (Holding Reader) (Waiting Writer True) (Waiting Reader False))"
proof -
  let ?R = "reachable init_sys rwl_step" and ?h = "Holding Reader" and ?w = "Waiting Writer True"
  have "?R (sys3 0 1 0 1 None ?h ?w (Calling Reader False))"
    using reach_writer_waits
    by (rule reach_step) (use call [of "sys3 0 1 0 1 None ?h ?w Idle" 2 Reader False] in \<open>simp add: sys3_def\<close>)
  then have "?R (sys3 1 1 0 1 (Some 2) ?h ?w (Looping Reader False))"
    by (rule reach_step)
      (use enter [of "sys3 0 1 0 1 None ?h ?w (Calling Reader False)" 2 Reader False]
        in \<open>simp add: sys3_def rwl_op_defs\<close>)
  then show ?thesis
    by (rule reach_step)
      (use block [of "sys3 1 1 0 1 (Some 2) ?h ?w (Looping Reader False)" 2 Reader False]
        in \<open>simp add: sys3_def rwl_op_defs\<close>)
qed

text \<open>Or thread 2 waits for writing too, and the reader signals thread 1.\<close>

lemma reach_signal:
  "reachable init_sys rwl_step (sys3 0 2 0 0 None Idle (Woken Writer True False) (Waiting Writer False))"
proof -
  let ?R = "reachable init_sys rwl_step" and ?h = "Holding Reader" and ?w = "Waiting Writer True"
    and ?q = "Waiting Writer False"
  have "?R (sys3 0 1 0 1 None ?h ?w (Calling Writer False))"
    using reach_writer_waits
    by (rule reach_step) (use call [of "sys3 0 1 0 1 None ?h ?w Idle" 2 Writer False] in \<open>simp add: sys3_def\<close>)
  then have "?R (sys3 0 2 0 1 (Some 2) ?h ?w (Looping Writer False))"
    by (rule reach_step)
      (use enter [of "sys3 0 1 0 1 None ?h ?w (Calling Writer False)" 2 Writer False]
        in \<open>simp add: sys3_def rwl_op_defs\<close>)
  then have "?R (sys3 0 2 0 1 None ?h ?w ?q)"
    by (rule reach_step)
      (use block [of "sys3 0 2 0 1 (Some 2) ?h ?w (Looping Writer False)" 2 Writer False]
        in \<open>simp add: sys3_def rwl_op_defs\<close>)
  then have "?R (sys3 0 2 0 1 None (Releasing Reader) ?w ?q)"
    by (rule reach_step) (use unlock [of "sys3 0 2 0 1 None ?h ?w ?q" 0] in \<open>simp add: sys3_def\<close>)
  moreover have "rwl_step (sys3 0 2 0 1 None (Releasing Reader) ?w ?q)
      (sys3 0 2 0 0 None Idle (Woken Writer True False) ?q)"
  proof -
    have w: "wake SignalWriter (pcs3 Idle ?w ?q) (pcs3 Idle (Woken Writer True False) ?q)"
      using wake_signal [of "pcs3 Idle ?w ?q" 1 True] by (simp del: wake_simps)
    show ?thesis
      using release [of "sys3 0 2 0 1 None (Releasing Reader) ?w ?q" 0 Reader
          "\<lparr>n_waiting_readers = 0, n_waiting_writers = 2, n_writers = 0, n_readers = 0\<rparr>" SignalWriter
          "pcs3 Idle (Woken Writer True False) ?q"] w
      by (simp add: sys3_def rwl_runlock_def Let_def del: wake_simps)
  qed
  ultimately show ?thesis by (rule reach_step)
qed

text \<open>The writer gives up and the reader that held the lock leaves: nobody wakes thread 2.\<close>

lemma reach_stranded:
  "reachable init_sys rwl_step (sys3 1 0 0 0 None Idle Idle (Waiting Reader False))"
proof -
  let ?R = "reachable init_sys rwl_step" and ?q = "Waiting Reader False"
  have "?R (sys3 1 1 0 1 None (Holding Reader) (Woken Writer True True) ?q)"
    using reach_queue
    by (rule reach_step)
      (use expire [of "sys3 1 1 0 1 None (Holding Reader) (Waiting Writer True) ?q" 1] in \<open>simp add: sys3_def\<close>)
  then have "?R (sys3 1 0 0 1 None (Holding Reader) Idle ?q)"
    by (rule reach_step)
      (use giveup [of "sys3 1 1 0 1 None (Holding Reader) (Woken Writer True True) ?q" 1]
        in \<open>simp add: sys3_def rwl_op_defs\<close>)
  then have "?R (sys3 1 0 0 1 None (Releasing Reader) Idle ?q)"
    by (rule reach_step)
      (use unlock [of "sys3 1 0 0 1 None (Holding Reader) Idle ?q" 0] in \<open>simp add: sys3_def\<close>)
  then show ?thesis
    by (rule reach_step)
      (use release [of "sys3 1 0 0 1 None (Releasing Reader) Idle ?q" 0 Reader _ WakeNone "pcs3 Idle Idle ?q"]
        in \<open>simp add: sys3_def rwl_op_defs Let_def\<close>)
qed


text \<open>A run in which thread 0 writes.\<close>

lemma reach_writing: "reachable init_sys rwl_step (sys3 0 0 1 0 None (Holding Writer) Idle Idle)"
proof -
  let ?R = "reachable init_sys rwl_step"
  have "?R (sys3 0 0 0 0 None Idle Idle Idle)" using reach_start [of init_sys] by (simp add: sys3_init)
  then have "?R (sys3 0 0 0 0 None (Calling Writer False) Idle Idle)"
    by (rule reach_step) (use call [of "sys3 0 0 0 0 None Idle Idle Idle" 0 Writer False] in \<open>simp add: sys3_def\<close>)
  then have "?R (sys3 0 1 0 0 (Some 0) (Looping Writer False) Idle Idle)"
    by (rule reach_step)
      (use enter [of "sys3 0 0 0 0 None (Calling Writer False) Idle Idle" 0 Writer False]
        in \<open>simp add: sys3_def rwl_op_defs\<close>)
  then show ?thesis
    by (rule reach_step)
      (use acquire [of "sys3 0 1 0 0 (Some 0) (Looping Writer False) Idle Idle" 0 Writer False] in \<open>simp add: sys3_def rwl_op_defs\<close>)
qed

lemma untimed_sys3:
  assumes "rwl_step s (sys3 wr ww w r q a b c)" "\<not> timed_writer a" "\<not> timed_writer b" "\<not> timed_writer c"
  shows "untimed_step s (sys3 wr ww w r q a b c)"
  using assms by (simp add: untimed_step_def pcs3_def)

lemma reach_untimed:
  "reachable init_sys untimed_step (sys3 1 0 1 0 None (Holding Writer) (Waiting Reader False) Idle)"
proof -
  let ?R = "reachable init_sys untimed_step" and ?h = "Holding Writer"
  have "?R (sys3 0 0 0 0 None Idle Idle Idle)" using reach_start [of init_sys] by (simp add: sys3_init)
  then have "?R (sys3 0 0 0 0 None (Calling Writer False) Idle Idle)"
    by (rule reach_step, intro untimed_sys3)
      (use call [of "sys3 0 0 0 0 None Idle Idle Idle" 0 Writer False] in \<open>simp_all add: sys3_def\<close>)
  then have "?R (sys3 0 1 0 0 (Some 0) (Looping Writer False) Idle Idle)"
    by (rule reach_step, intro untimed_sys3)
      (use enter [of "sys3 0 0 0 0 None (Calling Writer False) Idle Idle" 0 Writer False]
        in \<open>simp_all add: sys3_def rwl_op_defs\<close>)
  then have "?R (sys3 0 0 1 0 None ?h Idle Idle)"
    by (rule reach_step, intro untimed_sys3)
      (use acquire [of "sys3 0 1 0 0 (Some 0) (Looping Writer False) Idle Idle" 0 Writer False]
        in \<open>simp_all add: sys3_def rwl_op_defs\<close>)
  then have "?R (sys3 0 0 1 0 None ?h (Calling Reader False) Idle)"
    by (rule reach_step, intro untimed_sys3)
      (use call [of "sys3 0 0 1 0 None ?h Idle Idle" 1 Reader False] in \<open>simp_all add: sys3_def\<close>)
  then have "?R (sys3 1 0 1 0 (Some 1) ?h (Looping Reader False) Idle)"
    by (rule reach_step, intro untimed_sys3)
      (use enter [of "sys3 0 0 1 0 None ?h (Calling Reader False) Idle" 1 Reader False]
        in \<open>simp_all add: sys3_def rwl_op_defs\<close>)
  then show ?thesis
    by (rule reach_step, intro untimed_sys3)
      (use block [of "sys3 1 0 1 0 (Some 1) ?h (Looping Reader False) Idle" 1 Reader False]
        in \<open>simp_all add: sys3_def rwl_op_defs\<close>)
qed

lemma holders_sys3:
  "holders m (sys3 wr ww w r q a b c) =
     (if is_holding m a then {0} else {}) \<union> (if is_holding m b then {1} else {}) \<union>
     (if is_holding m c then {2} else {})"
  by (auto simp: holders_def pcs3_def)

section \<open>Properties\<close>

text \<open>C7: at every moment of every interleaving of \<open>rwl_rlock\<close>, \<open>rwl_wlock\<close>, \<open>rwl_runlock\<close> and
  \<open>rwl_wunlock\<close>, with spurious wake-ups and timeouts, either nobody holds the lock for writing or exactly
  one thread does and nobody holds it for reading.\<close>

theorem rwl_mutual_exclusion:
  assumes "reachable init_sys rwl_step s"
  shows "holders Writer s = {} \<or> (\<exists>t. holders Writer s = {t}) \<and> holders Reader s = {}"
proof -
  have inv: "rwl_inv s" by (rule rwl_safety.reachable_inv [OF assms])
  have "holders Writer s = {t} \<and> holders Reader s = {}" if "t \<in> holders Writer s" for t
  proof -
    have *: "\<not> is_holding m (pcs s u)" if "u \<noteq> t" for m u
      using rwl_inv_exclusive [OF inv, of t m u] \<open>t \<in> holders Writer s\<close> that by (auto simp: holders_def)
    have "\<not> is_holding Reader (pcs s t)"
      using that by (cases "pcs s t") (auto simp: holders_def)
    with * have "\<not> is_holding Reader (pcs s u)" for u by (cases "u = t") auto
    moreover have "\<not> is_holding Writer (pcs s u)" if "u \<noteq> t" for u by (rule * [OF that])
    ultimately show ?thesis using that by (auto simp: holders_def)
  qed
  then show ?thesis by blast
qed

theorem rwl_mutual_exclusion_witness:
  "holders Writer (sys3 0 0 1 0 None (Holding Writer) Idle Idle) = {0} \<and>
   holders Reader (sys3 0 0 1 0 None (Holding Writer) Idle Idle) = {}"
  using rwl_mutual_exclusion [OF reach_writing] by (simp add: holders_sys3)

text \<open>C8: every step of the threads, seen as the pair of the set of readers and the set of writers,
  is a step of the lock's specification or changes nothing: a reader enters only when there is no writer,
  a writer only when there is nobody, and only a holder leaves.\<close>

theorem rwl_refines_lock_spec:
  assumes "reachable init_sys rwl_step s" "rwl_step s s'"
  shows "lock_spec (abs_lock s) (abs_lock s')"
  by (rule rwl_step_refines [OF rwl_safety.reachable_inv [OF assms(1)] assms(2)])

theorem rwl_refines_lock_spec_witness:
  "lock_spec (abs_lock (sys3 0 0 1 0 None (Holding Writer) Idle Idle))
     (abs_lock (sys3 0 0 1 0 None (Releasing Writer) Idle Idle))"
proof -
  have "rwl_step (sys3 0 0 1 0 None (Holding Writer) Idle Idle) (sys3 0 0 1 0 None (Releasing Writer) Idle Idle)"
    using unlock [of "sys3 0 0 1 0 None (Holding Writer) Idle Idle" 0] by (simp add: sys3_def)
  then show ?thesis by (rule rwl_refines_lock_spec [OF reach_writing])
qed

text \<open>The four counters are exact: \<open>n_readers\<close> and \<open>n_writers\<close> are the numbers of threads that hold
  the lock in each mode, and \<open>rwl_nwaiters\<close> is the number of threads between the entry of a lock function
  and its return, none of which holds the lock.\<close>

lemma rwl_counters_exact:
  assumes "reachable init_sys rwl_step s"
  shows "n_readers (lk s) = int (card (holders Reader s)) \<and>
    n_writers (lk s) = int (card (holders Writer s)) \<and>
    rwl_nwaiters (lk s) =
      int (card {t. is_waiting Reader (pcs s t)}) + int (card {t. is_waiting Writer (pcs s t)})"
  using rwl_safety.reachable_inv [OF assms]
  by (simp_all add: rwl_inv_def counts_ok_def count_pcs_def holders_def rwl_nwaiters_def)



text \<open>C26: no wake-up of a writer is lost: when a writer is in the wait set of \<open>writer_cond\<close> and nobody
  holds the lock, some writer has been woken or is about to test the loop's condition.\<close>

theorem rwl_no_lost_writer:
  assumes "reachable init_sys rwl_step s" "queued Writer (pcs s t)"
    "n_readers (lk s) = 0" "n_writers (lk s) = 0"
  shows "\<exists>u. due_writer (pcs s u)"
  using rwl_wakeups.reachable_inv [OF assms(1)] assms(2-4) by (auto simp: writer_due_def)

theorem rwl_no_lost_writer_witness:
  "\<exists>u. due_writer (pcs (sys3 0 2 0 0 None Idle (Woken Writer True False) (Waiting Writer False)) u)"
  by (rule rwl_no_lost_writer [OF reach_signal, of 2]) simp_all

text \<open>C28: a reader can be stranded. There is a run of three threads after which thread 2 sleeps in
  \<open>rwl_rlock\<close> without a time limit, every other thread is outside the lock, and its loop condition is false:
  a writer timed out while the reader waited behind it, and neither the timeout path of \<open>rwl_wlock\<close> nor
  \<open>rwl_runlock\<close> wakes the readers.\<close>

theorem rwl_reader_stranded:
  "\<exists>s. reachable init_sys rwl_step s \<and> pcs s = (\<lambda>_. Idle)(2 := Waiting Reader False) \<and>
     mu s = None \<and> \<not> rlock_blocked (lk s)"
  using reach_stranded
  by (intro exI [of _ "sys3 1 0 0 0 None Idle Idle (Waiting Reader False)"])
    (auto simp: rwl_op_defs pcs3_def sys3_def)

text \<open>When no writer passes a time limit, no reader is stranded: a reader in the wait set of
  \<open>reader_cond\<close> has a writer before it, which holds the lock or waits for it.\<close>

lemma rwl_readers_wait_for_writers:
  assumes "reachable init_sys untimed_step s" "queued Reader (pcs s t)"
  shows "(\<exists>u. is_holding Writer (pcs s u)) \<or> (\<exists>u. is_waiting Writer (pcs s u))"
  using rwl_untimed.reachable_inv [OF assms(1)] assms(2) rwl_inv_flags(1,3) [of s]
  by (auto simp: readers_blocked_def rlock_blocked_def)

end
