(* ===== verification/HtHash.thy ===== *)
theory HtHash
  imports CPrelude
begin

text \<open>
  The arithmetic of threadlab/htable.c: the hash code of a key (\<open>madd\<close>, \<open>mmul\<close>, \<open>hashcode\<close>) and the
  search for a prime size (\<open>is_prime\<close>, \<open>get_prime\<close>), with the proof that \<open>BIG_PRIME\<close> is a prime.
\<close>

section \<open>Hash codes\<close>

abbreviation BIG_PRIME :: int where "BIG_PRIME \<equiv> 1560007"

definition ht_madd :: "int \<Rightarrow> int \<Rightarrow> int" where
  "ht_madd a b = (if s32 (a + b) > BIG_PRIME then s32 (s32 (a + b) - BIG_PRIME) else s32 (a + b))"

definition ht_mmul :: "int \<Rightarrow> int \<Rightarrow> int" where
  "ht_mmul a b = s32 (a * b) smod BIG_PRIME"

fun hashcode_loop :: "int \<Rightarrow> string \<Rightarrow> int" where
  "hashcode_loop p [] = p"
| "hashcode_loop p (c # s) =
     (if c = NUL then p else hashcode_loop (ht_madd (ht_mmul p 256) (char_val c)) s)"

definition hashcode :: "string \<Rightarrow> int" where
  "hashcode s = hashcode_loop 0 s"

lemma ht_mmul_mod:
  assumes "0 \<le> p" "p \<le> BIG_PRIME"
  shows "ht_mmul p 256 = p * 256 mod BIG_PRIME"
proof -
  have "s32 (p * 256) = p * 256" using assms by (intro s32_id) simp_all
  then show ?thesis using assms by (simp add: ht_mmul_def smod_nonneg)
qed

lemma ht_madd_cases:
  assumes "0 \<le> a" "a < BIG_PRIME" "0 \<le> b" "b < 128"
  shows "ht_madd a b = (if a + b > BIG_PRIME then a + b - BIG_PRIME else a + b)"
proof -
  have "s32 (a + b) = a + b" using assms by (intro s32_id) simp_all
  moreover have "s32 (a + b - BIG_PRIME) = a + b - BIG_PRIME" using assms by (intro s32_id) simp_all
  ultimately show ?thesis by (simp add: ht_madd_def)
qed

lemma ht_hash_step:
  assumes "0 \<le> p" "p \<le> BIG_PRIME" "0 < c" "c < 128"
  shows "0 \<le> ht_madd (ht_mmul p 256) c" "ht_madd (ht_mmul p 256) c \<le> BIG_PRIME"
    "ht_madd (ht_mmul p 256) c mod BIG_PRIME = (p * 256 + c) mod BIG_PRIME"
proof -
  have *: "0 \<le> p * 256 mod BIG_PRIME" "p * 256 mod BIG_PRIME < BIG_PRIME" by simp_all
  note madd = ht_madd_cases [OF *, of c]
  show "0 \<le> ht_madd (ht_mmul p 256) c" "ht_madd (ht_mmul p 256) c \<le> BIG_PRIME"
    using assms * by (simp_all add: ht_mmul_mod madd) linarith
  show "ht_madd (ht_mmul p 256) c mod BIG_PRIME = (p * 256 + c) mod BIG_PRIME"
    using assms by (simp add: ht_mmul_mod madd mod_simps)
qed

fun poly_hash :: "int \<Rightarrow> string \<Rightarrow> int" where
  "poly_hash p [] = p"
| "poly_hash p (c # s) = poly_hash (p * 256 + char_val c) s"

lemma poly_hash_cong: "p mod m = q mod m \<Longrightarrow> poly_hash p s mod m = poly_hash q s mod m"
proof (induction s arbitrary: p q)
  case (Cons c s)
  have "(p * 256 + char_val c) mod m = (q * 256 + char_val c) mod m"
    by (rule mod_add_cong [OF mod_mult_cong [OF Cons.prems refl] refl])
  from Cons.IH [OF this] show ?case by simp
qed simp

lemma hashcode_loop_ok:
  assumes "ascii s" "0 \<le> p" "p \<le> BIG_PRIME"
  shows "0 \<le> hashcode_loop p s \<and> hashcode_loop p s \<le> BIG_PRIME \<and>
    hashcode_loop p s mod BIG_PRIME = poly_hash p s mod BIG_PRIME"
  using assms
proof (induction s arbitrary: p)
  case (Cons c s)
  have c: "0 < char_val c" "char_val c < 128" "ascii s" "c \<noteq> NUL"
    using Cons.prems(1) char_val_range [of c] by (auto simp: ascii_def)
  note step = ht_hash_step [OF Cons.prems(2,3) c(1,2)]
  show ?case
    using Cons.IH [OF c(3) step(1,2)] poly_hash_cong [OF step(3)] c(4) by simp
qed simp

lemma hashcode_ok:
  assumes "ascii s"
  shows "0 \<le> hashcode s" "hashcode s \<le> BIG_PRIME"
    "hashcode s mod BIG_PRIME = poly_hash 0 s mod BIG_PRIME"
  using hashcode_loop_ok [OF assms, of 0] by (simp_all add: hashcode_def)

section \<open>Primes\<close>

function is_prime_loop :: "int \<Rightarrow> int \<Rightarrow> bool" where
  "is_prime_loop n i =
     (if i < n then if n smod i = 0 then False else is_prime_loop n (i + 2) else True)"
  by auto
termination by (relation "measure (\<lambda>(n, i). nat (n - i))") auto

declare is_prime_loop.simps [simp del]

definition is_prime :: "int \<Rightarrow> bool" where
  "is_prime n = (if n \<le> 3 then True else if n smod 2 = 0 then False else is_prime_loop n 3)"

function get_prime :: "int \<Rightarrow> int" where
  "get_prime n = (if is_prime n then n else get_prime (s32 (n + 1)))"
  by auto
termination
proof (relation "measure (\<lambda>n. if n \<le> 3 then 0 else if n < 2 ^ 31 then 1 + nat (2 ^ 31 - n) else 2 ^ 32)")
  fix n :: int
  assume "\<not> is_prime n"
  then have n: "3 < n" by (simp add: is_prime_def split: if_splits)
  have "s32 (n + 1) = n + 1" if "n + 1 < 2 ^ 31" using n that by (intro s32_id) simp_all
  moreover have "s32 (n + 1) = - (2 ^ 31)" if "n + 1 = 2 ^ 31"
    unfolding that by (simp add: s32_def)
  moreover note s32_range [of "n + 1"]
  ultimately show "(s32 (n + 1), n) \<in> measure (\<lambda>n. if n \<le> 3 then 0
      else if n < 2 ^ 31 then 1 + nat (2 ^ 31 - n) else 2 ^ 32)"
    using n by (cases "n + 1 < 2 ^ 31"; cases "n + 1 = 2 ^ 31") (auto simp: nat_less_iff)
qed simp

declare get_prime.simps [simp del]

lemma is_prime_loop_iff:
  assumes "0 < i" "odd i"
  shows "is_prime_loop n i \<longleftrightarrow> (\<forall>d. i \<le> d \<longrightarrow> d < n \<longrightarrow> odd d \<longrightarrow> \<not> d dvd n)"
  using assms
proof (induction n i rule: is_prime_loop.induct)
  case (1 n i)
  have split: "(\<forall>d. i \<le> d \<longrightarrow> d < n \<longrightarrow> odd d \<longrightarrow> \<not> d dvd n) \<longleftrightarrow>
      \<not> i dvd n \<and> (\<forall>d. i + 2 \<le> d \<longrightarrow> d < n \<longrightarrow> odd d \<longrightarrow> \<not> d dvd n)" if "i < n"
  proof -
    have "d = i \<or> i + 2 \<le> d" if "i \<le> d" "odd d" for d
    proof -
      have "d \<noteq> i + 1" using that \<open>odd i\<close> by auto
      then show ?thesis using that by linarith
    qed
    then show ?thesis using that \<open>odd i\<close> by fastforce
  qed
  show ?case
  proof (cases "i < n")
    case True
    have "n smod i = n mod i" using True 1(2) by (intro smod_nonneg) simp_all
    then have "n smod i = 0 \<longleftrightarrow> i dvd n" by (simp add: dvd_eq_mod_eq_0)
    then show ?thesis
      using True split 1(1) [OF True] 1(2,3) by (subst is_prime_loop.simps) simp
  next
    case False
    then show ?thesis by (subst is_prime_loop.simps) auto
  qed
qed

lemma is_prime_iff:
  assumes "1 < n"
  shows "is_prime n \<longleftrightarrow> (\<forall>d. 1 < d \<longrightarrow> d < n \<longrightarrow> \<not> d dvd n)"
proof (cases "n \<le> 3")
  case True
  have "\<not> d dvd n" if "1 < d" "d < n" for d
  proof -
    have "d = 2" "n = 3" using that True by simp_all
    then show ?thesis by simp
  qed
  then show ?thesis using True by (auto simp: is_prime_def)
next
  case False
  have two: "n smod 2 = n mod 2" using assms by (intro smod_nonneg) simp_all
  have "(\<forall>d. 1 < d \<longrightarrow> d < n \<longrightarrow> \<not> d dvd n) \<longleftrightarrow>
      odd n \<and> (\<forall>d. 3 \<le> d \<longrightarrow> d < n \<longrightarrow> odd d \<longrightarrow> \<not> d dvd n)" (is "?l \<longleftrightarrow> ?r")
  proof
    assume ?l
    then show ?r using False by auto
  next
    assume r: ?r
    show ?l
    proof (intro allI impI)
      fix d :: int
      assume d: "1 < d" "d < n"
      show "\<not> d dvd n"
      proof (cases "odd d")
        case True
        then have "d \<noteq> 2" by auto
        then show ?thesis using r d True by simp
      next
        case False
        then show ?thesis using r by (meson dvd_trans)
      qed
    qed
  qed
  moreover have "is_prime n \<longleftrightarrow> odd n \<and> is_prime_loop n 3"
    using False two by (auto simp: is_prime_def even_iff_mod_2_eq_zero)
  ultimately show ?thesis by (simp add: is_prime_loop_iff)
qed

text \<open>BIG_PRIME itself is a prime: trial division by the odd numbers below 1263.\<close>

fun no_divisor :: "nat \<Rightarrow> int \<Rightarrow> int \<Rightarrow> bool" where
  "no_divisor 0 n k = True"
| "no_divisor (Suc f) n k = (n mod k \<noteq> 0 \<and> no_divisor f n (k + 2))"

lemma no_divisor_numeral:
  "no_divisor (numeral f) n k = (n mod k \<noteq> 0 \<and> no_divisor (pred_numeral f) n (k + 2))"
  by (simp add: numeral_eq_Suc)

lemma no_divisor_odd:
  assumes "no_divisor f n k" "odd k" "odd i" "k \<le> i" "i < k + 2 * int f"
  shows "n mod i \<noteq> 0"
  using assms
proof (induction f arbitrary: k)
  case (Suc f)
  show ?case
  proof (cases "i = k")
    case False
    have "i \<noteq> k + 1" using Suc.prems(2,3) by auto
    then have "k + 2 \<le> i" using False Suc.prems(4) by linarith
    then show ?thesis using Suc.IH [of "k + 2"] Suc.prems by simp
  qed (use Suc.prems(1) in simp)
qed simp

lemma chunk_0: "no_divisor 90 BIG_PRIME 3"
  by (simp add: no_divisor_numeral)

lemma chunk_1: "no_divisor 90 BIG_PRIME 183"
  by (simp add: no_divisor_numeral)

lemma chunk_2: "no_divisor 90 BIG_PRIME 363"
  by (simp add: no_divisor_numeral)

lemma chunk_3: "no_divisor 90 BIG_PRIME 543"
  by (simp add: no_divisor_numeral)

lemma chunk_4: "no_divisor 90 BIG_PRIME 723"
  by (simp add: no_divisor_numeral)

lemma chunk_5: "no_divisor 90 BIG_PRIME 903"
  by (simp add: no_divisor_numeral)

lemma chunk_6: "no_divisor 90 BIG_PRIME 1083"
  by (simp add: no_divisor_numeral)

lemma trial_division:
  assumes "odd i" "3 \<le> i" "i < 1263"
  shows "BIG_PRIME mod i \<noteq> 0"
proof -
  have "i < 183 \<or> 183 \<le> i \<and> i < 363 \<or> 363 \<le> i \<and> i < 543 \<or> 543 \<le> i \<and> i < 723 \<or>
      723 \<le> i \<and> i < 903 \<or> 903 \<le> i \<and> i < 1083 \<or> 1083 \<le> i" by linarith
  then show ?thesis
    using no_divisor_odd [OF chunk_0 _ assms(1)] no_divisor_odd [OF chunk_1 _ assms(1)]
      no_divisor_odd [OF chunk_2 _ assms(1)] no_divisor_odd [OF chunk_3 _ assms(1)]
      no_divisor_odd [OF chunk_4 _ assms(1)] no_divisor_odd [OF chunk_5 _ assms(1)]
      no_divisor_odd [OF chunk_6 _ assms(1)] assms(2,3) by (elim disjE conjE) simp_all
qed

lemma no_small_divisor:
  assumes "1 < k" "k \<le> 1249"
  shows "\<not> k dvd BIG_PRIME"
proof
  assume k: "k dvd BIG_PRIME"
  have "\<not> (2::int) dvd BIG_PRIME" by simp
  then have "odd k" using k dvd_trans by blast
  then have "k \<noteq> 2" by auto
  then have "BIG_PRIME mod k \<noteq> 0" using \<open>odd k\<close> assms by (intro trial_division) simp_all
  then show False using k by (simp add: dvd_eq_mod_eq_0)
qed

lemma is_prime_BIG_PRIME: "is_prime BIG_PRIME"
proof -
  have "\<not> d dvd BIG_PRIME" if d: "1 < d" "d < BIG_PRIME" for d
  proof
    assume "d dvd BIG_PRIME"
    then obtain e where e: "BIG_PRIME = d * e" by (auto simp: dvd_def)
    have "0 < d * e" using e by simp
    then have "0 < e" using d by (simp add: zero_less_mult_iff)
    moreover have "e \<noteq> 1" using e d by auto
    ultimately have e1: "1 < e" by simp
    have "e dvd BIG_PRIME" unfolding e by simp
    have "d \<le> 1249 \<or> e \<le> 1249"
    proof (rule ccontr)
      assume "\<not> ?thesis"
      then have "1250 * 1250 \<le> d * e" by (intro mult_mono) auto
      then show False using e by simp
    qed
    then show False
      using no_small_divisor [OF d(1)] no_small_divisor [OF e1] \<open>d dvd BIG_PRIME\<close> \<open>e dvd BIG_PRIME\<close>
      by blast
  qed
  then show ?thesis by (simp add: is_prime_iff)
qed

lemma get_prime_least:
  assumes "n \<le> p" "p < 2 ^ 31" "- (2 ^ 31) \<le> n" "is_prime p"
  shows "n \<le> get_prime n \<and> get_prime n \<le> p \<and> is_prime (get_prime n) \<and>
    (\<forall>q. n \<le> q \<longrightarrow> q < get_prime n \<longrightarrow> \<not> is_prime q)"
  using assms
proof (induction n rule: get_prime.induct)
  case (1 n)
  show ?case
  proof (cases "is_prime n")
    case True
    then show ?thesis using 1 by (subst (1 2 3 4) get_prime.simps) auto
  next
    case False
    then have np: "n < p" using 1(2,5) by (cases "n = p") auto
    have s: "s32 (n + 1) = n + 1" using np 1(3,4) by (intro s32_id) simp_all
    have g: "get_prime n = get_prime (n + 1)" using False by (subst get_prime.simps) (simp add: s)
    have ih: "n + 1 \<le> get_prime (n + 1) \<and> get_prime (n + 1) \<le> p \<and> is_prime (get_prime (n + 1)) \<and>
        (\<forall>q. n + 1 \<le> q \<longrightarrow> q < get_prime (n + 1) \<longrightarrow> \<not> is_prime q)"
      using 1(1) [OF False] np 1(3,4,5) by (simp add: s)
    have "\<not> is_prime q" if "n \<le> q" "q < get_prime (n + 1)" for q
      using ih that False by (cases "q = n") auto
    then show ?thesis unfolding g using ih by auto
  qed
qed

lemma get_prime_exists:
  assumes "0 \<le> n" "n \<le> BIG_PRIME"
  shows "n \<le> get_prime n" "get_prime n \<le> BIG_PRIME" "is_prime (get_prime n)"
  using get_prime_least [of n BIG_PRIME] assms is_prime_BIG_PRIME by auto

lemma get_prime_5: "get_prime 5 = 5"
  by (subst get_prime.simps) (simp add: is_prime_def is_prime_loop.simps signed_modulo_int_def)

section \<open>Properties\<close>

text \<open>The hash code of an ASCII key lies between 0 and \<open>BIG_PRIME\<close> (inclusive: \<open>madd\<close> compares
  with \<open>>\<close>), nothing overflows an \<open>int\<close> on the way, and modulo \<open>BIG_PRIME\<close> it is the value of the key read as
  a number in base 256.\<close>

lemma hashcode_poly:
  assumes "ascii s"
  shows "0 \<le> hashcode s \<and> hashcode s \<le> BIG_PRIME \<and> hashcode s mod BIG_PRIME = poly_hash 0 s mod BIG_PRIME"
  using hashcode_ok [OF assms] by simp

text \<open>\<open>get_prime\<close> returns the least number at or above \<open>min\<close> that \<open>is_prime\<close> accepts, if there is one
  in the range of \<open>int\<close>; in particular it returns \<open>min\<close> itself when that is prime, where the comment promises
  a prime larger than \<open>min\<close>.\<close>

lemma get_prime_is_least:
  assumes "lo \<le> p" "p < 2 ^ 31" "- (2 ^ 31) \<le> lo" "is_prime p"
  shows "lo \<le> get_prime lo \<and> get_prime lo \<le> p \<and> is_prime (get_prime lo) \<and>
    (\<forall>q. lo \<le> q \<and> q < get_prime lo \<longrightarrow> \<not> is_prime q)"
  using get_prime_least [OF assms] by simp

text \<open>\<open>is_prime\<close> decides primality for every number above 1 (and accepts every number up to 3).\<close>

lemma is_prime_correct:
  "is_prime n \<longleftrightarrow> n \<le> 3 \<or> (\<forall>d \<in> {2..<n}. \<not> d dvd n)"
proof (cases "n \<le> 3")
  case True
  then show ?thesis by (simp add: is_prime_def)
next
  case False
  then show ?thesis using is_prime_iff [of n] by auto
qed

end
