(* ===== verification/HTable.thy ===== *)
theory HTable
  imports RwLock HtHash "HOL-Library.Multiset"
begin

text \<open>
  threadlab/htable.c, run by one thread: the table with its chains, the lock of each slot, insertion,
  lookup and resizing. A chain is the list of its nodes from its head; \<open>store\<close> is the array of chains.
  \<open>malloc\<close> is taken to succeed. A lock operation that would wait gives \<open>Blocked\<close>: there is no other
  thread to wake the caller. The locale \<open>map_store\<close> is the contract of a table with insertion and lookup.
\<close>

section \<open>The table\<close>

abbreviation MAX_COLLISION :: int where "MAX_COLLISION \<equiv> 10"
abbreviation NUM_LOCKS :: int where "NUM_LOCKS \<equiv> 10000"

record node =
  nd_hash :: int
  nd_key :: string
  nd_val :: ptr

record htable =
  allow_resize :: int
  store :: "node list list"
  ht_size :: int

text \<open>The table together with the global variables of the file.\<close>

record hstate =
  tbl :: htable
  undergoing_resize :: int
  mu_locked :: bool
  rwl_slot :: "nat \<Rightarrow> rwl"

definition htable_init :: "int \<Rightarrow> int \<Rightarrow> hstate" where
  "htable_init sz allow =
     (let size = get_prime (s32 (sz + 1)) in
      \<lparr>tbl = \<lparr>allow_resize = allow, store = replicate (nat size) [], ht_size = size\<rparr>,
       undergoing_resize = 0, mu_locked = False, rwl_slot = (\<lambda>_. rwl_init)\<rparr>)"

definition htable_size :: "hstate \<Rightarrow> int" where
  "htable_size h = ht_size (tbl h)"

section \<open>Locks\<close>

definition lock_mu :: "hstate \<Rightarrow> hstate cres" where
  "lock_mu h = (if mu_locked h then Inl Blocked else Inr (h\<lparr>mu_locked := True\<rparr>))"

definition unlock_mu :: "hstate \<Rightarrow> hstate" where
  "unlock_mu h = h\<lparr>mu_locked := False\<rparr>"

text \<open>Acquiring and releasing \<open>rwl_slot[i]\<close> without a time limit.\<close>

definition slot_lock :: "mode \<Rightarrow> int \<Rightarrow> hstate \<Rightarrow> hstate cres" where
  "slot_lock m i h =
     (if i < 0 then Inl OutOfBounds
      else let l = lock_enter m (rwl_slot h (nat i)) in
        if lock_blocked m l then Inl Blocked
        else Inr (h\<lparr>rwl_slot := (rwl_slot h)(nat i := lock_take m l)\<rparr>))"

definition slot_unlock :: "mode \<Rightarrow> int \<Rightarrow> hstate \<Rightarrow> hstate" where
  "slot_unlock m i h =
     h\<lparr>rwl_slot := (rwl_slot h)(nat i := fst (lock_release m (rwl_slot h (nat i))))\<rparr>"

primrec lock_slots :: "nat \<Rightarrow> hstate \<Rightarrow> hstate cres" where
  "lock_slots 0 h = Inr h"
| "lock_slots (Suc n) h = c_bind (lock_slots n h) (slot_lock Writer (int n))"

primrec unlock_slots :: "nat \<Rightarrow> hstate \<Rightarrow> hstate" where
  "unlock_slots 0 h = h"
| "unlock_slots (Suc n) h = slot_unlock Writer (int n) (unlock_slots n h)"

section \<open>Resizing\<close>

fun move_chain :: "int \<Rightarrow> node list \<Rightarrow> node list list \<Rightarrow> node list list cres" where
  "move_chain new_size [] new_store = Inr new_store"
| "move_chain new_size (n # cur) new_store =
     (if new_size = 0 then Inl DivByZero
      else let slot = nd_hash n smod new_size in
        c_bind (arr_at new_store slot) (\<lambda>chain.
        c_bind (arr_set new_store slot (n # chain)) (move_chain new_size cur)))"

text \<open>The loop over the old slots, from 0.\<close>

primrec move_slots :: "node list list \<Rightarrow> int \<Rightarrow> nat \<Rightarrow> node list list \<Rightarrow> node list list cres" where
  "move_slots old new_size 0 new_store = Inr new_store"
| "move_slots old new_size (Suc i) new_store =
     c_bind (move_slots old new_size i new_store) (\<lambda>ns.
     c_bind (arr_at old (int i)) (\<lambda>cur. move_chain new_size cur ns))"

definition htable_resize :: "hstate \<Rightarrow> hstate cres" where
  "htable_resize h =
     c_bind (lock_mu (h\<lparr>undergoing_resize := 1\<rparr>)) (\<lambda>h.
     let new_size = get_prime (s32 (2 * ht_size (tbl h))) in
     c_bind (lock_slots (nat NUM_LOCKS) h) (\<lambda>h.
     c_bind (move_slots (store (tbl h)) new_size (nat (ht_size (tbl h))) (replicate (nat new_size) []))
       (\<lambda>new_store.
     let h = h\<lparr>tbl := (tbl h)\<lparr>ht_size := new_size, store := new_store\<rparr>\<rparr>;
         h = unlock_mu (unlock_slots (nat NUM_LOCKS) h)
     in Inr (h\<lparr>undergoing_resize := 0\<rparr>))))"

section \<open>Insertion and lookup\<close>

text \<open>The loop of \<open>htable_insert\<close> along a chain: \<open>None\<close> when the key is there, else the number of nodes passed.\<close>

fun insert_loop :: "int \<Rightarrow> string \<Rightarrow> node list \<Rightarrow> int \<Rightarrow> int option" where
  "insert_loop hcode key [] collision = Some collision"
| "insert_loop hcode key (cur # rest) collision =
     (if nd_hash cur = hcode \<and> strcmp (nd_key cur) key = 0 then None
      else insert_loop hcode key rest (collision + 1))"

fun lookup_loop :: "int \<Rightarrow> string \<Rightarrow> node list \<Rightarrow> ptr" where
  "lookup_loop hcode key [] = Null"
| "lookup_loop hcode key (cur # rest) =
     (if nd_hash cur = hcode \<and> strcmp (nd_key cur) key = 0 then nd_val cur
      else lookup_loop hcode key rest)"

text \<open>The part both operations share: the slot of the key, computed under the global lock when a
  resize is going on, and then the lock of the slot, after which the global lock is given back.\<close>

definition enter_slot :: "mode \<Rightarrow> bool \<Rightarrow> int \<Rightarrow> hstate \<Rightarrow> (hstate \<Rightarrow> 'a cres) \<Rightarrow> 'a cres" where
  "enter_slot m global_lock slot h body =
     c_bind (slot_lock m (slot smod NUM_LOCKS) h) (\<lambda>h. body (if global_lock then unlock_mu h else h))"

definition with_slot :: "mode \<Rightarrow> string \<Rightarrow> hstate \<Rightarrow> (int \<Rightarrow> hstate \<Rightarrow> 'a cres) \<Rightarrow> 'a cres" where
  "with_slot m key h body =
     (let global_lock = undergoing_resize h \<noteq> 0 in
      c_bind (if global_lock then lock_mu h else Inr h) (\<lambda>h.
      if ht_size (tbl h) = 0 then Inl DivByZero
      else let slot = hashcode key smod ht_size (tbl h) in enter_slot m global_lock slot h (body slot)))"

text \<open>What \<open>htable_insert\<close> and \<open>htable_lookup\<close> do once they hold the lock of the slot.\<close>

definition insert_slot :: "string \<Rightarrow> ptr \<Rightarrow> int \<Rightarrow> hstate \<Rightarrow> (int \<times> hstate) cres" where
  "insert_slot key val slot h =
     c_bind (arr_at (store (tbl h)) slot) (\<lambda>chain.
     case insert_loop (hashcode key) key chain 0 of
       None \<Rightarrow> Inr (1, slot_unlock Writer (slot smod NUM_LOCKS) h)
     | Some collision \<Rightarrow>
         c_bind (arr_set (store (tbl h)) slot
           (chain @ [\<lparr>nd_hash = hashcode key, nd_key = key, nd_val = val\<rparr>])) (\<lambda>st.
         let h = slot_unlock Writer (slot smod NUM_LOCKS) (h\<lparr>tbl := (tbl h)\<lparr>store := st\<rparr>\<rparr>) in
         if allow_resize (tbl h) \<noteq> 0 \<and> MAX_COLLISION \<le> collision
         then c_bind (htable_resize h) (\<lambda>h. Inr (0, h))
         else Inr (0, h)))"

definition htable_insert :: "string \<Rightarrow> ptr \<Rightarrow> hstate \<Rightarrow> (int \<times> hstate) cres" where
  "htable_insert key val h = with_slot Writer key h (insert_slot key val)"

definition lookup_slot :: "string \<Rightarrow> int \<Rightarrow> hstate \<Rightarrow> (ptr \<times> hstate) cres" where
  "lookup_slot key slot h =
     c_bind (arr_at (store (tbl h)) slot) (\<lambda>chain.
     Inr (lookup_loop (hashcode key) key chain, slot_unlock Reader (slot smod NUM_LOCKS) h))"

definition htable_lookup :: "string \<Rightarrow> hstate \<Rightarrow> (ptr \<times> hstate) cres" where
  "htable_lookup key h = with_slot Reader key h (lookup_slot key)"

section \<open>The invariant and the abstraction\<close>

definition node_ok :: "node \<Rightarrow> bool" where
  "node_ok x \<longleftrightarrow> ascii (nd_key x) \<and> nd_hash x = hashcode (nd_key x)"

definition slot_of :: "nat \<Rightarrow> string \<Rightarrow> nat" where
  "slot_of n key = nat (hashcode key mod int n)"

definition placed :: "node list list \<Rightarrow> bool" where
  "placed st \<longleftrightarrow> (\<forall>i < length st. \<forall>x \<in> set (st ! i). node_ok x \<and> slot_of (length st) (nd_key x) = i)"

definition table_ok :: "htable \<Rightarrow> bool" where
  "table_ok t \<longleftrightarrow> ht_size t = int (length (store t)) \<and> 0 < length (store t) \<and> placed (store t) \<and>
     distinct (map nd_key (concat (store t)))"

definition locks_idle :: "hstate \<Rightarrow> bool" where
  "locks_idle h \<longleftrightarrow> \<not> mu_locked h \<and> undergoing_resize h = 0 \<and> rwl_slot h = (\<lambda>_. rwl_init)"

definition entries :: "node list \<Rightarrow> (string \<times> ptr) list" where
  "entries ns = map (\<lambda>x. (nd_key x, nd_val x)) ns"

definition ht_map :: "hstate \<Rightarrow> string \<Rightarrow> ptr option" where
  "ht_map h = map_of (entries (concat (store (tbl h))))"

definition hstate_ok :: "hstate \<Rightarrow> bool" where
  "hstate_ok h \<longleftrightarrow> table_ok (tbl h) \<and> locks_idle h"

lemma slot_of_less: "0 < n \<Longrightarrow> slot_of n key < n"
  by (simp add: slot_of_def nat_less_iff)

lemma map_fst_entries [simp]: "map fst (entries ns) = map nd_key ns"
  by (simp add: entries_def)

lemma entries_append [simp]: "entries (xs @ ys) = entries xs @ entries ys"
  by (simp add: entries_def)

lemma map_of_entries_None: "map_of (entries ns) k = None \<longleftrightarrow> (\<forall>x \<in> set ns. nd_key x \<noteq> k)"
  unfolding map_of_eq_None_iff entries_def by force

lemma map_of_entries_mset:
  assumes "mset ms = mset ns" "distinct (map nd_key ns)"
  shows "map_of (entries ms) = map_of (entries ns)" "distinct (map nd_key ms)"
proof -
  have "mset (map nd_key ms) = mset (map nd_key ns)" using assms(1) by simp
  then show d: "distinct (map nd_key ms)" using assms(2) by (metis mset_eq_imp_distinct_iff)
  have "set (entries ms) = set (entries ns)"
    using mset_eq_setD [OF assms(1)] by (simp add: entries_def)
  then show "map_of (entries ms) = map_of (entries ns)"
    using map_of_inject_set [of "entries ms" "entries ns"] d assms(2) by simp
qed

lemma mset_concat_update:
  "i < length st \<Longrightarrow> mset (concat (st[i := c])) + mset (st ! i) = mset (concat st) + mset c"
proof (induction st arbitrary: i)
  case (Cons x st)
  then show ?case by (cases i) (simp_all add: ac_simps)
qed simp

lemma mset_concat_insert:
  assumes "i < length st" "mset c = add_mset n (mset (st ! i))"
  shows "mset (concat (st[i := c])) = add_mset n (mset (concat st))"
  using mset_concat_update [OF assms(1), of c] assms(2) by simp

lemma placed_update:
  assumes "placed st" "i < length st" "set c \<subseteq> insert n (set (st ! i))" "node_ok n"
    "slot_of (length st) (nd_key n) = i"
  shows "placed (st[i := c])"
  using assms by (auto simp: placed_def nth_list_update)

text \<open>Only the chain of the key's slot matters for the key.\<close>

lemma placed_chain:
  assumes "placed st" "0 < length st"
  shows "map_of (entries (concat st)) k = map_of (entries (st ! slot_of (length st) k)) k"
proof -
  let ?i = "slot_of (length st) k"
  have i: "?i < length st" using assms(2) by (rule slot_of_less)
  have split: "concat st = concat (take ?i st) @ st ! ?i @ concat (drop (Suc ?i) st)"
    by (subst id_take_nth_drop [OF i]) simp
  have other: "nd_key x \<noteq> k" if "x \<in> set (st ! j)" "j < length st" "j \<noteq> ?i" for x j
    using assms(1) that by (auto simp: placed_def)
  have "map_of (entries (concat (take ?i st))) k = None"
    using other i by (fastforce simp: map_of_entries_None in_set_conv_nth)
  moreover have "map_of (entries (concat (drop (Suc ?i) st))) k = None"
    using other i by (fastforce simp: map_of_entries_None in_set_conv_nth)
  ultimately show ?thesis by (subst split) (simp add: map_add_def split: option.splits)
qed

lemma lookup_loop_map:
  "\<forall>x \<in> set chain. node_ok x \<Longrightarrow>
     lookup_loop (hashcode k) k chain = (case map_of (entries chain) k of None \<Rightarrow> Null | Some v \<Rightarrow> v)"
  by (induction chain) (auto simp: entries_def node_ok_def)

lemma insert_loop_map:
  "\<forall>x \<in> set chain. node_ok x \<Longrightarrow>
     insert_loop (hashcode k) k chain c =
       (if map_of (entries chain) k = None then Some (c + int (length chain)) else None)"
  by (induction chain arbitrary: c) (auto simp: entries_def node_ok_def)

section \<open>Locks of an idle table\<close>

fun taken :: "mode \<Rightarrow> rwl" where
  "taken Reader = \<lparr>n_waiting_readers = 0, n_waiting_writers = 0, n_writers = 0, n_readers = 1\<rparr>"
| "taken Writer = \<lparr>n_waiting_readers = 0, n_waiting_writers = 0, n_writers = 1, n_readers = 0\<rparr>"

lemma lock_idle: "\<not> lock_blocked m (lock_enter m rwl_init)" "lock_take m (lock_enter m rwl_init) = taken m"
  by (cases m; simp add: rwl_op_defs rwl_init_def)+

lemma unlock_taken: "fst (lock_release m (taken m)) = rwl_init"
  by (cases m) (simp_all add: rwl_op_defs rwl_init_def Let_def)

lemma slot_lock_idle:
  "0 \<le> i \<Longrightarrow> rwl_slot h (nat i) = rwl_init \<Longrightarrow>
     slot_lock m i h = Inr (h\<lparr>rwl_slot := (rwl_slot h)(nat i := taken m)\<rparr>)"
  by (simp add: slot_lock_def lock_idle Let_def)

lemma slot_unlock_taken:
  "rwl_slot h = f(nat i := taken m) \<Longrightarrow> slot_unlock m i h = h\<lparr>rwl_slot := f(nat i := rwl_init)\<rparr>"
  by (simp add: slot_unlock_def unlock_taken)

lemma lock_slots_idle:
  "rwl_slot h = (\<lambda>_. rwl_init) \<Longrightarrow>
     lock_slots n h = Inr (h\<lparr>rwl_slot := \<lambda>i. if i < n then taken Writer else rwl_init\<rparr>)"
proof (induction n)
  case (Suc n)
  then show ?case by (auto simp: slot_lock_idle fun_eq_iff less_Suc_eq)
qed simp

lemma unlock_slots_taken:
  assumes "rwl_slot h = (\<lambda>i. if i < n then taken Writer else rwl_init)" "m \<le> n"
  shows "unlock_slots m h = h\<lparr>rwl_slot := \<lambda>i. if m \<le> i \<and> i < n then taken Writer else rwl_init\<rparr>"
  using assms(2)
proof (induction m)
  case 0
  then show ?case using assms(1) by simp
next
  case (Suc m)
  then show ?case
    by (auto simp: slot_unlock_def fun_eq_iff unlock_taken [of Writer, simplified])
qed

section \<open>Resizing keeps the table\<close>

lemma hashcode_slot:
  assumes "node_ok x" "0 < n"
  shows "nd_hash x smod int n = int (slot_of n (nd_key x))"
proof -
  have h: "nd_hash x = hashcode (nd_key x)" "0 \<le> hashcode (nd_key x)"
    using assms(1) hashcode_ok(1) by (auto simp: node_ok_def)
  then show ?thesis unfolding h using assms(2) h(2) by (simp add: smod_nonneg slot_of_def)
qed

lemma move_chain_ok:
  assumes "\<forall>x \<in> set cs. node_ok x" "placed ns" "0 < length ns"
  shows "\<exists>ns'. move_chain (int (length ns)) cs ns = Inr ns' \<and> placed ns' \<and> length ns' = length ns \<and>
    mset (concat ns') = mset (concat ns) + mset cs"
  using assms
proof (induction cs arbitrary: ns)
  case (Cons x cs)
  let ?i = "slot_of (length ns) (nd_key x)"
  let ?ns = "ns[?i := x # ns ! ?i]"
  have x: "node_ok x" using Cons.prems(1) by simp
  have i: "?i < length ns" using Cons.prems(3) by (rule slot_of_less)
  have p: "placed ?ns" by (rule placed_update [OF Cons.prems(2) i _ x refl]) simp
  have m: "mset (concat ?ns) = add_mset x (mset (concat ns))" by (rule mset_concat_insert [OF i]) simp
  obtain ns' where ns': "move_chain (int (length ?ns)) cs ?ns = Inr ns'" "placed ns'"
      "length ns' = length ?ns" "mset (concat ns') = mset (concat ?ns) + mset cs"
    using Cons.IH [of ?ns] Cons.prems(1,3) p by auto
  have "move_chain (int (length ns)) (x # cs) ns = move_chain (int (length ns)) cs ?ns"
    using Cons.prems(3) i by (simp add: hashcode_slot [OF x Cons.prems(3)])
  then show ?case using ns' m by (intro exI [of _ ns']) simp
qed simp

lemma move_slots_ok:
  assumes "placed old" "i \<le> length old" "placed ns" "0 < length ns"
  shows "\<exists>ns'. move_slots old (int (length ns)) i ns = Inr ns' \<and> placed ns' \<and> length ns' = length ns \<and>
    mset (concat ns') = mset (concat ns) + mset (concat (take i old))"
  using assms(2)
proof (induction i)
  case 0
  then show ?case using assms(3) by simp
next
  case (Suc i)
  then obtain n1 where n1: "move_slots old (int (length ns)) i ns = Inr n1" "placed n1"
      "length n1 = length ns" "mset (concat n1) = mset (concat ns) + mset (concat (take i old))"
    by auto
  have "\<forall>x \<in> set (old ! i). node_ok x" using assms(1) Suc_le_lessD [OF Suc.prems] unfolding placed_def by blast
  then obtain n2 where n2: "move_chain (int (length n1)) (old ! i) n1 = Inr n2" "placed n2"
      "length n2 = length n1" "mset (concat n2) = mset (concat n1) + mset (old ! i)"
    using move_chain_ok [of "old ! i" n1] n1 assms(4) by auto
  show ?case
    using n1 n2 Suc.prems by (intro exI [of _ n2]) (simp add: take_Suc_conv_app_nth)
qed

definition room :: "hstate \<Rightarrow> bool" where
  "room h \<longleftrightarrow> 2 * ht_size (tbl h) \<le> BIG_PRIME"

lemma placed_empty: "placed (replicate n [])"
  by (simp add: placed_def)

lemma concat_empty [simp]: "concat (replicate n []) = []"
  by (induction n) simp_all

lemma resize_ok:
  assumes ok: "hstate_ok h" and r: "room h"
  defines "n \<equiv> get_prime (2 * ht_size (tbl h))"
  shows "\<exists>st. htable_resize h = Inr (h\<lparr>tbl := (tbl h)\<lparr>ht_size := n, store := st\<rparr>\<rparr>) \<and>
    table_ok ((tbl h)\<lparr>ht_size := n, store := st\<rparr>) \<and>
    mset (concat st) = mset (concat (store (tbl h)))"
proof -
  let ?t = "tbl h"
  have t: "table_ok ?t" and idle: "locks_idle h" using ok by (simp_all add: hstate_ok_def)
  have size: "0 < ht_size ?t" "nat (ht_size ?t) = length (store ?t)" using t by (simp_all add: table_ok_def)
  have n: "0 < n" using get_prime_exists(1) [of "2 * ht_size ?t"] r size by (simp add: n_def room_def)
  have s: "s32 (2 * ht_size ?t) = 2 * ht_size ?t" using size r by (intro s32_id) (simp_all add: room_def)
  obtain st where st: "move_slots (store ?t) (int (length (replicate (nat n) []))) (length (store ?t))
      (replicate (nat n) []) = Inr st" "placed st" "length st = nat n"
      "mset (concat st) = mset (concat (store ?t))"
    using move_slots_ok [of "store ?t" "length (store ?t)" "replicate (nat n) []"] t n
    by (auto simp: table_ok_def placed_empty)
  let ?h1 = "h\<lparr>undergoing_resize := 1, mu_locked := True\<rparr>"
  have nl: "nat NUM_LOCKS = 10000" by simp
  let ?W = "\<lambda>i. if i < nat NUM_LOCKS then taken Writer else rwl_init"
  have lock: "lock_slots (nat NUM_LOCKS) ?h1 = Inr (?h1\<lparr>rwl_slot := ?W\<rparr>)"
    using idle by (intro lock_slots_idle) (simp add: locks_idle_def)
  have unlock: "unlock_slots (nat NUM_LOCKS) h' = h'\<lparr>rwl_slot := \<lambda>_. rwl_init\<rparr>" if "rwl_slot h' = ?W" for h'
  proof -
    have "(\<lambda>i. if nat NUM_LOCKS \<le> i \<and> i < nat NUM_LOCKS then taken Writer else rwl_init) = (\<lambda>_. rwl_init)"
      by auto
    then show ?thesis unfolding unlock_slots_taken [OF that order_refl] by simp
  qed
  have "htable_resize h = Inr (h\<lparr>tbl := ?t\<lparr>ht_size := n, store := st\<rparr>\<rparr>)"
    using idle st(1) n
    by (simp add: htable_resize_def lock_mu_def locks_idle_def lock [unfolded nl] unlock [unfolded nl] size s n_def [symmetric]
        unlock_mu_def Let_def)
  moreover have "table_ok (?t\<lparr>ht_size := n, store := st\<rparr>)"
    using st n t map_of_entries_mset(2) [OF st(4)] by (simp add: table_ok_def)
  ultimately show ?thesis using st(4) by blast
qed

section \<open>Insertion and lookup\<close>

lemma with_slot_idle:
  assumes "hstate_ok h" "ascii key"
  defines "i \<equiv> slot_of (length (store (tbl h))) key"
  shows "with_slot m key h body =
    body (int i) (h\<lparr>rwl_slot := (\<lambda>_. rwl_init)(nat (int i mod NUM_LOCKS) := taken m)\<rparr>)"
proof -
  have h: "ht_size (tbl h) = int (length (store (tbl h)))" "0 < length (store (tbl h))"
      "undergoing_resize h = 0" "rwl_slot h = (\<lambda>_. rwl_init)"
    using assms(1) by (simp_all add: hstate_ok_def table_ok_def locks_idle_def)
  have "hashcode key smod int (length (store (tbl h))) = int i"
    using hashcode_ok(1) [OF assms(2)] h(2) by (simp add: smod_nonneg i_def slot_of_def)
  moreover have "int i smod NUM_LOCKS = int i mod NUM_LOCKS" by (rule smod_nonneg) simp_all
  ultimately show ?thesis
    using h by (simp add: with_slot_def enter_slot_def slot_lock_idle Let_def)
qed

lemma unlock_restores:
  assumes "locks_idle h" "rwl_slot h' = (\<lambda>_. rwl_init)(nat (int i mod NUM_LOCKS) := taken m)"
  shows "slot_unlock m (int i smod NUM_LOCKS) h' = h'\<lparr>rwl_slot := rwl_slot h\<rparr>"
proof -
  have "int i smod NUM_LOCKS = int i mod NUM_LOCKS" by (rule smod_nonneg) simp_all
  moreover have "(\<lambda>_. rwl_init)(j := rwl_init) = rwl_slot h" for j using assms(1) by (auto simp: locks_idle_def)
  ultimately show ?thesis using slot_unlock_taken [OF assms(2)] by simp
qed

lemma slot_chain_ok:
  assumes "hstate_ok h" and i_def: "i = slot_of (length (store (tbl h))) key"
  shows "i < length (store (tbl h))" "\<forall>x \<in> set (store (tbl h) ! i). node_ok x"
    "ht_map h key = map_of (entries (store (tbl h) ! i)) key"
proof -
  have h: "placed (store (tbl h))" "0 < length (store (tbl h))"
    using assms(1) by (simp_all add: hstate_ok_def table_ok_def)
  show "i < length (store (tbl h))" unfolding i_def using h(2) by (rule slot_of_less)
  then show "\<forall>x \<in> set (store (tbl h) ! i). node_ok x" using h(1) by (simp add: placed_def)
  show "ht_map h key = map_of (entries (store (tbl h) ! i)) key"
    unfolding ht_map_def i_def by (rule placed_chain [OF h])
qed

lemma lookup_ok:
  assumes "hstate_ok h" "ascii key"
  shows "htable_lookup key h = Inr (case ht_map h key of None \<Rightarrow> Null | Some v \<Rightarrow> v, h)"
proof -
  note c = slot_chain_ok [OF assms(1) refl, of key]
  have idle: "locks_idle h" using assms(1) by (simp add: hstate_ok_def)
  show ?thesis
    using c(1) lookup_loop_map [OF c(2), of key]
    by (simp add: htable_lookup_def lookup_slot_def with_slot_idle [OF assms] c(3) unlock_restores [OF idle])
qed

lemma insert_duplicate:
  assumes "hstate_ok h" "ascii key" "ht_map h key \<noteq> None"
  shows "htable_insert key val h = Inr (1, h)"
proof -
  note c = slot_chain_ok [OF assms(1) refl, of key]
  have idle: "locks_idle h" using assms(1) by (simp add: hstate_ok_def)
  show ?thesis
    using c(1) insert_loop_map [OF c(2), of key 0] assms(3) [unfolded c(3)]
    by (auto simp add: htable_insert_def insert_slot_def with_slot_idle [OF assms(1,2)] unlock_restores [OF idle])
qed

definition add_node :: "string \<Rightarrow> ptr \<Rightarrow> hstate \<Rightarrow> hstate" where
  "add_node key val h =
     (let st = store (tbl h); i = slot_of (length st) key in
      h\<lparr>tbl := (tbl h)\<lparr>store := st[i := st ! i @ [\<lparr>nd_hash = hashcode key, nd_key = key, nd_val = val\<rparr>]]\<rparr>\<rparr>)"

lemma add_node_ok:
  assumes "hstate_ok h" "ascii key" "ht_map h key = None"
  shows "hstate_ok (add_node key val h)" "ht_map (add_node key val h) = (ht_map h)(key \<mapsto> val)"
proof -
  let ?n = "\<lparr>nd_hash = hashcode key, nd_key = key, nd_val = val\<rparr>"
  define st where "st = store (tbl h)"
  define i where "i = slot_of (length st) key"
  have t: "table_ok (tbl h)" and idle: "locks_idle h" using assms(1) by (simp_all add: hstate_ok_def)
  have i: "i < length st" and len: "0 < length st"
    using t by (simp_all add: i_def st_def slot_of_less table_ok_def)
  let ?st = "st[i := st ! i @ [?n]]"
  have p: "placed ?st"
    using t i assms(2) by (intro placed_update) (auto simp: table_ok_def st_def node_ok_def i_def)
  have m: "mset (concat ?st) = mset (?n # concat st)" using mset_concat_insert [OF i, of "st ! i @ [?n]" ?n] by simp
  have new: "\<forall>x \<in> set (concat st). nd_key x \<noteq> key"
    using assms(3) unfolding ht_map_def map_of_entries_None st_def .
  have "distinct (map nd_key (concat st))" using t by (simp add: table_ok_def st_def)
  then have d: "distinct (map nd_key (?n # concat st))" using new by auto
  have h': "add_node key val h = h\<lparr>tbl := (tbl h)\<lparr>store := ?st\<rparr>\<rparr>"
    by (simp add: add_node_def st_def i_def Let_def)
  have "table_ok ((tbl h)\<lparr>store := ?st\<rparr>)"
    using t p map_of_entries_mset(2) [OF m d] by (simp add: table_ok_def st_def)
  then show "hstate_ok (add_node key val h)"
    using idle unfolding h' by (simp add: hstate_ok_def locks_idle_def)
  have "map_of (entries (concat ?st)) = map_of (entries (?n # concat st))"
    by (rule map_of_entries_mset(1) [OF m d])
  also have "\<dots> = (map_of (entries (concat st)))(key \<mapsto> val)" by (simp add: entries_def)
  finally show "ht_map (add_node key val h) = (ht_map h)(key \<mapsto> val)"
    unfolding h' ht_map_def by (simp add: st_def)
qed

lemma insert_eq:
  assumes "hstate_ok h" "ascii key" "ht_map h key = None"
  shows "htable_insert key val h =
    (if allow_resize (tbl h) \<noteq> 0 \<and>
        MAX_COLLISION \<le> int (length (store (tbl h) ! slot_of (length (store (tbl h))) key))
     then c_bind (htable_resize (add_node key val h)) (\<lambda>h. Inr (0, h))
     else Inr (0, add_node key val h))"
proof -
  note c = slot_chain_ok [OF assms(1) refl, of key]
  have idle: "locks_idle h" using assms(1) by (simp add: hstate_ok_def)
  then have rs: "h\<lparr>tbl := t, rwl_slot := rwl_slot h\<rparr> = h\<lparr>tbl := t\<rparr>" for t by simp
  show ?thesis
    using c(1) insert_loop_map [OF c(2), of key 0] assms(3) [unfolded c(3)]
    by (simp add: htable_insert_def insert_slot_def with_slot_idle [OF assms(1,2)] unlock_restores [OF idle] rs
        add_node_def Let_def)
qed

lemma insert_new:
  assumes "hstate_ok h" "ascii key" "ht_map h key = None" "allow_resize (tbl h) = 0 \<or> room h"
  shows "\<exists>h'. htable_insert key val h = Inr (0, h') \<and> hstate_ok h' \<and>
    ht_map h' = (ht_map h)(key \<mapsto> val) \<and> allow_resize (tbl h') = allow_resize (tbl h)"
proof -
  let ?h = "add_node key val h"
  note a = add_node_ok [OF assms(1-3), of val]
  have same: "allow_resize (tbl ?h) = allow_resize (tbl h)" "ht_size (tbl ?h) = ht_size (tbl h)"
    by (simp_all add: add_node_def Let_def)
  show ?thesis
  proof (cases "htable_insert key val h = Inr (0, ?h)")
    case True
    then show ?thesis using a same by simp
  next
    case False
    then have ins: "htable_insert key val h = c_bind (htable_resize ?h) (\<lambda>h. Inr (0, h))"
        and "allow_resize (tbl h) \<noteq> 0"
      using insert_eq [OF assms(1-3), of val] by (simp_all split: if_splits)
    then have "room ?h" using assms(4) same by (simp add: room_def)
    then obtain st where st: "htable_resize ?h =
          Inr (?h\<lparr>tbl := (tbl ?h)\<lparr>ht_size := get_prime (2 * ht_size (tbl ?h)), store := st\<rparr>\<rparr>)"
        "table_ok ((tbl ?h)\<lparr>ht_size := get_prime (2 * ht_size (tbl ?h)), store := st\<rparr>)"
        "mset (concat st) = mset (concat (store (tbl ?h)))"
      using resize_ok [OF a(1)] by auto
    have "map_of (entries (concat st)) = ht_map ?h"
      unfolding ht_map_def using a(1) st(3)
      by (intro map_of_entries_mset(1)) (simp_all add: hstate_ok_def table_ok_def)
    then show ?thesis
      using st(1,2) a ins same by (simp add: hstate_ok_def locks_idle_def) (simp add: ht_map_def)
  qed
qed

lemma init_ok:
  assumes "0 \<le> sz" "sz < BIG_PRIME"
  shows "hstate_ok (htable_init sz allow)" "ht_map (htable_init sz allow) = Map.empty"
    "sz < htable_size (htable_init sz allow)" "is_prime (htable_size (htable_init sz allow))"
proof -
  have s: "s32 (sz + 1) = sz + 1" using assms by (intro s32_id) simp_all
  have g: "sz + 1 \<le> get_prime (sz + 1)" "is_prime (get_prime (sz + 1))"
    using get_prime_exists [of "sz + 1"] assms by simp_all
  then show "hstate_ok (htable_init sz allow)" "sz < htable_size (htable_init sz allow)"
      "is_prime (htable_size (htable_init sz allow))"
    using assms by (simp_all add: htable_init_def htable_size_def s Let_def hstate_ok_def table_ok_def
        locks_idle_def placed_empty)
  show "ht_map (htable_init sz allow) = Map.empty"
    by (simp add: ht_map_def htable_init_def Let_def entries_def)
qed

lemma init_4:
  "htable_init 4 a = \<lparr>tbl = \<lparr>allow_resize = a, store = [[], [], [], [], []], ht_size = 5\<rparr>,
     undergoing_resize = 0, mu_locked = False, rwl_slot = (\<lambda>_. rwl_init)\<rparr>"
  by (simp add: htable_init_def s32_def get_prime_5 numeral_eq_Suc)

lemma get_prime_10: "get_prime 10 = 11"
  by (subst get_prime.simps, subst get_prime.simps)
    (simp add: is_prime_def is_prime_loop.simps signed_modulo_int_def s32_def)

section \<open>The contract of a table\<close>

text \<open>
  \<open>ins\<close> adds a pair unless the key is there, \<open>look\<close> returns the value or \<open>Null\<close>; \<open>room\<close> is what an
  insertion needs. A state is read through \<open>abs\<close>, the map it stands for.
\<close>

locale map_store =
  fixes inv :: "'s \<Rightarrow> bool"
    and room :: "'s \<Rightarrow> bool"
    and valid :: "'k \<Rightarrow> bool"
    and abs :: "'s \<Rightarrow> 'k \<Rightarrow> ptr option"
    and ins :: "'k \<Rightarrow> ptr \<Rightarrow> 's \<Rightarrow> (int \<times> 's) cres"
    and look :: "'k \<Rightarrow> 's \<Rightarrow> (ptr \<times> 's) cres"
  assumes look_law: "inv s \<Longrightarrow> valid k \<Longrightarrow> look k s = Inr (case abs s k of None \<Rightarrow> Null | Some v \<Rightarrow> v, s)"
    and ins_dup: "inv s \<Longrightarrow> valid k \<Longrightarrow> abs s k \<noteq> None \<Longrightarrow> ins k v s = Inr (1, s)"
    and ins_new: "inv s \<Longrightarrow> room s \<Longrightarrow> valid k \<Longrightarrow> abs s k = None \<Longrightarrow>
      \<exists>s'. ins k v s = Inr (0, s') \<and> inv s' \<and> abs s' = (abs s)(k \<mapsto> v)"
begin

lemma ins_cases:
  assumes "inv s" "room s" "valid k"
  obtains s' where "ins k v s = Inr (if abs s k = None then 0 else 1, s')" "inv s'"
    "abs s' = (case abs s k of None \<Rightarrow> (abs s)(k \<mapsto> v) | Some _ \<Rightarrow> abs s)"
proof (cases "abs s k")
  case None
  then obtain s' where "ins k v s = Inr (0, s')" "inv s'" "abs s' = (abs s)(k \<mapsto> v)"
    using ins_new [OF assms, of v] by blast
  then show ?thesis using that [of s'] None by simp
next
  case (Some w)
  then show ?thesis using that [of s] ins_dup [OF assms(1,3), of v] assms(1) by simp
qed

text \<open>A value stays what it was first inserted as; other keys are not touched.\<close>

lemma look_after_ins:
  assumes "inv s" "room s" "valid k" "valid k'" "ins k v s = Inr (r, s')"
  shows "look k' s' = Inr (if k' = k \<and> abs s k = None then v
      else case abs s k' of None \<Rightarrow> Null | Some w \<Rightarrow> w, s')"
proof -
  obtain s1 where s1: "ins k v s = Inr (if abs s k = None then 0 else 1, s1)" "inv s1"
      "abs s1 = (case abs s k of None \<Rightarrow> (abs s)(k \<mapsto> v) | Some _ \<Rightarrow> abs s)"
    using ins_cases [OF assms(1-3)] by blast
  then have "s' = s1" using assms(5) by simp
  then show ?thesis
    using look_law [OF s1(2) assms(4)] s1(3) by (auto split: option.splits)
qed

end

text \<open>A store that never runs out of room: a whole list of pairs can be inserted.\<close>

locale roomy_store = map_store inv room valid abs ins look
  for inv :: "'s \<Rightarrow> bool" and room :: "'s \<Rightarrow> bool" and valid :: "'k \<Rightarrow> bool"
    and abs :: "'s \<Rightarrow> 'k \<Rightarrow> ptr option" and ins :: "'k \<Rightarrow> ptr \<Rightarrow> 's \<Rightarrow> (int \<times> 's) cres"
    and look :: "'k \<Rightarrow> 's \<Rightarrow> (ptr \<times> 's) cres" +
  assumes always_room: "inv s \<Longrightarrow> room s"
begin

primrec ins_all :: "('k \<times> ptr) list \<Rightarrow> 's \<Rightarrow> 's cres" where
  "ins_all [] s = Inr s"
| "ins_all (p # ps) s = c_bind (ins (fst p) (snd p) s) (\<lambda>(r, s). ins_all ps s)"

lemma ins_all_ok:
  assumes "inv s" "\<forall>p \<in> set ps. valid (fst p)"
  shows "\<exists>s'. ins_all ps s = Inr s' \<and> inv s' \<and> abs s' = map_of ps ++ abs s"
  using assms
proof (induction ps arbitrary: s)
  case (Cons p ps)
  obtain s1 where s1: "ins (fst p) (snd p) s = Inr (if abs s (fst p) = None then 0 else 1, s1)" "inv s1"
      "abs s1 = (case abs s (fst p) of None \<Rightarrow> (abs s)(fst p \<mapsto> snd p) | Some _ \<Rightarrow> abs s)"
    using ins_cases [OF Cons.prems(1) always_room [OF Cons.prems(1)]] Cons.prems(2)
    by (metis list.set_intros(1))
  obtain s2 where "ins_all ps s1 = Inr s2" "inv s2" "abs s2 = map_of ps ++ abs s1"
    using Cons.IH [OF s1(2)] Cons.prems(2) by auto
  moreover have "map_of ps ++ abs s1 = map_of (p # ps) ++ abs s"
    using s1(3) by (auto simp: fun_eq_iff map_add_def split: option.splits)
  ultimately show ?case using s1(1) by (intro exI [of _ s2]) (simp add: fun_upd_def)
qed simp

end

interpretation ht: map_store hstate_ok "\<lambda>h. allow_resize (tbl h) = 0 \<or> room h" ascii ht_map
  htable_insert htable_lookup
proof
  show "htable_lookup k s = Inr (case ht_map s k of None \<Rightarrow> Null | Some v \<Rightarrow> v, s)"
    if "hstate_ok s" "ascii k" for s k
    using that by (rule lookup_ok)
  show "htable_insert k v s = Inr (1, s)" if "hstate_ok s" "ascii k" "ht_map s k \<noteq> None" for s k v
    using that by (rule insert_duplicate)
  show "\<exists>s'. htable_insert k v s = Inr (0, s') \<and> hstate_ok s' \<and> ht_map s' = (ht_map s)(k \<mapsto> v)"
    if "hstate_ok s" "allow_resize (tbl s) = 0 \<or> room s" "ascii k" "ht_map s k = None" for s k v
    using insert_new [OF that(1,3,4,2)] by blast
qed

interpretation ht_fixed: roomy_store "\<lambda>h. hstate_ok h \<and> allow_resize (tbl h) = 0"
  "\<lambda>h. allow_resize (tbl h) = 0" ascii ht_map htable_insert htable_lookup
proof
  show "htable_lookup k s = Inr (case ht_map s k of None \<Rightarrow> Null | Some v \<Rightarrow> v, s)"
    if "hstate_ok s \<and> allow_resize (tbl s) = 0" "ascii k" for s k
    using that by (simp add: lookup_ok)
  show "htable_insert k v s = Inr (1, s)"
    if "hstate_ok s \<and> allow_resize (tbl s) = 0" "ascii k" "ht_map s k \<noteq> None" for s k v
    using that insert_duplicate by blast
  show "\<exists>s'. htable_insert k v s = Inr (0, s') \<and> (hstate_ok s' \<and> allow_resize (tbl s') = 0) \<and>
      ht_map s' = (ht_map s)(k \<mapsto> v)"
    if "hstate_ok s \<and> allow_resize (tbl s) = 0" "allow_resize (tbl s) = 0" "ascii k" "ht_map s k = None"
    for s k v
    using insert_new [of s k v] that by metis
  show "allow_resize (tbl s) = 0" if "hstate_ok s \<and> allow_resize (tbl s) = 0" for s
    using that by simp
qed

text \<open>The insertions of a list of pairs, one after the other.\<close>

fun insert_list :: "(string \<times> ptr) list \<Rightarrow> hstate \<Rightarrow> hstate cres" where
  "insert_list [] h = Inr h"
| "insert_list (p # ps) h = c_bind (htable_insert (fst p) (snd p) h) (\<lambda>(r, h). insert_list ps h)"

lemma insert_list_eq: "insert_list ps h = ht_fixed.ins_all ps h"
  by (induction ps arbitrary: h) (simp_all add: split_def)

section \<open>Properties\<close>

text \<open>C19: \<open>htable_insert\<close> of an ASCII key always returns. With a new key it returns 0, and the table
  holds one more pair; with a key that is there it returns 1 and changes nothing. In both cases the table is
  well formed again (every node in the slot of its key, no key twice) and every lock is free, also when the
  insertion resizes the table.\<close>

theorem htable_insert_ok:
  assumes "hstate_ok h" "ascii key" "allow_resize (tbl h) = 0 \<or> room h"
  shows "\<exists>h'. htable_insert key val h = Inr (if ht_map h key = None then 0 else 1, h') \<and> hstate_ok h' \<and>
    ht_map h' = (case ht_map h key of None \<Rightarrow> (ht_map h)(key \<mapsto> val) | Some _ \<Rightarrow> ht_map h)"
  using ht.ins_cases [OF assms(1,3,2)] by metis

theorem htable_insert_ok_witness:
  "\<exists>h'. htable_insert ''key'' (Addr 7) (htable_init 4 1) = Inr (0, h') \<and> hstate_ok h' \<and>
     ht_map h' = [''key'' \<mapsto> Addr 7]"
proof -
  have "room (htable_init 4 1)" by (simp add: room_def init_4)
  moreover have "ascii ''key''" by (simp add: ascii_def char_val_def)
  ultimately show ?thesis
    using htable_insert_ok [of "htable_init 4 1" "''key''" "Addr 7"] init_ok(1,2) [of 4 1] by simp
qed

text \<open>C20: after \<open>htable_insert k v\<close>, \<open>htable_lookup\<close> of \<open>k\<close> gives \<open>v\<close> if \<open>k\<close> was new and its old value
  otherwise, and the lookup of any other key gives what it gave before.\<close>

theorem htable_lookup_after_insert:
  assumes "hstate_ok h" "allow_resize (tbl h) = 0 \<or> room h" "ascii k" "ascii k'"
    "htable_insert k v h = Inr (r, h')"
  shows "htable_lookup k' h' = Inr (if k' = k \<and> ht_map h k = None then v
      else case ht_map h k' of None \<Rightarrow> Null | Some w \<Rightarrow> w, h')"
  by (rule ht.look_after_ins [OF assms])

theorem htable_lookup_after_insert_witness:
  "\<exists>h'. htable_insert ''ab'' (Addr 5) (htable_init 4 0) = Inr (0, h') \<and>
     htable_lookup ''ab'' h' = Inr (Addr 5, h')"
proof -
  let ?h = "htable_init 4 0"
  have ok: "hstate_ok ?h" "ht_map ?h = Map.empty" using init_ok(1,2) [of 4 0] by simp_all
  have "ascii ''ab''" by (simp add: ascii_def char_val_def)
  moreover have "allow_resize (tbl ?h) = 0" by (simp add: htable_init_def Let_def)
  ultimately show ?thesis
    using htable_lookup_after_insert [OF ok(1), of "''ab''" "''ab''" "Addr 5" 0]
      insert_new [OF ok(1), of "''ab''" "Addr 5"] ok(2) by auto
qed

text \<open>C21: \<open>htable_resize\<close> of a well formed idle table whose doubled size is at most \<open>BIG_PRIME\<close> returns
  a well formed idle table that stands for the same map, and its size is a prime at least twice the old one.\<close>

theorem htable_resize_ok:
  assumes "hstate_ok h" "room h"
  shows "\<exists>h'. htable_resize h = Inr h' \<and> hstate_ok h' \<and> ht_map h' = ht_map h \<and>
    2 * htable_size h \<le> htable_size h' \<and> is_prime (htable_size h')"
proof -
  let ?n = "get_prime (2 * ht_size (tbl h))"
  obtain st where st: "htable_resize h = Inr (h\<lparr>tbl := (tbl h)\<lparr>ht_size := ?n, store := st\<rparr>\<rparr>)"
      "table_ok ((tbl h)\<lparr>ht_size := ?n, store := st\<rparr>)" "mset (concat st) = mset (concat (store (tbl h)))"
    using resize_ok [OF assms] by blast
  have "map_of (entries (concat st)) = ht_map h"
    unfolding ht_map_def using assms(1) st(3)
    by (intro map_of_entries_mset(1)) (simp_all add: hstate_ok_def table_ok_def)
  moreover have "0 \<le> 2 * ht_size (tbl h)" using assms(1) by (simp add: hstate_ok_def table_ok_def)
  ultimately show ?thesis
    using st(1,2) assms get_prime_exists(1,3) [of "2 * ht_size (tbl h)"]
    by (simp add: hstate_ok_def locks_idle_def room_def htable_size_def ht_map_def)
qed

theorem htable_resize_ok_witness:
  "\<exists>h'. htable_resize (htable_init 4 1) = Inr h' \<and> hstate_ok h' \<and> ht_map h' = Map.empty \<and>
    10 \<le> htable_size h' \<and> is_prime (htable_size h')"
proof -
  have "htable_size (htable_init 4 1) = 5" by (simp add: htable_size_def init_4)
  then show ?thesis
    using htable_resize_ok [of "htable_init 4 1"] init_ok(1,2) [of 4 1]
    by (simp add: room_def htable_size_def)
qed

text \<open>For any list of pairs with ASCII keys, inserting them one after the other into a fresh table
  without resizing and then looking up a key gives the value of the first pair with that key, or NULL.\<close>

lemma htable_insert_list_lookup:
  assumes "0 \<le> sz" "sz < BIG_PRIME" "\<forall>p \<in> set ps. ascii (fst p)" "ascii k"
  shows "\<exists>h. insert_list ps (htable_init sz 0) = Inr h \<and>
    htable_lookup k h = Inr (case map_of ps k of None \<Rightarrow> Null | Some v \<Rightarrow> v, h)"
proof -
  have "hstate_ok (htable_init sz 0) \<and> allow_resize (tbl (htable_init sz 0)) = 0"
    using init_ok(1) [OF assms(1,2)] by (simp add: htable_init_def Let_def)
  from ht_fixed.ins_all_ok [OF this assms(3)]
  obtain h where "insert_list ps (htable_init sz 0) = Inr h" "hstate_ok h" "ht_map h = map_of ps"
    using init_ok(2) [OF assms(1,2), of 0] by (auto simp: insert_list_eq)
  then show ?thesis using lookup_ok assms(4) by auto
qed

text \<open>A key with a character above 127 has a negative hash code, so \<open>htable_insert\<close> and
  \<open>htable_lookup\<close> index the array of locks and the store below their start.\<close>

lemma htable_negative_slot:
  "htable_insert [CHR 0xE9] val (htable_init 4 0) = Inl OutOfBounds \<and>
   htable_lookup [CHR 0xE9] (htable_init 4 0) = Inl OutOfBounds"
proof -
  have "hashcode [CHR 0xE9] = - 23"
    by (simp add: hashcode_def ht_mmul_def ht_madd_def s32_def char_val_def)
  then show ?thesis
    by (simp add: htable_insert_def htable_lookup_def with_slot_def enter_slot_def init_4
        slot_lock_def signed_modulo_int_def)
qed


end
