(* ===== verification/RwClient.thy ===== *)
theory RwClient
  imports RwLock
begin

text \<open>
  A lock of rwlock.c as its clients see it. Clients call without a time limit (\<open>expire\<close> is NULL) and decide when to
  call and when to unlock; \<open>lock_work\<close> are the steps inside the four functions, \<open>lock_spurious\<close> the returns from a
  wait that nobody asked for. Shown here: how these steps move a thread, that some step of \<open>lock_work\<close> is possible
  unless every thread is outside the lock, holds it, or waits for a thread that holds it, and a number
  that every step of \<open>lock_work\<close> decreases.
\<close>

section \<open>The steps\<close>

definition begin_call :: "mode \<Rightarrow> nat \<Rightarrow> sys \<Rightarrow> sys" where
  "begin_call m t l = l\<lparr>pcs := (pcs l)(t := Calling m False)\<rparr>"

definition begin_unlock :: "mode \<Rightarrow> nat \<Rightarrow> sys \<Rightarrow> sys" where
  "begin_unlock m t l = l\<lparr>pcs := (pcs l)(t := Releasing m)\<rparr>"

inductive lock_work :: "sys \<Rightarrow> sys \<Rightarrow> bool" where
  enter: "pcs s t = Calling m tm \<Longrightarrow> mu s = None \<Longrightarrow>
    lock_work s (s\<lparr>lk := lock_enter m (lk s), mu := Some t, pcs := (pcs s)(t := Looping m tm)\<rparr>)"
| block: "pcs s t = Looping m tm \<Longrightarrow> lock_blocked m (lk s) \<Longrightarrow>
    lock_work s (s\<lparr>mu := None, pcs := (pcs s)(t := Waiting m tm)\<rparr>)"
| acquire: "pcs s t = Looping m tm \<Longrightarrow> \<not> lock_blocked m (lk s) \<Longrightarrow>
    lock_work s (s\<lparr>lk := lock_take m (lk s), mu := None, pcs := (pcs s)(t := Holding m)\<rparr>)"
| resume: "pcs s t = Woken m tm False \<Longrightarrow> mu s = None \<Longrightarrow>
    lock_work s (s\<lparr>mu := Some t, pcs := (pcs s)(t := Looping m tm)\<rparr>)"
| release: "pcs s t = Releasing m \<Longrightarrow> mu s = None \<Longrightarrow> lock_release m (lk s) = (l', w) \<Longrightarrow>
    wake w ((pcs s)(t := Idle)) ps' \<Longrightarrow> lock_work s (s\<lparr>lk := l', pcs := ps'\<rparr>)"

inductive lock_spurious :: "sys \<Rightarrow> sys \<Rightarrow> bool" where
  "pcs s t = Waiting m tm \<Longrightarrow> lock_spurious s (s\<lparr>pcs := (pcs s)(t := Woken m tm False)\<rparr>)"

inductive_cases lock_workE [consumes 1, case_names enter block acquire resume release]: "lock_work s s'"
inductive_cases lock_spuriousE [consumes 1, case_names spurious]: "lock_spurious s s'"

lemma lock_work_step: "lock_work s s' \<Longrightarrow> rwl_step s s'"
  by (cases rule: lock_work.cases) (auto intro: rwl_step.intros)

lemma lock_spurious_step: "lock_spurious s s' \<Longrightarrow> rwl_step s s'"
  by (auto elim!: lock_spuriousE intro: rwl_step.intros)

lemma begin_call_step: "pcs s t = Idle \<Longrightarrow> rwl_step s (begin_call m t s)"
  unfolding begin_call_def by (rule rwl_step.intros)

lemma begin_unlock_step: "pcs s t = Holding m \<Longrightarrow> rwl_step s (begin_unlock m t s)"
  unfolding begin_unlock_def by (rule rwl_step.intros)

lemma begin_simps [simp]:
  "pcs (begin_call m t l) = (pcs l)(t := Calling m False)" "lk (begin_call m t l) = lk l" "mu (begin_call m t l) = mu l"
  "pcs (begin_unlock m t l) = (pcs l)(t := Releasing m)" "lk (begin_unlock m t l) = lk l" "mu (begin_unlock m t l) = mu l"
  by (simp_all add: begin_call_def begin_unlock_def)

section \<open>The invariant of a lock without time limits\<close>

fun untimed :: "pc \<Rightarrow> bool" where
  "untimed (Calling m tm) = (\<not> tm)"
| "untimed (Looping m tm) = (\<not> tm)"
| "untimed (Waiting m tm) = (\<not> tm)"
| "untimed (Woken m tm x) = (\<not> tm \<and> \<not> x)"
| "untimed _ = True"

definition lock_ok :: "sys \<Rightarrow> bool" where
  "lock_ok s \<longleftrightarrow> rwl_inv s \<and> writer_due s \<and> readers_blocked s \<and> (\<forall>t. untimed (pcs s t))"

lemma untimed_not_timed: "untimed p \<Longrightarrow> \<not> timed_writer p"
  by (cases p rule: timed_writer.cases) auto

lemma lock_ok_init: "lock_ok init_sys"
  using rwl_wakeups.inv_start rwl_untimed.inv_start by (simp add: lock_ok_def init_sys_def)

lemma lock_ok_step: "lock_ok s \<Longrightarrow> rwl_step s s' \<Longrightarrow> \<forall>t. untimed (pcs s' t) \<Longrightarrow> lock_ok s'"
  using rwl_wakeups.inv_step [of s s'] readers_blocked_step [of s s'] untimed_not_timed
  by (auto simp: lock_ok_def)

text \<open>How the pc of a thread moves.\<close>

inductive pc_moves :: "pc \<Rightarrow> pc \<Rightarrow> bool" where
  "pc_moves p p"
| "pc_moves (Calling m tm) (Looping m tm)"
| "pc_moves (Looping m tm) (Waiting m tm)"
| "pc_moves (Looping m tm) (Holding m)"
| "pc_moves (Waiting m tm) (Woken m tm False)"
| "pc_moves (Woken m tm False) (Looping m tm)"
| "pc_moves (Releasing m) Idle"

inductive_cases pc_moves_cases: "pc_moves p q"

lemma lock_work_moves:
  assumes "lock_work s s'" shows "pc_moves (pcs s t) (pcs s' t)"
  using assms
proof (cases rule: lock_workE)
  case (release u m l' w ps')
  then show ?thesis using wake_moves [OF release(5), of t] by (auto intro: pc_moves.intros split: if_splits)
qed (auto intro: pc_moves.intros)

lemma lock_spurious_moves: "lock_spurious s s' \<Longrightarrow> pc_moves (pcs s t) (pcs s' t)"
  by (auto elim!: lock_spuriousE intro: pc_moves.intros)

lemma pc_moves_untimed: "pc_moves p q \<Longrightarrow> untimed p \<Longrightarrow> untimed q"
  by (auto elim: pc_moves_cases)

lemma pc_moves_Idle [simp]: "pc_moves Idle q \<longleftrightarrow> q = Idle"
  by (auto elim: pc_moves_cases intro: pc_moves.intros)

lemma pc_moves_Holding [simp]: "pc_moves (Holding m) q \<longleftrightarrow> q = Holding m"
  by (auto elim: pc_moves_cases intro: pc_moves.intros)

lemma lock_ok_work: "lock_ok s \<Longrightarrow> lock_work s s' \<Longrightarrow> lock_ok s'"
  using lock_ok_step [OF _ lock_work_step] lock_work_moves pc_moves_untimed by (metis lock_ok_def)

lemma lock_ok_spurious: "lock_ok s \<Longrightarrow> lock_spurious s s' \<Longrightarrow> lock_ok s'"
  using lock_ok_step [OF _ lock_spurious_step] lock_spurious_moves pc_moves_untimed by (metis lock_ok_def)

lemma lock_ok_call: "lock_ok s \<Longrightarrow> pcs s t = Idle \<Longrightarrow> lock_ok (begin_call m t s)"
  using lock_ok_step [OF _ begin_call_step] by (simp add: lock_ok_def)

lemma lock_ok_unlock: "lock_ok s \<Longrightarrow> pcs s t = Holding m \<Longrightarrow> lock_ok (begin_unlock m t s)"
  using lock_ok_step [OF _ begin_unlock_step] by (simp add: lock_ok_def)

lemma lock_work_acquires:
  assumes "lock_work s s'" "pcs s t \<noteq> Holding m" "pcs s' t = Holding m"
  shows "\<not> lock_blocked m (lk s)"
  using assms(1)
proof (cases rule: lock_workE)
  case (release u m l' w ps')
  then show ?thesis using wake_moves [OF release(5), of t] assms(2,3) by (auto split: if_splits)
qed (use assms(2,3) in \<open>auto split: if_splits\<close>)

lemma lock_spurious_acquires: "lock_spurious s s' \<Longrightarrow> pcs s' t = Holding m \<Longrightarrow> pcs s t = Holding m"
  by (auto elim!: lock_spuriousE split: if_splits)

text \<open>A thread whose call has not returned yet.\<close>

fun entering :: "mode \<Rightarrow> pc \<Rightarrow> bool" where
  "entering m (Calling m' tm) = (m = m')"
| "entering m (Holding m') = (m = m')"
| "entering m p = is_waiting m p"

lemma pc_moves_entering: "pc_moves p q \<Longrightarrow> entering m p \<Longrightarrow> entering m q"
  by (auto elim: pc_moves_cases)

lemma lock_work_somebody:
  assumes "lock_work s s'" shows "\<exists>t. pcs s t \<noteq> Idle"
proof (rule ccontr)
  assume "\<nexists>t. pcs s t \<noteq> Idle"
  with assms show False by (cases rule: lock_workE) auto
qed

section \<open>Progress\<close>

fun active :: "pc \<Rightarrow> bool" where
  "active Idle = False"
| "active (Holding m) = False"
| "active (Waiting m tm) = False"
| "active _ = True"

lemma entering_cases:
  assumes "lock_ok s" "entering m (pcs s t)"
  shows "active (pcs s t) \<or> pcs s t = Holding m \<or> pcs s t = Waiting m False"
proof -
  have "untimed (pcs s t)" using assms(1) by (simp add: lock_ok_def)
  then show ?thesis using assms(2) by (cases "pcs s t") auto
qed

lemma wake_exists: "\<exists>ps'. wake w ps ps'"
proof (cases w)
  case SignalWriter
  then show ?thesis by (cases "\<exists>u tm. ps u = Waiting Writer tm") (auto intro: wake.intros)
qed (auto intro: wake.intros)

lemma active_work:
  assumes "lock_ok s" "active (pcs s t)"
  shows "\<exists>s'. lock_work s s'"
proof (cases "mu s")
  case (Some u)
  then have "\<exists>m tm. pcs s u = Looping m tm"
    using assms(1) unfolding lock_ok_def rwl_inv_def mutex_ok_def by blast
  then obtain m tm where "pcs s u = Looping m tm" by blast
  then show ?thesis by (cases "lock_blocked m (lk s)") (auto intro: lock_work.intros)
next
  case None
  then have no: "pcs s t \<noteq> Looping m tm" for m tm
    using assms(1) by (fastforce simp: lock_ok_def rwl_inv_def mutex_ok_def)
  have u: "untimed (pcs s t)" using assms(1) by (simp add: lock_ok_def)
  show ?thesis
  proof (cases "pcs s t")
    case (Calling m tm)
    then show ?thesis using None by (blast intro: lock_work.intros)
  next
    case (Woken m tm x)
    then show ?thesis using None u by (auto intro: lock_work.intros)
  next
    case (Releasing m)
    obtain l' w where "lock_release m (lk s) = (l', w)" by fastforce
    with Releasing None wake_exists [of w "(pcs s)(t := Idle)"] show ?thesis by (blast intro: lock_work.intros)
  qed (use assms(2) no in auto)
qed

lemma not_active_waiting: "\<not> active p \<Longrightarrow> is_waiting m p \<Longrightarrow> \<exists>tm. p = Waiting m tm"
  by (cases p) auto

lemma waiting_holder:
  assumes "lock_ok s" "\<forall>t. \<not> active (pcs s t)" "pcs s t = Waiting m tm"
  shows "\<exists>u m'. pcs s u = Holding m'"
proof (rule ccontr)
  assume none: "\<nexists>u m'. pcs s u = Holding m'"
  have hold: "\<not> is_holding m' (pcs s u)" for m' u
    using none assms(2) [THEN spec, of u] by (cases "pcs s u") auto
  have inv: "rwl_inv s" using assms(1) by (simp add: lock_ok_def)
  have z: "n_writers (lk s) = 0" "n_readers (lk s) = 0" using rwl_inv_flags(1,2) [OF inv] hold by auto
  have no_due: "\<not> due_writer (pcs s u)" for u
    using assms(2) [THEN spec, of u] by (cases "pcs s u" rule: due_writer.cases) auto
  have no_writer: "\<not> queued Writer (pcs s u)" for u
    using assms(1) z no_due unfolding lock_ok_def writer_due_def by blast
  have "\<not> is_waiting Writer (pcs s u)" for u
    using no_writer [of u] not_active_waiting [OF assms(2) [rule_format, of u], of Writer] by auto
  then have w: "n_waiting_writers (lk s) = 0" using rwl_inv_flags(3) [OF inv] by simp
  have "m = Reader" using no_writer [of t] assms(3) by (cases m) auto
  then have "queued Reader (pcs s t)" using assms(3) by simp
  then have "rlock_blocked (lk s)" using assms(1) unfolding lock_ok_def readers_blocked_def by blast
  then show False using z w by (simp add: rlock_blocked_def)
qed

section \<open>A bound on the work\<close>

text \<open>A release may wake every thread, so outside the lock is worth more than two steps of each of the \<open>n\<close> threads.\<close>

fun pc_rank :: "nat \<Rightarrow> pc \<Rightarrow> nat" where
  "pc_rank n Idle = 0"
| "pc_rank n (Releasing m) = 2 * n + 1"
| "pc_rank n (Holding m) = 2 * n + 2"
| "pc_rank n (Waiting m tm) = 2 * n + 3"
| "pc_rank n (Looping m tm) = 2 * n + 4"
| "pc_rank n (Woken m tm x) = 2 * n + 5"
| "pc_rank n (Calling m tm) = 2 * n + 6"

definition lock_rank :: "nat \<Rightarrow> (nat \<Rightarrow> pc) \<Rightarrow> nat" where
  "lock_rank n ps = (\<Sum>t<n. pc_rank n (ps t))"

lemma lock_rank_upd:
  assumes "t < n"
  shows "lock_rank n (ps(t := p)) + pc_rank n (ps t) = lock_rank n ps + pc_rank n p"
  using assms by (simp add: lock_rank_def sum.remove [of "{..<n}" t])

lemma lock_work_rank:
  assumes "lock_work s s'" "\<forall>t\<ge>n. pcs s t = Idle"
  shows "lock_rank n (pcs s') < lock_rank n (pcs s)"
  using assms(1)
proof (cases rule: lock_workE)
  case (release t m l' w ps')
  have t: "t < n" using assms(2) release(2) by (metis not_le_imp_less pc.distinct(11))
  have "pc_rank n (ps' u) \<le> pc_rank n (((pcs s)(t := Idle)) u) + 2" for u
    using wake_moves [OF release(5), of u] by auto
  then have "lock_rank n ps' \<le> (\<Sum>u<n. pc_rank n (((pcs s)(t := Idle)) u) + 2)"
    unfolding lock_rank_def by (intro sum_mono) simp
  also have "\<dots> = lock_rank n ((pcs s)(t := Idle)) + 2 * n" by (simp only: lock_rank_def sum.distrib) simp
  finally show ?thesis using lock_rank_upd [OF t, of "pcs s" Idle] release(1,2) by simp
next
  case (enter t m tm)
  then have "t < n" using assms(2) by (metis not_le_imp_less pc.distinct(1))
  then show ?thesis using lock_rank_upd [of t n "pcs s" "Looping m tm"] enter by simp
next
  case (block t m tm)
  then have "t < n" using assms(2) by (metis not_le_imp_less pc.distinct(3))
  then show ?thesis using lock_rank_upd [of t n "pcs s" "Waiting m tm"] block by simp
next
  case (acquire t m tm)
  then have "t < n" using assms(2) by (metis not_le_imp_less pc.distinct(3))
  then show ?thesis using lock_rank_upd [of t n "pcs s" "Holding m"] acquire by simp
next
  case (resume t m tm)
  then have "t < n" using assms(2) by (metis not_le_imp_less pc.distinct(7))
  then show ?thesis using lock_rank_upd [of t n "pcs s" "Looping m tm"] resume by simp
qed

end
