(* ===== verification/HtThreads.thy ===== *)
theory HtThreads
  imports HTable RwClient
begin

text \<open>
  threadlab/htable.c, used by several threads on a table that may not be resized (\<open>allow_resize\<close> is 0, so \<open>undergoing_resize\<close> stays 0
  and the global lock is not used). Every slot lock is a whole lock of rwlock.c (\<open>sys\<close>), with its waiting threads; a thread walks its
  chain one node at a time and links its node in a step of its own, through the pointer it kept: what another thread
  appended meanwhile would be lost. The result of a thread is the list of its operations with what they returned.

  \<open>atomic_step\<close> is the contract: a map that every operation reads or changes in one step between its call and its
  return. The refinement is \<open>ht_step_refines\<close>.
\<close>

section \<open>Operations and states\<close>

datatype htop = Insert string ptr | Lookup string

datatype res = Ret int | Val ptr

text \<open>Where a thread is in \<open>htable_insert\<close> or \<open>htable_lookup\<close>: before the call, in the acquisition of the slot lock, at the node number
  \<open>i\<close> of the chain, about to link a node after \<open>i\<close> nodes, unlocking with its result.\<close>

datatype hpc = Ready | Acquiring | Scan nat | Link nat | Ending res

record hts =
  tab :: htable
  slots :: "nat \<Rightarrow> sys"
  where_at :: "nat \<Rightarrow> hpc"
  todo :: "nat \<Rightarrow> htop list"
  finished :: "nat \<Rightarrow> (htop \<times> res) list"
  fault :: "c_error option"

fun op_key :: "htop \<Rightarrow> string" where
  "op_key (Insert k v) = k" | "op_key (Lookup k) = k"

fun op_mode :: "htop \<Rightarrow> mode" where
  "op_mode (Insert k v) = Writer" | "op_mode (Lookup k) = Reader"

definition op_slot :: "hts \<Rightarrow> htop \<Rightarrow> int" where
  "op_slot s op = hashcode (op_key op) smod ht_size (tab s)"

definition op_lock :: "hts \<Rightarrow> htop \<Rightarrow> int" where
  "op_lock s op = op_slot s op smod NUM_LOCKS"

section \<open>Steps\<close>

text \<open>One turn of the loop: the key is found, the next node, or the end of the chain.\<close>

definition scan_next :: "htop \<Rightarrow> node list \<Rightarrow> nat \<Rightarrow> hpc" where
  "scan_next op chain i =
     (if i < length chain then
        let curr = chain ! i in
        if nd_hash curr = hashcode (op_key op) \<and> strcmp (nd_key curr) (op_key op) = 0
        then Ending (case op of Insert k v \<Rightarrow> Ret 1 | Lookup k \<Rightarrow> Val (nd_val curr))
        else Scan (Suc i)
      else case op of Insert k v \<Rightarrow> Link i | Lookup k \<Rightarrow> Ending (Val Null))"

text \<open>A thread goes on to \<open>p\<close>; with the result it gives the lock of its slot back.\<close>

definition advance :: "nat \<Rightarrow> htop \<Rightarrow> hpc \<Rightarrow> hts \<Rightarrow> hts" where
  "advance t op p s =
     (let s' = s\<lparr>where_at := (where_at s)(t := p)\<rparr>; k = nat (op_lock s op) in
      case p of Ending r \<Rightarrow> s'\<lparr>slots := (slots s)(k := begin_unlock (op_mode op) t (slots s k))\<rparr> | _ \<Rightarrow> s')"

inductive ht_work :: "hts \<Rightarrow> hts \<Rightarrow> bool" where
  start: "where_at s t = Ready \<Longrightarrow> todo s t = op # ops \<Longrightarrow> ht_size (tab s) \<noteq> 0 \<Longrightarrow> 0 \<le> op_lock s op \<Longrightarrow>
    k = nat (op_lock s op) \<Longrightarrow>
    ht_work s (s\<lparr>slots := (slots s)(k := begin_call (op_mode op) t (slots s k)), where_at := (where_at s)(t := Acquiring)\<rparr>)"
| start_fault: "where_at s t = Ready \<Longrightarrow> todo s t = op # ops \<Longrightarrow> \<not> (ht_size (tab s) \<noteq> 0 \<and> 0 \<le> op_lock s op) \<Longrightarrow>
    ht_work s (s\<lparr>fault := Some (if ht_size (tab s) = 0 then DivByZero else OutOfBounds)\<rparr>)"
| lock: "lock_work (slots s k) l' \<Longrightarrow> ht_work s (s\<lparr>slots := (slots s)(k := l')\<rparr>)"
| locked: "where_at s t = Acquiring \<Longrightarrow> todo s t = op # ops \<Longrightarrow> pcs (slots s (nat (op_lock s op))) t = Holding (op_mode op) \<Longrightarrow>
    ht_work s (s\<lparr>where_at := (where_at s)(t := Scan 0)\<rparr>)"
| scan: "where_at s t = Scan i \<Longrightarrow> todo s t = op # ops \<Longrightarrow> arr_at (store (tab s)) (op_slot s op) = Inr chain \<Longrightarrow>
    ht_work s (advance t op (scan_next op chain i) s)"
| scan_fault: "where_at s t = Scan i \<Longrightarrow> todo s t = op # ops \<Longrightarrow> arr_at (store (tab s)) (op_slot s op) = Inl e \<Longrightarrow>
    ht_work s (s\<lparr>fault := Some e\<rparr>)"
| link: "where_at s t = Link i \<Longrightarrow> todo s t = Insert key val # ops \<Longrightarrow>
    arr_at (store (tab s)) (op_slot s (Insert key val)) = Inr chain \<Longrightarrow>
    arr_set (store (tab s)) (op_slot s (Insert key val))
      (take i chain @ [\<lparr>nd_hash = hashcode key, nd_key = key, nd_val = val\<rparr>]) = Inr st \<Longrightarrow>
    ht_work s (advance t (Insert key val) (Ending (Ret 0)) (s\<lparr>tab := (tab s)\<lparr>store := st\<rparr>\<rparr>))"
| return: "where_at s t = Ending r \<Longrightarrow> todo s t = op # ops \<Longrightarrow> pcs (slots s (nat (op_lock s op))) t = Idle \<Longrightarrow>
    ht_work s (s\<lparr>where_at := (where_at s)(t := Ready), todo := (todo s)(t := ops),
      finished := (finished s)(t := finished s t @ [(op, r)])\<rparr>)"

inductive ht_idle :: "hts \<Rightarrow> hts \<Rightarrow> bool" where
  "lock_spurious (slots s k) l' \<Longrightarrow> ht_idle s (s\<lparr>slots := (slots s)(k := l')\<rparr>)"

definition ht_step :: "hts \<Rightarrow> hts \<Rightarrow> bool" where
  "ht_step s s' \<longleftrightarrow> fault s = None \<and> (ht_work s s' \<or> ht_idle s s')"

inductive_cases ht_workE [consumes 1, case_names start start_fault lock locked scan scan_fault link return]: "ht_work s s'"
inductive_cases ht_idleE [consumes 1, case_names spurious]: "ht_idle s s'"

text \<open>The table \<open>h\<close> of one thread handed to several.\<close>

definition share :: "hstate \<Rightarrow> (nat \<Rightarrow> htop list) \<Rightarrow> hts" where
  "share h ops = \<lparr>tab = tbl h, slots = (\<lambda>_. init_sys), where_at = (\<lambda>_. Ready), todo = ops, finished = (\<lambda>_. []), fault = None\<rparr>"

text \<open>And back, when the threads have been joined.\<close>

definition unshare :: "hts \<Rightarrow> hstate" where
  "unshare s = \<lparr>tbl = tab s, undergoing_resize = 0, mu_locked = False, rwl_slot = (\<lambda>k. lk (slots s k))\<rparr>"

section \<open>The contract: an atomic map\<close>

datatype apc = AReady | ACalled | AResult res

record ats =
  amap :: "string \<Rightarrow> ptr option"
  apcs :: "nat \<Rightarrow> apc"
  atodo :: "nat \<Rightarrow> htop list"
  afinished :: "nat \<Rightarrow> (htop \<times> res) list"

fun apply_op :: "htop \<Rightarrow> (string \<Rightarrow> ptr option) \<Rightarrow> res \<times> (string \<Rightarrow> ptr option)" where
  "apply_op (Insert k v) m = (case m k of None \<Rightarrow> (Ret 0, m(k \<mapsto> v)) | Some _ \<Rightarrow> (Ret 1, m))"
| "apply_op (Lookup k) m = (Val (case m k of None \<Rightarrow> Null | Some v \<Rightarrow> v), m)"

inductive atomic_step :: "ats \<Rightarrow> ats \<Rightarrow> bool" where
  a_call: "apcs s t = AReady \<Longrightarrow> atodo s t \<noteq> [] \<Longrightarrow> atomic_step s (s\<lparr>apcs := (apcs s)(t := ACalled)\<rparr>)"
| a_apply: "apcs s t = ACalled \<Longrightarrow> atodo s t = op # ops \<Longrightarrow> apply_op op (amap s) = (r, m') \<Longrightarrow>
    atomic_step s (s\<lparr>amap := m', apcs := (apcs s)(t := AResult r)\<rparr>)"
| a_return: "apcs s t = AResult r \<Longrightarrow> atodo s t = op # ops \<Longrightarrow>
    atomic_step s (s\<lparr>apcs := (apcs s)(t := AReady), atodo := (atodo s)(t := ops),
      afinished := (afinished s)(t := afinished s t @ [(op, r)])\<rparr>)"

fun abs_pc :: "hpc \<Rightarrow> apc" where
  "abs_pc Ready = AReady"
| "abs_pc (Ending r) = AResult r"
| "abs_pc _ = ACalled"

definition abs_ht :: "hts \<Rightarrow> ats" where
  "abs_ht s = \<lparr>amap = map_of (entries (concat (store (tab s)))), apcs = (\<lambda>t. abs_pc (where_at s t)), atodo = todo s,
     afinished = finished s\<rparr>"

section \<open>The invariant\<close>

definition lock_of :: "hts \<Rightarrow> string \<Rightarrow> nat" where
  "lock_of s key = slot_of (length (store (tab s))) key mod 10000"

definition chain_of :: "hts \<Rightarrow> string \<Rightarrow> node list" where
  "chain_of s key = store (tab s) ! slot_of (length (store (tab s))) key"

text \<open>The key is not among the first \<open>i\<close> nodes of its chain.\<close>

definition passed :: "hts \<Rightarrow> string \<Rightarrow> nat \<Rightarrow> bool" where
  "passed s key i \<longleftrightarrow> i \<le> length (chain_of s key) \<and> (\<forall>x \<in> set (take i (chain_of s key)). nd_key x \<noteq> key)"

fun at_ok :: "hts \<Rightarrow> htop \<Rightarrow> pc \<Rightarrow> hpc \<Rightarrow> bool" where
  "at_ok s op q Ready = False"
| "at_ok s op q Acquiring = entering (op_mode op) q"
| "at_ok s op q (Scan i) = (q = Holding (op_mode op) \<and> passed s (op_key op) i)"
| "at_ok s op q (Link i) = (q = Holding (op_mode op) \<and> op_mode op = Writer \<and> passed s (op_key op) i \<and> i = length (chain_of s (op_key op)))"
| "at_ok s op q (Ending r) = (q = Releasing (op_mode op) \<or> q = Idle)"

definition thread_ok :: "hts \<Rightarrow> nat \<Rightarrow> bool" where
  "thread_ok s t \<longleftrightarrow>
     (if where_at s t = Ready then \<forall>k. pcs (slots s k) t = Idle
      else case todo s t of [] \<Rightarrow> False
        | op # _ \<Rightarrow> (\<forall>k. k \<noteq> lock_of s (op_key op) \<longrightarrow> pcs (slots s k) t = Idle) \<and>
            at_ok s op (pcs (slots s (lock_of s (op_key op))) t) (where_at s t))"

definition hts_inv :: "hts \<Rightarrow> bool" where
  "hts_inv s \<longleftrightarrow> fault s = None \<and> table_ok (tab s) \<and> (\<forall>k. lock_ok (slots s k)) \<and> (\<forall>t. thread_ok s t) \<and>
     (\<forall>t. \<forall>op \<in> set (todo s t). ascii (op_key op))"

text \<open>The slot and the lock of an operation are those of its key.\<close>

lemma op_slot_ok:
  assumes inv: "table_ok (tab s)" and a: "ascii (op_key op)"
  shows "op_slot s op = int (slot_of (length (store (tab s))) (op_key op))"
    "op_lock s op = int (lock_of s (op_key op))" "0 < length (store (tab s))" "ht_size (tab s) \<noteq> 0"
    "arr_at (store (tab s)) (op_slot s op) = Inr (chain_of s (op_key op))"
proof -
  have t: "ht_size (tab s) = int (length (store (tab s)))" "0 < length (store (tab s))"
    using inv by (simp_all add: table_ok_def)
  show p: "0 < length (store (tab s))" "ht_size (tab s) \<noteq> 0" using t by simp_all
  show slot: "op_slot s op = int (slot_of (length (store (tab s))) (op_key op))"
    using hashcode_ok(1) [OF a] t by (simp add: op_slot_def smod_nonneg slot_of_def)
  show "op_lock s op = int (lock_of s (op_key op))"
    by (simp add: op_lock_def slot smod_nonneg lock_of_def zmod_int)
  show "arr_at (store (tab s)) (op_slot s op) = Inr (chain_of s (op_key op))"
    unfolding slot chain_of_def using slot_of_less [OF p(1)] by simp
qed

lemma hts_invD:
  assumes "hts_inv s"
  shows "fault s = None" "table_ok (tab s)" "lock_ok (slots s k)" "thread_ok s t" "todo s t = op # ops \<Longrightarrow> ascii (op_key op)"
  using assms unfolding hts_inv_def by (auto split: list.split) (metis list.set_intros(1))

lemma thread_at:
  assumes "thread_ok s t" "where_at s t \<noteq> Ready" "todo s t = op # ops"
  shows "k \<noteq> lock_of s (op_key op) \<Longrightarrow> pcs (slots s k) t = Idle"
    "at_ok s op (pcs (slots s (lock_of s (op_key op))) t) (where_at s t)"
  using assms by (auto simp: thread_ok_def)

lemma not_ready: "thread_ok s t \<Longrightarrow> where_at s t \<noteq> Ready \<Longrightarrow> \<exists>op ops. todo s t = op # ops"
  by (cases "todo s t") (auto simp: thread_ok_def)

lemma thread_same:
  assumes "thread_ok s u" "where_at s' u = where_at s u" "todo s' u = todo s u" "tab s' = tab s"
    "\<forall>k. pcs (slots s' k) u = pcs (slots s k) u"
  shows "thread_ok s' u"
proof -
  have "lock_of s' = lock_of s" "at_ok s' op q p = at_ok s op q p" for op q p
    using assms(4) by (cases p; simp add: lock_of_def fun_eq_iff passed_def chain_of_def)+
  then show ?thesis using assms by (cases "todo s u") (auto simp: thread_ok_def split: if_splits)
qed

text \<open>A step of one of the locks.\<close>

lemma at_ok_moves: "at_ok s op q p \<Longrightarrow> pc_moves q q' \<Longrightarrow> at_ok s op q' p"
  by (cases p) (auto simp: pc_moves_entering elim: pc_moves_cases)

lemma hts_inv_slot:
  assumes inv: "hts_inv s" and ok: "lock_ok l'" and moves: "\<And>t. pc_moves (pcs (slots s k) t) (pcs l' t)"
  shows "hts_inv (s\<lparr>slots := (slots s)(k := l')\<rparr>)"
proof -
  let ?s = "s\<lparr>slots := (slots s)(k := l')\<rparr>"
  have same: "lock_of ?s = lock_of s" "at_ok ?s op q p = at_ok s op q p" for op q p
    by (cases p; simp add: lock_of_def fun_eq_iff passed_def chain_of_def)+
  have mv: "pc_moves (pcs (slots s j) t) (pcs (slots ?s j) t)" for j t using moves by (auto intro: pc_moves.intros)
  have "thread_ok ?s t" for t
  proof (cases "where_at s t = Ready")
    case True
    then show ?thesis using hts_invD(4) [OF inv, of t] mv [of _ t] by (metis hts.ext_inject hts.surjective hts.update_convs(2) pc_moves_Idle thread_ok_def)
  next
    case False
    then obtain op ops where op: "todo s t = op # ops" using not_ready [OF hts_invD(4) [OF inv, of t]] by blast
    note a = thread_at [OF hts_invD(4) [OF inv, of t] False op]
    have "pcs (slots ?s j) t = Idle" if "j \<noteq> lock_of s (op_key op)" for j using mv [of j t] a(1) [OF that] by simp
    moreover have "at_ok s op (pcs (slots ?s (lock_of s (op_key op))) t) (where_at s t)" using at_ok_moves [OF a(2) mv] .
    ultimately show ?thesis using False op by (simp add: thread_ok_def same)
  qed
  then show ?thesis using inv ok by (simp add: hts_inv_def)
qed

text \<open>A thread that keeps its lock or gives it back. \<open>hts_rest\<close> is the invariant for all but that thread.\<close>

definition hts_rest :: "nat \<Rightarrow> hts \<Rightarrow> bool" where
  "hts_rest t s \<longleftrightarrow> fault s = None \<and> table_ok (tab s) \<and> (\<forall>k. lock_ok (slots s k)) \<and> (\<forall>u. u \<noteq> t \<longrightarrow> thread_ok s u) \<and>
     (\<forall>t. \<forall>op \<in> set (todo s t). ascii (op_key op))"

lemma hts_inv_rest: "hts_inv s \<Longrightarrow> hts_rest t s"
  by (simp add: hts_inv_def hts_rest_def)

lemma hts_inv_advance:
  assumes inv: "hts_rest t s" and op: "todo s t = op # ops"
    and idle: "\<And>j. j \<noteq> lock_of s (op_key op) \<Longrightarrow> pcs (slots s j) t = Idle"
    and hold: "pcs (slots s (lock_of s (op_key op))) t = Holding (op_mode op)"
    and p: "at_ok s op (Holding (op_mode op)) p \<or> (\<exists>r. p = Ending r)"
  shows "hts_inv (advance t op p s)"
proof -
  let ?s = "advance t op p s" and ?k = "lock_of s (op_key op)"
  have i: "fault s = None" "table_ok (tab s)" "lock_ok (slots s j)" "u \<noteq> t \<Longrightarrow> thread_ok s u" for j u
    using inv by (simp_all add: hts_rest_def)
  have "ascii (op_key op)" using inv op unfolding hts_rest_def by (metis list.set_intros(1))
  from op_slot_ok(2) [OF i(2) this] have k: "nat (op_lock s op) = ?k" by simp
  have f: "tab ?s = tab s" "todo ?s = todo s" "fault ?s = fault s" "where_at ?s = (where_at s)(t := p)"
    by (simp_all add: advance_def Let_def split: hpc.split)
  have sl: "slots ?s = (case p of Ending r \<Rightarrow> (slots s)(?k := begin_unlock (op_mode op) t (slots s ?k)) | _ \<Rightarrow> slots s)"
    by (simp add: advance_def k Let_def split: hpc.split)
  have same: "lock_of ?s = lock_of s" "at_ok ?s op q p = at_ok s op q p" for op q p
    using f(1) by (cases p; simp add: lock_of_def fun_eq_iff passed_def chain_of_def)+
  have ok: "lock_ok (slots ?s j)" for j
    using i(3) lock_ok_unlock [OF i(3) hold] by (simp add: sl split: hpc.split)
  have "thread_ok ?s u" for u
  proof (cases "u = t")
    case False
    then show ?thesis
      by (intro thread_same [OF i(4)]) (simp_all add: f sl split: hpc.split)
  next
    case True
    have "p \<noteq> Ready" using p by auto
    moreover have "pcs (slots ?s j) t = Idle" if "j \<noteq> ?k" for j using idle [OF that] that by (simp add: sl split: hpc.split)
    moreover have "at_ok s op (pcs (slots ?s ?k) t) p"
      unfolding sl using p hold by (cases p) simp_all
    ultimately show ?thesis using op True by (simp add: thread_ok_def f same)
  qed
  then show ?thesis using inv ok by (simp add: hts_inv_def hts_rest_def f)
qed

section \<open>What a scan finds\<close>

definition hst :: "htable \<Rightarrow> hstate" where
  "hst tb = \<lparr>tbl = tb, undergoing_resize = 0, mu_locked = False, rwl_slot = (\<lambda>_. rwl_init)\<rparr>"

lemma hst_ok: "hstate_ok (hst tb) = table_ok tb" "tbl (hst tb) = tb" "ht_map (hst tb) = map_of (entries (concat (store tb)))"
  by (simp_all add: hst_def hstate_ok_def locks_idle_def ht_map_def)

lemma chain_ok:
  assumes "hts_inv s"
  shows "\<forall>x \<in> set (chain_of s key). node_ok x"
    "map_of (entries (concat (store (tab s)))) key = map_of (entries (chain_of s key)) key"
  using slot_chain_ok(2,3) [of "hst (tab s)", OF _ refl] hts_invD(2) [OF assms]
  by (simp_all add: hst_ok chain_of_def)

lemma passed_map:
  assumes "passed s key i"
  shows "i < length (chain_of s key) \<Longrightarrow> nd_key (chain_of s key ! i) = key \<Longrightarrow>
      map_of (entries (chain_of s key)) key = Some (nd_val (chain_of s key ! i))"
    "i = length (chain_of s key) \<Longrightarrow> map_of (entries (chain_of s key)) key = None"
proof -
  have none: "map_of (entries (take i (chain_of s key))) key = None"
    using assms by (simp add: passed_def map_of_entries_None)
  show "map_of (entries (chain_of s key)) key = None" if "i = length (chain_of s key)" using none that by simp
  show "map_of (entries (chain_of s key)) key = Some (nd_val (chain_of s key ! i))"
    if "i < length (chain_of s key)" "nd_key (chain_of s key ! i) = key"
  proof -
    have "chain_of s key = take i (chain_of s key) @ chain_of s key ! i # drop (Suc i) (chain_of s key)"
      using id_take_nth_drop [OF that(1)] .
    then have "map_of (entries (chain_of s key)) key =
        map_of (entries (take i (chain_of s key) @ chain_of s key ! i # drop (Suc i) (chain_of s key))) key" by simp
    then show ?thesis using none that(2) by (simp add: map_add_def entries_def)
  qed
qed

lemma passed_Suc:
  "passed s key i \<Longrightarrow> i < length (chain_of s key) \<Longrightarrow> nd_key (chain_of s key ! i) \<noteq> key \<Longrightarrow> passed s key (Suc i)"
  by (auto simp: passed_def take_Suc_conv_app_nth)

text \<open>The three outcomes of a turn of the loop.\<close>

lemma scan_cases:
  assumes inv: "hts_inv s" and pass: "passed s (op_key op) i"
  obtains (next_node) "scan_next op (chain_of s (op_key op)) i = Scan (Suc i)" "passed s (op_key op) (Suc i)"
      "i < length (chain_of s (op_key op))"
  | (at_end) k v where "op = Insert k v" "scan_next op (chain_of s (op_key op)) i = Link i" "i = length (chain_of s k)"
  | (result) r where "scan_next op (chain_of s (op_key op)) i = Ending r"
      "apply_op op (amap (abs_ht s)) = (r, amap (abs_ht s))"
proof -
  let ?c = "chain_of s (op_key op)"
  have m: "amap (abs_ht s) (op_key op) = map_of (entries ?c) (op_key op)"
    using chain_ok(2) [OF inv] by (simp add: abs_ht_def)
  show thesis
  proof (cases "i < length ?c")
    case True
    then have "node_ok (?c ! i)" using chain_ok(1) [OF inv, of "op_key op"] by simp
    then have found: "nd_hash (?c ! i) = hashcode (op_key op) \<and> strcmp (nd_key (?c ! i)) (op_key op) = 0 \<longleftrightarrow>
        nd_key (?c ! i) = op_key op" by (auto simp: node_ok_def)
    show thesis
    proof (cases "nd_key (?c ! i) = op_key op")
      case hit: True
      then have "amap (abs_ht s) (op_key op) = Some (nd_val (?c ! i))" using m passed_map(1) [OF pass True] by simp
      then show thesis using result True found hit by (cases op) (auto simp: scan_next_def)
    next
      case miss: False
      then show thesis using next_node passed_Suc [OF pass True] True found by (simp add: scan_next_def)
    qed
  next
    case False
    then have e: "i = length ?c" using pass by (simp add: passed_def)
    show thesis
    proof (cases op)
      case (Insert k v)
      then show thesis using at_end e by (simp add: scan_next_def)
    next
      case (Lookup k)
      then have "amap (abs_ht s) k = None" using m passed_map(2) [OF pass e] by simp
      then show thesis using result Lookup False by (simp add: scan_next_def)
    qed
  qed
qed

section \<open>Linking a node\<close>

definition linked_tab :: "hts \<Rightarrow> string \<Rightarrow> ptr \<Rightarrow> htable" where
  "linked_tab s key val = tbl (add_node key val (hst (tab s)))"

lemma linked_tab_ok:
  assumes inv: "hts_inv s" and a: "ascii key" and none: "map_of (entries (concat (store (tab s)))) key = None"
  shows "table_ok (linked_tab s key val)" "map_of (entries (concat (store (linked_tab s key val)))) =
      (map_of (entries (concat (store (tab s)))))(key \<mapsto> val)"
    "store (linked_tab s key val) = (store (tab s))[slot_of (length (store (tab s))) key :=
      chain_of s key @ [\<lparr>nd_hash = hashcode key, nd_key = key, nd_val = val\<rparr>]]"
proof -
  have "hstate_ok (hst (tab s))" using hts_invD(2) [OF inv] by (simp add: hst_ok)
  note n = add_node_ok [OF this a, of val, unfolded hst_ok, OF none]
  show "table_ok (linked_tab s key val)" using n(1) by (simp add: linked_tab_def hstate_ok_def)
  show "map_of (entries (concat (store (linked_tab s key val)))) = (map_of (entries (concat (store (tab s)))))(key \<mapsto> val)"
    using n(2) by (simp add: linked_tab_def ht_map_def)
  show "store (linked_tab s key val) = (store (tab s))[slot_of (length (store (tab s))) key :=
      chain_of s key @ [\<lparr>nd_hash = hashcode key, nd_key = key, nd_val = val\<rparr>]]"
    by (simp add: linked_tab_def add_node_def hst_ok chain_of_def Let_def)
qed

text \<open>The node reaches the chain although other threads are at work, because none of them is in the same slot.\<close>

lemma hts_rest_link:
  assumes inv: "hts_inv s" and w: "where_at s t = Link i" and op: "todo s t = Insert key val # ops"
  shows "hts_rest t (s\<lparr>tab := linked_tab s key val\<rparr>)"
    "at_ok s (Insert key val) (pcs (slots s (lock_of s key)) t) (Link i)" "ascii key"
proof -
  let ?s = "s\<lparr>tab := linked_tab s key val\<rparr>"
  have r: "where_at s t \<noteq> Ready" using w by simp
  show at: "at_ok s (Insert key val) (pcs (slots s (lock_of s key)) t) (Link i)"
    using thread_at(2) [OF hts_invD(4) [OF inv] r op] unfolding w by auto
  show a: "ascii key" using hts_invD(5) [OF inv op] by simp
  have none: "map_of (entries (concat (store (tab s)))) key = None"
    using chain_ok(2) [OF inv, of key] passed_map(2) [of s key i] at by auto
  note l = linked_tab_ok [OF inv a none, of val]
  have len: "length (store (linked_tab s key val)) = length (store (tab s))" by (simp add: l(3))
  have lock: "lock_of ?s = lock_of s" by (simp add: lock_of_def len fun_eq_iff)
  have chain: "chain_of ?s k = chain_of s k" if "slot_of (length (store (tab s))) k \<noteq> slot_of (length (store (tab s))) key" for k
    using that by (simp add: chain_of_def len l(3))
  have "thread_ok ?s u" if u: "u \<noteq> t" for u
  proof (cases "where_at s u = Ready")
    case True
    then show ?thesis using hts_invD(4) [OF inv, of u] by (simp add: thread_ok_def)
  next
    case False
    then obtain op' ops' where op': "todo s u = op' # ops'" using not_ready [OF hts_invD(4) [OF inv, of u]] by blast
    note b = thread_at [OF hts_invD(4) [OF inv, of u] False op']
    have "at_ok ?s op' (pcs (slots s (lock_of s (op_key op'))) u) (where_at s u)"
    proof (cases "slot_of (length (store (tab s))) (op_key op') = slot_of (length (store (tab s))) key")
      case True
      then have "lock_of s (op_key op') = lock_of s key" by (simp add: lock_of_def)
      then have "\<not> is_holding m (pcs (slots s (lock_of s (op_key op'))) u)" for m
        using rwl_inv_exclusive [of "slots s (lock_of s key)" t m u] at u hts_invD(3) [OF inv] by (auto simp: lock_ok_def)
      then show ?thesis using b(2) by (cases "where_at s u") auto
    next
      case False
      then show ?thesis using b(2) chain by (cases "where_at s u") (auto simp: passed_def)
    qed
    then show ?thesis using False op' b(1) by (simp add: thread_ok_def lock)
  qed
  then show "hts_rest t ?s" using inv l(1) by (simp add: hts_inv_def hts_rest_def)
qed

section \<open>Every step keeps the invariant and refines the atomic map\<close>

lemma abs_advance: "abs_ht (advance t op p s) = (abs_ht s)\<lparr>apcs := (apcs (abs_ht s))(t := abs_pc p)\<rparr>"
  by (cases p) (auto simp: abs_ht_def advance_def Let_def fun_eq_iff)

lemma abs_simps: "apcs (abs_ht s) t = abs_pc (where_at s t)" "atodo (abs_ht s) = todo s"
  by (simp_all add: abs_ht_def)

text \<open>The shape of a step is inverted once; \<open>good_step\<close> is what it gives.\<close>

definition good_step :: "hts \<Rightarrow> hts \<Rightarrow> bool" where
  "good_step s s' \<longleftrightarrow> hts_inv s' \<and> (abs_ht s' = abs_ht s \<or> atomic_step (abs_ht s) (abs_ht s'))"

lemma good_scan:
  assumes inv: "hts_inv s" and w: "where_at s t = Scan i" and op: "todo s t = op # ops"
  shows "good_step s (advance t op (scan_next op (chain_of s (op_key op)) i) s)"
proof -
  have r: "where_at s t \<noteq> Ready" using w by simp
  note a = thread_at [OF hts_invD(4) [OF inv] r op]
  have at: "pcs (slots s (lock_of s (op_key op))) t = Holding (op_mode op)" "passed s (op_key op) i"
    using a(2) unfolding w by simp_all
  note adv = hts_inv_advance [OF hts_inv_rest [OF inv] op a(1) at(1)]
  have pc: "apcs (abs_ht s) t = ACalled" by (simp add: abs_simps w)
  from inv at(2) show ?thesis
  proof (cases rule: scan_cases)
    case next_node
    then have "hts_inv (advance t op (Scan (Suc i)) s)" by (intro adv) simp_all
    moreover have "abs_ht (advance t op (Scan (Suc i)) s) = abs_ht s" by (simp add: abs_advance flip: pc)
    ultimately show ?thesis using next_node by (simp add: good_step_def)
  next
    case (at_end k v)
    then have "hts_inv (advance t op (Link i) s)" using at(2) by (intro adv) simp_all
    moreover have "abs_ht (advance t op (Link i) s) = abs_ht s" by (simp add: abs_advance flip: pc)
    ultimately show ?thesis using at_end by (simp add: good_step_def)
  next
    case (result r)
    have "hts_inv (advance t op (Ending r) s)" by (intro adv) simp_all
    moreover have "atomic_step (abs_ht s) ((abs_ht s)\<lparr>amap := amap (abs_ht s), apcs := (apcs (abs_ht s))(t := AResult r)\<rparr>)"
      using pc op result(2) by (intro a_apply) (simp_all add: abs_simps)
    then have "atomic_step (abs_ht s) (abs_ht (advance t op (Ending r) s))" by (simp add: abs_advance)
    ultimately show ?thesis using result(1) by (simp add: good_step_def)
  qed
qed

lemma good_link:
  assumes inv: "hts_inv s" and w: "where_at s t = Link i" and op: "todo s t = Insert key val # ops"
    and st: "arr_set (store (tab s)) (op_slot s (Insert key val))
      (take i (chain_of s key) @ [\<lparr>nd_hash = hashcode key, nd_key = key, nd_val = val\<rparr>]) = Inr st"
  shows "good_step s (advance t (Insert key val) (Ending (Ret 0)) (s\<lparr>tab := (tab s)\<lparr>store := st\<rparr>\<rparr>))"
proof -
  note l = hts_rest_link [OF inv w op]
  have r: "where_at s t \<noteq> Ready" using w by simp
  have i: "i = length (chain_of s key)" "passed s key i" "pcs (slots s (lock_of s key)) t = Holding Writer" using l(2) by auto
  have none: "map_of (entries (concat (store (tab s)))) key = None"
    using chain_ok(2) [OF inv, of key] passed_map(2) [OF i(2,1)] by simp
  note k = linked_tab_ok [OF inv l(3) none, of val]
  have slot: "op_slot s (Insert key val) = int (slot_of (length (store (tab s))) key)"
    "slot_of (length (store (tab s))) key < length (store (tab s))"
    using op_slot_ok(1,3) [OF hts_invD(2) [OF inv], of "Insert key val"] l(3) slot_of_less by simp_all
  have "st = store (linked_tab s key val)" using st slot i(1) by (simp add: k(3))
  then have tab: "(tab s)\<lparr>store := st\<rparr> = linked_tab s key val" by (simp add: linked_tab_def add_node_def hst_ok Let_def)
  let ?s = "s\<lparr>tab := linked_tab s key val\<rparr>"
  have lock: "lock_of ?s = lock_of s" by (simp add: lock_of_def k(3) fun_eq_iff)
  have "hts_inv (advance t (Insert key val) (Ending (Ret 0)) ?s)"
  proof (rule hts_inv_advance [OF l(1), of "Insert key val" ops])
    show "pcs (slots ?s j) t = Idle" if "j \<noteq> lock_of ?s (op_key (Insert key val))" for j
      using thread_at(1) [OF hts_invD(4) [OF inv] r op, of j] that by (simp add: lock)
  qed (use op i(3) in \<open>simp_all add: lock\<close>)
  moreover have "atomic_step (abs_ht s) ((abs_ht s)\<lparr>amap := (amap (abs_ht s))(key \<mapsto> val), apcs := (apcs (abs_ht s))(t := AResult (Ret 0))\<rparr>)"
    using op w none by (intro a_apply [of _ _ "Insert key val" ops]) (simp_all add: abs_simps abs_ht_def)
  then have "atomic_step (abs_ht s) (abs_ht (advance t (Insert key val) (Ending (Ret 0)) ?s))"
    by (simp add: abs_advance) (simp add: abs_ht_def k(2))
  ultimately show ?thesis by (simp add: good_step_def tab)
qed

lemma good_work:
  assumes inv: "hts_inv s" and "ht_work s s'"
  shows "good_step s s'"
  using assms(2)
proof (cases rule: ht_workE)
  case (start t op ops)
  define k where "k = nat (op_lock s op)"
  note start = start [folded k_def]
  have a: "ascii (op_key op)" using hts_invD(5) [OF inv start(3)] .
  have k: "k = lock_of s (op_key op)" using op_slot_ok(2) [OF hts_invD(2) [OF inv] a] by (simp add: k_def)
  have idle: "pcs (slots s j) t = Idle" for j using hts_invD(4) [OF inv, of t] start(2) by (simp add: thread_ok_def)
  have lock: "lock_of s' = lock_of s" using start(1) by (simp add: lock_of_def fun_eq_iff)
  have "thread_ok s' u" for u
  proof (cases "u = t")
    case True
    then show ?thesis unfolding thread_ok_def lock using start(1,3) idle k by simp
  next
    case False
    then show ?thesis using start(1) by (intro thread_same [OF hts_invD(4) [OF inv, of u]]) simp_all
  qed
  then have "hts_inv s'" using inv start(1) lock_ok_call [OF _ idle] by (simp add: hts_inv_def)
  moreover have "abs_ht s' = (abs_ht s)\<lparr>apcs := (apcs (abs_ht s))(t := ACalled)\<rparr>"
    using start(1) by (auto simp: abs_ht_def fun_eq_iff)
  then have "atomic_step (abs_ht s) (abs_ht s')" using start(2,3) by (simp add: a_call abs_simps)
  ultimately show ?thesis by (simp add: good_step_def)
next
  case (start_fault t op ops)
  have "ascii (op_key op)" using hts_invD(5) [OF inv start_fault(3)] .
  then show ?thesis using start_fault(4) op_slot_ok(2,4) [OF hts_invD(2) [OF inv]] by simp
next
  case (lock k l')
  then show ?thesis
    using hts_inv_slot [OF inv lock_ok_work [OF hts_invD(3) [OF inv] lock(2)] lock_work_moves [OF lock(2)]]
    by (simp add: good_step_def abs_ht_def)
next
  case (locked t op ops)
  have r: "where_at s t \<noteq> Ready" using locked(2) by simp
  have "ascii (op_key op)" using hts_invD(5) [OF inv locked(3)] .
  then have h: "pcs (slots s (lock_of s (op_key op))) t = Holding (op_mode op)"
    using locked(4) op_slot_ok(2) [OF hts_invD(2) [OF inv]] by simp
  have s': "s' = advance t op (Scan 0) s" using locked(1) by (simp add: advance_def)
  have "hts_inv s'"
    unfolding s' using thread_at(1) [OF hts_invD(4) [OF inv] r locked(3)] h
    by (intro hts_inv_advance [OF hts_inv_rest [OF inv] locked(3)]) (simp_all add: passed_def)
  moreover have "abs_ht s' = abs_ht s" using locked(2) by (auto simp: s' abs_advance) (auto simp: abs_ht_def fun_eq_iff)
  ultimately show ?thesis by (simp add: good_step_def)
next
  case (scan t i op ops chain)
  have "chain = chain_of s (op_key op)"
    using scan(4) op_slot_ok(5) [OF hts_invD(2) [OF inv] hts_invD(5) [OF inv scan(3)]] by simp
  then show ?thesis using scan(1) good_scan [OF inv scan(2,3)] by simp
next
  case (scan_fault t i op ops e)
  then show ?thesis using op_slot_ok(5) [OF hts_invD(2) [OF inv] hts_invD(5) [OF inv scan_fault(3)]] by simp
next
  case (link t i key val ops chain st)
  have "chain = chain_of s key"
    using link(4) op_slot_ok(5) [OF hts_invD(2) [OF inv] hts_invD(5) [OF inv link(3)]] by simp
  then show ?thesis using link(1,5) good_link [OF inv link(2,3)] by simp
next
  case (return t r op ops)
  have n: "where_at s t \<noteq> Ready" using return(2) by simp
  have "ascii (op_key op)" using hts_invD(5) [OF inv return(3)] .
  then have h: "pcs (slots s (lock_of s (op_key op))) t = Idle"
    using return(4) op_slot_ok(2) [OF hts_invD(2) [OF inv]] by simp
  have idle: "pcs (slots s j) t = Idle" for j
    using thread_at(1) [OF hts_invD(4) [OF inv] n return(3), of j] h by (cases "j = lock_of s (op_key op)") simp_all
  have "thread_ok s' u" for u
  proof (cases "u = t")
    case True
    then show ?thesis using return(1) idle by (simp add: thread_ok_def)
  next
    case False
    then show ?thesis using return(1) by (intro thread_same [OF hts_invD(4) [OF inv, of u]]) simp_all
  qed
  moreover have "\<forall>u. \<forall>op \<in> set (todo s' u). ascii (op_key op)"
    using inv return(1,3) unfolding hts_inv_def by (auto split: if_splits) (metis list.set_intros(2))
  ultimately have "hts_inv s'" using inv return(1) by (simp add: hts_inv_def)
  moreover have "atomic_step (abs_ht s) (abs_ht s')"
  proof -
    have "abs_ht s' = (abs_ht s)\<lparr>apcs := (apcs (abs_ht s))(t := AReady), atodo := (atodo (abs_ht s))(t := ops),
        afinished := (afinished (abs_ht s))(t := afinished (abs_ht s) t @ [(op, r)])\<rparr>"
      using return(1) by (auto simp: abs_ht_def fun_eq_iff)
    then show ?thesis using a_return [of "abs_ht s" t r op ops] return(2,3) by (simp add: abs_simps)
  qed
  ultimately show ?thesis by (simp add: good_step_def)
qed

lemma good_idle:
  assumes inv: "hts_inv s" and "ht_idle s s'"
  shows "good_step s s'"
  using assms(2)
proof (cases rule: ht_idleE)
  case (spurious k l')
  then show ?thesis
    using hts_inv_slot [OF inv lock_ok_spurious [OF hts_invD(3) [OF inv] spurious(2)] lock_spurious_moves [OF spurious(2)]]
    by (simp add: good_step_def abs_ht_def)
qed

lemma good_ht_step: "hts_inv s \<Longrightarrow> ht_step s s' \<Longrightarrow> good_step s s'"
  unfolding ht_step_def using good_work good_idle by blast

definition fixed_table :: "hstate \<Rightarrow> (nat \<Rightarrow> htop list) \<Rightarrow> bool" where
  "fixed_table h ops \<longleftrightarrow> table_ok (tbl h) \<and> allow_resize (tbl h) = 0 \<and> (\<forall>t. \<forall>op \<in> set (ops t). ascii (op_key op))"

lemma share_inv: "fixed_table h ops \<Longrightarrow> hts_inv (share h ops)"
  using lock_ok_init by (simp add: fixed_table_def share_def hts_inv_def thread_ok_def init_sys_def)

lemma ht_reachable:
  assumes "reachable (share h ops) ht_step s" "fixed_table h ops"
  shows "hts_inv s \<and> reachable (abs_ht (share h ops)) atomic_step (abs_ht s)"
  using assms
proof (induction rule: reachable.induct)
  case reach_start
  then show ?case using share_inv by (blast intro: reachable.intros)
next
  case (reach_step s s')
  then have "good_step s s'" using good_ht_step by blast
  then show ?case using reach_step by (auto simp: good_step_def intro: reachable.intros)
qed

section \<open>Progress\<close>

lemma holder_works:
  assumes inv: "hts_inv s" and h: "pcs (slots s k) u = Holding m"
  shows "\<exists>s'. ht_work s s'"
proof -
  have n: "where_at s u \<noteq> Ready" using hts_invD(4) [OF inv, of u] h by (metis pc.distinct(9) thread_ok_def)
  then obtain op ops where op: "todo s u = op # ops" using not_ready [OF hts_invD(4) [OF inv]] by blast
  note a = thread_at [OF hts_invD(4) [OF inv] n op]
  have sl: "op_slot s op = int (slot_of (length (store (tab s))) (op_key op))" "op_lock s op = int (lock_of s (op_key op))"
    "arr_at (store (tab s)) (op_slot s op) = Inr (chain_of s (op_key op))"
    "slot_of (length (store (tab s))) (op_key op) < length (store (tab s))"
    using op_slot_ok [OF hts_invD(2) [OF inv] hts_invD(5) [OF inv op]] slot_of_less by simp_all
  have k: "pcs (slots s (lock_of s (op_key op))) u = Holding m" using a(1) [of k] h by (cases "k = lock_of s (op_key op)") auto
  show ?thesis
  proof (cases "where_at s u")
    case Ready
    then show ?thesis using n by simp
  next
    case Acquiring
    then have "m = op_mode op" using a(2) k by simp
    then show ?thesis using ht_work.locked [OF Acquiring op] k sl(2) by auto
  next
    case (Scan i)
    show ?thesis using ht_work.scan [OF Scan op sl(3)] by blast
  next
    case (Link i)
    then have "op_mode op = Writer" using a(2) by auto
    then obtain key val where o: "op = Insert key val" by (cases op) auto
    then obtain st where "arr_set (store (tab s)) (op_slot s (Insert key val))
        (take i (chain_of s key) @ [\<lparr>nd_hash = hashcode key, nd_key = key, nd_val = val\<rparr>]) = Inr st"
      using sl(1,4) by simp
    then show ?thesis using ht_work.link [OF Link] op sl(3) o by fastforce
  next
    case (Ending r)
    then show ?thesis using a(2) k by simp
  qed
qed

lemma ht_not_stuck:
  assumes inv: "hts_inv s" and t: "todo s t \<noteq> []"
  shows "\<exists>s'. ht_work s s'"
proof (cases "\<exists>k u. active (pcs (slots s k) u) \<or> (\<exists>m. pcs (slots s k) u = Holding m)")
  case True
  then show ?thesis using active_work [OF hts_invD(3) [OF inv]] holder_works [OF inv] ht_work.lock by meson
next
  case False
  obtain op ops where op: "todo s t = op # ops" using t by (cases "todo s t") auto
  have sl: "ht_size (tab s) \<noteq> 0" "op_lock s op = int (lock_of s (op_key op))"
    using op_slot_ok [OF hts_invD(2) [OF inv] hts_invD(5) [OF inv op]] by simp_all
  let ?q = "pcs (slots s (lock_of s (op_key op))) t"
  show ?thesis
  proof (cases "where_at s t = Ready")
    case True
    then show ?thesis using ht_work.start [OF True op sl(1)] sl(2) by (metis of_nat_0_le_iff)
  next
    case n: False
    note a = thread_at [OF hts_invD(4) [OF inv] n op]
    have "\<not> entering (op_mode op) ?q"
    proof
      assume "entering (op_mode op) ?q"
      then have "?q = Waiting (op_mode op) False" using entering_cases [OF hts_invD(3) [OF inv]] False by blast
      then obtain u m where "pcs (slots s (lock_of s (op_key op))) u = Holding m"
        using waiting_holder [OF hts_invD(3) [OF inv]] False by blast
      then show False using False by blast
    qed
    moreover have "\<not> active ?q" "?q \<noteq> Holding (op_mode op)" using False by blast+
    ultimately obtain r where "where_at s t = Ending r" "?q = Idle" using a(2) by (cases "where_at s t") auto
    then show ?thesis using ht_work.return [OF _ op] sl(2) by fastforce
  qed
qed

section \<open>The threads finish\<close>

fun hpc_rank :: "hpc \<Rightarrow> nat" where
  "hpc_rank Ready = 4"
| "hpc_rank Acquiring = 3"
| "hpc_rank (Scan i) = 2"
| "hpc_rank (Link i) = 1"
| "hpc_rank (Ending r) = 0"

definition ops_left :: "nat \<Rightarrow> hts \<Rightarrow> nat" where
  "ops_left n s = (\<Sum>t<n. length (todo s t))"

definition stages_left :: "nat \<Rightarrow> hts \<Rightarrow> nat" where
  "stages_left n s = (\<Sum>t<n. hpc_rank (where_at s t))"

definition nodes_left :: "hts \<Rightarrow> nat \<Rightarrow> nat" where
  "nodes_left s t = (case where_at s t of Scan i \<Rightarrow> length (chain_of s (op_key (hd (todo s t)))) - i | _ \<Rightarrow> 0)"

definition moves_left :: "nat \<Rightarrow> hts \<Rightarrow> nat" where
  "moves_left n s = (\<Sum>t<n. nodes_left s t) + (\<Sum>k<10000. lock_rank n (pcs (slots s k)))"

text \<open>The order of the work of \<open>n\<close> threads: operations, then stages, then nodes to pass and steps of the locks.\<close>

definition ht_order :: "nat \<Rightarrow> (hts \<times> hts) set" where
  "ht_order n = measures [ops_left n, stages_left n, moves_left n]"

lemma wf_ht_order: "wf (ht_order n)"
  by (simp add: ht_order_def)

lemma sum_less:
  fixes f g :: "nat \<Rightarrow> nat"
  assumes "t < n" "f t < g t" "\<And>u. u \<noteq> t \<Longrightarrow> f u = g u"
  shows "sum f {..<n} < sum g {..<n}"
proof (rule sum_strict_mono_ex1)
  show "\<forall>u \<in> {..<n}. f u \<le> g u"
  proof
    fix u show "f u \<le> g u" using assms(2,3) by (cases "u = t") simp_all
  qed
qed (use assms(1,2) in auto)

lemma sum_same: "(\<And>u. f u = (g u :: nat)) \<Longrightarrow> sum f {..<n} = sum g {..<n}"
  by simp

text \<open>Only the first \<open>n\<close> threads have operations.\<close>

definition few :: "nat \<Rightarrow> hts \<Rightarrow> bool" where
  "few n s \<longleftrightarrow> (\<forall>t\<ge>n. todo s t = [])"

lemma few_less: "few n s \<Longrightarrow> todo s t = op # ops \<Longrightarrow> t < n"
  unfolding few_def by (metis list.distinct(1) not_le_imp_less)

lemma outside_idle:
  assumes "hts_inv s" "few n s" "n \<le> t"
  shows "pcs (slots s k) t = Idle"
proof -
  have "todo s t = []" using assms(2,3) by (simp add: few_def)
  then have "where_at s t = Ready" using not_ready [OF hts_invD(4) [OF assms(1)], of t] by auto
  then show ?thesis using hts_invD(4) [OF assms(1), of t] by (simp add: thread_ok_def)
qed

lemma lock_used:
  assumes "hts_inv s" "lock_work (slots s k) l'"
  shows "k < 10000"
proof -
  obtain t where t: "pcs (slots s k) t \<noteq> Idle" using lock_work_somebody [OF assms(2)] by blast
  then have n: "where_at s t \<noteq> Ready" using hts_invD(4) [OF assms(1), of t] by (metis thread_ok_def)
  then obtain op ops where op: "todo s t = op # ops" using not_ready [OF hts_invD(4) [OF assms(1)]] by blast
  have "k = lock_of s (op_key op)" using thread_at(1) [OF hts_invD(4) [OF assms(1)] n op, of k] t by blast
  then show ?thesis by (simp add: lock_of_def)
qed

lemma advance_fields:
  "todo (advance t op p s) = todo s" "where_at (advance t op p s) = (where_at s)(t := p)" "tab (advance t op p s) = tab s"
  "(\<And>r. p \<noteq> Ending r) \<Longrightarrow> slots (advance t op p s) = slots s"
  by (simp_all add: advance_def Let_def split: hpc.split)

lemma scan_next_stage: "hpc_rank (scan_next op chain i) < 2 \<or> scan_next op chain i = Scan (Suc i) \<and> i < length chain"
  by (cases op) (auto simp: scan_next_def Let_def)

lemma ht_work_order:
  assumes inv: "hts_inv s" and few: "few n s" and "ht_work s s'"
  shows "(s', s) \<in> ht_order n"
  using assms(3)
proof (cases rule: ht_workE)
  case (start t op ops)
  then have "ops_left n s' = ops_left n s" "stages_left n s' < stages_left n s"
    unfolding ops_left_def stages_left_def using few_less [OF few start(3)] by (auto intro: sum_less [of t])
  then show ?thesis by (simp add: ht_order_def)
next
  case (start_fault t op ops)
  then show ?thesis using good_work [OF inv assms(3)] by (simp add: good_step_def hts_inv_def)
next
  case (lock k l')
  have "ops_left n s' = ops_left n s" "stages_left n s' = stages_left n s" "nodes_left s' = nodes_left s"
    using lock(1) by (simp_all add: ops_left_def stages_left_def nodes_left_def chain_of_def fun_eq_iff split: hpc.split)
  moreover have "lock_rank n (pcs l') < lock_rank n (pcs (slots s k))"
    using lock_work_rank [OF lock(2)] outside_idle [OF inv few] by blast
  then have "(\<Sum>j<10000. lock_rank n (pcs (slots s' j))) < (\<Sum>j<10000. lock_rank n (pcs (slots s j)))"
    using lock(1) lock_used [OF inv lock(2)] by (intro sum_less [of k]) auto
  ultimately show ?thesis by (simp add: ht_order_def moves_left_def)
next
  case (locked t op ops)
  then have "ops_left n s' = ops_left n s" "stages_left n s' < stages_left n s"
    unfolding ops_left_def stages_left_def using few_less [OF few locked(3)] by (auto intro: sum_less [of t])
  then show ?thesis by (simp add: ht_order_def)
next
  case (scan t i op ops chain)
  have chain: "chain = chain_of s (op_key op)"
    using scan(4) op_slot_ok(5) [OF hts_invD(2) [OF inv] hts_invD(5) [OF inv scan(3)]] by simp
  have t: "t < n" using few_less [OF few scan(3)] .
  have o: "ops_left n s' = ops_left n s" using scan(1) by (simp add: ops_left_def advance_fields)
  from scan_next_stage [of op chain i] show ?thesis
  proof
    assume "hpc_rank (scan_next op chain i) < 2"
    then have "stages_left n s' < stages_left n s"
      unfolding stages_left_def using scan(1,2) t by (intro sum_less [of t]) (simp_all add: advance_fields)
    then show ?thesis using o by (simp add: ht_order_def)
  next
    assume a: "scan_next op chain i = Scan (Suc i) \<and> i < length chain"
    then have s': "where_at s' = (where_at s)(t := Scan (Suc i))" "slots s' = slots s" "tab s' = tab s" "todo s' = todo s"
      using scan(1) by (simp_all add: advance_fields)
    have "stages_left n s' = stages_left n s"
      unfolding stages_left_def using scan(2) by (intro sum_same) (simp add: s'(1))
    moreover have "sum (nodes_left s') {..<n} < sum (nodes_left s) {..<n}"
    proof (rule sum_less [OF t])
      have c: "chain_of s' = chain_of s" by (simp add: chain_of_def s' fun_eq_iff)
      show "nodes_left s' t < nodes_left s t" using a scan(2,3) by (simp add: nodes_left_def s' c diff_less_mono2 flip: chain)
      show "nodes_left s' u = nodes_left s u" if "u \<noteq> t" for u using that by (simp add: nodes_left_def s' c split: hpc.split)
    qed
    ultimately show ?thesis using o by (simp add: ht_order_def moves_left_def s')
  qed
next
  case (scan_fault t i op ops e)
  then show ?thesis using good_work [OF inv assms(3)] by (simp add: good_step_def hts_inv_def)
next
  case (link t i key val ops chain st)
  then have "ops_left n s' = ops_left n s" "stages_left n s' < stages_left n s"
    unfolding ops_left_def stages_left_def using few_less [OF few link(3)]
    by (simp_all add: advance_fields) (auto intro: sum_less [of t])
  then show ?thesis by (simp add: ht_order_def)
next
  case (return t r op ops)
  then have "ops_left n s' < ops_left n s"
    unfolding ops_left_def using few_less [OF few return(3)] by (auto intro: sum_less [of t])
  then show ?thesis by (simp add: ht_order_def)
qed

lemma few_work: "few n s \<Longrightarrow> ht_work s s' \<Longrightarrow> few n s'"
  by (auto simp: few_def advance_fields elim!: ht_workE)

lemma ht_runs_out:
  assumes "hts_inv s" "few n s"
  shows "\<exists>s'. ht_work\<^sup>*\<^sup>* s s' \<and> (\<forall>t. todo s' t = []) \<and> hts_inv s'"
  using wf_ht_order [of n] assms
proof (induction s rule: wf_induct_rule)
  case (less s)
  show ?case
  proof (cases "\<forall>t. todo s t = []")
    case True
    then show ?thesis using less.prems by blast
  next
    case False
    then obtain s1 where s1: "ht_work s s1" using ht_not_stuck [OF less.prems(1)] by blast
    have "hts_inv s1" using good_work [OF less.prems(1) s1] by (simp add: good_step_def)
    from less.IH [OF ht_work_order [OF less.prems s1] this few_work [OF less.prems(2) s1]]
    show ?thesis using s1 by (meson converse_rtranclp_into_rtranclp)
  qed
qed

section \<open>The properties\<close>

text \<open>C9: threads that insert and look up in a table that may not be resized can be interleaved in any way: every step of any
  of them, down to the single node of a chain and the waits inside the slot locks, is either invisible or one step of
  an atomic map, and none leaves defined behaviour. So the table is linearizable: each operation takes effect
  at one moment between its call and its return, and no node is lost.\<close>

theorem ht_step_refines:
  assumes "reachable (share h ops) ht_step s" "fixed_table h ops" "ht_step s s'"
  shows "(abs_ht s' = abs_ht s \<or> atomic_step (abs_ht s) (abs_ht s')) \<and> fault s' = None \<and>
    reachable (abs_ht (share h ops)) atomic_step (abs_ht s')"
proof -
  note r = ht_reachable [OF assms(1,2)]
  have "good_step s s'" using good_ht_step r assms(3) by blast
  then have g: "hts_inv s'" "abs_ht s' = abs_ht s \<or> atomic_step (abs_ht s) (abs_ht s')" by (simp_all add: good_step_def)
  then have "reachable (abs_ht (share h ops)) atomic_step (abs_ht s')" using r by (auto intro: reachable.intros)
  then show ?thesis using g by (simp add: hts_inv_def)
qed

lemma example_table:
  "fixed_table (htable_init 4 0) (\<lambda>t. if t = 0 then [Insert ''ab'' (Addr 5)] else if t = 1 then [Lookup ''ab''] else [])"
  using init_ok(1) [of 4 0] by (auto simp: fixed_table_def hstate_ok_def ascii_def char_val_def init_4)

theorem ht_step_refines_witness:
  "\<exists>s'. ht_step (share (htable_init 4 0) (\<lambda>t. if t = 0 then [Insert ''ab'' (Addr 5)] else if t = 1 then [Lookup ''ab''] else [])) s' \<and>
     fault s' = None"
proof -
  let ?s = "share (htable_init 4 0) (\<lambda>t. if t = 0 then [Insert ''ab'' (Addr 5)] else if t = 1 then [Lookup ''ab''] else [])"
  have inv: "hts_inv ?s" using share_inv [OF example_table] .
  obtain s' where "ht_work ?s s'" using ht_not_stuck [OF inv, of 0] by (auto simp: share_def)
  then have s': "ht_step ?s s'" by (simp add: ht_step_def share_def)
  then show ?thesis using ht_step_refines [OF reach_start example_table s'] by blast
qed

text \<open>And they finish: as long as an operation is left some thread can do work, every step of work goes down in the well-founded
  order \<open>ht_order\<close>, and from every state a state with nothing left to do is reached.\<close>

lemma ht_threads_finish:
  assumes "reachable (share h ops) ht_step s" "fixed_table h ops" "\<forall>t\<ge>n. todo s t = []"
  shows "((\<forall>t. todo s t = []) \<or> (\<exists>s'. ht_work s s')) \<and> (\<forall>s'. ht_work s s' \<longrightarrow> (s', s) \<in> ht_order n) \<and> wf (ht_order n) \<and>
    (\<exists>s'. ht_work\<^sup>*\<^sup>* s s' \<and> (\<forall>t. todo s' t = []))"
proof -
  have inv: "hts_inv s" using ht_reachable [OF assms(1,2)] by blast
  have few: "few n s" using assms(3) by (simp add: few_def)
  show ?thesis using ht_not_stuck [OF inv] ht_work_order [OF inv few] wf_ht_order ht_runs_out [OF inv few] by blast
qed

end
