(* ===== verification/HtTest.thy ===== *)
theory HtTest
  imports HtThreads
begin

text \<open>
  threadlab/testhash.c: the test of the hash table, with the table that may not be resized (\<open>test_htable(0)\<close>), and the choice of tests in
  tester.c. \<open>rnd k\<close> is the result of the \<open>k\<close>-th call of \<open>rand\<close>, and the array \<open>testvals\<close> starts at \<open>vals_base\<close>. A phase of the test is a run
  of the threads to their end; the clock readings and what is printed are left out. The
  test with \<open>allow_resize\<close> 1 is in \<open>HtResizeTest\<close>.
\<close>

section \<open>The test data\<close>

definition TESTSZ :: int where "TESTSZ = 1000000"
definition STRLEN :: nat where "STRLEN = 50"

definition set_random_str :: "(nat \<Rightarrow> int) \<Rightarrow> nat \<Rightarrow> nat \<Rightarrow> string" where
  "set_random_str rnd k len = map (\<lambda>i. char_of (rnd (k + i) smod 26 + 65)) [0..<len - 1]"

definition testkey :: "(nat \<Rightarrow> int) \<Rightarrow> int \<Rightarrow> string" where
  "testkey rnd i = set_random_str rnd (nat i * (STRLEN - 1)) STRLEN"

definition vals_base :: nat where "vals_base = 4096"

definition testval :: "int \<Rightarrow> ptr" where
  "testval i = Addr (vals_base + 4 * nat i)"

section \<open>The threads\<close>

datatype run_mode = INSERT | MIX

definition share_start :: "int \<Rightarrow> int \<Rightarrow> int" where
  "share_start num_threads thread_idx = thread_idx * (TESTSZ sdiv num_threads)"

definition share_end :: "int \<Rightarrow> int \<Rightarrow> int" where
  "share_end num_threads thread_idx =
     (if thread_idx = num_threads - 1 then TESTSZ else (thread_idx + 1) * (TESTSZ sdiv num_threads))"

definition other :: "int \<Rightarrow> int \<Rightarrow> int" where
  "other thread_idx i = (((thread_idx * i) smod 256) * BIG_PRIME) smod TESTSZ"

definition run_step :: "(nat \<Rightarrow> int) \<Rightarrow> run_mode \<Rightarrow> int \<Rightarrow> int \<Rightarrow> (htop \<times> ptr) list" where
  "run_step rnd m thread_idx i =
     (let r = other thread_idx i in
      [(Insert (testkey rnd i) (testval i), testval i),
       (case m of INSERT \<Rightarrow> (Insert (testkey rnd r) (testval r), testval r) | MIX \<Rightarrow> (Lookup (testkey rnd r), testval r))])"

text \<open>\<open>test_htable_run\<close>: the operations of a thread, each with the value that the test has for its key.\<close>

definition test_htable_run :: "(nat \<Rightarrow> int) \<Rightarrow> run_mode \<Rightarrow> int \<Rightarrow> nat \<Rightarrow> (htop \<times> ptr) list" where
  "test_htable_run rnd m num_threads t =
     (if int t < num_threads
      then concat (map (run_step rnd m (int t)) [share_start num_threads (int t)..share_end num_threads (int t) - 1])
      else [])"

text \<open>The test in the loop of \<open>test_htable_run\<close>: a lookup that finds a value finds the right one.\<close>

fun lookup_fits :: "(htop \<times> res) \<times> (htop \<times> ptr) \<Rightarrow> bool" where
  "lookup_fits ((Lookup k, Val v), (op, x)) = (v = Null \<or> v = x)"
| "lookup_fits _ = True"

definition lookups_fit :: "(nat \<Rightarrow> int) \<Rightarrow> run_mode \<Rightarrow> int \<Rightarrow> hts \<Rightarrow> bool" where
  "lookups_fit rnd m num_threads s \<longleftrightarrow>
     (\<forall>t < nat num_threads. list_all lookup_fits (zip (finished s t) (test_htable_run rnd m num_threads t)))"

definition phase_start :: "(nat \<Rightarrow> int) \<Rightarrow> run_mode \<Rightarrow> int \<Rightarrow> hts" where
  "phase_start rnd m num_threads =
     share (htable_init (TESTSZ sdiv 100) 0) (\<lambda>t. map fst (test_htable_run rnd m num_threads t))"

definition joined :: "hts \<Rightarrow> bool" where
  "joined s \<longleftrightarrow> (\<forall>t. todo s t = [])"

section \<open>The test\<close>

definition test_failed :: "'a cres" where
  "test_failed = Inl (Exit 1)"

definition validate :: "(nat \<Rightarrow> int) \<Rightarrow> hstate \<Rightarrow> hstate cres" where
  "validate rnd h = c_for 0 TESTSZ (\<lambda>i h. c_bind (htable_lookup (testkey rnd i) h) (\<lambda>(p, h).
     if p \<noteq> Null \<and> p = testval i then Inr h else test_failed)) h"

text \<open>The outcomes that \<open>test_htable(0)\<close> can have: the final size, or how it fails.\<close>

inductive test_htable :: "(nat \<Rightarrow> int) \<Rightarrow> int \<Rightarrow> int cres \<Rightarrow> bool" for rnd num_threads where
  insert_fails: "reachable (phase_start rnd INSERT num_threads) ht_step s \<Longrightarrow> fault s = Some e \<Longrightarrow> test_htable rnd num_threads (Inl e)"
| not_valid: "reachable (phase_start rnd INSERT num_threads) ht_step s \<Longrightarrow> joined s \<Longrightarrow> validate rnd (unshare s) = Inl e \<Longrightarrow>
    test_htable rnd num_threads (Inl e)"
| mix_fails: "reachable (phase_start rnd INSERT num_threads) ht_step s \<Longrightarrow> joined s \<Longrightarrow> validate rnd (unshare s) = Inr h \<Longrightarrow>
    reachable (phase_start rnd MIX num_threads) ht_step s' \<Longrightarrow> fault s' = Some e \<Longrightarrow> test_htable rnd num_threads (Inl e)"
| lookup_fails: "reachable (phase_start rnd INSERT num_threads) ht_step s \<Longrightarrow> joined s \<Longrightarrow> validate rnd (unshare s) = Inr h \<Longrightarrow>
    reachable (phase_start rnd MIX num_threads) ht_step s' \<Longrightarrow> \<not> lookups_fit rnd MIX num_threads s' \<Longrightarrow>
    test_htable rnd num_threads test_failed"
| passes: "reachable (phase_start rnd INSERT num_threads) ht_step s \<Longrightarrow> joined s \<Longrightarrow> validate rnd (unshare s) = Inr h \<Longrightarrow>
    reachable (phase_start rnd MIX num_threads) ht_step s' \<Longrightarrow> joined s' \<Longrightarrow> lookups_fit rnd MIX num_threads s' \<Longrightarrow>
    test_htable rnd num_threads (Inr (htable_size (unshare s')))"

section \<open>tester.c\<close>

datatype test = HtableTest | RwlBasic | RwlPriority | ResizeTest

fun tester_opts :: "(char \<times> string) list \<Rightarrow> int \<times> string \<Rightarrow> (int \<times> string) cres" where
  "tester_opts [] st = Inr st"
| "tester_opts ((c, optarg) # opts) (num_threads, which_test) =
     (if c = CHR ''n'' then tester_opts opts (atoi optarg, which_test)
      else if c = CHR ''t'' then tester_opts opts (num_threads, optarg)
      else Inl (Exit 1))"

text \<open>\<open>main\<close>: the number of threads and the tests it runs, in their order.\<close>

definition tester_main :: "(char \<times> string) list \<Rightarrow> (int \<times> test list) cres" where
  "tester_main opts =
     c_bind (tester_opts opts (4, ''all'')) (\<lambda>(num_threads, which_test).
     let tests =
       (if strcmp which_test ''all'' = 0 \<or> strcmp which_test ''htable'' = 0 then [HtableTest] else []) @
       (if strcmp which_test ''all'' = 0 \<or> strcmp which_test ''rwl'' = 0 then [RwlBasic, RwlPriority] else []) @
       (if strcmp which_test ''all'' = 0 \<or> strcmp which_test ''resize'' = 0 then [ResizeTest] else [])
     in if tests = [] then Inl (Exit 1) else Inr (num_threads, tests))"

lemma tester_default: "tester_main [] = Inr (4, [HtableTest, RwlBasic, RwlPriority, ResizeTest])"
  by (simp add: tester_main_def)

lemma tester_runs:
  assumes "tester_main opts = Inr (n, tests)"
  shows "tests \<noteq> [] \<and> (HtableTest \<in> set tests \<and> ResizeTest \<in> set tests \<longrightarrow> RwlBasic \<in> set tests) \<and>
    (RwlBasic \<in> set tests \<longleftrightarrow> RwlPriority \<in> set tests)"
  using assms by (cases "tester_opts opts (4, ''all'')") (auto simp: tester_main_def Let_def split: if_splits)

section \<open>What the atomic map gives\<close>

text \<open>Every value in the map is that of its key, an insertion that is done left its key in the map, and a lookup
  gave nothing or the value of its key.\<close>

definition result_ok :: "(string \<Rightarrow> ptr) \<Rightarrow> (string \<Rightarrow> ptr option) \<Rightarrow> htop \<Rightarrow> res \<Rightarrow> bool" where
  "result_ok f m op r = (case op of Insert k v \<Rightarrow> m k \<noteq> None | Lookup k \<Rightarrow> r = Val Null \<or> r = Val (f k))"

fun op_fits :: "(string \<Rightarrow> ptr) \<Rightarrow> htop \<Rightarrow> bool" where
  "op_fits f (Insert k v) = (v = f k)"
| "op_fits f (Lookup k) = True"

definition spec_inv :: "(nat \<Rightarrow> htop list) \<Rightarrow> (string \<Rightarrow> ptr) \<Rightarrow> ats \<Rightarrow> bool" where
  "spec_inv ops f s \<longleftrightarrow> (\<forall>k v. amap s k = Some v \<longrightarrow> v = f k) \<and> (\<forall>t. ops t = map fst (afinished s t) @ atodo s t) \<and>
     (\<forall>t. \<forall>(op, r) \<in> set (afinished s t). result_ok f (amap s) op r) \<and>
     (\<forall>t r. apcs s t = AResult r \<longrightarrow> (\<forall>op os. atodo s t = op # os \<longrightarrow> result_ok f (amap s) op r))"

lemma result_ok_mono: "result_ok f m op r \<Longrightarrow> (\<And>k. m k \<noteq> None \<Longrightarrow> m' k \<noteq> None) \<Longrightarrow> result_ok f m' op r"
  by (cases op) (auto simp: result_ok_def)

lemma apply_op_ok:
  assumes "apply_op op m = (r, m')" "op_fits f op" "\<forall>k v. m k = Some v \<longrightarrow> v = f k"
  shows "\<forall>k v. m' k = Some v \<longrightarrow> v = f k" "result_ok f m' op r" "m k \<noteq> None \<Longrightarrow> m' k \<noteq> None"
  using assms by (cases op; auto simp: result_ok_def split: option.splits if_splits)+

lemma spec_inv_apply:
  assumes inv: "spec_inv ops f s" and fits: "\<forall>t. \<forall>op \<in> set (ops t). op_fits f op"
    and t: "atodo s t = op # os" "apply_op op (amap s) = (r, m')"
  shows "spec_inv ops f (s\<lparr>amap := m', apcs := (apcs s)(t := AResult r)\<rparr>)"
proof -
  have "op \<in> set (ops t)" using inv t(1) by (simp add: spec_inv_def)
  then have "op_fits f op" using fits by blast
  note a = apply_op_ok [OF t(2) this, OF conjunct1 [OF inv [unfolded spec_inv_def]]]
  note mono = result_ok_mono [where m = "amap s" and m' = m', OF _ a(3)]
  have "\<forall>u. \<forall>(op, r) \<in> set (afinished s u). result_ok f m' op r"
    using inv unfolding spec_inv_def by (blast intro: mono)
  moreover have "\<forall>u r. apcs s u = AResult r \<longrightarrow> (\<forall>op os. atodo s u = op # os \<longrightarrow> result_ok f m' op r)"
    using inv unfolding spec_inv_def by (blast intro: mono)
  moreover have "\<forall>u. ops u = map fst (afinished s u) @ atodo s u" using inv unfolding spec_inv_def by blast
  ultimately show ?thesis using a(1,2) t(1) by (simp add: spec_inv_def)
qed

lemma spec_inv_step:
  assumes "atomic_step s s'" "spec_inv ops f s" "\<forall>t. \<forall>op \<in> set (ops t). op_fits f op"
  shows "spec_inv ops f s'"
  using assms(1)
proof cases
  case (a_call t)
  then show ?thesis using assms(2) by (simp add: spec_inv_def)
next
  case (a_apply t op os r m')
  then show ?thesis using spec_inv_apply [OF assms(2,3)] by simp
next
  case (a_return t r op os)
  then show ?thesis using assms(2) by (auto simp: spec_inv_def)
qed

lemma spec_inv_reachable:
  assumes "reachable s0 atomic_step s" "spec_inv ops f s0" "\<forall>t. \<forall>op \<in> set (ops t). op_fits f op"
  shows "spec_inv ops f s"
  using assms by (induction rule: reachable.induct) (auto intro: spec_inv_step)

section \<open>The keys and the values\<close>

lemma TESTSZ_pos: "0 < TESTSZ"
  by (simp add: TESTSZ_def)

definition rand_ok :: "(nat \<Rightarrow> int) \<Rightarrow> bool" where
  "rand_ok rnd \<longleftrightarrow> (\<forall>k. 0 \<le> rnd k)"

definition value_of :: "(nat \<Rightarrow> int) \<Rightarrow> string \<Rightarrow> ptr" where
  "value_of rnd k = testval (the_inv_into {0..<TESTSZ} (testkey rnd) k)"

lemma value_of_testkey:
  "inj_on (testkey rnd) {0..<TESTSZ} \<Longrightarrow> 0 \<le> i \<Longrightarrow> i < TESTSZ \<Longrightarrow> value_of rnd (testkey rnd i) = testval i"
  by (simp add: value_of_def the_inv_into_f_f)

lemma ascii_testkey: "rand_ok rnd \<Longrightarrow> ascii (testkey rnd i)"
proof -
  assume r: "rand_ok rnd"
  have "0 < char_val (char_of (rnd k smod 26 + 65))" for k
  proof -
    have "0 \<le> rnd k smod 26" "rnd k smod 26 < 26" using r by (simp_all add: rand_ok_def smod_nonneg)
    then show ?thesis by (simp add: char_val_char_of)
  qed
  then show ?thesis by (simp add: testkey_def set_random_str_def ascii_def)
qed

lemma other_range: "0 \<le> t \<Longrightarrow> 0 \<le> i \<Longrightarrow> 0 \<le> other t i \<and> other t i < TESTSZ"
  by (simp add: other_def smod_nonneg TESTSZ_def)

lemma share_range:
  assumes "0 \<le> t" "t < n" "i \<in> set [share_start n t..share_end n t - 1]"
  shows "0 \<le> i" "i < TESTSZ"
proof -
  have p: "0 < TESTSZ" "0 \<le> TESTSZ" using TESTSZ_pos by simp_all
  have s: "TESTSZ sdiv n = TESTSZ div n" "0 \<le> TESTSZ div n" using assms(1,2) p by (simp_all add: sdiv_nonneg pos_imp_zdiv_nonneg_iff)
  have "(t + 1) * (TESTSZ div n) \<le> n * (TESTSZ div n)" using assms(2) s(2) by (intro mult_right_mono) simp_all
  also have "\<dots> \<le> TESTSZ" using assms(1,2) p(2) by (smt (verit) minus_mod_eq_mult_div pos_mod_sign)
  finally have "share_end n t \<le> TESTSZ" by (simp add: share_end_def s(1))
  then show "i < TESTSZ" using assms(3) by simp
  have "0 \<le> share_start n t" using assms(1) s by (simp add: share_start_def)
  then show "0 \<le> i" using assms(3) by simp
qed

text \<open>Every test key is in the share of some thread.\<close>

lemma share_exists:
  assumes "0 < n" "0 \<le> i" "i < TESTSZ"
  shows "\<exists>t. 0 \<le> t \<and> t < n \<and> i \<in> set [share_start n t..share_end n t - 1]"
proof -
  define s where "s = TESTSZ div n"
  have s: "TESTSZ sdiv n = s" "0 \<le> s" using assms TESTSZ_pos by (simp_all add: sdiv_nonneg s_def pos_imp_zdiv_nonneg_iff)
  show ?thesis
  proof (cases "(n - 1) * s \<le> i")
    case True
    then show ?thesis using assms by (intro exI [of _ "n - 1"]) (simp add: share_start_def share_end_def s(1))
  next
    case False
    have sp: "0 < s" using False assms(2) s(2) by (cases "s = 0") auto
    have a: "i div s * s \<le> i" "i < (i div s + 1) * s" using sp
      by (simp_all add: algebra_simps) (smt (verit) minus_mod_eq_mult_div mult.commute pos_mod_sign pos_mod_bound)+
    then have "i div s < n - 1" using False by (smt (verit) mult_right_mono sp)
    moreover have "0 \<le> i div s" using assms(2) sp by (simp add: pos_imp_zdiv_nonneg_iff)
    ultimately show ?thesis using a by (intro exI [of _ "i div s"]) (simp add: share_start_def share_end_def s(1))
  qed
qed

text \<open>What the test needs of \<open>rand\<close>: no result is negative and the keys are distinct.\<close>

definition good_keys :: "(nat \<Rightarrow> int) \<Rightarrow> bool" where
  "good_keys rnd \<longleftrightarrow> rand_ok rnd \<and> inj_on (testkey rnd) {0..<TESTSZ}"

lemma run_fits:
  assumes "good_keys rnd" "(op, x) \<in> set (test_htable_run rnd m n t)"
  shows "op_fits (value_of rnd) op" "x = value_of rnd (op_key op)" "ascii (op_key op)"
proof -
  obtain i where i: "i \<in> set [share_start n (int t)..share_end n (int t) - 1]" "(op, x) \<in> set (run_step rnd m (int t) i)" and t: "int t < n"
    using assms(2) by (auto simp: test_htable_run_def simp del: set_upto split: if_splits)
  note r = share_range [OF _ t i(1)]
  have o: "0 \<le> other (int t) i" "other (int t) i < TESTSZ" using other_range r(1) by simp_all
  note v = value_of_testkey [of rnd] ascii_testkey [of rnd]
  show "op_fits (value_of rnd) op" "x = value_of rnd (op_key op)" "ascii (op_key op)"
    using i(2) r o assms(1) by (cases m; auto simp: run_step_def Let_def v good_keys_def)+
qed

lemma run_inserts:
  assumes "0 < n" "0 \<le> i" "i < TESTSZ"
  shows "\<exists>t. Insert (testkey rnd i) (testval i) \<in> fst ` set (test_htable_run rnd m n t)"
proof -
  obtain t where t: "0 \<le> t" "t < n" "i \<in> set [share_start n t..share_end n t - 1]" using share_exists [OF assms] by blast
  have "(Insert (testkey rnd i) (testval i), testval i) \<in> set (run_step rnd m t i)" by (simp add: run_step_def Let_def)
  then have "(Insert (testkey rnd i) (testval i), testval i) \<in> set (test_htable_run rnd m n (nat t))"
    using t by (auto simp: test_htable_run_def simp del: set_upto)
  then show ?thesis by force
qed

section \<open>A phase of the test\<close>

abbreviation runs :: "(nat \<Rightarrow> int) \<Rightarrow> run_mode \<Rightarrow> int \<Rightarrow> nat \<Rightarrow> htop list" where
  "runs rnd m n \<equiv> (\<lambda>t. map fst (test_htable_run rnd m n t))"

abbreviation test_table :: hstate where
  "test_table \<equiv> htable_init (TESTSZ sdiv 100) 0"

lemma test_table_ok: "hstate_ok test_table" "ht_map test_table = Map.empty"
  using init_ok [of "TESTSZ sdiv 100" 0] by (simp_all add: TESTSZ_def)

lemma phase_fixed:
  assumes "good_keys rnd"
  shows "fixed_table test_table (runs rnd m n)"
proof -
  have "\<forall>t. \<forall>op \<in> set (runs rnd m n t). ascii (op_key op)" using run_fits(3) [OF assms] by auto
  moreover have "allow_resize (tbl test_table) = 0" by (simp add: htable_init_def Let_def)
  ultimately show ?thesis using test_table_ok(1) by (simp add: fixed_table_def hstate_ok_def)
qed

lemma spec_inv_share: "ht_map h = Map.empty \<Longrightarrow> spec_inv ops f (abs_ht (share h ops))"
  by (simp add: spec_inv_def abs_ht_def share_def ht_map_def)

lemma phase_reachable:
  assumes "good_keys rnd" "reachable (phase_start rnd m n) ht_step s"
  shows "hts_inv s" "spec_inv (runs rnd m n) (value_of rnd) (abs_ht s)"
proof -
  note r = ht_reachable [OF assms(2) [unfolded phase_start_def] phase_fixed [OF assms(1)]]
  show "hts_inv s" using r by blast
  have "\<forall>t. \<forall>op \<in> set (runs rnd m n t). op_fits (value_of rnd) op" using run_fits(1) [OF assms(1)] by auto
  then show "spec_inv (runs rnd m n) (value_of rnd) (abs_ht s)"
    using spec_inv_reachable [OF conjunct2 [OF r] spec_inv_share [OF test_table_ok(2)]] by blast
qed

lemma size_kept: "reachable (share h ops) ht_step s \<Longrightarrow> ht_size (tab s) = ht_size (tbl h)"
proof (induction rule: reachable.induct)
  case (reach_step s s')
  have "ht_size (tab s') = ht_size (tab s)"
    using reach_step(2) by (auto simp: ht_step_def advance_fields elim!: ht_workE ht_idleE)
  then show ?case using reach_step by simp
qed (simp add: share_def)

lemma size_after: "reachable (phase_start rnd m n) ht_step s \<Longrightarrow> htable_size (unshare s) = htable_size test_table"
  using size_kept by (simp add: phase_start_def htable_size_def unshare_def)

text \<open>When every thread is done the locks are as they were initialised.\<close>

lemma idle_lock:
  assumes "lock_ok l" "\<forall>t. pcs l t = Idle"
  shows "lk l = rwl_init"
proof -
  have "counts_ok (lk l) (\<lambda>_. Idle)" using assms by (simp add: lock_ok_def rwl_inv_def flip: fun_eq_iff)
  then show ?thesis by (cases "lk l") (simp add: counts_ok_def count_pcs_def rwl_init_def)
qed

lemma joined_idle:
  assumes "hts_inv s" "joined s"
  shows "hstate_ok (unshare s)"
proof -
  have "where_at s t = Ready" for t
    using assms(2) not_ready [OF hts_invD(4) [OF assms(1)], of t] by (auto simp: joined_def)
  then have "pcs (slots s k) t = Idle" for k t using hts_invD(4) [OF assms(1), of t] by (simp add: thread_ok_def)
  then have "lk (slots s k) = rwl_init" for k using idle_lock hts_invD(3) [OF assms(1)] by blast
  then show ?thesis using hts_invD(2) [OF assms(1)] by (simp add: hstate_ok_def locks_idle_def unshare_def)
qed

lemma map_after: "ht_map (unshare s) = amap (abs_ht s)"
  by (simp add: ht_map_def unshare_def abs_ht_def)

lemma inserted_after:
  assumes "spec_inv (runs rnd m n) f (abs_ht s)" "joined s" "0 < n" "0 \<le> i" "i < TESTSZ"
  shows "amap (abs_ht s) (testkey rnd i) = Some (f (testkey rnd i))"
proof -
  obtain t where t: "Insert (testkey rnd i) (testval i) \<in> set (runs rnd m n t)" using run_inserts [OF assms(3-5)] by (metis list.set_map)
  have "atodo (abs_ht s) t = []" using assms(2) by (simp add: joined_def abs_ht_def)
  then have "runs rnd m n t = map fst (afinished (abs_ht s) t)" using assms(1) by (simp add: spec_inv_def)
  then obtain r where "(Insert (testkey rnd i) (testval i), r) \<in> set (afinished (abs_ht s) t)" using t by auto
  then have "result_ok f (amap (abs_ht s)) (Insert (testkey rnd i) (testval i)) r" using assms(1) unfolding spec_inv_def by blast
  then obtain v where v: "amap (abs_ht s) (testkey rnd i) = Some v" by (auto simp: result_ok_def)
  moreover have "v = f (testkey rnd i)" using v assms(1) unfolding spec_inv_def by blast
  ultimately show ?thesis by simp
qed

lemma validate_ok:
  assumes "good_keys rnd" "reachable (phase_start rnd m n) ht_step s" "joined s" "0 < n"
  shows "validate rnd (unshare s) = Inr (unshare s)"
proof -
  note p = phase_reachable [OF assms(1,2)]
  note ok = joined_idle [OF p(1) assms(3)]
  have "htable_lookup (testkey rnd i) (unshare s) = Inr (testval i, unshare s)" if "0 \<le> i" "i < TESTSZ" for i
  proof -
    have "ht_map (unshare s) (testkey rnd i) = Some (testval i)"
      using inserted_after [OF p(2) assms(3,4) that] value_of_testkey [OF _ that] assms(1) by (simp add: map_after good_keys_def)
    then show ?thesis using lookup_ok [OF ok ascii_testkey] assms(1) by (simp add: good_keys_def)
  qed
  then have "\<exists>h. validate rnd (unshare s) = Inr h \<and> h = unshare s"
    unfolding validate_def using TESTSZ_pos by (intro c_for_inv) (auto simp: testval_def)
  then show ?thesis by simp
qed

lemma lookups_ok:
  assumes "good_keys rnd" "reachable (phase_start rnd m n) ht_step s"
  shows "lookups_fit rnd m n s"
proof -
  note inv = phase_reachable(2) [OF assms]
  have "lookup_fits ((op, r), (op', x))" if d: "((op, r), (op', x)) \<in> set (zip (finished s t) (test_htable_run rnd m n t))" for op r op' x t
  proof -
    obtain j where j: "j < length (finished s t)" "finished s t ! j = (op, r)" "test_htable_run rnd m n t ! j = (op', x)"
        "j < length (test_htable_run rnd m n t)"
      using d by (auto simp: set_zip)
    have "runs rnd m n t = map fst (finished s t) @ todo s t" using inv by (simp add: spec_inv_def abs_ht_def)
    then have "op' = op" using j by (metis (no_types, lifting) fst_conv length_map nth_append nth_map)
    then have "x = value_of rnd (op_key op)" using run_fits(2) [OF assms(1)] j(3,4) by (metis nth_mem)
    moreover have "result_ok (value_of rnd) (amap (abs_ht s)) op r"
      using inv j(1,2) nth_mem [OF j(1)] by (auto simp: spec_inv_def abs_ht_def)
    ultimately show ?thesis by (cases op; cases r) (auto simp: result_ok_def)
  qed
  then show ?thesis by (auto simp: lookups_fit_def list_all_iff)
qed

text \<open>Every phase can be run to its end.\<close>

lemma work_reachable: "ht_work\<^sup>*\<^sup>* s s' \<Longrightarrow> hts_inv s \<Longrightarrow> reachable s0 ht_step s \<Longrightarrow> reachable s0 ht_step s' \<and> hts_inv s'"
proof (induction rule: rtranclp_induct)
  case (step y z)
  then have y: "reachable s0 ht_step y" "hts_inv y" by blast+
  have "hts_inv z" using good_work [OF y(2) step(2)] by (simp add: good_step_def)
  moreover have "ht_step y z" using y(2) step(2) by (simp add: ht_step_def hts_inv_def)
  ultimately show ?case using y(1) by (blast intro: reachable.intros)
qed blast

lemma phase_ends:
  assumes "good_keys rnd"
  shows "\<exists>s. reachable (phase_start rnd m n) ht_step s \<and> joined s"
proof -
  have inv: "hts_inv (phase_start rnd m n)" using share_inv [OF phase_fixed [OF assms]] by (simp add: phase_start_def)
  have "few (nat n) (phase_start rnd m n)" by (auto simp: few_def phase_start_def share_def test_htable_run_def)
  from ht_runs_out [OF inv this] show ?thesis using work_reachable [OF _ inv reach_start] by (auto simp: joined_def)
qed

text \<open>C13: with at least one thread and distinct random keys, the test of the table that may not be resized passes, however the
  threads are interleaved, and reports the size that the table was created with.\<close>

theorem test_htable_passes:
  assumes "0 < num_threads" "good_keys rnd"
  shows "test_htable rnd num_threads r \<longleftrightarrow> r = Inr (htable_size test_table)"
proof
  assume "test_htable rnd num_threads r"
  then show "r = Inr (htable_size test_table)"
  proof cases
    case (insert_fails s e)
    then show ?thesis using phase_reachable(1) [OF assms(2)] by (force simp: hts_inv_def)
  next
    case (not_valid s e)
    then show ?thesis using validate_ok [OF assms(2) _ _ assms(1)] by force
  next
    case (mix_fails s h s' e)
    then show ?thesis using phase_reachable(1) [OF assms(2), of MIX] by (force simp: hts_inv_def)
  next
    case (lookup_fails s h s')
    then show ?thesis using lookups_ok [OF assms(2)] by blast
  next
    case (passes s h s')
    then show ?thesis using size_after by simp
  qed
next
  assume r: "r = Inr (htable_size test_table)"
  obtain s s' where s: "reachable (phase_start rnd INSERT num_threads) ht_step s" "joined s"
      "reachable (phase_start rnd MIX num_threads) ht_step s'" "joined s'"
    using phase_ends [OF assms(2)] by meson
  show "test_htable rnd num_threads r"
    using test_htable.passes [OF s(1,2) validate_ok [OF assms(2) s(1,2) assms(1)] s(3,4) lookups_ok [OF assms(2) s(3)]]
      size_after [OF s(3)] r by simp
qed

text \<open>Keys that are distinct: the digits of the number of the key to base 26.\<close>

definition digit_rnd :: "nat \<Rightarrow> int" where
  "digit_rnd k = int (k div 49 div 26 ^ (k mod 49) mod 26)"

lemma same_digits:
  fixes b :: nat
  assumes "0 < b" "\<forall>j<m. x div b ^ j mod b = y div b ^ j mod b"
  shows "x mod b ^ m = y mod b ^ m"
  using assms(2)
proof (induction m)
  case (Suc m)
  have "z mod b ^ Suc m = b ^ m * (z div b ^ m mod b) + z mod b ^ m" for z
    using mod_mult2_eq [of z "b ^ m" b] by (simp add: mult.commute)
  then show ?case using Suc by simp
qed simp

lemma digit_key_nth:
  assumes "j < 49"
  shows "char_val (testkey digit_rnd i ! j) = int (nat i div 26 ^ j mod 26) + 65"
proof -
  have d: "(nat i * 49 + j) div 49 = nat i" "(nat i * 49 + j) mod 49 = j" using assms by (simp_all add: div_add1_eq)
  have "digit_rnd (nat i * 49 + j) = int (nat i div 26 ^ j mod 26)" by (simp only: digit_rnd_def d)
  moreover have "nat i div 26 ^ j mod 26 < 26" by simp
  ultimately show ?thesis using assms by (simp add: testkey_def set_random_str_def STRLEN_def smod_nonneg char_val_char_of)
qed

lemma digit_keys_good: "good_keys digit_rnd"
  unfolding good_keys_def
proof
  show "rand_ok digit_rnd" by (simp add: rand_ok_def digit_rnd_def)
  show "inj_on (testkey digit_rnd) {0..<TESTSZ}"
  proof (rule inj_onI)
    fix x y assume r: "x \<in> {0..<TESTSZ}" "y \<in> {0..<TESTSZ}" and k: "testkey digit_rnd x = testkey digit_rnd y"
    have "nat x div 26 ^ j mod 26 = nat y div 26 ^ j mod 26" if "j < 5" for j
      using digit_key_nth [of j x] digit_key_nth [of j y] that k by simp
    then have "nat x mod 26 ^ 5 = nat y mod 26 ^ 5" by (intro same_digits) simp_all
    moreover have "nat x < 26 ^ 5" "nat y < 26 ^ 5" using r by (simp_all add: TESTSZ_def nat_less_iff)
    ultimately have "nat x = nat y" by simp
    then show "x = y" using r by (simp add: eq_nat_nat_iff)
  qed
qed

theorem test_htable_passes_witness:
  "test_htable digit_rnd 4 (Inr (htable_size test_table)) \<and> \<not> test_htable digit_rnd 4 test_failed"
  using test_htable_passes [OF _ digit_keys_good, of 4] by (simp add: test_failed_def)

end
