(* ===== verification/RwTest.thy ===== *)
theory RwTest
  imports RwClient
begin

text \<open>
  threadlab/testrwlock.c, first part: \<open>test_rwl_basic\<close>, one thread that uses the lock with time limits. No other
  thread exists, so a wait ends by its limit only (a return without a signal leads back into the wait); \<open>pthread_cond_timedwait\<close> returns \<open>EINVAL\<close> for
  a limit whose nanoseconds are not below a second. \<open>clock k\<close> is the \<open>k\<close>-th reading of the clock.
\<close>

record timespec =
  tv_sec :: int
  tv_nsec :: int

definition get_expiretime :: "timespec \<Rightarrow> timespec" where
  "get_expiretime now = now\<lparr>tv_nsec := s64 (tv_nsec now + 100)\<rparr>"

definition ETIMEDOUT :: int where "ETIMEDOUT = 110"
definition EINVAL :: int where "EINVAL = 22"

definition timedwait_alone :: "timespec \<Rightarrow> int" where
  "timedwait_alone e = (if 0 \<le> tv_nsec e \<and> tv_nsec e < 1000000000 then ETIMEDOUT else EINVAL)"

definition cond_timedwait :: "timespec option \<Rightarrow> int cres" where
  "cond_timedwait expire = (case expire of
     None \<Rightarrow> Inl Blocked
   | Some e \<Rightarrow> let r = timedwait_alone e in c_bind (c_assert (r = 0 \<or> r = ETIMEDOUT)) (\<lambda>_. Inr r))"

text \<open>\<open>rwl_rlock\<close> and \<open>rwl_wlock\<close> when no other thread runs.\<close>

definition lock_alone :: "mode \<Rightarrow> timespec option \<Rightarrow> rwl \<Rightarrow> (int \<times> rwl) cres" where
  "lock_alone m expire l =
     (let l = lock_enter m l in
      if lock_blocked m l then
        c_bind (cond_timedwait expire) (\<lambda>rc. if rc = ETIMEDOUT then Inr (rc, lock_giveup m l) else Inl Blocked)
      else Inr (0, lock_take m l))"

definition test_fatal :: "'a cres" where
  "test_fatal = Inl (Exit 1)"

text \<open>A call of the lock whose result must be \<open>expected\<close>.\<close>

definition expect :: "int \<Rightarrow> mode \<Rightarrow> timespec option \<Rightarrow> rwl \<Rightarrow> rwl cres" where
  "expect expected m expire l =
     c_bind (lock_alone m expire l) (\<lambda>(r, l). if r \<noteq> expected then test_fatal else Inr l)"

definition test_rwl_basic :: "(nat \<Rightarrow> timespec) \<Rightarrow> rwl cres" where
  "test_rwl_basic clock =
     c_bind (expect 0 Reader None rwl_init) (\<lambda>l.
     c_bind (expect ETIMEDOUT Writer (Some (get_expiretime (clock 0))) l) (\<lambda>l.
     c_bind (expect 0 Reader (Some (get_expiretime (clock 1))) l) (\<lambda>l.
     let l = fst (rwl_runlock (fst (rwl_runlock l))) in
     c_bind (expect 0 Writer None l) (\<lambda>l.
     c_bind (expect ETIMEDOUT Writer (Some (get_expiretime (clock 2))) l) (\<lambda>l.
     c_bind (expect ETIMEDOUT Reader (Some (get_expiretime (clock 3))) l) (\<lambda>l.
     Inr (fst (rwl_wunlock l))))))))"

definition valid_time :: "timespec \<Rightarrow> bool" where
  "valid_time t \<longleftrightarrow> 0 \<le> tv_nsec t \<and> tv_nsec t < 1000000000"

definition near_second :: "timespec \<Rightarrow> bool" where
  "near_second t \<longleftrightarrow> 999999900 \<le> tv_nsec t"

lemma expire_wait:
  "valid_time t \<Longrightarrow> cond_timedwait (Some (get_expiretime t)) = (if near_second t then Inl AssertFail else Inr ETIMEDOUT)"
  by (simp add: valid_time_def near_second_def cond_timedwait_def timedwait_alone_def get_expiretime_def s64_id
      ETIMEDOUT_def EINVAL_def Let_def)

text \<open>The single-threaded test of the lock passes and leaves the lock as \<open>rwl_init\<close> made it, unless one of the three
  calls that have to wait is made in the last 100 nanoseconds of a second: \<open>get_expiretime\<close> then gives a limit that
  is not a valid time, and the assertion in \<open>cond_timedwait\<close> fails.\<close>

lemma test_rwl_basic_result:
  assumes "\<forall>k. valid_time (clock k)"
  shows "test_rwl_basic clock =
    (if near_second (clock 0) \<or> near_second (clock 2) \<or> near_second (clock 3) then Inl AssertFail else Inr rwl_init)"
  using assms
  by (simp add: test_rwl_basic_def expect_def lock_alone_def expire_wait rwl_op_defs rwl_init_def Let_def test_fatal_def
      ETIMEDOUT_def)

end
