(* ===== verification/RwPriority.thy ===== *)
theory RwPriority
  imports RwClient
begin

text \<open>
  threadlab/testrwlock.c, second part: \<open>test_rwl_priority\<close> with its ten threads: thread 0 is \<open>linger_reader\<close>, thread 1
  \<open>competing_writer\<close>, threads 2 to 9 are \<open>competing_reader\<close>; \<open>master\<close> is where the test itself is. All use one lock of rwlock.c.
  The shared variables are only used under the mutex \<open>test_m\<close>, so each stretch of code that holds it is one
  step; a thread in \<open>pthread_cond_wait\<close> is \<open>Lingering\<close>, and \<open>Notified\<close> once the wait is over. The two reads of
  \<open>rwl_nwaiters\<close>, which takes no lock, are one step.
\<close>

section \<open>The state\<close>

datatype tpc = Unborn | Entering | Lingering | Notified | Leaving

datatype mpc =
    Start | AwaitReader | SpawnWriter | AwaitWriter | SpawnReaders nat | CheckNobody | AwaitAll | LetReaderOut
  | AwaitPeer | LetPeersOut | Joining nat | Passed | Failed

record prio =
  l2 :: sys
  threads :: "nat \<Rightarrow> tpc"
  master :: mpc
  who :: int
  reader_in_cs :: int
  who_is_in_cs :: int
  reader_getout :: int
  peers_getout :: int

definition prio_init :: prio where
  "prio_init = \<lparr>l2 = init_sys, threads = (\<lambda>_. Unborn), master = Start, who = 0, reader_in_cs = 0, who_is_in_cs = 0,
     reader_getout = 0, peers_getout = 0\<rparr>"

definition role :: "nat \<Rightarrow> mode" where
  "role t = (if t = 1 then Writer else Reader)"

definition getout :: "nat \<Rightarrow> prio \<Rightarrow> int" where
  "getout t s = (if t = 0 then reader_getout s else peers_getout s)"

definition set_flag :: "nat \<Rightarrow> prio \<Rightarrow> prio" where
  "set_flag t s =
     (if t = 0 then s\<lparr>reader_in_cs := 1\<rparr> else s\<lparr>who_is_in_cs := (if t = 1 then 1 else 2)\<rparr>)"

section \<open>The steps\<close>

text \<open>\<open>pthread_create\<close>: the new thread calls \<open>rwl_rlock\<close> or \<open>rwl_wlock\<close> first.\<close>

definition create :: "nat \<Rightarrow> prio \<Rightarrow> prio" where
  "create t s = s\<lparr>threads := (threads s)(t := Entering), l2 := begin_call (role t) t (l2 s)\<rparr>"

text \<open>The loop of a thread that holds the lock, with \<open>test_m\<close> held: wait for permission to leave, or leave and unlock.\<close>

definition linger :: "nat \<Rightarrow> prio \<Rightarrow> prio" where
  "linger t s =
     (if getout t s = 0 then s\<lparr>threads := (threads s)(t := Lingering)\<rparr>
      else s\<lparr>threads := (threads s)(t := Leaving), l2 := begin_unlock (role t) t (l2 s)\<rparr>)"

definition let_reader_out :: "prio \<Rightarrow> prio" where
  "let_reader_out s = s\<lparr>reader_getout := 1,
     threads := (threads s)(0 := if threads s 0 = Lingering then Notified else threads s 0)\<rparr>"

definition let_peers_out :: "prio \<Rightarrow> prio" where
  "let_peers_out s = s\<lparr>peers_getout := 1,
     threads := (\<lambda>t. if t \<noteq> 0 \<and> threads s t = Lingering then Notified else threads s t)\<rparr>"

text \<open>The steps that get something done.\<close>

inductive prio_work :: "prio \<Rightarrow> prio \<Rightarrow> bool" where
  lock: "lock_work (l2 s) l' \<Longrightarrow> prio_work s (s\<lparr>l2 := l'\<rparr>)"
| entered: "threads s t = Entering \<Longrightarrow> pcs (l2 s) t = Holding (role t) \<Longrightarrow> prio_work s (linger t (set_flag t s))"
| refused: "threads s t = Entering \<Longrightarrow> pcs (l2 s) t = Idle \<Longrightarrow> prio_work s (s\<lparr>master := Failed\<rparr>)"
| resumed: "threads s t = Notified \<Longrightarrow> prio_work s (linger t s)"
| create_reader: "master s = Start \<Longrightarrow> prio_work s ((create 0 s)\<lparr>master := AwaitReader\<rparr>)"
| see_reader: "master s = AwaitReader \<Longrightarrow> reader_in_cs s \<noteq> 0 \<Longrightarrow> prio_work s (s\<lparr>master := SpawnWriter\<rparr>)"
| create_writer: "master s = SpawnWriter \<Longrightarrow> prio_work s ((create 1 s)\<lparr>master := AwaitWriter\<rparr>)"
| see_writer: "master s = AwaitWriter \<Longrightarrow> rwl_nwaiters (lk (l2 s)) = 1 \<Longrightarrow> prio_work s (s\<lparr>master := SpawnReaders 2\<rparr>)"
| create_peer: "master s = SpawnReaders i \<Longrightarrow> i < 10 \<Longrightarrow> prio_work s ((create i s)\<lparr>master := SpawnReaders (i + 1)\<rparr>)"
| spawned: "master s = SpawnReaders i \<Longrightarrow> \<not> i < 10 \<Longrightarrow> prio_work s (s\<lparr>master := CheckNobody\<rparr>)"
| check_nobody: "master s = CheckNobody \<Longrightarrow> prio_work s (s\<lparr>who := who_is_in_cs s,
    master := (if who_is_in_cs s = 1 \<or> who_is_in_cs s = 2 then Failed else AwaitAll)\<rparr>)"
| see_all: "master s = AwaitAll \<Longrightarrow> rwl_nwaiters (lk (l2 s)) = 9 \<Longrightarrow> prio_work s (s\<lparr>master := LetReaderOut\<rparr>)"
| reader_out: "master s = LetReaderOut \<Longrightarrow> prio_work s ((let_reader_out s)\<lparr>master := AwaitPeer\<rparr>)"
| read_peer: "master s = AwaitPeer \<Longrightarrow> who s = 0 \<Longrightarrow> who_is_in_cs s \<noteq> 0 \<Longrightarrow> prio_work s (s\<lparr>who := who_is_in_cs s\<rparr>)"
| see_peer: "master s = AwaitPeer \<Longrightarrow> who s \<noteq> 0 \<Longrightarrow>
    prio_work s (s\<lparr>master := (if who s \<noteq> 1 then Failed else LetPeersOut)\<rparr>)"
| peers_out: "master s = LetPeersOut \<Longrightarrow> prio_work s ((let_peers_out s)\<lparr>master := Joining 0\<rparr>)"
| join: "master s = Joining i \<Longrightarrow> i < 10 \<Longrightarrow> threads s i = Leaving \<Longrightarrow> pcs (l2 s) i = Idle \<Longrightarrow>
    prio_work s (s\<lparr>master := Joining (i + 1)\<rparr>)"
| joined: "master s = Joining i \<Longrightarrow> \<not> i < 10 \<Longrightarrow> prio_work s (s\<lparr>master := Passed\<rparr>)"

text \<open>The steps that do not: a turn of a polling loop that changes nothing, and a wait that ends without a signal.\<close>

inductive prio_idle :: "prio \<Rightarrow> prio \<Rightarrow> bool" where
  poll: "master s = AwaitReader \<and> reader_in_cs s = 0 \<or> master s = AwaitWriter \<and> rwl_nwaiters (lk (l2 s)) \<noteq> 1 \<or>
    master s = AwaitAll \<and> rwl_nwaiters (lk (l2 s)) \<noteq> 9 \<or> master s = AwaitPeer \<and> who s = 0 \<and> who_is_in_cs s = 0 \<Longrightarrow>
    prio_idle s s"
| lock_spurious: "lock_spurious (l2 s) l' \<Longrightarrow> prio_idle s (s\<lparr>l2 := l'\<rparr>)"
| spurious: "threads s t = Lingering \<Longrightarrow> prio_idle s (s\<lparr>threads := (threads s)(t := Notified)\<rparr>)"

definition prio_step :: "prio \<Rightarrow> prio \<Rightarrow> bool" where
  "prio_step s s' \<longleftrightarrow> master s \<noteq> Failed \<and> (prio_work s s' \<or> prio_idle s s')"

inductive_cases prio_workE [consumes 1, case_names lock entered refused resumed create_reader see_reader create_writer
  see_writer create_peer spawned check_nobody see_all reader_out read_peer see_peer peers_out join joined]: "prio_work s s'"
inductive_cases prio_idleE [consumes 1, case_names poll lock_spurious spurious]: "prio_idle s s'"

section \<open>The invariant\<close>

fun created :: "mpc \<Rightarrow> nat" where
  "created Start = 0"
| "created AwaitReader = 1"
| "created SpawnWriter = 1"
| "created AwaitWriter = 2"
| "created (SpawnReaders i) = i"
| "created _ = 10"

fun writer_seen :: "mpc \<Rightarrow> bool" where
  "writer_seen (SpawnReaders i) = (2 \<le> i \<and> i \<le> 10)"
| "writer_seen m = (m \<notin> {Start, AwaitReader, SpawnWriter, AwaitWriter})"

fun may_leave :: "mpc \<Rightarrow> bool" where
  "may_leave (Joining i) = True"
| "may_leave m = (m = Passed)"

fun reader_may_leave :: "mpc \<Rightarrow> bool" where
  "reader_may_leave (Joining i) = True"
| "reader_may_leave m = (m \<in> {AwaitPeer, LetPeersOut, Passed})"

fun pc_fits :: "tpc \<Rightarrow> mode \<Rightarrow> pc \<Rightarrow> bool" where
  "pc_fits Unborn m p = (p = Idle)"
| "pc_fits Entering m p = entering m p"
| "pc_fits Leaving m p = (p = Releasing m \<or> p = Idle)"
| "pc_fits _ m p = (p = Holding m)"

definition linked :: "prio \<Rightarrow> bool" where
  "linked s \<longleftrightarrow> (\<forall>t. pc_fits (threads s t) (role t) (pcs (l2 s) t))"

definition born :: "prio \<Rightarrow> bool" where
  "born s \<longleftrightarrow> (\<forall>t. threads s t \<noteq> Unborn \<longleftrightarrow> t < created (master s)) \<and>
     (\<forall>i. master s = SpawnReaders i \<longrightarrow> 2 \<le> i \<and> i \<le> 10) \<and> master s \<noteq> Failed"

definition reader_part :: "prio \<Rightarrow> bool" where
  "reader_part s \<longleftrightarrow>
     (reader_in_cs s \<noteq> 0 \<longleftrightarrow> threads s 0 \<notin> {Unborn, Entering}) \<and>
     (reader_getout s \<noteq> 0 \<longleftrightarrow> reader_may_leave (master s)) \<and>
     (reader_getout s = 0 \<longrightarrow> threads s 0 \<noteq> Leaving) \<and> (reader_getout s \<noteq> 0 \<longrightarrow> threads s 0 \<noteq> Lingering) \<and>
     (master s \<notin> {Start, AwaitReader} \<longrightarrow> reader_in_cs s \<noteq> 0)"

definition peers_part :: "prio \<Rightarrow> bool" where
  "peers_part s \<longleftrightarrow>
     (peers_getout s \<noteq> 0 \<longleftrightarrow> may_leave (master s)) \<and>
     (\<forall>t. t \<noteq> 0 \<longrightarrow> (peers_getout s = 0 \<longrightarrow> threads s t \<noteq> Leaving) \<and> (peers_getout s \<noteq> 0 \<longrightarrow> threads s t \<noteq> Lingering)) \<and>
     (peers_getout s = 0 \<longrightarrow> who_is_in_cs s = (if threads s 1 \<in> {Lingering, Notified} then 1 else 0))"

definition order_part :: "prio \<Rightarrow> bool" where
  "order_part s \<longleftrightarrow> (peers_getout s = 0 \<longrightarrow>
     (\<forall>t\<ge>2. threads s t \<in> {Unborn, Entering} \<and> pcs (l2 s) t \<noteq> Holding Reader) \<and>
     (writer_seen (master s) \<longrightarrow> is_waiting Writer (pcs (l2 s) 1) \<or> pcs (l2 s) 1 = Holding Writer))"

definition prio_inv :: "prio \<Rightarrow> bool" where
  "prio_inv s \<longleftrightarrow> lock_ok (l2 s) \<and> linked s \<and> born s \<and> reader_part s \<and> peers_part s \<and> order_part s \<and> who s \<in> {0, 1}"

lemmas prio_parts = linked_def born_def reader_part_def peers_part_def order_part_def
lemmas prio_ops = create_def linger_def set_flag_def let_reader_out_def let_peers_out_def getout_def

lemma role_simps [simp]: "role 0 = Reader" "role 1 = Writer" "role (Suc 0) = Writer" "2 \<le> t \<Longrightarrow> role t = Reader"
  by (simp_all add: role_def)

lemma prio_inv_init: "prio_inv prio_init"
  using lock_ok_init by (simp add: prio_inv_def prio_parts prio_init_def init_sys_def)

lemma pc_moves_fits: "pc_moves p q \<Longrightarrow> pc_fits th m p \<Longrightarrow> pc_fits th m q"
  by (cases th) (auto elim: pc_moves_cases)

lemma pc_moves_writer:
  "pc_moves p q \<Longrightarrow> is_waiting Writer p \<or> p = Holding Writer \<Longrightarrow> is_waiting Writer q \<or> q = Holding Writer"
  by (auto elim: pc_moves_cases)

text \<open>A step of the lock: a reader of the crowd gets in only if the writer neither waits nor holds the lock.\<close>

lemma prio_inv_lock:
  assumes inv: "prio_inv s" and ok: "lock_ok l'" and moves: "\<forall>t. pc_moves (pcs (l2 s) t) (pcs l' t)"
    and acquires: "\<forall>t. pcs (l2 s) t \<noteq> Holding Reader \<longrightarrow> pcs l' t = Holding Reader \<longrightarrow> \<not> rlock_blocked (lk (l2 s))"
  shows "prio_inv (s\<lparr>l2 := l'\<rparr>)"
proof -
  have l: "rwl_inv (l2 s)" using inv by (simp add: prio_inv_def lock_ok_def)
  have "order_part (s\<lparr>l2 := l'\<rparr>)"
    unfolding order_part_def
  proof (intro impI conjI allI)
    assume out: "peers_getout (s\<lparr>l2 := l'\<rparr>) = 0"
    fix t :: nat assume t: "2 \<le> t"
    have old: "threads s t \<in> {Unborn, Entering}" "pcs (l2 s) t \<noteq> Holding Reader"
      using inv out t by (simp_all add: prio_inv_def order_part_def)
    show "threads (s\<lparr>l2 := l'\<rparr>) t \<in> {Unborn, Entering}" using old by simp
    show "pcs (l2 (s\<lparr>l2 := l'\<rparr>)) t \<noteq> Holding Reader"
    proof
      assume h: "pcs (l2 (s\<lparr>l2 := l'\<rparr>)) t = Holding Reader"
      then have "\<not> rlock_blocked (lk (l2 s))" using acquires old by simp
      then have none: "\<not> is_waiting Writer (pcs (l2 s) 1)" "\<not> is_holding Writer (pcs (l2 s) 1)"
        using rwl_inv_flags(1,3) [OF l] by (auto simp: rlock_blocked_def)
      have "pcs (l2 s) t \<noteq> Idle" using h moves by (metis pc_moves_Idle pc.distinct(9) prio.select_convs(1) prio.surjective prio.update_convs(1))
      then have "threads s t \<noteq> Unborn" using inv by (metis linked_def pc_fits.simps(1) prio_inv_def)
      then have "t < created (master s)" using inv by (simp add: prio_inv_def born_def)
      then have "writer_seen (master s)" using t inv by (cases "master s") (auto simp: prio_inv_def born_def)
      then show False using inv out none by (auto simp: prio_inv_def order_part_def)
    qed
  next
    assume "peers_getout (s\<lparr>l2 := l'\<rparr>) = 0" "writer_seen (master (s\<lparr>l2 := l'\<rparr>))"
    then show "is_waiting Writer (pcs (l2 (s\<lparr>l2 := l'\<rparr>)) 1) \<or> pcs (l2 (s\<lparr>l2 := l'\<rparr>)) 1 = Holding Writer"
      using inv moves pc_moves_writer by (simp add: prio_inv_def order_part_def) blast
  qed
  moreover have "linked (s\<lparr>l2 := l'\<rparr>)"
    using inv moves pc_moves_fits by (simp add: prio_inv_def linked_def) blast
  ultimately show ?thesis using inv ok by (simp add: prio_inv_def born_def reader_part_def peers_part_def)
qed

text \<open>A thread that holds the lock waits or leaves; \<open>s'\<close> is \<open>s\<close> after its flag is set, if it comes in.\<close>

lemma prio_inv_linger:
  assumes inv: "prio_inv s" and t: "threads s t = Entering \<and> s' = set_flag t s \<or> threads s t = Notified \<and> s' = s"
    and h: "pcs (l2 s) t = Holding (role t)"
  shows "prio_inv (linger t s')"
proof -
  define x where "x = (if getout t s = 0 then Lingering else Leaving)"
  have th: "threads (linger t s') = (threads s)(t := x)"
    using t by (auto simp: linger_def set_flag_def getout_def x_def)
  have l: "l2 (linger t s') = (if getout t s = 0 then l2 s else begin_unlock (role t) t (l2 s))"
    using t by (auto simp: linger_def set_flag_def getout_def)
  have rest: "master (linger t s') = master s" "reader_getout (linger t s') = reader_getout s"
    "peers_getout (linger t s') = peers_getout s" "who (linger t s') = who s"
    using t by (auto simp: linger_def set_flag_def)
  have flags: "reader_in_cs (linger t s') = (if t = 0 \<and> threads s t = Entering then 1 else reader_in_cs s)"
    "who_is_in_cs (linger t s') = (if t \<noteq> 0 \<and> threads s t = Entering then if t = 1 then 1 else 2 else who_is_in_cs s)"
    using t by (auto simp: linger_def set_flag_def)
  note inv = inv [unfolded prio_inv_def]
  have old: "threads s t = Entering \<or> threads s t = Notified" using t by blast
  have crowd: "peers_getout s \<noteq> 0" if "2 \<le> t" using inv h old that unfolding order_part_def by auto
  have lk: "lock_ok (l2 (linger t s'))" using inv h lock_ok_unlock [of "l2 s" t "role t"] by (simp add: l)
  have lnk: "linked (linger t s')" using inv h unfolding linked_def th l x_def by auto
  have "x \<noteq> Unborn" by (simp add: x_def)
  then have brn: "born (linger t s')" using inv old unfolding born_def th rest by auto
  have rdr: "reader_part (linger t s')"
    using inv old unfolding reader_part_def th rest flags x_def getout_def by (cases "t = 0") auto
  have prs: "peers_part (linger t s')"
  proof -
    consider "t = 0" | "t = 1" | "2 \<le> t" by linarith
    then show ?thesis
    proof cases
      case 1
      then show ?thesis using inv unfolding peers_part_def th rest flags by simp
    next
      case 2
      then show ?thesis using inv old unfolding peers_part_def th rest flags x_def getout_def by auto
    next
      case 3
      then show ?thesis using inv crowd unfolding peers_part_def th rest flags x_def getout_def by auto
    qed
  qed
  have ord: "order_part (linger t s')"
  proof -
    consider "t = 0" | "t = 1" | "2 \<le> t" by linarith
    then show ?thesis
    proof cases
      case 3
      then show ?thesis using crowd unfolding order_part_def rest by simp
    next
      case 2
      then show ?thesis using inv h unfolding order_part_def th rest l getout_def by auto
    next
      case 1
      then show ?thesis using inv h unfolding order_part_def th rest l by auto
    qed
  qed
  show ?thesis
    using lk lnk brn rdr prs ord inv by (simp add: prio_inv_def rest)
qed

lemma prio_inv_create:
  assumes inv: "prio_inv s"
    and m: "t = 0 \<and> master s = Start \<and> m = AwaitReader \<or> t = 1 \<and> master s = SpawnWriter \<and> m = AwaitWriter \<or>
      master s = SpawnReaders t \<and> t < 10 \<and> m = SpawnReaders (t + 1)"
  shows "prio_inv ((create t s)\<lparr>master := m\<rparr>)"
proof -
  let ?s = "(create t s)\<lparr>master := m\<rparr>"
  note inv = inv [unfolded prio_inv_def]
  have b: "threads s u \<noteq> Unborn \<longleftrightarrow> u < created (master s)" for u using inv unfolding born_def by blast
  have t: "created (master s) = t" "created m = t + 1" using m by auto
  then have th: "threads s t = Unborn" using b [of t] by simp
  then have i: "pcs (l2 s) t = Idle" using inv by (metis linked_def pc_fits.simps(1))
  have two: "2 \<le> t" if "master s = SpawnReaders t" using inv that by (simp add: born_def)
  have r: "reader_may_leave m = reader_may_leave (master s)" "may_leave m = may_leave (master s)"
    "m \<in> {Start, AwaitReader} \<or> master s \<notin> {Start, AwaitReader}" "m \<noteq> Failed"
    "writer_seen m \<Longrightarrow> writer_seen (master s)" "writer_seen m \<Longrightarrow> Suc 0 \<noteq> t"
    using m two by auto
  have "lock_ok (l2 ?s)" using inv lock_ok_call [OF _ i] by (simp add: create_def)
  moreover have "linked ?s" using inv by (simp add: create_def linked_def)
  moreover have "born ?s"
    unfolding born_def
  proof (intro conjI allI impI)
    show "threads ?s u \<noteq> Unborn \<longleftrightarrow> u < created (master ?s)" for u
      using b [of u] t by (cases "u = t") (simp_all add: create_def less_Suc_eq)
    show "2 \<le> j" "j \<le> 10" if "master ?s = SpawnReaders j" for j using that m two by auto
  qed (simp add: r)
  moreover have "reader_part ?s"
    using inv th r by (simp add: create_def reader_part_def) (metis tpc.distinct(1))
  moreover have "peers_part ?s"
    using inv th r by (simp add: create_def peers_part_def)
  moreover have "order_part ?s"
    using inv th r i by (simp add: create_def order_part_def)
  ultimately show ?thesis using inv by (simp add: prio_inv_def create_def)
qed

text \<open>The steps of the master that only move it on, and those that let threads out.\<close>

lemma prio_inv_master:
  assumes inv: "prio_inv s" and m: "created m = created (master s)" "m \<noteq> Failed" "w \<in> {0, 1}"
    "reader_may_leave m = reader_may_leave (master s)" "may_leave m = may_leave (master s)"
    "m \<notin> {Start, AwaitReader} \<Longrightarrow> reader_in_cs s \<noteq> 0" "\<forall>i. m = SpawnReaders i \<longrightarrow> 2 \<le> i \<and> i \<le> 10"
    "writer_seen m \<Longrightarrow> writer_seen (master s) \<or> is_waiting Writer (pcs (l2 s) 1)"
  shows "prio_inv (s\<lparr>who := w, master := m\<rparr>)"
  using assms by (auto simp: prio_inv_def linked_def born_def reader_part_def peers_part_def order_part_def)

lemma notify_linked:
  assumes "linked s" "\<forall>t. threads s' t = threads s t \<or> threads s t = Lingering \<and> threads s' t = Notified" "l2 s' = l2 s"
  shows "linked s'"
  unfolding linked_def
proof
  fix t
  have "pc_fits (threads s t) (role t) (pcs (l2 s) t)" using assms(1) by (simp add: linked_def)
  then show "pc_fits (threads s' t) (role t) (pcs (l2 s') t)" using assms(2) [rule_format, of t] assms(3) by auto
qed

lemma notify_born:
  assumes "born s" "\<forall>t. threads s' t = threads s t \<or> threads s t = Lingering \<and> threads s' t = Notified"
    "created (master s') = created (master s)" "master s' \<noteq> Failed" "\<forall>i. master s' \<noteq> SpawnReaders i"
  shows "born s'"
  unfolding born_def
proof (intro conjI allI impI)
  fix t
  have "threads s' t \<noteq> Unborn \<longleftrightarrow> threads s t \<noteq> Unborn" using assms(2) [rule_format, of t] by auto
  then show "threads s' t \<noteq> Unborn \<longleftrightarrow> t < created (master s')" using assms(1,3) unfolding born_def by metis
qed (use assms(4,5) in auto)

lemma prio_inv_reader_out:
  assumes inv: "prio_inv s" and m: "master s = LetReaderOut"
  shows "prio_inv ((let_reader_out s)\<lparr>master := AwaitPeer\<rparr>)"
proof -
  let ?s = "(let_reader_out s)\<lparr>master := AwaitPeer\<rparr>"
  note inv = inv [unfolded prio_inv_def]
  have th: "\<forall>t. threads ?s t = threads s t \<or> threads s t = Lingering \<and> threads ?s t = Notified"
    by (simp add: let_reader_out_def)
  have "linked ?s" using inv by (intro notify_linked [OF _ th]) (simp_all add: let_reader_out_def)
  moreover have "born ?s" using inv by (intro notify_born [OF _ th]) (simp_all add: m)
  moreover have "reader_part ?s" using inv m by (auto simp: reader_part_def let_reader_out_def)
  moreover have "peers_part ?s" using inv m by (simp add: peers_part_def let_reader_out_def)
  moreover have "order_part ?s" using inv m by (simp add: order_part_def let_reader_out_def)
  ultimately show ?thesis using inv by (simp add: prio_inv_def let_reader_out_def)
qed

lemma prio_inv_peers_out:
  assumes inv: "prio_inv s" and m: "master s = LetPeersOut"
  shows "prio_inv ((let_peers_out s)\<lparr>master := Joining 0\<rparr>)"
proof -
  let ?s = "(let_peers_out s)\<lparr>master := Joining 0\<rparr>"
  note inv = inv [unfolded prio_inv_def]
  have th: "\<forall>t. threads ?s t = threads s t \<or> threads s t = Lingering \<and> threads ?s t = Notified"
    by (simp add: let_peers_out_def)
  have "linked ?s" using inv by (intro notify_linked [OF _ th]) (simp_all add: let_peers_out_def)
  moreover have "born ?s" using inv by (intro notify_born [OF _ th]) (simp_all add: m)
  moreover have "reader_part ?s" using inv m by (auto simp: reader_part_def let_peers_out_def)
  moreover have "peers_part ?s" by (simp add: peers_part_def let_peers_out_def)
  moreover have "order_part ?s" by (simp add: order_part_def let_peers_out_def)
  ultimately show ?thesis using inv by (simp add: prio_inv_def let_peers_out_def)
qed

text \<open>As long as the first reader lingers, nobody else has the lock for writing.\<close>

lemma nobody_in_cs:
  assumes inv: "prio_inv s" and "reader_in_cs s \<noteq> 0" "reader_getout s = 0" "peers_getout s = 0"
  shows "who_is_in_cs s = 0" "pcs (l2 s) 1 \<noteq> Holding Writer"
proof -
  note inv = inv [unfolded prio_inv_def]
  have "threads s 0 \<in> {Lingering, Notified}"
    using inv assms(2,3) unfolding reader_part_def by (cases "threads s 0") auto
  moreover have "pc_fits (threads s 0) Reader (pcs (l2 s) 0)" using inv unfolding linked_def by (metis role_simps(1))
  ultimately have "is_holding Reader (pcs (l2 s) 0)" by auto
  then show 1: "pcs (l2 s) 1 \<noteq> Holding Writer"
    using rwl_inv_exclusive [of "l2 s" 1 Reader 0] inv by (auto simp: lock_ok_def)
  have "pc_fits (threads s 1) Writer (pcs (l2 s) 1)" using inv unfolding linked_def by (metis role_simps(2))
  then have "threads s 1 \<notin> {Lingering, Notified}" using 1 by auto
  then show "who_is_in_cs s = 0" using inv assms(4) by (simp add: peers_part_def)
qed

lemma waiter_is_writer:
  assumes inv: "prio_inv s" and "master s = AwaitWriter" "rwl_nwaiters (lk (l2 s)) = 1"
  shows "is_waiting Writer (pcs (l2 s) 1)"
proof (rule ccontr)
  assume no: "\<not> is_waiting Writer (pcs (l2 s) 1)"
  note inv = inv [unfolded prio_inv_def]
  have b: "threads s u = Unborn" if "2 \<le> u" for u using inv assms(2) that unfolding born_def by (metis created.simps(4) not_less)
  have fit: "pc_fits (threads s t) (role t) (pcs (l2 s) t)" for t using inv unfolding linked_def by blast
  have r: "reader_in_cs s \<noteq> 0" "reader_getout s = 0" using inv assms(2) unfolding reader_part_def by auto
  have "threads s 0 \<in> {Lingering, Notified}" using inv r unfolding reader_part_def by (cases "threads s 0") auto
  then have "pcs (l2 s) 0 = Holding Reader" using fit [of 0] by auto
  moreover have "\<not> is_waiting m (pcs (l2 s) t)" if "2 \<le> t" for t m using fit [of t] b [OF that] by simp
  moreover have "\<not> is_waiting Reader (pcs (l2 s) 1)"
    using fit [of 1] by (cases "threads s 1"; cases "pcs (l2 s) 1") auto
  ultimately have "\<not> is_waiting m (pcs (l2 s) t)" for t m
    using no by (cases "t = 0"; cases "t = 1"; cases m) auto
  then have "n_waiting_readers (lk (l2 s)) = 0" "n_waiting_writers (lk (l2 s)) = 0"
    using rwl_inv_flags(3,4) [of "l2 s"] inv by (auto simp: lock_ok_def)
  then show False using assms(3) by (simp add: rwl_nwaiters_def)
qed

lemma prio_inv_goto:
  assumes "prio_inv s" "created m = created (master s)" "m \<noteq> Failed"
    "reader_may_leave m = reader_may_leave (master s)" "may_leave m = may_leave (master s)"
    "m \<notin> {Start, AwaitReader} \<Longrightarrow> reader_in_cs s \<noteq> 0" "\<forall>i. m = SpawnReaders i \<longrightarrow> 2 \<le> i \<and> i \<le> 10"
    "writer_seen m \<Longrightarrow> writer_seen (master s) \<or> is_waiting Writer (pcs (l2 s) 1)"
  shows "prio_inv (s\<lparr>master := m\<rparr>)"
  using prio_inv_master [of s m "who s"] assms by (simp add: prio_inv_def)

lemma prio_inv_reads:
  assumes "prio_inv s"
  shows "who s = 0 \<or> who s = 1" "\<not> may_leave (master s) \<Longrightarrow> who_is_in_cs s = 0 \<or> who_is_in_cs s = 1"
    "master s \<notin> {Start, AwaitReader} \<Longrightarrow> reader_in_cs s \<noteq> 0" "reader_getout s = 0 \<longleftrightarrow> \<not> reader_may_leave (master s)"
    "peers_getout s = 0 \<longleftrightarrow> \<not> may_leave (master s)" "master s = SpawnReaders i \<Longrightarrow> 2 \<le> i \<and> i \<le> 10"
  using assms by (auto simp: prio_inv_def reader_part_def peers_part_def born_def)

lemma prio_inv_fits: "prio_inv s \<Longrightarrow> pc_fits (threads s t) (role t) (pcs (l2 s) t)"
  by (simp add: prio_inv_def linked_def)

lemma prio_inv_check:
  assumes inv: "prio_inv s" and m: "master s = CheckNobody"
  shows "prio_inv (s\<lparr>who := who_is_in_cs s, master := (if who_is_in_cs s = 1 \<or> who_is_in_cs s = 2 then Failed else AwaitAll)\<rparr>)"
proof -
  note r = prio_inv_reads [OF inv]
  have w: "who_is_in_cs s = 0" using nobody_in_cs(1) [OF inv r(3)] r(4,5) m by simp
  show ?thesis using prio_inv_master [OF inv, of AwaitAll 0] r(3) m by (simp add: w)
qed

lemma prio_inv_work:
  assumes inv: "prio_inv s" and "prio_work s s'"
  shows "prio_inv s'"
  using assms(2)
proof (cases rule: prio_workE)
  case (lock l')
  have "lock_ok l'" using inv lock_ok_work [OF _ lock(2)] by (simp add: prio_inv_def)
  then show ?thesis
    unfolding lock(1) using lock_work_moves [OF lock(2)] lock_work_acquires [OF lock(2), of _ Reader]
    by (intro prio_inv_lock [OF inv]) simp_all
next
  case (entered t)
  then show ?thesis using prio_inv_linger [OF inv, of t "set_flag t s"] by simp
next
  case (refused t)
  then show ?thesis using prio_inv_fits [OF inv, of t] by simp
next
  case (resumed t)
  then show ?thesis using prio_inv_linger [OF inv, of t s] prio_inv_fits [OF inv, of t] by simp
next
  case create_reader
  then show ?thesis using prio_inv_create [OF inv, of 0 AwaitReader] by simp
next
  case see_reader
  then show ?thesis using prio_inv_goto [OF inv, of SpawnWriter] by simp
next
  case create_writer
  then show ?thesis using prio_inv_create [OF inv, of 1 AwaitWriter] by simp
next
  case see_writer
  then show ?thesis
    using prio_inv_goto [OF inv, of "SpawnReaders 2"] waiter_is_writer [OF inv] prio_inv_reads(3) [OF inv] by simp
next
  case (create_peer i)
  then show ?thesis using prio_inv_create [OF inv, of i "SpawnReaders (i + 1)"] by simp
next
  case (spawned i)
  then show ?thesis
    using prio_inv_goto [OF inv, of CheckNobody] prio_inv_reads(3) [OF inv] prio_inv_reads(6) [OF inv] by fastforce
next
  case check_nobody
  then show ?thesis using prio_inv_check [OF inv] by simp
next
  case see_all
  then show ?thesis using prio_inv_goto [OF inv, of LetReaderOut] prio_inv_reads(3) [OF inv] by simp
next
  case reader_out
  then show ?thesis using prio_inv_reader_out [OF inv] by simp
next
  case read_peer
  then have e: "s' = s\<lparr>who := who_is_in_cs s, master := AwaitPeer\<rparr>" by simp
  show ?thesis
    unfolding e using prio_inv_master [OF inv, of AwaitPeer "who_is_in_cs s"] prio_inv_reads(2,3) [OF inv] read_peer by simp
next
  case see_peer
  then have "who s = 1" using prio_inv_reads(1) [OF inv] by auto
  then show ?thesis using see_peer prio_inv_goto [OF inv, of LetPeersOut] prio_inv_reads(3) [OF inv] by simp
next
  case peers_out
  then show ?thesis using prio_inv_peers_out [OF inv] by simp
next
  case (join i)
  then show ?thesis using prio_inv_goto [OF inv, of "Joining (i + 1)"] prio_inv_reads(3) [OF inv] by simp
next
  case (joined i)
  then show ?thesis using prio_inv_goto [OF inv, of Passed] prio_inv_reads(3) [OF inv] by simp
qed

lemma prio_inv_idle:
  assumes inv: "prio_inv s" and "prio_idle s s'"
  shows "prio_inv s'"
  using assms(2)
proof (cases rule: prio_idleE)
  case poll
  then show ?thesis using inv by simp
next
  case (lock_spurious l')
  have "lock_ok l'" using inv lock_ok_spurious [OF _ lock_spurious(2)] by (simp add: prio_inv_def)
  then show ?thesis
    unfolding lock_spurious(1) using lock_spurious_moves [OF lock_spurious(2)] lock_spurious_acquires [OF lock_spurious(2)]
    by (intro prio_inv_lock [OF inv]) blast+
next
  case (spurious t)
  note i = inv [unfolded prio_inv_def]
  have th: "\<forall>u. threads s' u = threads s u \<or> threads s u = Lingering \<and> threads s' u = Notified"
    using spurious by simp
  have "linked s'" using i spurious by (intro notify_linked [OF _ th]) simp_all
  moreover have "born s'"
  proof -
    have "threads s' u \<noteq> Unborn \<longleftrightarrow> threads s u \<noteq> Unborn" for u using th [rule_format, of u] by auto
    moreover have "master s' = master s" using spurious by simp
    ultimately show ?thesis using i unfolding born_def by simp
  qed
  moreover have "reader_part s'" using i spurious unfolding reader_part_def by (cases "t = 0") auto
  moreover have "peers_part s'" using i spurious unfolding peers_part_def by (cases "t = 1") simp_all
  moreover have "order_part s'" using i spurious unfolding order_part_def by (cases "2 \<le> t") auto
  ultimately show ?thesis using i spurious by (simp add: prio_inv_def)
qed

interpretation prio: inductive_invariant prio_init prio_step prio_inv
proof
  show "prio_inv prio_init" by (rule prio_inv_init)
  show "prio_inv t" if "prio_inv s" "prio_step s t" for s t
    using that prio_inv_work prio_inv_idle unfolding prio_step_def by blast
qed

section \<open>The test comes to its end\<close>

fun mpc_rank :: "mpc \<Rightarrow> nat" where
  "mpc_rank Start = 40"
| "mpc_rank AwaitReader = 39"
| "mpc_rank SpawnWriter = 38"
| "mpc_rank AwaitWriter = 37"
| "mpc_rank (SpawnReaders i) = 26 + (10 - i)"
| "mpc_rank CheckNobody = 25"
| "mpc_rank AwaitAll = 24"
| "mpc_rank LetReaderOut = 23"
| "mpc_rank AwaitPeer = 22"
| "mpc_rank LetPeersOut = 21"
| "mpc_rank (Joining i) = 2 + (10 - i)"
| "mpc_rank _ = 0"

fun tpc_rank :: "tpc \<Rightarrow> nat" where
  "tpc_rank Entering = 3"
| "tpc_rank Notified = 2"
| "tpc_rank Lingering = 1"
| "tpc_rank _ = 0"

definition phase :: "prio \<Rightarrow> nat" where
  "phase s = 2 * mpc_rank (master s) + (if master s = AwaitPeer \<and> who s = 0 then 1 else 0)"

definition crowd :: "prio \<Rightarrow> nat" where
  "crowd s = lock_rank 10 (pcs (l2 s)) + (\<Sum>t<10. tpc_rank (threads s t))"

definition prio_rank :: "prio \<Rightarrow> nat" where
  "prio_rank s = 1000 * phase s + crowd s"

lemma crowd_bound: "crowd s \<le> 290"
proof -
  have "pc_rank 10 p \<le> 26" for p by (cases p) simp_all
  then have "lock_rank 10 (pcs (l2 s)) \<le> of_nat (card {..<10::nat}) * 26"
    unfolding lock_rank_def by (intro sum_bounded_above) simp
  moreover have "tpc_rank th \<le> 3" for th by (cases th) simp_all
  then have "(\<Sum>t<10::nat. tpc_rank (threads s t)) \<le> of_nat (card {..<10::nat}) * 3"
    by (intro sum_bounded_above) simp
  ultimately show ?thesis by (simp add: crowd_def)
qed

lemma phase_decreases: "phase s' < phase s \<Longrightarrow> prio_rank s' < prio_rank s"
  using crowd_bound [of s'] by (simp add: prio_rank_def)

lemma crowd_decreases: "phase s' = phase s \<Longrightarrow> crowd s' < crowd s \<Longrightarrow> prio_rank s' < prio_rank s"
  by (simp add: prio_rank_def)

lemma prio_outside:
  assumes "prio_inv s" "10 \<le> t"
  shows "threads s t = Unborn" "pcs (l2 s) t = Idle"
proof -
  have "created (master s) \<le> 10" using assms(1) by (cases "master s") (auto simp: prio_inv_def born_def)
  moreover have "threads s t \<noteq> Unborn \<longleftrightarrow> t < created (master s)" using assms(1) unfolding prio_inv_def born_def by blast
  ultimately show "threads s t = Unborn" using assms(2) by auto
  then show "pcs (l2 s) t = Idle" using prio_inv_fits [OF assms(1), of t] by simp
qed

lemma linger_decreases:
  assumes inv: "prio_inv s" and t: "threads s t = Entering \<and> s' = set_flag t s \<or> threads s t = Notified \<and> s' = s"
    and h: "pcs (l2 s) t = Holding (role t)"
  shows "prio_rank (linger t s') < prio_rank s"
proof (rule crowd_decreases)
  have "t < 10" using prio_outside(1) [OF inv, of t] t by (cases "t < 10") auto
  have s': "threads s' = threads s" "l2 s' = l2 s" "master s' = master s" "who s' = who s"
    using t by (auto simp: set_flag_def)
  then show "phase (linger t s') = phase s" by (simp add: phase_def linger_def)
  have upd: "(\<Sum>u<10. tpc_rank (((threads s)(t := x)) u)) + tpc_rank (threads s t) =
      (\<Sum>u<10. tpc_rank (threads s u)) + tpc_rank x" for x
    using \<open>t < 10\<close> by (simp add: sum.remove [of "{..<10}" t])
  have old: "2 \<le> tpc_rank (threads s t)" using t by auto
  show "crowd (linger t s') < crowd s"
  proof (cases "getout t s' = 0")
    case True
    then show ?thesis using upd [of Lingering] old by (simp add: crowd_def linger_def s')
  next
    case False
    then show ?thesis
      using upd [of Leaving] old lock_rank_upd [OF \<open>t < 10\<close>, of "pcs (l2 s)" "Releasing (role t)"] h
      by (simp add: crowd_def linger_def s')
  qed
qed

lemma work_decreases:
  assumes inv: "prio_inv s" and "prio_work s s'"
  shows "prio_rank s' < prio_rank s"
  using assms(2)
proof (cases rule: prio_workE)
  case (lock l')
  then show ?thesis
    using lock_work_rank [OF lock(2), of 10] prio_outside(2) [OF inv]
    by (intro crowd_decreases) (simp_all add: phase_def crowd_def)
next
  case (entered t)
  then show ?thesis using linger_decreases [OF inv, of t "set_flag t s"] by simp
next
  case (refused t)
  then show ?thesis using prio_inv_fits [OF inv, of t] by simp
next
  case (resumed t)
  then show ?thesis using linger_decreases [OF inv, of t s] prio_inv_fits [OF inv, of t] by simp
qed (auto intro!: phase_decreases simp: phase_def create_def let_reader_out_def let_peers_out_def)

section \<open>Nobody is stuck\<close>

lemma lock_progress:
  assumes "prio_inv s" "active (pcs (l2 s) t)"
  shows "\<exists>s'. prio_work s s'"
  using active_work [of "l2 s" t] assms by (auto simp: prio_inv_def intro: prio_work.intros)

lemma entering_waits:
  assumes "prio_inv s" "threads s t = Entering" "\<nexists>s'. prio_work s s'"
  shows "pcs (l2 s) t = Waiting (role t) False"
proof -
  have e: "entering (role t) (pcs (l2 s) t)" using prio_inv_fits [OF assms(1), of t] assms(2) by simp
  have "\<not> active (pcs (l2 s) t)" using lock_progress [OF assms(1)] assms(3) by blast
  moreover have "pcs (l2 s) t \<noteq> Holding (role t)" using assms(2,3) prio_work.entered by blast
  moreover have "untimed (pcs (l2 s) t)" using assms(1) by (simp add: prio_inv_def lock_ok_def)
  ultimately show ?thesis using e by (cases "pcs (l2 s) t") auto
qed

text \<open>When no work can be done, a waiting thread has a thread before it that lingers in its critical section.\<close>

lemma someone_lingers:
  assumes inv: "prio_inv s" and stuck: "\<nexists>s'. prio_work s s'" and t: "threads s t = Entering"
  shows "\<exists>u. threads s u = Lingering"
proof -
  have a: "\<forall>u. \<not> active (pcs (l2 s) u)" using lock_progress [OF inv] stuck by blast
  have "lock_ok (l2 s)" using inv by (simp add: prio_inv_def)
  from waiting_holder [OF this a entering_waits [OF inv t stuck]]
  obtain u m where u: "pcs (l2 s) u = Holding m" by blast
  have "pc_fits (threads s u) (role u) (Holding m)" using prio_inv_fits [OF inv, of u] u by simp
  moreover have "threads s u \<noteq> Notified" using stuck prio_work.resumed by blast
  moreover have "threads s u \<noteq> Entering" using entering_waits [OF inv _ stuck, of u] u by auto
  ultimately show ?thesis by (cases "threads s u") auto
qed

lemma stuck_waiters:
  assumes inv: "prio_inv s" and w: "\<And>t. pcs (l2 s) t = Waiting (role t) False \<longleftrightarrow> 1 \<le> t \<and> t < n"
    and other: "\<And>t m. t = 0 \<or> n \<le> t \<Longrightarrow> \<not> is_waiting m (pcs (l2 s) t)" and n: "2 \<le> n"
  shows "rwl_nwaiters (lk (l2 s)) = int n - 1"
proof -
  have l: "n_waiting_readers (lk (l2 s)) = int (card {t. is_waiting Reader (pcs (l2 s) t)})"
    "n_waiting_writers (lk (l2 s)) = int (card {t. is_waiting Writer (pcs (l2 s) t)})"
    using inv unfolding prio_inv_def lock_ok_def rwl_inv_def counts_ok_def count_pcs_def by blast+
  have iff: "is_waiting m (pcs (l2 s) t) \<longleftrightarrow> 1 \<le> t \<and> t < n \<and> role t = m" for m t
  proof (cases "1 \<le> t \<and> t < n")
    case True
    then have "pcs (l2 s) t = Waiting (role t) False" using w by blast
    then show ?thesis using True by auto
  next
    case False
    then have "t = 0 \<or> n \<le> t" by linarith
    then show ?thesis using other [of t m] False by blast
  qed
  have "1 \<le> t \<and> t < n \<and> role t = Reader \<longleftrightarrow> t \<in> {2..<n}" for t
    by (cases "t = 1") (auto simp: role_def)
  then have "{t. is_waiting Reader (pcs (l2 s) t)} = {2..<n}" unfolding iff by blast
  moreover have "1 \<le> t \<and> t < n \<and> role t = Writer \<longleftrightarrow> t \<in> {1}" for t using n
    by (cases "t = 1") (auto simp: role_def)
  then have "{t. is_waiting Writer (pcs (l2 s) t)} = {1}" unfolding iff by blast
  ultimately have "n_waiting_readers (lk (l2 s)) = int (n - 2)" "n_waiting_writers (lk (l2 s)) = 1" using l by simp_all
  then show ?thesis using n by (simp add: rwl_nwaiters_def)
qed

text \<open>When no work can be done, nobody has been let out yet, and the first reader lingers.\<close>

lemma stuck_reader_lingers:
  assumes inv: "prio_inv s" and stuck: "\<nexists>s'. prio_work s s'" and born: "threads s 0 \<noteq> Unborn" and out: "reader_getout s = 0"
  shows "threads s 0 = Lingering" "\<forall>t. t \<noteq> 0 \<longrightarrow> threads s t \<in> {Unborn, Entering}"
proof -
  note i = inv [unfolded prio_inv_def]
  have nn: "threads s t \<noteq> Notified" for t using stuck prio_work.resumed by blast
  have p0: "peers_getout s = 0" using out prio_inv_reads(4,5) [OF inv] by (cases "master s") auto
  have ent: "u = 0" if "threads s u = Lingering" for u
  proof (rule ccontr)
    assume "u \<noteq> 0"
    moreover have "2 \<le> u \<Longrightarrow> threads s u \<in> {Unborn, Entering}" using i p0 unfolding order_part_def by blast
    then have "\<not> 2 \<le> u" using that by auto
    ultimately have u: "u = 1" by linarith
    then have "who_is_in_cs s = 1" using i that p0 unfolding peers_part_def by simp
    moreover have "pcs (l2 s) 1 = Holding Writer" using prio_inv_fits [OF inv, of 1] that u by simp
    moreover have "threads s 0 \<noteq> Leaving" using i out unfolding reader_part_def by blast
    moreover have "threads s 0 \<noteq> Lingering"
      using prio_inv_fits [OF inv, of 0] rwl_inv_exclusive [of "l2 s" 1 Reader 0] i calculation(2)
      by (auto simp: lock_ok_def)
    ultimately have "threads s 0 = Entering" using born nn by (cases "threads s 0") auto
    then have "reader_in_cs s = 0" using i unfolding reader_part_def by blast
    then have m: "master s = Start \<or> master s = AwaitReader" using i unfolding reader_part_def by blast
    have "threads s 1 \<noteq> Unborn \<longleftrightarrow> 1 < created (master s)" using i unfolding born_def by blast
    then show False using m that u by auto
  qed
  show "threads s 0 = Lingering"
  proof (cases "threads s 0")
    case Entering
    then obtain u where "threads s u = Lingering" using someone_lingers [OF inv stuck] by blast
    then show ?thesis using ent by blast
  next
    case Leaving
    then show ?thesis using i out unfolding reader_part_def by blast
  qed (use born nn in auto)
  show "\<forall>t. t \<noteq> 0 \<longrightarrow> threads s t \<in> {Unborn, Entering}"
  proof (intro allI impI)
    fix t :: nat assume "t \<noteq> 0"
    then have "threads s t \<noteq> Leaving" "threads s t \<noteq> Lingering" using i p0 ent unfolding peers_part_def by blast+
    then show "threads s t \<in> {Unborn, Entering}" using nn [of t] by (cases "threads s t") auto
  qed
qed

lemma stuck_nwaiters:
  assumes inv: "prio_inv s" and stuck: "\<nexists>s'. prio_work s s'" and out: "reader_getout s = 0"
    and n: "n = created (master s)" "2 \<le> n"
  shows "rwl_nwaiters (lk (l2 s)) = int n - 1"
proof -
  have b: "threads s t \<noteq> Unborn \<longleftrightarrow> t < n" for t using inv n unfolding prio_inv_def born_def by blast
  have "threads s 0 \<noteq> Unborn" using b [of 0] n by simp
  note r = stuck_reader_lingers [OF inv stuck this out]
  have zero: "pcs (l2 s) 0 = Holding Reader" using prio_inv_fits [OF inv, of 0] r(1) by simp
  have beyond: "pcs (l2 s) t = Idle" if "n \<le> t" for t using prio_inv_fits [OF inv, of t] b [of t] that by simp
  show ?thesis
  proof (rule stuck_waiters [OF inv _ _ n(2)])
    fix t
    show "pcs (l2 s) t = Waiting (role t) False \<longleftrightarrow> 1 \<le> t \<and> t < n"
    proof (cases "1 \<le> t \<and> t < n")
      case True
      then have "t \<noteq> 0" by simp
      then have "threads s t = Entering" using r(2) b [of t] True by blast
      then show ?thesis using entering_waits [OF inv _ stuck, of t] True by simp
    next
      case False
      then have "t = 0 \<or> n \<le> t" by linarith
      then show ?thesis using zero beyond [of t] False by auto
    qed
    show "\<not> is_waiting m (pcs (l2 s) t)" if "t = 0 \<or> n \<le> t" for m using that zero beyond [of t] by auto
  qed
qed

lemma stuck_passed:
  assumes inv: "prio_inv s" and stuck: "\<nexists>s'. prio_work s s'"
  shows "master s = Passed"
proof -
  note i = inv [unfolded prio_inv_def] and r = prio_inv_reads [OF inv]
  have b: "threads s t \<noteq> Unborn \<longleftrightarrow> t < created (master s)" for t using inv unfolding prio_inv_def born_def by blast
  have no: "\<not> prio_work s s'" for s' using stuck by blast
  have lingers: "\<exists>u. threads s u = Lingering" if "threads s t = Entering" for t
    using someone_lingers [OF inv stuck that] .
  show ?thesis
  proof (cases "master s")
    case Start
    then show ?thesis using no prio_work.create_reader by blast
  next
    case AwaitReader
    then have "threads s 0 = Lingering" using stuck_reader_lingers(1) [OF inv stuck] b [of 0] r(4) by simp
    then have "reader_in_cs s \<noteq> 0" using i unfolding reader_part_def by simp
    then show ?thesis using no AwaitReader prio_work.see_reader by blast
  next
    case SpawnWriter
    then show ?thesis using no prio_work.create_writer by blast
  next
    case AwaitWriter
    then have "rwl_nwaiters (lk (l2 s)) = 1" using stuck_nwaiters [OF inv stuck _ refl] r(4) by simp
    then show ?thesis using no AwaitWriter prio_work.see_writer by blast
  next
    case (SpawnReaders j)
    then show ?thesis using no prio_work.create_peer prio_work.spawned by blast
  next
    case CheckNobody
    then show ?thesis using no prio_work.check_nobody by blast
  next
    case AwaitAll
    then have "rwl_nwaiters (lk (l2 s)) = 9" using stuck_nwaiters [OF inv stuck _ refl] r(4) by simp
    then show ?thesis using no AwaitAll prio_work.see_all by blast
  next
    case LetReaderOut
    then show ?thesis using no prio_work.reader_out by blast
  next
    case AwaitPeer
    have w: "who_is_in_cs s = 0" using no AwaitPeer prio_work.see_peer prio_work.read_peer by blast
    have p0: "peers_getout s = 0" and r1: "reader_getout s \<noteq> 0" using r(4,5) AwaitPeer by simp_all
    have 1: "threads s 1 \<notin> {Lingering, Notified}" using i w p0 unfolding peers_part_def by auto
    moreover have "threads s 1 \<noteq> Leaving" using i p0 unfolding peers_part_def by simp
    ultimately have "threads s 1 = Entering" using b [of 1] AwaitPeer by (cases "threads s 1") auto
    then obtain u where u: "threads s u = Lingering" using lingers by blast
    moreover have "u \<noteq> 0" using u i r1 unfolding reader_part_def by metis
    moreover have "\<not> 2 \<le> u" using u i p0 unfolding order_part_def by force
    moreover have "u \<noteq> 1" using u 1 by auto
    ultimately show ?thesis by linarith
  next
    case LetPeersOut
    then show ?thesis using no prio_work.peers_out by blast
  next
    case (Joining j)
    have out: "peers_getout s \<noteq> 0" "reader_getout s \<noteq> 0" using r(4,5) Joining by simp_all
    have nl: "threads s u \<noteq> Lingering" for u
      using i out unfolding peers_part_def reader_part_def by (cases "u = 0") blast+
    have j: "j < 10" using no Joining prio_work.joined by blast
    then have "threads s j \<noteq> Unborn" using b [of j] Joining by simp
    moreover have "threads s j \<noteq> Notified" using no prio_work.resumed by blast
    moreover have "threads s j \<noteq> Entering" using lingers nl by blast
    ultimately have l: "threads s j = Leaving" using nl [of j] by (cases "threads s j") auto
    moreover have "\<not> active (pcs (l2 s) j)" using lock_progress [OF inv] stuck by blast
    ultimately have "pcs (l2 s) j = Idle" using prio_inv_fits [OF inv, of j] by auto
    then show ?thesis using no Joining j l prio_work.join by blast
  next
    case Failed
    then show ?thesis using i by (simp add: born_def)
  qed
qed

lemma prio_passes: "prio_inv s \<Longrightarrow> \<exists>s'. prio_work\<^sup>*\<^sup>* s s' \<and> master s' = Passed"
proof (induction "prio_rank s" arbitrary: s rule: less_induct)
  case less
  show ?case
  proof (cases "\<exists>s'. prio_work s s'")
    case True
    then obtain s1 where s1: "prio_work s s1" by blast
    then obtain s2 where "prio_work\<^sup>*\<^sup>* s1 s2" "master s2 = Passed"
      using less.hyps [OF work_decreases [OF less.prems s1] prio_inv_work [OF less.prems s1]] by blast
    then show ?thesis using s1 by (meson converse_rtranclp_into_rtranclp)
  next
    case False
    then show ?thesis using stuck_passed [OF less.prems] by blast
  qed
qed

section \<open>The properties\<close>

text \<open>C15: the test of priorities never fails, however its threads are interleaved and whatever waits end without a
  signal: no call of the lock is refused, no thread but the first is in its critical section while the first reader is, and no competing
  reader comes in before the writer is let out. (In particular nobody enters while the writer waits.)\<close>

theorem priority_test_never_fails:
  assumes "reachable prio_init prio_step s"
  shows "master s \<noteq> Failed \<and>
    (reader_in_cs s \<noteq> 0 \<and> reader_getout s = 0 \<longrightarrow> who_is_in_cs s = 0) \<and>
    (peers_getout s = 0 \<longrightarrow> who_is_in_cs s \<noteq> 2)"
proof -
  have inv: "prio_inv s" using prio.reachable_inv [OF assms] .
  note r = prio_inv_reads [OF inv]
  have "master s \<noteq> Failed" using inv by (simp add: prio_inv_def born_def)
  moreover have "who_is_in_cs s = 0" if "reader_in_cs s \<noteq> 0" "reader_getout s = 0"
    using nobody_in_cs(1) [OF inv that] that(2) r(4,5) by (cases "master s") auto
  moreover have "who_is_in_cs s \<noteq> 2" if "peers_getout s = 0" using that r(2,5) by auto
  ultimately show ?thesis by blast
qed

theorem priority_test_never_fails_witness:
  "master ((create 0 prio_init)\<lparr>master := AwaitReader\<rparr>) \<noteq> Failed \<and>
   who_is_in_cs ((create 0 prio_init)\<lparr>master := AwaitReader\<rparr>) \<noteq> 2"
proof -
  have "prio_step prio_init ((create 0 prio_init)\<lparr>master := AwaitReader\<rparr>)"
    unfolding prio_step_def using prio_work.create_reader [of prio_init] by (simp add: prio_init_def)
  with reach_start have "reachable prio_init prio_step ((create 0 prio_init)\<lparr>master := AwaitReader\<rparr>)" by (rule reach_step)
  from priority_test_never_fails [OF this] show ?thesis by (simp add: create_def prio_init_def)
qed

text \<open>C16: and it ends: in every state that can be reached, either the test has passed or some thread can do work; every
  step of work decreases a number (\<open>prio_rank\<close>), so a run in which threads that can work do so passes, and it can
  pass from every state.\<close>

theorem priority_test_passes:
  assumes "reachable prio_init prio_step s"
  shows "(master s = Passed \<or> (\<exists>s'. prio_work s s')) \<and> (\<forall>s'. prio_work s s' \<longrightarrow> prio_rank s' < prio_rank s) \<and>
    (\<exists>s'. prio_work\<^sup>*\<^sup>* s s' \<and> master s' = Passed)"
  using prio.reachable_inv [OF assms] stuck_passed work_decreases prio_passes by blast

theorem priority_test_passes_witness:
  "\<exists>s'. prio_work\<^sup>*\<^sup>* prio_init s' \<and> master s' = Passed"
  using priority_test_passes [OF reach_start] by blast

end
