(* ===== verification/MemLib.thy ===== *)
theory MemLib
  imports CPrelude
begin

unbundle bit_operations_syntax

text \<open>
  malloclab/memlib.c: the simulated memory system under the allocators, its break and the two helpers
  \<open>align\<close> and \<open>is_aligned\<close>. Addresses are natural numbers; where the 200 MB area begins is what
  \<open>malloc\<close> of the C library returned, an argument of \<open>mem_init\<close>. A \<open>size_t\<close> is a 64-bit word.
\<close>

section \<open>Alignment\<close>

abbreviation ALIGNMENT :: nat where "ALIGNMENT \<equiv> 16"
abbreviation MAX_HEAP :: nat where "MAX_HEAP \<equiv> 209715200"

definition align :: "64 word \<Rightarrow> 64 word" where
  "align sz = (sz + (16 - 1)) AND NOT (16 - 1)"

definition is_aligned :: "64 word \<Rightarrow> bool" where
  "is_aligned p \<longleftrightarrow> sint p smod 16 = 0"

lemma unat_and_not_15: "unat ((w :: 64 word) AND NOT 15) = unat w div 16 * 16"
proof -
  have "w AND NOT 15 = w AND NOT (mask 4)" by (simp add: mask_eq_exp_minus_1)
  also have "\<dots> = push_bit 4 (drop_bit 4 w)"
    by (rule bit_eqI) (auto simp: bit_simps)
  also have "\<dots> = w - take_bit 4 w" using bits_ident [of 4 w] by (simp add: algebra_simps)
  finally have "w AND NOT 15 = w - take_bit 4 w" .
  moreover have u: "unat (take_bit 4 w) = unat w mod 16" by (simp add: take_bit_eq_mod unat_mod)
  moreover have "take_bit 4 w \<le> w" unfolding word_le_nat_alt u by (rule mod_less_eq_dividend)
  ultimately show ?thesis by (simp add: unat_sub minus_mod_eq_div_mult)
qed

lemma unat_align:
  assumes "unat s + 15 < 2 ^ 64"
  shows "unat (align s) = (unat s + 15) div 16 * 16"
proof -
  have "unat (s + 15) = unat s + 15" using assms by (simp add: unat_word_ariths)
  moreover have "align s = (s + 15) AND NOT 15" unfolding align_def by simp
  ultimately show ?thesis by (simp only: unat_and_not_15)
qed

lemma is_aligned_iff: "is_aligned p \<longleftrightarrow> 16 dvd unat p"
proof -
  have "sint p smod 16 = 0 \<longleftrightarrow> (16 :: int) dvd sint p"
    by (rule smod_eq_0_iff)
  also have "\<dots> \<longleftrightarrow> 16 dvd uint p"
  proof -
    have "sint p = take_bit (Suc 63) (uint p) - 2 ^ Suc 63 * of_bool (bit (uint p) 63)"
      by (simp add: sint_uint signed_take_bit_eq_take_bit_minus)
    moreover have "take_bit (Suc 63) (uint p) = uint p" using uint_bounded [of p] by (simp add: take_bit_int_eq_self)
    moreover have "(16 :: int) dvd 2 ^ Suc 63 * of_bool (bit (uint p) 63)" by simp
    ultimately show ?thesis by (simp only: dvd_diff_left_iff)
  qed
  also have "\<dots> \<longleftrightarrow> 16 dvd unat p" by (simp only: uint_nat int_dvd_int_iff [of 16, simplified])
  finally show ?thesis by (simp add: is_aligned_def)
qed

section \<open>The break\<close>

record mem =
  mem_start_brk :: nat
  mem_brk :: nat
  mem_max_addr :: nat

definition mem_init :: "ptr \<Rightarrow> mem cres" where
  "mem_init area = (case area of
     Null \<Rightarrow> Inl (Exit 1)
   | Addr a \<Rightarrow> Inr \<lparr>mem_start_brk = a, mem_brk = a, mem_max_addr = a + MAX_HEAP\<rparr>)"

definition mem_reset_brk :: "mem \<Rightarrow> mem" where
  "mem_reset_brk m = m\<lparr>mem_brk := mem_start_brk m\<rparr>"

text \<open>The value \<open>(void *)-1\<close>.\<close>

definition SBRK_FAILED :: ptr where
  "SBRK_FAILED = Addr (2 ^ 64 - 1)"

definition mem_sbrk :: "int \<Rightarrow> mem \<Rightarrow> ptr \<times> mem" where
  "mem_sbrk incr m =
     (if incr < 0 \<or> int (mem_brk m) + incr > int (mem_max_addr m) then (SBRK_FAILED, m)
      else (Addr (mem_brk m), m\<lparr>mem_brk := nat (int (mem_brk m) + incr)\<rparr>))"

definition mem_heap_lo :: "mem \<Rightarrow> nat" where
  "mem_heap_lo m = mem_start_brk m"

definition mem_heap_hi :: "mem \<Rightarrow> int" where
  "mem_heap_hi m = int (mem_brk m) - 1"

definition mem_heapsize :: "mem \<Rightarrow> nat" where
  "mem_heapsize m = mem_brk m - mem_start_brk m"

definition mem_ok :: "mem \<Rightarrow> bool" where
  "mem_ok m \<longleftrightarrow> mem_start_brk m \<le> mem_brk m \<and> mem_brk m \<le> mem_max_addr m \<and> mem_max_addr m < 2 ^ 63 \<and>
     0 < mem_start_brk m"

lemma mem_sbrk_ok:
  assumes "mem_ok m" "0 \<le> incr" "int (mem_brk m) + incr \<le> int (mem_max_addr m)"
  shows "mem_sbrk incr m = (Addr (mem_brk m), m\<lparr>mem_brk := mem_brk m + nat incr\<rparr>)"
  using assms by (simp add: mem_sbrk_def nat_add_distrib)

section \<open>Properties\<close>

text \<open>\<open>align\<close> rounds up: for every size at most \<open>2 ^ 64 - 16\<close> its value is the least multiple of
  16 that is not below the size.\<close>

lemma align_rounds_up:
  assumes "unat s + 15 < 2 ^ 64"
  shows "16 dvd unat (align s) \<and> unat s \<le> unat (align s) \<and> unat (align s) < unat s + 16"
proof -
  have "unat (align s) = (unat s + 15) div 16 * 16" by (rule unat_align [OF assms])
  then show ?thesis by simp linarith
qed

text \<open>A successful \<open>mem_sbrk\<close> returns the old break and moves it up by \<open>incr\<close>; a negative increment, or
  one that would pass the end of the area, returns \<open>(void *)-1\<close> and changes nothing. The break stays inside
  the area.\<close>

lemma mem_sbrk_spec:
  assumes "mem_ok m"
  shows "mem_ok (snd (mem_sbrk incr m)) \<and>
    (if 0 \<le> incr \<and> incr \<le> int (mem_max_addr m) - int (mem_brk m)
     then fst (mem_sbrk incr m) = Addr (mem_brk m) \<and>
       int (mem_heapsize (snd (mem_sbrk incr m))) = int (mem_heapsize m) + incr
     else mem_sbrk incr m = (SBRK_FAILED, m))"
  using assms by (auto simp: mem_sbrk_def mem_ok_def mem_heapsize_def)

end
