(* ===== verification/MmList.thy ===== *)
theory MmList
  imports MemLib
begin

text \<open>
  The chunk headers of malloclab/mm.c and the memory they live in, the doubly linked lists they form and
  the way chunks tile the heap. The memory is read as one header at every address; what it holds before
  the first write is arbitrary. An access to a header that does not lie between the start of the heap and
  the break is an error. The payload bytes are a separate map.
\<close>

section \<open>Headers\<close>

record hdr =
  h_size :: nat
  h_next :: ptr
  h_prev :: ptr
  h_status :: bool

abbreviation HDR :: nat where "HDR \<equiv> 32"

record mm =
  vm :: mem
  hdrs :: "nat \<Rightarrow> hdr"
  bytes :: "nat \<Rightarrow> 8 word"
  global_free_list :: ptr
  global_allocated_list_head :: ptr

definition in_heap :: "mm \<Rightarrow> nat \<Rightarrow> bool" where
  "in_heap m a \<longleftrightarrow> mem_start_brk (vm m) \<le> a \<and> a + HDR \<le> mem_brk (vm m)"

definition rd :: "mm \<Rightarrow> ptr \<Rightarrow> hdr cres" where
  "rd m p = (case p of
     Null \<Rightarrow> Inl NullDeref
   | Addr a \<Rightarrow> if in_heap m a then Inr (hdrs m a) else Inl BadPointer)"

definition wr :: "(hdr \<Rightarrow> hdr) \<Rightarrow> ptr \<Rightarrow> mm \<Rightarrow> mm cres" where
  "wr f p m = (case p of
     Null \<Rightarrow> Inl NullDeref
   | Addr a \<Rightarrow> if in_heap m a then Inr (m\<lparr>hdrs := (hdrs m)(a := f (hdrs m a))\<rparr>) else Inl BadPointer)"

lemma rd_wr_simps [simp]:
  "in_heap m a \<Longrightarrow> rd m (Addr a) = Inr (hdrs m a)"
  "in_heap m a \<Longrightarrow> wr f (Addr a) m = Inr (m\<lparr>hdrs := (hdrs m)(a := f (hdrs m a))\<rparr>)"
  by (simp_all add: rd_def wr_def)

lemma in_heap_upd [simp]:
  "in_heap (m\<lparr>hdrs := H\<rparr>) a = in_heap m a" "in_heap (m\<lparr>bytes := B\<rparr>) a = in_heap m a"
  "in_heap (m\<lparr>global_free_list := p\<rparr>) a = in_heap m a"
  "in_heap (m\<lparr>global_allocated_list_head := p\<rparr>) a = in_heap m a"
  by (simp_all add: in_heap_def)

section \<open>Doubly linked lists\<close>

definition hd_or :: "nat list \<Rightarrow> ptr \<Rightarrow> ptr" where
  "hd_or xs p = (case xs of [] \<Rightarrow> p | a # _ \<Rightarrow> Addr a)"

definition last_or :: "nat list \<Rightarrow> ptr \<Rightarrow> ptr" where
  "last_or xs p = (if xs = [] then p else Addr (last xs))"

text \<open>The headers \<open>xs\<close>, linked one to the next, with \<open>pv\<close> before the first and \<open>nx\<close> after the last.\<close>

fun dseg :: "(nat \<Rightarrow> hdr) \<Rightarrow> ptr \<Rightarrow> nat list \<Rightarrow> ptr \<Rightarrow> bool" where
  "dseg H pv [] nx = True"
| "dseg H pv (a # as) nx = (h_prev (H a) = pv \<and> h_next (H a) = hd_or as nx \<and> dseg H (Addr a) as nx)"

lemma hd_or_simps [simp]: "hd_or [] p = p" "hd_or (a # as) p = Addr a"
  by (simp_all add: hd_or_def)

lemma last_or_simps [simp]: "last_or [] p = p" "last_or (xs @ [a]) p = Addr a"
  by (simp_all add: last_or_def)

lemma last_or_Cons: "last_or (a # as) p = last_or as (Addr a)"
  by (simp add: last_or_def)

lemma hd_or_append: "hd_or (xs @ ys) p = hd_or xs (hd_or ys p)"
  by (cases xs) simp_all

lemma last_or_append: "last_or (xs @ ys) p = last_or ys (last_or xs p)"
  by (simp add: last_or_def)

lemma dseg_append:
  "dseg H pv (xs @ ys) nx \<longleftrightarrow> dseg H pv xs (hd_or ys nx) \<and> dseg H (last_or xs pv) ys nx"
  by (induction xs arbitrary: pv) (auto simp: hd_or_append last_or_Cons)

lemma dseg_cong:
  assumes "\<And>a. a \<in> set xs \<Longrightarrow> h_prev (H a) = h_prev (H' a) \<and> h_next (H a) = h_next (H' a)"
  shows "dseg H pv xs nx = dseg H' pv xs nx"
  using assms by (induction xs arbitrary: pv) auto

lemma dseg_frame [simp]: "a \<notin> set xs \<Longrightarrow> dseg (H(a := h)) pv xs nx = dseg H pv xs nx"
  by (rule dseg_cong) auto

text \<open>Relinking the two ends of a segment.\<close>

lemma dseg_relink_last:
  "dseg H pv (xs @ [a]) nx \<Longrightarrow> a \<notin> set xs \<Longrightarrow> dseg (H(a := (H a)\<lparr>h_next := v\<rparr>)) pv (xs @ [a]) v"
  by (simp add: dseg_append)

lemma dseg_relink_first:
  "dseg H pv (a # xs) nx \<Longrightarrow> a \<notin> set xs \<Longrightarrow> dseg (H(a := (H a)\<lparr>h_prev := v\<rparr>)) v (a # xs) nx"
  by simp

text \<open>Writing the \<open>next\<close> field of the last header of a list, or the \<open>prev\<close> field of the first, if there is one.\<close>

definition set_last_next :: "nat list \<Rightarrow> ptr \<Rightarrow> (nat \<Rightarrow> hdr) \<Rightarrow> nat \<Rightarrow> hdr" where
  "set_last_next xs v H = (if xs = [] then H else H(last xs := (H (last xs))\<lparr>h_next := v\<rparr>))"

definition set_first_prev :: "nat list \<Rightarrow> ptr \<Rightarrow> (nat \<Rightarrow> hdr) \<Rightarrow> nat \<Rightarrow> hdr" where
  "set_first_prev xs v H = (case xs of [] \<Rightarrow> H | a # _ \<Rightarrow> H(a := (H a)\<lparr>h_prev := v\<rparr>))"

lemma dseg_set_last_next:
  assumes "dseg H pv xs nx" "distinct xs"
  shows "dseg (set_last_next xs v H) pv xs v"
proof (cases xs rule: rev_cases)
  case (snoc ys a)
  then show ?thesis using assms dseg_relink_last [of H pv ys a nx v] by (simp add: set_last_next_def)
qed (simp add: set_last_next_def)

lemma dseg_set_first_prev:
  assumes "dseg H pv xs nx" "distinct xs"
  shows "dseg (set_first_prev xs v H) v xs nx"
  using assms by (cases xs) (simp_all add: set_first_prev_def)

lemma set_last_next_other [simp]:
  "set xs \<inter> set ys = {} \<Longrightarrow> dseg (set_last_next xs v H) pv ys nx = dseg H pv ys nx"
  by (rule dseg_cong) (use last_in_set in \<open>fastforce simp: set_last_next_def\<close>)

lemma set_first_prev_other [simp]:
  "set xs \<inter> set ys = {} \<Longrightarrow> dseg (set_first_prev xs v H) pv ys nx = dseg H pv ys nx"
  by (rule dseg_cong) (auto simp: set_first_prev_def split: list.splits)

lemma relink_fields [simp]:
  "h_size (set_last_next xs v H a) = h_size (H a)" "h_status (set_last_next xs v H a) = h_status (H a)"
  "h_size (set_first_prev xs v H a) = h_size (H a)" "h_status (set_first_prev xs v H a) = h_status (H a)"
  by (auto simp: set_last_next_def set_first_prev_def split: list.splits)

lemma relink_outside [simp]:
  "a \<notin> set xs \<Longrightarrow> set_last_next xs v H a = H a" "a \<notin> set xs \<Longrightarrow> set_first_prev xs v H a = H a"
  by (auto simp: set_last_next_def set_first_prev_def split: list.splits)

section \<open>Chunks tile the heap\<close>

fun tiles :: "(nat \<Rightarrow> nat) \<Rightarrow> nat \<Rightarrow> nat list \<Rightarrow> nat \<Rightarrow> bool" where
  "tiles S lo [] hi = (lo = hi)"
| "tiles S lo (a # as) hi = (a = lo \<and> HDR < S a \<and> ALIGNMENT dvd S a \<and> tiles S (a + S a) as hi)"

lemma tiles_append: "tiles S lo (xs @ ys) hi \<longleftrightarrow> (\<exists>mid. tiles S lo xs mid \<and> tiles S mid ys hi)"
  by (induction xs arbitrary: lo) auto

lemma tiles_cong: "(\<And>a. a \<in> set xs \<Longrightarrow> S a = S' a) \<Longrightarrow> tiles S lo xs hi = tiles S' lo xs hi"
  by (induction xs arbitrary: lo) auto

lemma tiles_le: "tiles S lo xs hi \<Longrightarrow> lo \<le> hi"
  by (induction xs arbitrary: lo) fastforce+

lemma tiles_bounds: "tiles S lo xs hi \<Longrightarrow> a \<in> set xs \<Longrightarrow> lo \<le> a \<and> a + S a \<le> hi \<and> HDR < S a \<and> ALIGNMENT dvd S a"
proof (induction xs arbitrary: lo)
  case (Cons b xs)
  show ?case
  proof (cases "a = b")
    case True
    then show ?thesis using Cons.prems tiles_le by auto
  next
    case False
    then show ?thesis using Cons.IH [of "b + S b"] Cons.prems by auto
  qed
qed simp

lemma tiles_sorted: "tiles S lo xs hi \<Longrightarrow> sorted xs \<and> distinct xs"
proof (induction xs arbitrary: lo)
  case (Cons b xs)
  then have "\<forall>a \<in> set xs. b < a" using tiles_bounds by fastforce
  then show ?case using Cons by force
qed simp

text \<open>Two chunks do not overlap.\<close>

lemma tiles_disjoint:
  assumes "tiles S lo xs hi" "a \<in> set xs" "b \<in> set xs" "a < b"
  shows "a + S a \<le> b"
  using assms
proof (induction xs arbitrary: lo)
  case (Cons c xs)
  then show ?case
    by (cases "a = c"; cases "b = c") (use tiles_bounds in \<open>fastforce+\<close>)
qed simp

lemma tiles_aligned: "tiles S lo xs hi \<Longrightarrow> ALIGNMENT dvd lo \<Longrightarrow> a \<in> set xs \<Longrightarrow> ALIGNMENT dvd a"
  by (induction xs arbitrary: lo) (auto dest: dvd_add)

lemma tiles_snoc:
  "tiles S lo xs hi \<Longrightarrow> hi \<notin> set xs \<Longrightarrow> HDR < n \<Longrightarrow> ALIGNMENT dvd n \<Longrightarrow> tiles (S(hi := n)) lo (xs @ [hi]) (hi + n)"
  by (subst (asm) tiles_cong [of xs S "S(hi := n)"]) (auto simp: tiles_append)

text \<open>The chunk that follows, and what splitting and merging do.\<close>

lemma tiles_next:
  assumes "tiles S lo xs hi" "a \<in> set xs" "a + S a \<in> set xs"
  obtains us vs where "xs = us @ a # (a + S a) # vs"
proof -
  obtain us ws where xs: "xs = us @ a # ws" using assms(2) by (meson split_list)
  then obtain mid where t: "tiles S lo us mid" "mid = a" "HDR < S a" "tiles S (a + S a) ws hi"
    using assms(1) by (auto simp: tiles_append)
  have "\<forall>b \<in> set us. b < a" using tiles_bounds [OF t(1)] t(2) by fastforce
  then have "a + S a \<in> set ws" using assms(3) t(3) xs by fastforce
  then obtain vs where "ws = (a + S a) # vs" using t(4) by (cases ws) auto
  then show thesis using that xs by simp
qed

lemma tiles_merge:
  assumes "tiles S lo (us @ a # (a + S a) # vs) hi" "distinct (us @ a # (a + S a) # vs)"
  shows "tiles (S(a := S a + S (a + S a))) lo (us @ a # vs) hi"
proof -
  let ?S = "S(a := S a + S (a + S a))"
  from assms(1) obtain mid where t: "tiles S lo us mid" "tiles S mid (a # (a + S a) # vs) hi"
    unfolding tiles_append by blast
  have "tiles ?S lo us mid" using t(1) assms(2) by (subst tiles_cong [of us ?S S]) auto
  moreover have "tiles ?S (a + S a + S (a + S a)) vs hi"
    using t(2) assms(2) by (subst tiles_cong [of vs ?S S]) auto
  ultimately show ?thesis using t(2) by (auto simp: tiles_append ac_simps)
qed

lemma tiles_split:
  assumes "tiles S lo (us @ a # vs) hi" "distinct (us @ a # vs)" "HDR < n" "ALIGNMENT dvd n" "n + HDR < S a"
    "a + n \<notin> set (us @ a # vs)"
  shows "tiles (S(a := n, a + n := S a - n)) lo (us @ a # (a + n) # vs) hi"
proof -
  let ?S = "S(a := n, a + n := S a - n)"
  from assms(1) obtain mid where t: "tiles S lo us mid" "tiles S mid (a # vs) hi"
    unfolding tiles_append by blast
  have "tiles ?S lo us mid" using t(1) assms(2,6) by (subst tiles_cong [of us ?S S]) auto
  moreover have "tiles ?S (a + S a) vs hi" using t(2) assms(2,6) by (subst tiles_cong [of vs ?S S]) auto
  moreover have "ALIGNMENT dvd S a - n" using t(2) assms(4) by (auto intro: dvd_diff_nat)
  ultimately show ?thesis using t(2) assms(3-5) by (auto simp: tiles_append)
qed

end
