(* ===== verification/Mm.thy ===== *)
theory Mm
  imports MmList
begin

text \<open>
  malloclab/mm.c: the allocator with an allocated list and a free list ordered by address. The functions
  return the new state of \<open>mm\<close>, or an error where the code leaves the heap with a header access.
  A header's size is a \<open>size_t\<close>, kept as a natural number below \<open>2 ^ 64\<close>; the sizes computed by
  \<open>get_newsize\<close> are \<open>int\<close>, cut to 32 bits as the code does. A walk along a list runs out of its
  \<open>heap_fuel\<close>, one more than the bytes of the heap, only when it visits a header twice and so never ends.
\<close>

section \<open>Headers and payloads\<close>

definition to_size_t :: "int \<Rightarrow> nat" where
  "to_size_t x = nat (x mod 2 ^ 64)"

abbreviation MIN_GUARD :: int where "MIN_GUARD \<equiv> 1024"

definition set_chunk_size_status :: "ptr \<Rightarrow> nat \<Rightarrow> bool \<Rightarrow> mm \<Rightarrow> mm cres" where
  "set_chunk_size_status p sz st m = wr (\<lambda>h. h\<lparr>h_size := sz, h_status := st\<rparr>) p m"

definition set_chunk_status :: "ptr \<Rightarrow> bool \<Rightarrow> mm \<Rightarrow> mm cres" where
  "set_chunk_status p st m = wr (\<lambda>h. h\<lparr>h_status := st\<rparr>) p m"

definition ptr_add :: "ptr \<Rightarrow> nat \<Rightarrow> ptr" where
  "ptr_add p n = (case p of Null \<Rightarrow> Addr n | Addr a \<Rightarrow> Addr (a + n))"

definition payload_to_header :: "ptr \<Rightarrow> ptr" where
  "payload_to_header p = (case p of
     Null \<Rightarrow> Addr (2 ^ 64 - HDR)
   | Addr a \<Rightarrow> Addr (if HDR \<le> a then a - HDR else 2 ^ 64 + a - HDR))"

definition header_to_payload :: "ptr \<Rightarrow> ptr" where
  "header_to_payload p = ptr_add p HDR"

definition header_to_next_header :: "ptr \<Rightarrow> nat \<Rightarrow> ptr" where
  "header_to_next_header p sz = ptr_add p sz"

definition init_header :: "ptr \<Rightarrow> mm \<Rightarrow> mm cres" where
  "init_header p m =
     c_bind (wr (\<lambda>h. h\<lparr>h_next := Null\<rparr>) p m) (\<lambda>m.
     c_bind (wr (\<lambda>h. h\<lparr>h_prev := Null\<rparr>) p m) (\<lambda>m.
     set_chunk_status p False m))"

definition get_newsize :: "64 word \<Rightarrow> int" where
  "get_newsize sz = s32 (uint (align sz + of_nat HDR))"

definition heap_fuel :: "mm \<Rightarrow> nat" where
  "heap_fuel m = Suc (mem_heapsize (vm m))"

section \<open>The two lists\<close>

definition remove_from_list :: "ptr \<Rightarrow> mm \<Rightarrow> mm cres" where
  "remove_from_list p m =
     c_bind (if p = global_free_list m
             then c_bind (rd m p) (\<lambda>h. Inr (m\<lparr>global_free_list := h_next h\<rparr>)) else Inr m) (\<lambda>m.
     c_bind (if p = global_allocated_list_head m
             then c_bind (rd m p) (\<lambda>h. Inr (m\<lparr>global_allocated_list_head := h_next h\<rparr>)) else Inr m) (\<lambda>m.
     c_bind (rd m p) (\<lambda>h.
     c_bind (if h_prev h \<noteq> Null then wr (\<lambda>q. q\<lparr>h_next := h_next h\<rparr>) (h_prev h) m else Inr m) (\<lambda>m.
     c_bind (rd m p) (\<lambda>h.
     if h_next h \<noteq> Null then wr (\<lambda>q. q\<lparr>h_prev := h_prev h\<rparr>) (h_next h) m else Inr m)))))"

definition merge_regions :: "ptr \<Rightarrow> ptr \<Rightarrow> mm \<Rightarrow> (bool \<times> mm) cres" where
  "merge_regions p q m =
     (if p = Null \<or> q = Null then Inr (False, m)
      else c_bind (rd m p) (\<lambda>h.
        if ptr_add p (h_size h) = q then
          c_bind (rd m q) (\<lambda>n.
          c_bind (wr (\<lambda>h. h\<lparr>h_next := h_next n\<rparr>) p m) (\<lambda>m.
          c_bind (rd m q) (\<lambda>n.
          c_bind (if h_next n \<noteq> Null then wr (\<lambda>r. r\<lparr>h_prev := p\<rparr>) (h_next n) m else Inr m) (\<lambda>m.
          c_bind (rd m p) (\<lambda>h.
          c_bind (rd m q) (\<lambda>n.
          c_bind (set_chunk_size_status p (to_size_t (int (h_size h) + int (h_size n))) False m) (\<lambda>m.
          Inr (True, m))))))))
        else Inr (False, m)))"

definition insert_allocated_list :: "ptr \<Rightarrow> mm \<Rightarrow> mm cres" where
  "insert_allocated_list p m =
     c_bind (set_chunk_status p True m) (\<lambda>m.
     c_bind (wr (\<lambda>h. h\<lparr>h_next := global_allocated_list_head m\<rparr>) p m) (\<lambda>m.
     c_bind (if global_allocated_list_head m \<noteq> Null
             then wr (\<lambda>h. h\<lparr>h_prev := p\<rparr>) (global_allocated_list_head m) m else Inr m) (\<lambda>m.
     c_bind (wr (\<lambda>h. h\<lparr>h_prev := Null\<rparr>) p m) (\<lambda>m.
     Inr (m\<lparr>global_allocated_list_head := p\<rparr>)))))"

text \<open>The loop of \<open>insert_free_list\<close>: the last header before the place of \<open>p\<close> and the first after it.\<close>

fun free_walk :: "nat \<Rightarrow> mm \<Rightarrow> ptr \<Rightarrow> ptr \<Rightarrow> ptr \<Rightarrow> (ptr \<times> ptr) cres" where
  "free_walk 0 m p lst temp = Inl Loops"
| "free_walk (Suc f) m p lst temp =
     (if temp = Null \<or> p < temp then Inr (lst, temp)
      else c_bind (rd m temp) (\<lambda>h. free_walk f m p temp (h_next h)))"

definition link_middle :: "ptr \<Rightarrow> mm \<Rightarrow> mm cres" where
  "link_middle p m =
     c_bind (free_walk (heap_fuel m) m p Null (global_free_list m)) (\<lambda>(lst, temp).
     if temp \<noteq> Null then
       c_bind (wr (\<lambda>h. h\<lparr>h_next := temp\<rparr>) p m) (\<lambda>m.
       c_bind (rd m temp) (\<lambda>t.
       c_bind (wr (\<lambda>h. h\<lparr>h_next := p\<rparr>) (h_prev t) m) (\<lambda>m.
       c_bind (rd m temp) (\<lambda>t.
       c_bind (wr (\<lambda>h. h\<lparr>h_prev := h_prev t\<rparr>) p m) (\<lambda>m.
       wr (\<lambda>h. h\<lparr>h_prev := p\<rparr>) temp m)))))
     else if lst \<noteq> Null then
       c_bind (wr (\<lambda>h. h\<lparr>h_next := p\<rparr>) lst m) (\<lambda>m.
       c_bind (wr (\<lambda>h. h\<lparr>h_prev := lst\<rparr>) p m) (\<lambda>m.
       wr (\<lambda>h. h\<lparr>h_next := Null\<rparr>) p m))
     else Inr m)"

definition link_first :: "ptr \<Rightarrow> mm \<Rightarrow> mm cres" where
  "link_first p m =
     c_bind (wr (\<lambda>h. h\<lparr>h_next := global_free_list m\<rparr>) p m) (\<lambda>m.
     c_bind (wr (\<lambda>h. h\<lparr>h_prev := Null\<rparr>) p m) (\<lambda>m.
     c_bind (wr (\<lambda>h. h\<lparr>h_prev := p\<rparr>) (global_free_list m) m) (\<lambda>m.
     Inr (m\<lparr>global_free_list := p\<rparr>))))"

text \<open>The two double calls of \<open>merge_regions\<close> at the end of \<open>insert_free_list\<close>.\<close>

definition merge_next :: "ptr \<Rightarrow> mm \<Rightarrow> (bool \<times> mm) cres" where
  "merge_next p m = c_bind (rd m p) (\<lambda>h. merge_regions p (h_next h) m)"

definition merge_prev :: "ptr \<Rightarrow> mm \<Rightarrow> (bool \<times> mm) cres" where
  "merge_prev p m = c_bind (rd m p) (\<lambda>h. merge_regions (h_prev h) p m)"

definition coalesce :: "ptr \<Rightarrow> mm \<Rightarrow> mm cres" where
  "coalesce p m =
     c_bind (merge_next p m) (\<lambda>(b, m).
     c_bind (if b then merge_next p m else Inr (False, m)) (\<lambda>(_, m).
     c_bind (merge_prev p m) (\<lambda>(b, m).
     c_bind (if b then merge_prev p m else Inr (False, m)) (\<lambda>(_, m). Inr m))))"

definition insert_free_list :: "ptr \<Rightarrow> mm \<Rightarrow> mm cres" where
  "insert_free_list p m =
     (let temp = global_free_list m in
      c_bind (set_chunk_status p False m) (\<lambda>m.
      if temp = Null then
        let m = m\<lparr>global_free_list := p\<rparr> in
        c_bind (wr (\<lambda>h. h\<lparr>h_prev := Null\<rparr>) p m) (wr (\<lambda>h. h\<lparr>h_next := Null\<rparr>) p)
      else c_bind (if p < temp then link_first p m else link_middle p m) (coalesce p)))"

section \<open>Allocation\<close>

definition mm_init :: "mm \<Rightarrow> int \<times> mm" where
  "mm_init m = (0, m\<lparr>global_free_list := Null, global_allocated_list_head := Null\<rparr>)"

text \<open>The walk of \<open>find_memory\<close>: the first free chunk whose size satisfies the test of the pass.\<close>

fun find_chunk :: "nat \<Rightarrow> mm \<Rightarrow> (nat \<Rightarrow> bool) \<Rightarrow> ptr \<Rightarrow> ptr cres" where
  "find_chunk 0 m fits temp = Inl Loops"
| "find_chunk (Suc f) m fits temp =
     (if temp = Null then Inr Null
      else c_bind (rd m temp) (\<lambda>h.
        if \<not> h_status h \<and> fits (h_size h) then Inr temp else find_chunk f m fits (h_next h)))"

definition fits_whole :: "int \<Rightarrow> nat \<Rightarrow> bool" where
  "fits_whole newsize chunk_size \<longleftrightarrow>
     to_size_t newsize \<le> chunk_size \<and> chunk_size < to_size_t (s32 (newsize + MIN_GUARD))"

definition fits_split :: "int \<Rightarrow> nat \<Rightarrow> bool" where
  "fits_split newsize chunk_size \<longleftrightarrow> to_size_t (newsize + int HDR) < chunk_size"

definition take_whole :: "ptr \<Rightarrow> mm \<Rightarrow> (ptr \<times> mm) cres" where
  "take_whole temp m =
     c_bind (remove_from_list temp m) (\<lambda>m.
     c_bind (insert_allocated_list temp m) (\<lambda>m.
     Inr (header_to_payload temp, m)))"

definition take_split :: "int \<Rightarrow> ptr \<Rightarrow> mm \<Rightarrow> (ptr \<times> mm) cres" where
  "take_split newsize temp m =
     c_bind (rd m temp) (\<lambda>h.
     let orig_size = h_size h in
     c_bind (set_chunk_size_status temp (to_size_t newsize) True m) (\<lambda>m.
     c_bind (remove_from_list temp m) (\<lambda>m.
     c_bind (insert_allocated_list temp m) (\<lambda>m.
     let next_header = header_to_next_header temp (to_size_t newsize) in
     c_bind (init_header next_header m) (\<lambda>m.
     c_bind (set_chunk_size_status next_header (to_size_t (int orig_size - newsize)) False m) (\<lambda>m.
     c_bind (insert_free_list next_header m) (\<lambda>m.
     Inr (header_to_payload temp, m))))))))"

definition find_memory :: "64 word \<Rightarrow> mm \<Rightarrow> (ptr \<times> mm) cres" where
  "find_memory sz m =
     (if sz = 0 then Inr (Null, m)
      else let newsize = get_newsize sz in
        c_bind (find_chunk (heap_fuel m) m (fits_whole newsize) (global_free_list m)) (\<lambda>temp.
        if temp \<noteq> Null then take_whole temp m
        else c_bind (find_chunk (heap_fuel m) m (fits_split newsize) (global_free_list m)) (\<lambda>temp.
          if temp \<noteq> Null then take_split newsize temp m
          else Inr (Null, m))))"

definition grow_heap :: "64 word \<Rightarrow> mm \<Rightarrow> (ptr \<times> mm) cres" where
  "grow_heap sz m =
     (let newsize = get_newsize sz; (h, v) = mem_sbrk newsize (vm m); m = m\<lparr>vm := v\<rparr> in
      c_bind (set_chunk_size_status h (to_size_t newsize) True m) (\<lambda>m.
      c_bind (insert_allocated_list h m) (\<lambda>m.
      Inr (header_to_payload h, m))))"

definition mm_malloc :: "64 word \<Rightarrow> mm \<Rightarrow> (ptr \<times> mm) cres" where
  "mm_malloc sz m =
     (if sz = 0 then Inr (Null, m)
      else c_bind (find_memory sz m) (\<lambda>(allocated_memory, m).
        if allocated_memory \<noteq> Null then Inr (allocated_memory, m) else grow_heap sz m))"

definition mm_free :: "ptr \<Rightarrow> mm \<Rightarrow> mm cres" where
  "mm_free p m =
     (let h = payload_to_header p in
      c_bind (remove_from_list h m) (insert_free_list h))"

definition memcpy :: "nat \<Rightarrow> nat \<Rightarrow> nat \<Rightarrow> (nat \<Rightarrow> 8 word) \<Rightarrow> nat \<Rightarrow> 8 word" where
  "memcpy dst src n b = (\<lambda>x. if dst \<le> x \<and> x < dst + n then b (src + (x - dst)) else b x)"

definition copy_payload :: "ptr \<Rightarrow> ptr \<Rightarrow> 64 word \<Rightarrow> mm \<Rightarrow> mm cres" where
  "copy_payload newptr p sz m =
     (case (newptr, p) of
       (Addr d, Addr s) \<Rightarrow>
         c_bind (rd m (payload_to_header p)) (\<lambda>h.
         let payload = to_size_t (int (h_size h) - int HDR);
             copySize = (if unat sz < payload then unat sz else payload)
         in Inr (m\<lparr>bytes := memcpy d s copySize (bytes m)\<rparr>))
     | _ \<Rightarrow> Inl NullDeref)"

definition mm_realloc :: "ptr \<Rightarrow> 64 word \<Rightarrow> mm \<Rightarrow> (ptr \<times> mm) cres" where
  "mm_realloc p sz m =
     c_bind (if 0 < sz then
         c_bind (mm_malloc sz m) (\<lambda>(newptr, m).
         if p \<noteq> Null then c_bind (copy_payload newptr p sz m) (\<lambda>m. Inr (newptr, m))
         else Inr (newptr, m))
       else Inr (Null, m)) (\<lambda>(newptr, m).
     if p \<noteq> Null then c_bind (mm_free p m) (\<lambda>m. Inr (newptr, m)) else Inr (newptr, m))"

text \<open>\<open>mm_checkheap\<close>: the chunks counted, with the header accesses of the arguments of \<open>my_assert\<close>.
  The counts and sizes of allocated and free chunks are what it prints.\<close>

record heap_stats =
  total_allocated :: nat
  total_allocated_sz :: nat
  total_free :: nat
  total_free_sz :: nat

fun checkheap_loop :: "nat \<Rightarrow> mm \<Rightarrow> nat \<Rightarrow> heap_stats \<Rightarrow> heap_stats cres" where
  "checkheap_loop 0 m h c = Inl Loops"
| "checkheap_loop (Suc f) m h c =
     (if int h < mem_heap_hi (vm m) then
        c_bind (rd m (Addr h)) (\<lambda>x.
        c_bind (rd m (h_next x)) (\<lambda>_.
        checkheap_loop f m (h + h_size x)
          (if h_status x
           then c\<lparr>total_allocated := total_allocated c + 1, total_allocated_sz := total_allocated_sz c + h_size x\<rparr>
           else c\<lparr>total_free := total_free c + 1, total_free_sz := total_free_sz c + h_size x\<rparr>)))
      else Inr c)"

definition mm_checkheap :: "mm \<Rightarrow> heap_stats cres" where
  "mm_checkheap m = checkheap_loop (heap_fuel m) m (mem_heap_lo (vm m))
     \<lparr>total_allocated = 0, total_allocated_sz = 0, total_free = 0, total_free_sz = 0\<rparr>"

end
