(* ===== verification/MmInv.thy ===== *)
theory MmInv
  imports Mm
begin

text \<open>
  The list operations of mm.c: what \<open>remove_from_list\<close>, \<open>insert_allocated_list\<close>, \<open>insert_free_list\<close> and
  \<open>merge_regions\<close> do to the two doubly linked lists. \<open>linked m al fl\<close> says that the allocated list is
  \<open>al\<close> and the free list is \<open>fl\<close>.
\<close>

definition linked :: "mm \<Rightarrow> nat list \<Rightarrow> nat list \<Rightarrow> bool" where
  "linked m al fl \<longleftrightarrow>
     distinct (al @ fl) \<and> (\<forall>a \<in> set (al @ fl). in_heap m a) \<and>
     global_allocated_list_head m = hd_or al Null \<and> global_free_list m = hd_or fl Null \<and>
     dseg (hdrs m) Null al Null \<and> dseg (hdrs m) Null fl Null"

lemma upd_commute:
  "h\<lparr>h_prev := p, h_next := n\<rparr> = h\<lparr>h_next := n, h_prev := p\<rparr>"
  "m\<lparr>global_free_list := p, hdrs := H\<rparr> = m\<lparr>hdrs := H, global_free_list := p\<rparr>"
  by simp_all

lemma free_list_same: "global_free_list m = p \<Longrightarrow> m\<lparr>hdrs := H, global_free_list := p\<rparr> = m\<lparr>hdrs := H\<rparr>"
  by auto

text \<open>Two states that agree outside the links.\<close>

definition same_sizes :: "mm \<Rightarrow> mm \<Rightarrow> bool" where
  "same_sizes m m' \<longleftrightarrow> vm m' = vm m \<and> bytes m' = bytes m \<and> (\<forall>a. h_size (hdrs m' a) = h_size (hdrs m a))"

definition same_status :: "mm \<Rightarrow> mm \<Rightarrow> bool" where
  "same_status m m' \<longleftrightarrow> (\<forall>a. h_status (hdrs m' a) = h_status (hdrs m a))"

lemma dseg_middle:
  assumes "dseg H Null (xs @ a # ys) Null"
  shows "h_prev (H a) = last_or xs Null" "h_next (H a) = hd_or ys Null"
    "dseg H Null xs (Addr a)" "dseg H (Addr a) ys Null"
  using assms by (simp_all add: dseg_append)

definition unlink :: "nat list \<Rightarrow> nat list \<Rightarrow> (nat \<Rightarrow> hdr) \<Rightarrow> nat \<Rightarrow> hdr" where
  "unlink xs ys H = set_first_prev ys (last_or xs Null) (set_last_next xs (hd_or ys Null) H)"

lemma dseg_unlink:
  assumes "dseg H Null (xs @ a # ys) Null" "distinct (xs @ a # ys)"
  shows "dseg (unlink xs ys H) Null (xs @ ys) Null"
proof -
  note d = dseg_middle [OF assms(1)]
  have "dseg (set_last_next xs (hd_or ys Null) H) Null xs (hd_or ys Null)"
    using dseg_set_last_next [OF d(3)] assms(2) by simp
  then have 1: "dseg (unlink xs ys H) Null xs (hd_or ys Null)"
    unfolding unlink_def using assms(2) by (subst set_first_prev_other) auto
  have "dseg (set_last_next xs (hd_or ys Null) H) (Addr a) ys Null"
    using d(4) assms(2) by (subst set_last_next_other) auto
  then have 2: "dseg (unlink xs ys H) (last_or xs Null) ys Null"
    unfolding unlink_def using dseg_set_first_prev assms(2) by auto
  show ?thesis using 1 2 by (simp add: dseg_append)
qed

lemma unlink_other:
  "set zs \<inter> set (xs @ ys) = {} \<Longrightarrow> dseg (unlink xs ys H) pv zs nx = dseg H pv zs nx"
  unfolding unlink_def by (subst set_first_prev_other, force) (subst set_last_next_other, force, simp)

lemma unlink_fields [simp]:
  "h_size (unlink xs ys H a) = h_size (H a)" "h_status (unlink xs ys H a) = h_status (H a)"
  by (simp_all add: unlink_def)

text \<open>The field writes of \<open>remove_from_list\<close>, for a header in the middle of a list.\<close>

lemma unlink_writes:
  assumes "dseg (hdrs m) Null (xs @ a # ys) Null" "distinct (xs @ a # ys)"
    "\<forall>b \<in> set (xs @ a # ys). in_heap m b"
  shows "c_bind (rd m (Addr a)) (\<lambda>h.
     c_bind (if h_prev h \<noteq> Null then wr (\<lambda>q. q\<lparr>h_next := h_next h\<rparr>) (h_prev h) m else Inr m) (\<lambda>m.
     c_bind (rd m (Addr a)) (\<lambda>h.
     if h_next h \<noteq> Null then wr (\<lambda>q. q\<lparr>h_prev := h_prev h\<rparr>) (h_next h) m else Inr m))) =
     Inr (m\<lparr>hdrs := unlink xs ys (hdrs m)\<rparr>)"
proof -
  let ?H = "hdrs m" and ?H1 = "set_last_next xs (hd_or ys Null) (hdrs m)"
  note d = dseg_middle [OF assms(1)]
  have a: "in_heap m a" "a \<notin> set xs" "a \<notin> set ys" using assms(2,3) by auto
  have H1a: "?H1 a = ?H a" using a by simp
  have 1: "(if h_prev (?H a) \<noteq> Null then wr (\<lambda>q. q\<lparr>h_next := h_next (?H a)\<rparr>) (h_prev (?H a)) m else Inr m) =
      Inr (m\<lparr>hdrs := ?H1\<rparr>)"
  proof (cases xs rule: rev_cases)
    case (snoc us p)
    then show ?thesis using assms(3) d by (simp add: set_last_next_def)
  qed (simp add: d set_last_next_def)
  have 2: "(if h_next (?H a) \<noteq> Null then wr (\<lambda>q. q\<lparr>h_prev := h_prev (?H a)\<rparr>) (h_next (?H a)) (m\<lparr>hdrs := ?H1\<rparr>)
      else Inr (m\<lparr>hdrs := ?H1\<rparr>)) = Inr (m\<lparr>hdrs := unlink xs ys ?H\<rparr>)"
    using assms(3) d by (cases ys) (simp_all add: unlink_def set_first_prev_def)
  show ?thesis using a 1 2 by (simp add: H1a)
qed

lemma hd_or_eq_Addr: "hd_or xs Null = Addr a \<longleftrightarrow> (\<exists>ys. xs = a # ys)"
  by (cases xs) auto

lemma remove_free_linked:
  assumes "linked m al (xs @ a # ys)"
  shows "\<exists>m'. remove_from_list (Addr a) m = Inr m' \<and> linked m' al (xs @ ys) \<and> same_sizes m m' \<and> same_status m m'"
proof -
  have l: "distinct (al @ xs @ a # ys)" "\<forall>b \<in> set (al @ xs @ a # ys). in_heap m b"
      "global_allocated_list_head m = hd_or al Null" "global_free_list m = hd_or (xs @ a # ys) Null"
      "dseg (hdrs m) Null al Null" "dseg (hdrs m) Null (xs @ a # ys) Null"
    using assms by (simp_all add: linked_def)
  let ?m = "m\<lparr>global_free_list := hd_or (xs @ ys) Null\<rparr>"
  have a: "in_heap m a" using l(2) by simp
  have "a \<notin> set al" using l(1) by auto
  then have al: "global_allocated_list_head m \<noteq> Addr a" unfolding l(3) by (auto simp: hd_or_eq_Addr)
  have head: "(if Addr a = global_free_list m
      then c_bind (rd m (Addr a)) (\<lambda>h. Inr (m\<lparr>global_free_list := h_next h\<rparr>)) else Inr m) = Inr ?m"
  proof (cases xs)
    case Nil
    then show ?thesis using a l(4) dseg_middle(2) [OF l(6)] by simp
  next
    case (Cons b us)
    then have "global_free_list m = Addr b" "b \<noteq> a" using l(1,4) by auto
    then show ?thesis using Cons by simp
  qed
  have writes: "remove_from_list (Addr a) m = Inr (?m\<lparr>hdrs := unlink xs ys (hdrs ?m)\<rparr>)"
    unfolding remove_from_list_def head using al unlink_writes [of ?m xs a ys] l by simp
  have "linked (?m\<lparr>hdrs := unlink xs ys (hdrs ?m)\<rparr>) al (xs @ ys)"
    using l dseg_unlink [OF l(6)] unlink_other [of al xs ys] by (auto simp: linked_def)
  then show ?thesis using writes by (auto simp: same_sizes_def same_status_def)
qed

lemma remove_allocated_linked:
  assumes "linked m (xs @ a # ys) fl"
  shows "\<exists>m'. remove_from_list (Addr a) m = Inr m' \<and> linked m' (xs @ ys) fl \<and> same_sizes m m' \<and> same_status m m'"
proof -
  have l: "distinct ((xs @ a # ys) @ fl)" "\<forall>b \<in> set ((xs @ a # ys) @ fl). in_heap m b"
      "global_allocated_list_head m = hd_or (xs @ a # ys) Null" "global_free_list m = hd_or fl Null"
      "dseg (hdrs m) Null (xs @ a # ys) Null" "dseg (hdrs m) Null fl Null"
    using assms by (simp_all add: linked_def)
  let ?m = "m\<lparr>global_allocated_list_head := hd_or (xs @ ys) Null\<rparr>"
  have a: "in_heap m a" using l(2) by simp
  have "a \<notin> set fl" using l(1) by auto
  then have "global_free_list m \<noteq> Addr a" unfolding l(4) by (auto simp: hd_or_eq_Addr)
  then have skip: "(if Addr a = global_free_list m
      then c_bind (rd m (Addr a)) (\<lambda>h. Inr (m\<lparr>global_free_list := h_next h\<rparr>)) else Inr m) = Inr m" by simp
  have head: "(if Addr a = global_allocated_list_head m
      then c_bind (rd m (Addr a)) (\<lambda>h. Inr (m\<lparr>global_allocated_list_head := h_next h\<rparr>)) else Inr m) = Inr ?m"
  proof (cases xs)
    case Nil
    then show ?thesis using a l(3) dseg_middle(2) [OF l(5)] by simp
  next
    case (Cons b us)
    then have "global_allocated_list_head m = Addr b" "b \<noteq> a" using l(1,3) by auto
    then show ?thesis using Cons by simp
  qed
  have writes: "remove_from_list (Addr a) m = Inr (?m\<lparr>hdrs := unlink xs ys (hdrs ?m)\<rparr>)"
    unfolding remove_from_list_def skip c_bind_Inr head using l by (intro unlink_writes) auto
  have "linked (?m\<lparr>hdrs := unlink xs ys (hdrs ?m)\<rparr>) (xs @ ys) fl"
  proof -
    have d: "distinct (xs @ a # ys)" "set fl \<inter> set (xs @ ys) = {}" using l(1) by auto
    show ?thesis
      using l dseg_unlink [OF l(5) d(1)] unlink_other [OF d(2)] by (auto simp: linked_def)
  qed
  then show ?thesis using writes by (auto simp: same_sizes_def same_status_def)
qed

lemma insert_allocated_linked:
  assumes "linked m al fl" "a \<notin> set al" "a \<notin> set fl" "in_heap m a"
  shows "\<exists>m'. insert_allocated_list (Addr a) m = Inr m' \<and> linked m' (a # al) fl \<and> same_sizes m m' \<and>
    (\<forall>b. h_status (hdrs m' b) = (b = a \<or> h_status (hdrs m b)))"
proof -
  let ?H = "hdrs m"
  let ?H1 = "?H(a := (?H a)\<lparr>h_status := True, h_next := hd_or al Null\<rparr>)"
  let ?H2 = "(set_first_prev al (Addr a) ?H1)(a := (?H a)\<lparr>h_status := True, h_next := hd_or al Null, h_prev := Null\<rparr>)"
  let ?m = "m\<lparr>hdrs := ?H2, global_allocated_list_head := Addr a\<rparr>"
  have l: "distinct (al @ fl)" "\<forall>b \<in> set (al @ fl). in_heap m b"
      "global_allocated_list_head m = hd_or al Null" "global_free_list m = hd_or fl Null"
      "dseg ?H Null al Null" "dseg ?H Null fl Null"
    using assms(1) by (simp_all add: linked_def)
  have run: "insert_allocated_list (Addr a) m = Inr ?m"
    using assms(2,4) l(2,3)
    by (cases al) (auto simp: insert_allocated_list_def set_chunk_status_def set_first_prev_def)
  have "dseg (set_first_prev al (Addr a) ?H1) (Addr a) al Null"
    using dseg_set_first_prev [of ?H1 Null al Null] l(1,5) assms(2) by simp
  moreover have "dseg ?H2 Null fl Null"
    using l(1,6) assms(3) by (simp add: Int_commute)
  ultimately have "linked ?m (a # al) fl"
    using l assms(2-4) by (simp add: linked_def)
  moreover have "h_status (hdrs ?m b) = (b = a \<or> h_status (?H b))" for b by simp
  moreover have "same_sizes m ?m" by (simp add: same_sizes_def)
  ultimately show ?thesis using run by blast
qed

text \<open>The walk to the place of a header in the sorted free list.\<close>

lemma free_walk_sorted:
  assumes "dseg (hdrs m) pv (xs @ ys) Null" "\<forall>b \<in> set (xs @ ys). in_heap m b"
    "\<forall>b \<in> set xs. b < a" "\<forall>b \<in> set ys. a < b" "length xs < f"
  shows "free_walk f m (Addr a) pv (hd_or (xs @ ys) Null) = Inr (last_or xs pv, hd_or ys Null)"
  using assms
proof (induction xs arbitrary: f pv)
  case Nil
  then show ?case by (cases f; cases ys) simp_all
next
  case (Cons b xs)
  then obtain g where "f = Suc g" by (cases f) auto
  then show ?case using Cons by (auto simp: last_or_Cons)
qed

definition link_into :: "nat \<Rightarrow> nat list \<Rightarrow> nat list \<Rightarrow> (nat \<Rightarrow> hdr) \<Rightarrow> nat \<Rightarrow> hdr" where
  "link_into a xs ys H =
     (let H1 = set_first_prev ys (Addr a) (set_last_next xs (Addr a) H) in
      H1(a := (H1 a)\<lparr>h_next := hd_or ys Null, h_prev := last_or xs Null\<rparr>))"

lemma dseg_link_into:
  assumes "dseg H Null (xs @ ys) Null" "distinct (xs @ ys)" "a \<notin> set (xs @ ys)"
  shows "dseg (link_into a xs ys H) Null (xs @ a # ys) Null"
proof -
  have d: "dseg H Null xs (hd_or ys Null)" "dseg H (last_or xs Null) ys Null"
    using assms(1) by (simp_all add: dseg_append)
  let ?H1 = "set_last_next xs (Addr a) H"
  have "dseg ?H1 Null xs (Addr a)" using dseg_set_last_next [OF d(1)] assms(2) by simp
  then have "dseg (set_first_prev ys (Addr a) ?H1) Null xs (Addr a)"
    using assms(2) by (subst set_first_prev_other) auto
  moreover have "dseg ?H1 (last_or xs Null) ys Null" using d(2) assms(2) by (subst set_last_next_other) auto
  then have "dseg (set_first_prev ys (Addr a) ?H1) (Addr a) ys Null"
    using dseg_set_first_prev assms(2) by auto
  ultimately show ?thesis using assms(3) by (simp add: link_into_def dseg_append Let_def)
qed

lemma link_into_other:
  "set zs \<inter> set (xs @ a # ys) = {} \<Longrightarrow> dseg (link_into a xs ys H) pv zs nx = dseg H pv zs nx"
  unfolding link_into_def Let_def
  by (subst dseg_frame, force, subst set_first_prev_other, force, subst set_last_next_other, force, simp)

lemma link_into_fields [simp]:
  "h_size (link_into a xs ys H b) = h_size (H b)" "h_status (link_into a xs ys H b) = h_status (H b)"
  by (simp_all add: link_into_def Let_def)

lemma in_heap_bound:
  assumes "distinct xs" "\<forall>b \<in> set xs. in_heap m b"
  shows "length xs \<le> mem_heapsize (vm m)"
proof -
  have "set xs \<subseteq> {mem_start_brk (vm m)..<mem_brk (vm m)}" using assms(2) by (auto simp: in_heap_def)
  then have "card (set xs) \<le> card {mem_start_brk (vm m)..<mem_brk (vm m)}" by (intro card_mono) auto
  then show ?thesis using assms(1) by (simp add: distinct_card mem_heapsize_def)
qed

text \<open>The insertion into the free list, up to the merging.\<close>

definition linked_state :: "nat \<Rightarrow> nat list \<Rightarrow> nat list \<Rightarrow> mm \<Rightarrow> mm" where
  "linked_state a xs ys m =
     m\<lparr>hdrs := link_into a xs ys ((hdrs m)(a := (hdrs m a)\<lparr>h_status := False\<rparr>)),
       global_free_list := hd_or (xs @ [a]) Null\<rparr>"

lemma link_first_run:
  assumes "linked m al ys" "ys \<noteq> []" "a \<notin> set ys" "in_heap m a"
  shows "link_first (Addr a) m =
    Inr (m\<lparr>hdrs := link_into a [] ys (hdrs m), global_free_list := Addr a\<rparr>)"
proof -
  obtain b zs where ys: "ys = b # zs" using assms(2) by (cases ys) auto
  then have "global_free_list m = Addr b" "in_heap m b" "b \<noteq> a" using assms(1,3) by (auto simp: linked_def)
  then show ?thesis
    using assms(4) by (simp add: ys link_first_def link_into_def Let_def set_first_prev_def
        set_last_next_def fun_upd_twist)
qed

lemma link_middle_run:
  assumes "linked m al (xs @ ys)" "xs \<noteq> []" "a \<notin> set (xs @ ys)" "in_heap m a"
    "\<forall>b \<in> set xs. b < a" "\<forall>b \<in> set ys. a < b"
  shows "link_middle (Addr a) m = Inr (m\<lparr>hdrs := link_into a xs ys (hdrs m)\<rparr>)"
proof -
  let ?H = "hdrs m"
  have l: "distinct (xs @ ys)" "\<forall>b \<in> set (xs @ ys). in_heap m b" "dseg ?H Null (xs @ ys) Null"
      "global_free_list m = hd_or (xs @ ys) Null"
    using assms(1) by (auto simp: linked_def)
  have "length xs < heap_fuel m" using in_heap_bound [OF l(1,2)] by (simp add: heap_fuel_def)
  then have walk: "free_walk (heap_fuel m) m (Addr a) Null (global_free_list m) = Inr (last_or xs Null, hd_or ys Null)"
    unfolding l(4) using free_walk_sorted [OF l(3,2) assms(5,6)] by simp
  obtain us p where xs: "xs = us @ [p]" using assms(2) by (cases xs rule: rev_cases) auto
  have p: "in_heap m p" "p \<noteq> a" using l(2) assms(3) xs by auto
  show ?thesis
  proof (cases ys)
    case Nil
    then show ?thesis
      unfolding link_middle_def walk using p assms(4)
      by (simp add: xs link_into_def set_last_next_def set_first_prev_def fun_upd_twist upd_commute)
  next
    case (Cons b zs)
    have b: "in_heap m b" "b \<noteq> a" "b \<noteq> p" using l assms(3) xs Cons by auto
    have "h_prev (?H b) = Addr p" using l(3) by (simp add: xs Cons dseg_append)
    then show ?thesis
      unfolding link_middle_def walk using p b assms(4)
      by (simp add: xs Cons link_into_def set_last_next_def set_first_prev_def fun_upd_twist upd_commute)
  qed
qed

lemma insert_free_run:
  assumes "linked m al (xs @ ys)" "a \<notin> set (xs @ ys)" "in_heap m a"
    "\<forall>b \<in> set xs. b < a" "\<forall>b \<in> set ys. a < b"
  shows "insert_free_list (Addr a) m =
    (if xs @ ys = [] then Inr (linked_state a xs ys m) else coalesce (Addr a) (linked_state a xs ys m))"
proof -
  let ?m = "m\<lparr>hdrs := (hdrs m)(a := (hdrs m a)\<lparr>h_status := False\<rparr>)\<rparr>"
  have head: "global_free_list m = hd_or (xs @ ys) Null" using assms(1) by (simp add: linked_def)
  have l: "linked ?m al (xs @ ys)"
  proof -
    have "dseg (hdrs ?m) Null zs Null = dseg (hdrs m) Null zs Null" for zs by (rule dseg_cong) simp
    then show ?thesis using assms(1) by (simp add: linked_def)
  qed
  consider "xs = []" "ys = []" | b zs where "xs = []" "ys = b # zs" | b zs where "xs = b # zs"
    by (cases xs; cases ys) auto
  then show ?thesis
  proof cases
    case 1
    then show ?thesis
      using assms(3) head by (simp add: insert_free_list_def set_chunk_status_def linked_state_def
          link_into_def set_first_prev_def set_last_next_def Let_def upd_commute)
  next
    case 2
    then have "Addr a < Addr b" using assms(5) by simp
    then show ?thesis
      using 2 assms(2,3) head link_first_run [of ?m al ys a] l
      by (simp add: insert_free_list_def set_chunk_status_def linked_state_def Let_def)
  next
    case 3
    then have "\<not> Addr a < Addr b" using assms(4) by auto
    moreover have "linked_state a xs ys m = ?m\<lparr>hdrs := link_into a xs ys (hdrs ?m)\<rparr>"
      using 3 head free_list_same [of m "Addr b"] by (simp only: linked_state_def) simp
    moreover have "link_middle (Addr a) ?m = Inr (?m\<lparr>hdrs := link_into a xs ys (hdrs ?m)\<rparr>)"
      using 3 assms(2-5) by (intro link_middle_run [OF l]) simp_all
    ultimately show ?thesis
      using 3 assms(3) head by (simp add: insert_free_list_def set_chunk_status_def Let_def)
  qed
qed

lemma linked_state_linked:
  assumes "linked m al (xs @ ys)" "a \<notin> set (xs @ ys)" "a \<notin> set al" "in_heap m a"
  shows "linked (linked_state a xs ys m) al (xs @ a # ys)" "same_sizes m (linked_state a xs ys m)"
    "h_status (hdrs (linked_state a xs ys m) b) = (b \<noteq> a \<and> h_status (hdrs m b))"
proof -
  let ?H = "(hdrs m)(a := (hdrs m a)\<lparr>h_status := False\<rparr>)"
  have d: "dseg ?H Null zs Null = dseg (hdrs m) Null zs Null" for zs by (rule dseg_cong) simp
  have l: "distinct (al @ xs @ ys)" "dseg ?H Null (xs @ ys) Null" "dseg ?H Null al Null"
    using assms(1) d by (simp_all add: linked_def)
  have "dseg (link_into a xs ys ?H) Null (xs @ a # ys) Null"
    using l(1,2) assms(2) by (intro dseg_link_into) auto
  moreover have "dseg (link_into a xs ys ?H) Null al Null"
    using l(1,3) assms(3) by (subst link_into_other) auto
  ultimately show "linked (linked_state a xs ys m) al (xs @ a # ys)"
    using assms by (auto simp: linked_def linked_state_def hd_or_append)
qed (auto simp: same_sizes_def linked_state_def)

section \<open>Merging\<close>

lemma merge_linked:
  assumes "linked m al (us @ p # q # vs)" "p + h_size (hdrs m p) = q"
    "h_size (hdrs m p) + h_size (hdrs m q) < 2 ^ 64"
  shows "\<exists>m'. merge_regions (Addr p) (Addr q) m = Inr (True, m') \<and> linked m' al (us @ p # vs) \<and>
    vm m' = vm m \<and> bytes m' = bytes m \<and>
    (\<forall>b. h_size (hdrs m' b) = (if b = p then h_size (hdrs m p) + h_size (hdrs m q) else h_size (hdrs m b))) \<and>
    (\<forall>b. h_status (hdrs m' b) = (b \<noteq> p \<and> h_status (hdrs m b))) \<and> h_prev (hdrs m' q) = Addr p"
proof -
  let ?H = "hdrs m" and ?s = "h_size (hdrs m p) + h_size (hdrs m q)"
  let ?H1 = "?H(p := (?H p)\<lparr>h_next := hd_or vs Null\<rparr>)"
  let ?H2 = "set_first_prev vs (Addr p) ?H1"
  let ?H3 = "?H2(p := (?H2 p)\<lparr>h_size := ?s, h_status := False\<rparr>)"
  have l: "distinct (al @ us @ p # q # vs)" "\<forall>b \<in> set (al @ us @ p # q # vs). in_heap m b"
      "global_free_list m = hd_or (us @ p # q # vs) Null" "global_allocated_list_head m = hd_or al Null"
      "dseg ?H Null (us @ p # q # vs) Null" "dseg ?H Null al Null"
    using assms(1) by (simp_all add: linked_def)
  have d: "dseg ?H Null us (Addr p)" "h_prev (?H p) = last_or us Null" "h_prev (?H q) = Addr p"
      "h_next (?H q) = hd_or vs Null" "dseg ?H (Addr q) vs Null"
    using l(5) by (simp_all add: dseg_append)
  have pq: "in_heap m p" "in_heap m q" "p \<noteq> q" "p \<notin> set vs" "q \<notin> set vs" "p \<notin> set us" using l(1,2) by auto
  have t: "to_size_t (int (h_size (?H p)) + int (h_size (?H q))) = ?s"
    using assms(3) by (simp add: to_size_t_def nat_add_distrib)
  have run: "merge_regions (Addr p) (Addr q) m = Inr (True, m\<lparr>hdrs := ?H3\<rparr>)"
    using pq l(2) d(4) assms(2) t
    by (cases vs) (auto simp: merge_regions_def ptr_add_def set_chunk_size_status_def set_first_prev_def)
  have "dseg ?H1 (Addr q) vs Null" using d(5) pq by simp
  then have "dseg ?H2 (Addr p) vs Null" using dseg_set_first_prev l(1) by auto
  moreover have us: "dseg ?H2 Null us (Addr p)" using d(1) pq l(1) by (subst set_first_prev_other) auto
  moreover have "h_prev (?H2 p) = last_or us Null" "h_next (?H2 p) = hd_or vs Null"
    using d(2) pq by simp_all
  ultimately have "dseg ?H3 Null (us @ p # vs) Null" using pq by (simp add: dseg_append)
  moreover have "dseg ?H3 Null al Null"
    using l(1,6) pq by (subst dseg_frame, force, subst set_first_prev_other, force, subst dseg_frame, force, simp)
  moreover have "h_prev (?H3 q) = Addr p" using pq d(3) by simp
  ultimately show ?thesis
    using run l by (intro exI [of _ "m\<lparr>hdrs := ?H3\<rparr>"]) (auto simp: linked_def hd_or_append)
qed

lemma merge_apart:
  assumes "in_heap m p" "p + h_size (hdrs m p) \<noteq> q"
  shows "merge_regions (Addr p) (Addr q) m = Inr (False, m)"
  using assms by (simp add: merge_regions_def ptr_add_def)

lemma merge_Null [simp]: "merge_regions Null q m = Inr (False, m)" "merge_regions p Null m = Inr (False, m)"
  by (simp_all add: merge_regions_def)

end
