(* ===== verification/MmHeap.thy ===== *)
theory MmHeap
  imports MmInv "HOL-Library.Multiset"
begin

text \<open>
  The invariant of the whole heap of mm.c and its preservation by the steps of \<open>mm_malloc\<close> and \<open>mm_free\<close>:
  the chunks \<open>cs\<close> tile the heap from its start to the break, each is in exactly one of the two
  lists (or is one of \<open>ex\<close>, in transit between them), the free list is ordered by address, and the status
  fields are right. \<open>coalesced\<close> says that no two free chunks touch.
\<close>

definition csize :: "mm \<Rightarrow> nat \<Rightarrow> nat" where
  "csize m a = h_size (hdrs m a)"

definition heap_ok :: "mm \<Rightarrow> nat list \<Rightarrow> nat list \<Rightarrow> nat list \<Rightarrow> nat list \<Rightarrow> bool" where
  "heap_ok m al fl ex cs \<longleftrightarrow>
     mem_ok (vm m) \<and> ALIGNMENT dvd mem_start_brk (vm m) \<and> linked m al fl \<and> sorted fl \<and>
     mset cs = mset (al @ fl @ ex) \<and> tiles (csize m) (mem_start_brk (vm m)) cs (mem_brk (vm m)) \<and>
     (\<forall>a \<in> set fl. \<not> h_status (hdrs m a)) \<and> (\<forall>a \<in> set al. h_status (hdrs m a))"

definition adjacent :: "mm \<Rightarrow> nat list \<Rightarrow> nat \<Rightarrow> nat \<Rightarrow> bool" where
  "adjacent m fl b c \<longleftrightarrow> b \<in> set fl \<and> c \<in> set fl \<and> b + csize m b = c"

definition coalesced :: "mm \<Rightarrow> nat list \<Rightarrow> bool" where
  "coalesced m fl \<longleftrightarrow> (\<forall>b c. \<not> adjacent m fl b c)"

text \<open>What a step that works on the free list leaves alone.\<close>

definition frame :: "nat list \<Rightarrow> mm \<Rightarrow> mm \<Rightarrow> bool" where
  "frame al m m' \<longleftrightarrow> vm m' = vm m \<and> bytes m' = bytes m \<and> (\<forall>a \<in> set al. csize m' a = csize m a)"

lemma frame_trans: "frame al m m1 \<Longrightarrow> frame al m1 m2 \<Longrightarrow> frame al m m2"
  by (simp add: frame_def)

lemma frame_refl [simp]: "frame al m m"
  by (simp add: frame_def)

lemma heap_okD:
  assumes "heap_ok m al fl ex cs"
  shows "distinct (al @ fl @ ex)" "set cs = set al \<union> set fl \<union> set ex" "distinct cs" "sorted cs"
    "linked m al fl" "sorted fl" "tiles (csize m) (mem_start_brk (vm m)) cs (mem_brk (vm m))"
    "mset cs = mset (al @ fl @ ex)"
proof -
  have t: "tiles (csize m) (mem_start_brk (vm m)) cs (mem_brk (vm m))" and c: "mset cs = mset (al @ fl @ ex)"
    using assms by (simp_all add: heap_ok_def)
  show "sorted cs" "distinct cs" using tiles_sorted [OF t] by simp_all
  then show "distinct (al @ fl @ ex)" using mset_eq_imp_distinct_iff [OF c] by simp
  show "set cs = set al \<union> set fl \<union> set ex" using mset_eq_setD [OF c] by auto
qed (use assms in \<open>simp_all add: heap_ok_def\<close>)

lemma chunk_bounds:
  assumes "heap_ok m al fl ex cs" "a \<in> set (al @ fl @ ex)"
  shows "mem_start_brk (vm m) \<le> a" "a + csize m a \<le> mem_brk (vm m)" "HDR < csize m a"
    "ALIGNMENT dvd csize m a" "ALIGNMENT dvd a" "in_heap m a" "csize m a < 2 ^ 63"
proof -
  note h = heap_okD [OF assms(1)]
  have a: "a \<in> set cs" using assms(2) h(2) by auto
  note b = tiles_bounds [OF h(7) a]
  show "mem_start_brk (vm m) \<le> a" "a + csize m a \<le> mem_brk (vm m)" "HDR < csize m a"
    "ALIGNMENT dvd csize m a" using b by simp_all
  show "ALIGNMENT dvd a" using tiles_aligned [OF h(7) _ a] assms(1) by (simp add: heap_ok_def)
  show "in_heap m a" using b by (simp add: in_heap_def)
  have "mem_brk (vm m) < 2 ^ 63" using assms(1) by (simp add: heap_ok_def mem_ok_def)
  then show "csize m a < 2 ^ 63" using b by linarith
qed

lemma chunks_disjoint:
  assumes "heap_ok m al fl ex cs" "a \<in> set (al @ fl @ ex)" "b \<in> set (al @ fl @ ex)" "a < b"
  shows "a + csize m a \<le> b"
  using tiles_disjoint [OF heap_okD(7) [OF assms(1)]] assms heap_okD(2) [OF assms(1)] by auto

lemma merge_heap:
  assumes ok: "heap_ok m al (us @ p # q # vs) ex cs" and touch: "p + csize m p = q"
  shows "\<exists>m' cs'. merge_regions (Addr p) (Addr q) m = Inr (True, m') \<and> heap_ok m' al (us @ p # vs) ex cs' \<and>
    frame al m m' \<and> csize m' p = csize m p + csize m q \<and>
    (\<forall>b. b \<noteq> p \<longrightarrow> csize m' b = csize m b) \<and> h_prev (hdrs m' q) = Addr p"
proof -
  note h = heap_okD [OF ok]
  have pq: "p \<in> set (al @ (us @ p # q # vs) @ ex)" "q \<in> set (al @ (us @ p # q # vs) @ ex)" by simp_all
  have lt: "csize m p + csize m q < 2 ^ 64"
    using chunk_bounds(7) [OF ok pq(1)] chunk_bounds(7) [OF ok pq(2)] by simp
  obtain m' where m': "merge_regions (Addr p) (Addr q) m = Inr (True, m')" "linked m' al (us @ p # vs)"
      "vm m' = vm m" "bytes m' = bytes m"
      "\<forall>b. csize m' b = (if b = p then csize m p + csize m q else csize m b)"
      "\<forall>b. h_status (hdrs m' b) = (b \<noteq> p \<and> h_status (hdrs m b))" "h_prev (hdrs m' q) = Addr p"
    using merge_linked [OF h(5)] touch lt by (auto simp: csize_def)
  have S: "csize m' = (csize m)(p := csize m p + csize m q)" using m'(5) by auto
  obtain ws zs where cs: "cs = ws @ p # q # zs"
    using tiles_next [OF h(7)] pq h(2) touch by (metis UnCI set_append Un_assoc)
  have "tiles (csize m') (mem_start_brk (vm m')) (ws @ p # zs) (mem_brk (vm m'))"
    unfolding S m'(3) using tiles_merge [of "csize m" _ ws p zs] h(3,7) touch cs by auto
  moreover have "mset (ws @ p # zs) = mset (al @ (us @ p # vs) @ ex)" using h(8) cs by simp
  moreover have "sorted (us @ p # vs)" using h(6) by (auto simp: sorted_append)
  moreover have "p \<notin> set al" using h(1) by auto
  ultimately show ?thesis
    using m' ok by (intro exI [of _ m'] exI [of _ "ws @ p # zs"]) (auto simp: heap_ok_def frame_def)
qed

lemma merge_next_heap:
  assumes ok: "heap_ok m al (xs @ a # ys) ex cs"
    and adj: "\<forall>b c. adjacent m (xs @ a # ys) b c \<longrightarrow> b = a \<or> c = a"
  shows "\<exists>r m' ys' cs'. merge_next (Addr a) m = Inr (r, m') \<and> heap_ok m' al (xs @ a # ys') ex cs' \<and>
    frame al m m' \<and> (\<forall>b c. adjacent m' (xs @ a # ys') b c \<longrightarrow> c = a) \<and> set ys' \<subseteq> set ys"
proof -
  note h = heap_okD [OF ok]
  have d: "dseg (hdrs m) Null (xs @ a # ys) Null" using h(5) by (simp add: linked_def)
  have a: "a \<in> set (al @ (xs @ a # ys) @ ex)" by simp
  have run: "merge_next (Addr a) m = merge_regions (Addr a) (hd_or ys Null) m"
    using chunk_bounds(6) [OF ok a] dseg_middle(2) [OF d] by (simp add: merge_next_def)
  have below: "\<forall>b \<in> set xs. b < a" "\<forall>b \<in> set ys. a < b"
    using h(1,6) by (auto simp: sorted_append order_le_less)
  show ?thesis
  proof (cases "\<exists>q vs. ys = q # vs \<and> a + csize m a = q")
    case True
    then obtain q vs where ys: "ys = q # vs" "a + csize m a = q" by blast
    obtain m' cs' where m': "merge_regions (Addr a) (Addr q) m = Inr (True, m')"
        "heap_ok m' al (xs @ a # vs) ex cs'" "frame al m m'" "csize m' a = csize m a + csize m q"
        "\<forall>b. b \<noteq> a \<longrightarrow> csize m' b = csize m b"
      using merge_heap [OF ok [unfolded ys(1)] ys(2)] by blast
    have "c = a" if "adjacent m' (xs @ a # vs) b c" for b c
    proof (cases "b = a")
      case True
      then have "adjacent m (xs @ a # ys) q c" using that m'(4) ys by (auto simp: adjacent_def)
      then have "q = a \<or> c = a" using adj by blast
      then show ?thesis using below ys by auto
    next
      case False
      then have "adjacent m (xs @ a # ys) b c" using that m'(5) ys by (auto simp: adjacent_def)
      then show ?thesis using adj False by blast
    qed
    then show ?thesis using m' run ys by (intro exI [of _ True] exI [of _ m'] exI [of _ vs] exI [of _ cs']) auto
  next
    case False
    have "merge_regions (Addr a) (hd_or ys Null) m = Inr (False, m)"
      using False chunk_bounds(6) [OF ok a] by (cases ys) (auto intro: merge_apart simp: csize_def)
    moreover have "c = a" if "adjacent m (xs @ a # ys) b c" for b c
    proof (rule ccontr)
      assume "c \<noteq> a"
      then have "b = a" using adj that by blast
      then have ba: "b = a" "a + csize m a = c" using that by (simp_all add: adjacent_def)
      then have "c \<in> set ys" using that below chunk_bounds(3) [OF ok a] by (fastforce simp: adjacent_def)
      then obtain q vs where ys: "ys = q # vs" by (cases ys) auto
      then have "q \<le> c" using \<open>c \<in> set ys\<close> h(6) by (auto simp: sorted_append)
      moreover have "a + csize m a \<le> q"
        using chunks_disjoint [OF ok a, of q] below ys by simp
      ultimately show False using False ba ys by auto
    qed
    ultimately show ?thesis
      using run ok by (intro exI [of _ False] exI [of _ m] exI [of _ ys] exI [of _ cs]) auto
  qed
qed

lemma merge_prev_heap:
  assumes ok: "heap_ok m al (xs @ a # ys) ex cs"
    and adj: "\<forall>b c. adjacent m (xs @ a # ys) b c \<longrightarrow> c = a"
  shows "\<exists>r m' fl' cs'. merge_prev (Addr a) m = Inr (r, m') \<and> heap_ok m' al fl' ex cs' \<and>
    frame al m m' \<and> coalesced m' fl' \<and> set fl' \<subseteq> set (xs @ a # ys) \<and>
    (r \<longrightarrow> merge_prev (Addr a) m' = Inr (False, m'))"
proof -
  note h = heap_okD [OF ok]
  have d: "dseg (hdrs m) Null (xs @ a # ys) Null" using h(5) by (simp add: linked_def)
  have a: "a \<in> set (al @ (xs @ a # ys) @ ex)" by simp
  have run: "merge_prev (Addr a) m = merge_regions (last_or xs Null) (Addr a) m"
    using chunk_bounds(6) [OF ok a] dseg_middle(1) [OF d] by (simp add: merge_prev_def)
  have below: "\<forall>b \<in> set xs. b < a" "\<forall>b \<in> set ys. a < b"
    using h(1,6) by (auto simp: sorted_append order_le_less)
  show ?thesis
  proof (cases "\<exists>us p. xs = us @ [p] \<and> p + csize m p = a")
    case True
    then obtain us p where xs: "xs = us @ [p]" and touch: "p + csize m p = a" by blast
    have ok': "heap_ok m al (us @ p # a # ys) ex cs" using ok xs by simp
    obtain m' cs' where m': "merge_regions (Addr p) (Addr a) m = Inr (True, m')"
        "heap_ok m' al (us @ p # ys) ex cs'" "frame al m m'" "csize m' p = csize m p + csize m a"
        "\<forall>b. b \<noteq> p \<longrightarrow> csize m' b = csize m b" "h_prev (hdrs m' a) = Addr p"
      using merge_heap [OF ok' touch] by blast
    have "False" if "adjacent m' (us @ p # ys) b c" for b c
    proof (cases "b = p")
      case True
      then have "adjacent m (xs @ a # ys) a c" using that m'(4) xs touch by (auto simp: adjacent_def)
      moreover from this have "c = a" using adj by blast
      ultimately show ?thesis using chunk_bounds(3) [OF ok a] by (simp add: adjacent_def)
    next
      case False
      then have "adjacent m (xs @ a # ys) b c" using that m'(5) xs by (auto simp: adjacent_def)
      then have "c = a" using adj by blast
      then show ?thesis using that h(1) xs by (auto simp: adjacent_def)
    qed
    then have c: "coalesced m' (us @ p # ys)" by (auto simp: coalesced_def)
    have a': "in_heap m' a" using chunk_bounds(6) [OF ok a] m'(3) by (simp add: frame_def in_heap_def)
    have p': "in_heap m' p" using chunk_bounds(6) [OF m'(2), of p] by simp
    have "p + csize m' p \<noteq> a" using touch m'(4) chunk_bounds(3) [OF ok a] by simp
    then have "merge_prev (Addr a) m' = Inr (False, m')"
      using a' m'(6) merge_apart [OF p'] by (simp add: merge_prev_def csize_def)
    then show ?thesis
      using m' run xs c
      by (intro exI [of _ True] exI [of _ m'] exI [of _ "us @ p # ys"] exI [of _ cs']) auto
  next
    case False
    have "merge_regions (last_or xs Null) (Addr a) m = Inr (False, m)"
    proof (cases xs rule: rev_cases)
      case (snoc us p)
      then show ?thesis
        using False chunk_bounds(6) [OF ok, of p] by (auto intro!: merge_apart simp: csize_def)
    qed simp
    moreover have "False" if "adjacent m (xs @ a # ys) b c" for b c
    proof -
      have "c = a" using adj that by blast
      then have bc: "c = a" "b + csize m b = a" using that by (simp_all add: adjacent_def)
      have b: "b \<in> set (al @ (xs @ a # ys) @ ex)" using that by (auto simp: adjacent_def)
      have "b \<in> set xs" using that bc chunk_bounds(3) [OF ok b] below by (fastforce simp: adjacent_def)
      then obtain us p where xs: "xs = us @ [p]" by (cases xs rule: rev_cases) auto
      show False
      proof (cases "b = p")
        case True
        then show ?thesis using False xs bc by blast
      next
        case ne: False
        then have "b < p" using \<open>b \<in> set xs\<close> xs h(6,1) by (auto simp: sorted_append order_le_less)
        then have "a \<le> p" using chunks_disjoint [OF ok b, of p] xs bc by simp
        then show ?thesis using below xs by fastforce
      qed
    qed
    ultimately show ?thesis
      using run ok
      by (intro exI [of _ False] exI [of _ m] exI [of _ "xs @ a # ys"] exI [of _ cs])
        (auto simp: coalesced_def)
  qed
qed

lemma coalesce_heap:
  assumes ok: "heap_ok m al (xs @ a # ys) ex cs"
    and adj: "\<forall>b c. adjacent m (xs @ a # ys) b c \<longrightarrow> b = a \<or> c = a"
  shows "\<exists>m' fl' cs'. coalesce (Addr a) m = Inr m' \<and> heap_ok m' al fl' ex cs' \<and> frame al m m' \<and>
    coalesced m' fl' \<and> set fl' \<subseteq> set (xs @ a # ys)"
proof -
  obtain r m1 y1 c1 where 1: "merge_next (Addr a) m = Inr (r, m1)" "heap_ok m1 al (xs @ a # y1) ex c1"
      "frame al m m1" "\<forall>b c. adjacent m1 (xs @ a # y1) b c \<longrightarrow> c = a" "set y1 \<subseteq> set ys"
    using merge_next_heap [OF ok adj] by blast
  have "\<exists>s m2 y2 c2. (if r then merge_next (Addr a) m1 else Inr (False, m1)) = Inr (s, m2) \<and>
      heap_ok m2 al (xs @ a # y2) ex c2 \<and> frame al m1 m2 \<and>
      (\<forall>b c. adjacent m2 (xs @ a # y2) b c \<longrightarrow> c = a) \<and> set y2 \<subseteq> set y1"
  proof (cases r)
    case True
    have "\<forall>b c. adjacent m1 (xs @ a # y1) b c \<longrightarrow> b = a \<or> c = a" using 1(4) by blast
    from merge_next_heap [OF 1(2) this] show ?thesis using True by simp
  next
    case False
    then show ?thesis using 1(2,4) by auto
  qed
  then obtain s m2 y2 c2 where
    2: "(if r then merge_next (Addr a) m1 else Inr (False, m1)) = Inr (s, m2)"
      "heap_ok m2 al (xs @ a # y2) ex c2" "frame al m1 m2"
      "\<forall>b c. adjacent m2 (xs @ a # y2) b c \<longrightarrow> c = a" "set y2 \<subseteq> set y1"
    by blast
  obtain t m3 fl3 c3 where
    3: "merge_prev (Addr a) m2 = Inr (t, m3)" "heap_ok m3 al fl3 ex c3" "frame al m2 m3"
      "coalesced m3 fl3" "set fl3 \<subseteq> set (xs @ a # y2)" "t \<longrightarrow> merge_prev (Addr a) m3 = Inr (False, m3)"
    using merge_prev_heap [OF 2(2,4)] by blast
  have "coalesce (Addr a) m = Inr m3"
    using 1(1) 2(1) 3(1,6) by (cases t) (simp_all add: coalesce_def)
  moreover have "frame al m m3" using 1(3) 2(3) 3(3) frame_trans by blast
  moreover have "set fl3 \<subseteq> set (xs @ a # ys)" using 1(5) 2(5) 3(5) by auto
  ultimately show ?thesis using 3(2,4) by blast
qed

text \<open>The chunk in transit goes to the free list.\<close>

lemma sorted_split:
  assumes "sorted fl" "a \<notin> set fl"
  obtains xs ys where "fl = xs @ ys" "\<forall>b \<in> set xs. b < (a::nat)" "\<forall>b \<in> set ys. a < b"
proof
  show "fl = takeWhile (\<lambda>b. b < a) fl @ dropWhile (\<lambda>b. b < a) fl" by simp
  show "\<forall>b \<in> set (takeWhile (\<lambda>b. b < a) fl). b < a" by (auto dest: set_takeWhileD)
  show "\<forall>b \<in> set (dropWhile (\<lambda>b. b < a) fl). a < b"
    using assms
  proof (induction fl)
    case (Cons c fl)
    then show ?case by (auto simp: not_less order_le_less)
  qed simp
qed

lemma insert_free_heap:
  assumes ok: "heap_ok m al fl [a] cs" and c: "coalesced m fl"
  shows "\<exists>m' fl' cs'. insert_free_list (Addr a) m = Inr m' \<and> heap_ok m' al fl' [] cs' \<and>
    frame al m m' \<and> coalesced m' fl' \<and> set fl' \<subseteq> insert a (set fl)"
proof -
  note h = heap_okD [OF ok]
  have a: "a \<notin> set fl" "a \<notin> set al" "in_heap m a" using h(1) chunk_bounds(6) [OF ok, of a] by auto
  obtain xs ys where fl: "fl = xs @ ys" "\<forall>b \<in> set xs. b < a" "\<forall>b \<in> set ys. a < b"
    using sorted_split [OF h(6) a(1)] by blast
  let ?m = "linked_state a xs ys m"
  have l: "linked m al (xs @ ys)" "a \<notin> set (xs @ ys)" using h(5) a(1) fl(1) by simp_all
  note ls = linked_state_linked [OF l a(2,3)]
  have size: "csize ?m = csize m" using ls(2) by (auto simp: same_sizes_def csize_def)
  have vm: "vm ?m = vm m" "bytes ?m = bytes m" using ls(2) by (simp_all add: same_sizes_def)
  have "sorted (xs @ a # ys)" using h(6) fl by (auto simp: sorted_append order_le_less)
  moreover have "mset cs = mset (al @ (xs @ a # ys) @ [])" using h(8) fl(1) by simp
  ultimately have ok': "heap_ok ?m al (xs @ a # ys) [] cs"
    using ok ls(1) a(1,2) unfolding heap_ok_def size vm ls(3) fl(1) by auto
  have fr: "frame al m ?m" using vm size by (simp add: frame_def)
  show ?thesis
  proof (cases "xs @ ys = []")
    case True
    then have "insert_free_list (Addr a) m = Inr ?m"
      using insert_free_run [OF l a(3) fl(2,3)] by simp
    moreover have "coalesced ?m (xs @ a # ys)"
      using True chunk_bounds(3) [OF ok', of a] by (auto simp: coalesced_def adjacent_def)
    ultimately show ?thesis using ok' fr True
      by (intro exI [of _ ?m] exI [of _ "xs @ a # ys"] exI [of _ cs]) auto
  next
    case False
    have "\<forall>b e. adjacent ?m (xs @ a # ys) b e \<longrightarrow> b = a \<or> e = a"
      using c unfolding coalesced_def adjacent_def size fl(1) by auto
    then obtain m' fl' cs' where "coalesce (Addr a) ?m = Inr m'" "heap_ok m' al fl' [] cs'" "frame al ?m m'"
        "coalesced m' fl'" "set fl' \<subseteq> set (xs @ a # ys)"
      using coalesce_heap [OF ok'] by blast
    then show ?thesis
      using False insert_free_run [OF l a(3) fl(2,3)] fr frame_trans fl(1)
      by (intro exI [of _ m'] exI [of _ fl'] exI [of _ cs']) auto
  qed
qed

end
