(* ===== verification/MmAlloc.thy ===== *)
theory MmAlloc
  imports MmHeap
begin

text \<open>
  \<open>mm_malloc\<close>, \<open>mm_free\<close> and \<open>mm_realloc\<close> of mm.c on a well formed heap. \<open>mm_ok m al fl\<close> is the
  invariant with the allocated chunks \<open>al\<close> and the free chunks \<open>fl\<close>.
\<close>

definition mm_ok :: "mm \<Rightarrow> nat list \<Rightarrow> nat list \<Rightarrow> bool" where
  "mm_ok m al fl \<longleftrightarrow> (\<exists>cs. heap_ok m al fl [] cs) \<and> coalesced m fl"

section \<open>Moving a chunk between the lists\<close>

lemma same_sizes_csize: "same_sizes m m' \<Longrightarrow> csize m' = csize m"
  by (auto simp: same_sizes_def csize_def)

lemma remove_free_heap:
  assumes ok: "heap_ok m al (xs @ a # ys) ex cs"
  shows "\<exists>m'. remove_from_list (Addr a) m = Inr m' \<and> heap_ok m' al (xs @ ys) (a # ex) cs \<and> same_sizes m m'"
proof -
  obtain m' where m': "remove_from_list (Addr a) m = Inr m'" "linked m' al (xs @ ys)" "same_sizes m m'"
      "same_status m m'"
    using remove_free_linked [OF heap_okD(5) [OF ok]] by blast
  have "sorted (xs @ ys)" using heap_okD(6) [OF ok] by (auto simp: sorted_append)
  then have "heap_ok m' al (xs @ ys) (a # ex) cs"
    using ok m'(2-4) same_sizes_csize [OF m'(3)] by (auto simp: heap_ok_def same_sizes_def same_status_def)
  then show ?thesis using m' by blast
qed

lemma remove_allocated_heap:
  assumes ok: "heap_ok m (xs @ a # ys) fl ex cs"
  shows "\<exists>m'. remove_from_list (Addr a) m = Inr m' \<and> heap_ok m' (xs @ ys) fl (a # ex) cs \<and> same_sizes m m'"
proof -
  obtain m' where m': "remove_from_list (Addr a) m = Inr m'" "linked m' (xs @ ys) fl" "same_sizes m m'"
      "same_status m m'"
    using remove_allocated_linked [OF heap_okD(5) [OF ok]] by blast
  then have "heap_ok m' (xs @ ys) fl (a # ex) cs"
    using ok m'(2-4) same_sizes_csize [OF m'(3)] by (auto simp: heap_ok_def same_sizes_def same_status_def)
  then show ?thesis using m' by blast
qed

lemma insert_allocated_heap:
  assumes ok: "heap_ok m al fl (a # ex) cs"
  shows "\<exists>m'. insert_allocated_list (Addr a) m = Inr m' \<and> heap_ok m' (a # al) fl ex cs \<and> same_sizes m m'"
proof -
  have a: "a \<notin> set al" "a \<notin> set fl" "in_heap m a"
    using heap_okD(1) [OF ok] chunk_bounds(6) [OF ok, of a] by auto
  obtain m' where m': "insert_allocated_list (Addr a) m = Inr m'" "linked m' (a # al) fl" "same_sizes m m'"
      "\<forall>b. h_status (hdrs m' b) = (b = a \<or> h_status (hdrs m b))"
    using insert_allocated_linked [OF heap_okD(5) [OF ok] a] by blast
  then have "heap_ok m' (a # al) fl ex cs"
    using ok a m'(2-4) same_sizes_csize [OF m'(3)] by (auto simp: heap_ok_def same_sizes_def)
  then show ?thesis using m' by blast
qed

lemma coalesced_subset:
  assumes "coalesced m fl" "set fl' \<subseteq> set fl" "\<forall>b \<in> set fl'. csize m' b = csize m b"
  shows "coalesced m' fl'"
  using assms by (force simp: coalesced_def adjacent_def)

section \<open>Sizes\<close>

definition chunk_need :: "64 word \<Rightarrow> nat" where
  "chunk_need sz = (unat sz + 15) div 16 * 16 + HDR"

lemma chunk_need_bounds:
  "unat sz + HDR \<le> chunk_need sz" "chunk_need sz < unat sz + 16 + HDR" "ALIGNMENT dvd chunk_need sz"
  "0 < unat sz \<Longrightarrow> HDR < chunk_need sz"
proof -
  have "unat sz \<le> (unat sz + 15) div 16 * 16" "(unat sz + 15) div 16 * 16 < unat sz + 16" by presburger+
  then show "unat sz + HDR \<le> chunk_need sz" "chunk_need sz < unat sz + 16 + HDR"
      "0 < unat sz \<Longrightarrow> HDR < chunk_need sz"
    unfolding chunk_need_def by linarith+
  have "ALIGNMENT dvd (HDR :: nat)" by simp
  then show "ALIGNMENT dvd chunk_need sz" unfolding chunk_need_def by (intro dvd_add) simp_all
qed

lemma get_newsize_need:
  assumes "unat sz \<le> 2 ^ 30"
  shows "get_newsize sz = int (chunk_need sz)" "to_size_t (int (chunk_need sz)) = chunk_need sz"
    "to_size_t (s32 (int (chunk_need sz) + MIN_GUARD)) = chunk_need sz + 1024"
    "to_size_t (int (chunk_need sz) + int HDR) = chunk_need sz + HDR"
proof -
  have n: "chunk_need sz < 2 ^ 30 + 48" using chunk_need_bounds(2) [of sz] assms by simp
  have "unat (align sz) = (unat sz + 15) div 16 * 16" using assms by (intro unat_align) simp
  then have "unat (align sz + of_nat HDR) = chunk_need sz"
    using n by (simp add: unat_word_ariths chunk_need_def)
  then have "uint (align sz + of_nat HDR) = int (chunk_need sz)" by (simp only: uint_nat)
  then show "get_newsize sz = int (chunk_need sz)"
    unfolding get_newsize_def using n by (simp add: s32_id)
  show "to_size_t (int (chunk_need sz)) = chunk_need sz" "to_size_t (int (chunk_need sz) + int HDR) = chunk_need sz + HDR"
    using n by (simp_all add: to_size_t_def nat_add_distrib)
  have "s32 (int (chunk_need sz) + MIN_GUARD) = int (chunk_need sz) + MIN_GUARD"
    using n by (intro s32_id) simp_all
  then show "to_size_t (s32 (int (chunk_need sz) + MIN_GUARD)) = chunk_need sz + 1024"
    using n by (simp add: to_size_t_def nat_add_distrib)
qed

section \<open>Searching the free list\<close>

lemma find_chunk_list:
  assumes "dseg (hdrs m) pv fl Null" "\<forall>a \<in> set fl. in_heap m a" "\<forall>a \<in> set fl. \<not> h_status (hdrs m a)"
    "length fl < f"
  shows "find_chunk f m fits (hd_or fl Null) =
    Inr (case find (\<lambda>a. fits (csize m a)) fl of None \<Rightarrow> Null | Some a \<Rightarrow> Addr a)"
  using assms
proof (induction fl arbitrary: f pv)
  case Nil
  then show ?case by (cases f) simp_all
next
  case (Cons a fl)
  then obtain g where "f = Suc g" by (cases f) auto
  then show ?case using Cons by (auto simp: csize_def)
qed

lemma find_chunk_heap:
  assumes "heap_ok m al fl ex cs"
  shows "find_chunk (heap_fuel m) m fits (global_free_list m) =
    Inr (case find (\<lambda>a. fits (csize m a)) fl of None \<Rightarrow> Null | Some a \<Rightarrow> Addr a)"
proof -
  have l: "linked m al fl" by (rule heap_okD(5) [OF assms])
  then have "length fl < heap_fuel m"
    using in_heap_bound [of fl m] by (auto simp: linked_def heap_fuel_def)
  then show ?thesis
    using find_chunk_list [of m Null fl "heap_fuel m" fits] l assms by (simp add: linked_def heap_ok_def)
qed

lemma find_SomeD: "find P xs = Some a \<Longrightarrow> \<exists>us vs. xs = us @ a # vs \<and> P a"
proof -
  assume "find P xs = Some a"
  then have "a \<in> set xs" "P a" by (metis find_Some_iff nth_mem)+
  then show ?thesis by (meson split_list)
qed

section \<open>The three ways to serve a request\<close>

lemma take_whole_ok:
  assumes ok: "mm_ok m al fl" and a: "a \<in> set fl"
  shows "\<exists>m' fl'. take_whole (Addr a) m = Inr (Addr (a + HDR), m') \<and> mm_ok m' (a # al) fl' \<and> same_sizes m m'"
proof -
  obtain cs where h: "heap_ok m al fl [] cs" and c: "coalesced m fl" using ok by (auto simp: mm_ok_def)
  obtain xs ys where fl: "fl = xs @ a # ys" using a by (meson split_list)
  obtain m1 where m1: "remove_from_list (Addr a) m = Inr m1" "heap_ok m1 al (xs @ ys) [a] cs" "same_sizes m m1"
    using remove_free_heap [OF h [unfolded fl]] by blast
  obtain m2 where m2: "insert_allocated_list (Addr a) m1 = Inr m2" "heap_ok m2 (a # al) (xs @ ys) [] cs"
      "same_sizes m1 m2"
    using insert_allocated_heap [OF m1(2)] by blast
  have s: "same_sizes m m2" using m1(3) m2(3) by (simp add: same_sizes_def)
  then have "coalesced m2 (xs @ ys)"
    using coalesced_subset [OF c, of "xs @ ys" m2] fl same_sizes_csize [OF s] by auto
  then show ?thesis
    using m1 m2 s by (intro exI [of _ m2] exI [of _ "xs @ ys"])
      (auto simp: take_whole_def header_to_payload_def ptr_add_def mm_ok_def)
qed

lemma linked_write:
  assumes "linked m al fl" "h_next h = h_next (hdrs m a) \<and> h_prev h = h_prev (hdrs m a) \<or> a \<notin> set (al @ fl)"
  shows "linked (m\<lparr>hdrs := (hdrs m)(a := h)\<rparr>) al fl"
proof -
  have "dseg ((hdrs m)(a := h)) Null zs Null = dseg (hdrs m) Null zs Null" if "set zs \<subseteq> set (al @ fl)" for zs
    using assms(2) that by (intro dseg_cong) auto
  then show ?thesis using assms(1) by (simp add: linked_def)
qed

lemma grow_heap_ok:
  assumes ok: "mm_ok m al fl" and sz: "0 < unat sz" "unat sz \<le> 2 ^ 30"
    and room: "mem_brk (vm m) + chunk_need sz \<le> mem_max_addr (vm m)"
  shows "\<exists>m'. grow_heap sz m = Inr (Addr (mem_brk (vm m) + HDR), m') \<and>
    mm_ok m' (mem_brk (vm m) # al) fl \<and> csize m' = (csize m)(mem_brk (vm m) := chunk_need sz) \<and>
    bytes m' = bytes m \<and> vm m' = (vm m)\<lparr>mem_brk := mem_brk (vm m) + chunk_need sz\<rparr> \<and> mem_brk (vm m) \<notin> set (al @ fl)"
proof -
  obtain cs where h: "heap_ok m al fl [] cs" and c: "coalesced m fl" using ok by (auto simp: mm_ok_def)
  let ?a = "mem_brk (vm m)" and ?n = "chunk_need sz"
  note n = get_newsize_need [OF sz(2)] and nb = chunk_need_bounds(3) chunk_need_bounds(4) [OF sz(1)]
  have vm: "mem_ok (vm m)" using h by (simp add: heap_ok_def)
  have new: "?a \<notin> set (al @ fl @ [])"
  proof
    assume "?a \<in> set (al @ fl @ [])"
    then show False using chunk_bounds(2,3) [OF h] by fastforce
  qed
  let ?v = "(vm m)\<lparr>mem_brk := ?a + ?n\<rparr>"
  let ?h = "(hdrs m ?a)\<lparr>h_size := ?n, h_status := True\<rparr>"
  let ?m = "m\<lparr>vm := ?v, hdrs := (hdrs m)(?a := ?h)\<rparr>"
  have sbrk: "mem_sbrk (int ?n) (vm m) = (Addr ?a, ?v)"
    using mem_sbrk_ok [OF vm, of "int ?n"] room by simp
  have "mem_start_brk (vm m) \<le> ?a" using vm by (simp add: mem_ok_def)
  then have a: "in_heap (m\<lparr>vm := ?v\<rparr>) ?a" using nb by (simp add: in_heap_def)
  have "in_heap (m\<lparr>vm := ?v\<rparr>) b" if "in_heap m b" for b using that by (simp add: in_heap_def)
  then have l: "linked (m\<lparr>vm := ?v\<rparr>) al fl"
    using heap_okD(5) [OF h] by (simp add: linked_def)
  have "linked ?m al fl" using linked_write [OF l] new by simp
  moreover have S: "csize ?m = (csize m)(?a := ?n)" by (auto simp: csize_def)
  moreover have "tiles (csize ?m) (mem_start_brk (vm m)) (cs @ [?a]) (?a + ?n)"
    unfolding S using tiles_snoc [OF heap_okD(7) [OF h]] new heap_okD(2) [OF h] nb by auto
  moreover have "mem_ok ?v" using vm room by (simp add: mem_ok_def)
  ultimately have "heap_ok ?m al fl [?a] (cs @ [?a])" using h new by (auto simp: heap_ok_def)
  from insert_allocated_heap [OF this]
  obtain m' where m': "insert_allocated_list (Addr ?a) ?m = Inr m'" "heap_ok m' (?a # al) fl [] (cs @ [?a])"
      "same_sizes ?m m'" by blast
  have S': "csize m' = (csize m)(?a := ?n)" using same_sizes_csize [OF m'(3)] S by simp
  have "coalesced m' fl" using coalesced_subset [OF c, of fl m'] new S' by auto
  moreover have "grow_heap sz m = Inr (Addr (?a + HDR), m')"
    using a m'(1) by (simp add: grow_heap_def n sbrk set_chunk_size_status_def header_to_payload_def ptr_add_def)
  ultimately show ?thesis
    using m' S' new by (intro exI [of _ m']) (auto simp: mm_ok_def same_sizes_def)
qed

text \<open>Splitting: the front of a free chunk is handed out, the rest goes back to the free list.\<close>

lemma take_split_ok:
  assumes ok: "mm_ok m al fl" and a: "a \<in> set fl"
    and n: "HDR < n" "ALIGNMENT dvd n" "n + HDR < csize m a" "to_size_t (int n) = n"
  shows "\<exists>m' fl'. take_split (int n) (Addr a) m = Inr (Addr (a + HDR), m') \<and> mm_ok m' (a # al) fl' \<and>
    csize m' a = n \<and> frame al m m'"
proof -
  obtain cs where h: "heap_ok m al fl [] cs" and c: "coalesced m fl" using ok by (auto simp: mm_ok_def)
  obtain xs ys where fl: "fl = xs @ a # ys" using a by (meson split_list)
  let ?r = "a + n" and ?s = "csize m a"
  have am: "a \<in> set (al @ fl @ [])" using a by simp
  note b = chunk_bounds [OF h am]
  have r: "?r \<notin> set (al @ fl @ [])"
  proof
    assume "?r \<in> set (al @ fl @ [])"
    then show False using chunks_disjoint [OF h am, of ?r] n by simp
  qed
  have d: "distinct (al @ xs @ a # ys)" using heap_okD(1) [OF h] fl by simp
  have r_in: "in_heap m ?r" using b n by (simp add: in_heap_def)
  \<comment> \<open>the header of the chunk shrinks\<close>
  let ?m1 = "m\<lparr>hdrs := (hdrs m)(a := (hdrs m a)\<lparr>h_size := n, h_status := True\<rparr>)\<rparr>"
  have l1: "linked ?m1 al (xs @ a # ys)" using linked_write heap_okD(5) [OF h] fl by simp
  obtain m2 where m2: "remove_from_list (Addr a) ?m1 = Inr m2" "linked m2 al (xs @ ys)"
      "same_sizes ?m1 m2" "same_status ?m1 m2"
    using remove_free_linked [OF l1] by blast
  have am2: "in_heap m2 a" using m2(3) b(6) by (simp add: same_sizes_def in_heap_def)
  obtain m3 where m3: "insert_allocated_list (Addr a) m2 = Inr m3" "linked m3 (a # al) (xs @ ys)"
      "same_sizes m2 m3" "\<forall>e. h_status (hdrs m3 e) = (e = a \<or> h_status (hdrs m2 e))"
    using insert_allocated_linked [OF m2(2) _ _ am2] d by auto
  have vm3: "vm m3 = vm m" "bytes m3 = bytes m" using m2(3) m3(3) by (simp_all add: same_sizes_def)
  have r3: "in_heap m3 ?r" using r_in vm3 by (simp add: in_heap_def)
  \<comment> \<open>and the rest gets a header of its own\<close>
  let ?m5 = "m3\<lparr>hdrs := (hdrs m3)(?r := (hdrs m3 ?r)\<lparr>h_next := Null, h_prev := Null, h_size := ?s - n, h_status := False\<rparr>)\<rparr>"
  have rest: "to_size_t (int ?s - int n) = ?s - n"
    using n(3) b(7) by (simp add: to_size_t_def nat_diff_distrib)
  have l5: "linked ?m5 (a # al) (xs @ ys)"
    using linked_write [OF m3(2)] r fl n(1) by simp
  have S: "csize ?m5 = (csize m)(a := n, ?r := ?s - n)"
    using m2(3) m3(3) n(1) by (auto simp: csize_def same_sizes_def)
  obtain us vs where cs: "cs = us @ a # vs" using am heap_okD(2) [OF h] by (metis UnI2 Un_assoc a in_set_conv_decomp sup_commute)
  have t: "tiles (csize ?m5) (mem_start_brk (vm m)) (us @ a # ?r # vs) (mem_brk (vm m))"
    unfolding S using tiles_split [of "csize m" _ us a vs] heap_okD(2,3,7) [OF h] cs n r by auto
  have mu: "mset (us @ a # ?r # vs) = mset ((a # al) @ (xs @ ys) @ [?r])"
    using heap_okD(8) [OF h] cs fl by simp
  have st: "h_status (hdrs ?m5 e) = (e \<noteq> ?r \<and> (e = a \<or> h_status (hdrs m e)))" for e
    using m2(4) m3(4) n(1) by (auto simp: same_status_def)
  have "sorted (xs @ ys)" using heap_okD(6) [OF h] fl by (auto simp: sorted_append)
  then have h5: "heap_ok ?m5 (a # al) (xs @ ys) [?r] (us @ a # ?r # vs)"
    using h l5 t mu st r d unfolding heap_ok_def fl by (auto simp: vm3)
  have "a \<notin> set (xs @ ys)" "?r \<notin> set (xs @ ys)" using d r fl by auto
  then have "\<forall>e \<in> set (xs @ ys). csize ?m5 e = csize m e" unfolding S by auto
  then have c5: "coalesced ?m5 (xs @ ys)"
    by (intro coalesced_subset [OF c]) (auto simp: fl)
  obtain m6 fl6 cs6 where m6: "insert_free_list (Addr ?r) ?m5 = Inr m6" "heap_ok m6 (a # al) fl6 [] cs6"
      "frame (a # al) ?m5 m6" "coalesced m6 fl6"
    using insert_free_heap [OF h5 c5] by blast
  have run: "take_split (int n) (Addr a) m = Inr (Addr (a + HDR), m6)"
    using b(6) r3 m2(1) m3(1) m6(1) rest n(4)
    by (simp add: take_split_def Let_def set_chunk_size_status_def header_to_next_header_def ptr_add_def
        init_header_def set_chunk_status_def header_to_payload_def csize_def)
  have "csize m6 a = n" using m6(3) S n(1) by (simp add: frame_def)
  moreover have "frame al m m6"
  proof -
    have "csize ?m5 e = csize m e" if "e \<in> set al" for e using S that d r by auto
    then show ?thesis using m6(3) vm3 by (simp add: frame_def)
  qed
  ultimately show ?thesis
    using run m6 by (intro exI [of _ m6] exI [of _ fl6]) (auto simp: mm_ok_def)
qed

section \<open>The allocator's functions\<close>

lemma find_memory_ok:
  assumes ok: "mm_ok m al fl" and sz: "0 < unat sz" "unat sz \<le> 2 ^ 30"
  shows "find_memory sz m = Inr (Null, m) \<or>
    (\<exists>a m' fl'. find_memory sz m = Inr (Addr (a + HDR), m') \<and> a \<in> set fl \<and> mm_ok m' (a # al) fl' \<and>
      unat sz + HDR \<le> csize m' a \<and> frame al m m')"
proof -
  obtain cs where h: "heap_ok m al fl [] cs" using ok by (auto simp: mm_ok_def)
  let ?n = "chunk_need sz"
  note n = get_newsize_need [OF sz(2)] and nb = chunk_need_bounds(1) [of sz] chunk_need_bounds(3) [of sz] chunk_need_bounds(4) [OF sz(1)]
  have sz0: "sz \<noteq> 0" using sz(1) by auto
  note fc = find_chunk_heap [OF h]
  show ?thesis
  proof (cases "find (\<lambda>a. fits_whole (int ?n) (csize m a)) fl")
    case (Some a)
    then have a: "a \<in> set fl" "?n \<le> csize m a"
      using find_SomeD [OF Some] n by (auto simp: fits_whole_def)
    obtain m' fl' where m': "take_whole (Addr a) m = Inr (Addr (a + HDR), m')" "mm_ok m' (a # al) fl'"
        "same_sizes m m'"
      using take_whole_ok [OF ok a(1)] by blast
    have "find_memory sz m = Inr (Addr (a + HDR), m')"
      using Some m'(1) sz0 by (simp add: find_memory_def n fc)
    moreover have "csize m' a = csize m a" "frame al m m'"
      using m'(3) same_sizes_csize [OF m'(3)] by (simp_all add: same_sizes_def frame_def)
    moreover have "unat sz + HDR \<le> csize m a" using a(2) nb(1) by simp
    ultimately show ?thesis using a(1) m'(2)
      by (intro disjI2 exI [of _ a] exI [of _ m'] exI [of _ fl']) simp
  next
    case None
    show ?thesis
    proof (cases "find (\<lambda>a. fits_split (int ?n) (csize m a)) fl")
      case (Some a)
      then have a: "a \<in> set fl" "?n + HDR < csize m a"
        using find_SomeD [OF Some] n by (auto simp: fits_split_def)
      obtain m' fl' where m': "take_split (int ?n) (Addr a) m = Inr (Addr (a + HDR), m')" "mm_ok m' (a # al) fl'"
          "csize m' a = ?n" "frame al m m'"
        using take_split_ok [OF ok a(1) nb(3,2) a(2) n(2)] by blast
      have "find_memory sz m = Inr (Addr (a + HDR), m')"
        using Some None m'(1) sz0 by (simp add: find_memory_def n fc)
      then show ?thesis using a(1) m'(2-4) nb(1)
        by (intro disjI2 exI [of _ a] exI [of _ m'] exI [of _ fl']) simp
    next
      case none2: None
      then show ?thesis using None sz0 by (simp add: find_memory_def n fc)
    qed
  qed
qed

lemma mm_malloc_ok:
  assumes ok: "mm_ok m al fl" and sz: "0 < unat sz" "unat sz \<le> 2 ^ 30"
    and room: "mem_brk (vm m) + chunk_need sz \<le> mem_max_addr (vm m)"
  shows "\<exists>a m' fl'. mm_malloc sz m = Inr (Addr (a + HDR), m') \<and> a \<notin> set al \<and> mm_ok m' (a # al) fl' \<and>
    unat sz + HDR \<le> csize m' a \<and> bytes m' = bytes m \<and> (\<forall>b \<in> set al. csize m' b = csize m b) \<and>
    (vm m' = vm m \<or> vm m' = (vm m)\<lparr>mem_brk := mem_brk (vm m) + chunk_need sz\<rparr>)"
proof -
  obtain cs where h: "heap_ok m al fl [] cs" using ok by (auto simp: mm_ok_def)
  have sz0: "sz \<noteq> 0" using sz(1) by auto
  from find_memory_ok [OF ok sz] show ?thesis
  proof (elim disjE exE conjE)
    assume "find_memory sz m = Inr (Null, m)"
    then have run: "mm_malloc sz m = grow_heap sz m" using sz0 by (simp add: mm_malloc_def)
    obtain m' where m': "grow_heap sz m = Inr (Addr (mem_brk (vm m) + HDR), m')"
        "mm_ok m' (mem_brk (vm m) # al) fl" "csize m' = (csize m)(mem_brk (vm m) := chunk_need sz)"
        "bytes m' = bytes m" "vm m' = (vm m)\<lparr>mem_brk := mem_brk (vm m) + chunk_need sz\<rparr>"
        "mem_brk (vm m) \<notin> set (al @ fl)"
      using grow_heap_ok [OF ok sz room] by blast
    then show ?thesis
      unfolding run using chunk_need_bounds(1) [of sz]
      by (intro exI [of _ "mem_brk (vm m)"] exI [of _ m'] exI [of _ fl]) auto
  next
    fix a m' fl'
    assume a: "find_memory sz m = Inr (Addr (a + HDR), m')" "a \<in> set fl" "mm_ok m' (a # al) fl'"
      "unat sz + HDR \<le> csize m' a" "frame al m m'"
    have "a \<notin> set al" using a(2) heap_okD(1) [OF h] by auto
    then show ?thesis
      using a sz0 by (intro exI [of _ a] exI [of _ m'] exI [of _ fl']) (auto simp: mm_malloc_def frame_def)
  qed
qed

lemma mm_free_ok:
  assumes ok: "mm_ok m (xs @ a # ys) fl"
  shows "\<exists>m' fl'. mm_free (Addr (a + HDR)) m = Inr m' \<and> mm_ok m' (xs @ ys) fl' \<and> frame (xs @ ys) m m'"
proof -
  obtain cs where h: "heap_ok m (xs @ a # ys) fl [] cs" and c: "coalesced m fl" using ok by (auto simp: mm_ok_def)
  obtain m1 where m1: "remove_from_list (Addr a) m = Inr m1" "heap_ok m1 (xs @ ys) fl [a] cs" "same_sizes m m1"
    using remove_allocated_heap [OF h] by blast
  have "coalesced m1 fl" using coalesced_subset [OF c, of fl m1] same_sizes_csize [OF m1(3)] by simp
  then obtain m' fl' cs' where m': "insert_free_list (Addr a) m1 = Inr m'" "heap_ok m' (xs @ ys) fl' [] cs'"
      "frame (xs @ ys) m1 m'" "coalesced m' fl'"
    using insert_free_heap [OF m1(2)] by blast
  have "frame (xs @ ys) m m1" using m1(3) same_sizes_csize [OF m1(3)] by (simp add: frame_def same_sizes_def)
  then have "frame (xs @ ys) m m'" using m'(3) frame_trans by blast
  moreover have "mm_free (Addr (a + HDR)) m = Inr m'"
    using m1(1) m'(1) by (simp add: mm_free_def payload_to_header_def)
  ultimately show ?thesis using m' by (auto simp: mm_ok_def)
qed

end
