(* ===== verification/AllocSpec.thy ===== *)
theory AllocSpec
  imports MemLib
begin

text \<open>
  What a \<open>malloc\<close> package promises its client, as the locale \<open>allocator\<close>: the blocks (payload address and
  payload size) that are allocated, how an allocation and a release change them, and that they are aligned
  and do not overlap. mm.c and mm-naive.c are its two instances.
\<close>

locale allocator =
  fixes inv :: "'s \<Rightarrow> bool"
    and blocks :: "'s \<Rightarrow> (nat \<times> nat) set"
    and room :: "64 word \<Rightarrow> 's \<Rightarrow> bool"
    and alloc :: "64 word \<Rightarrow> 's \<Rightarrow> (ptr \<times> 's) cres"
    and dealloc :: "ptr \<Rightarrow> 's \<Rightarrow> 's cres"
  assumes blocks_disjoint: "inv s \<Longrightarrow> (p, n) \<in> blocks s \<Longrightarrow> (q, k) \<in> blocks s \<Longrightarrow> p < q \<Longrightarrow> p + n \<le> q"
    and blocks_unique: "inv s \<Longrightarrow> (p, n) \<in> blocks s \<Longrightarrow> (p, k) \<in> blocks s \<Longrightarrow> n = k"
    and blocks_aligned: "inv s \<Longrightarrow> (p, n) \<in> blocks s \<Longrightarrow> ALIGNMENT dvd p"
    and alloc_law: "inv s \<Longrightarrow> 0 < unat sz \<Longrightarrow> room sz s \<Longrightarrow>
      \<exists>p n s'. alloc sz s = Inr (Addr p, s') \<and> inv s' \<and> unat sz \<le> n \<and> p \<notin> fst ` blocks s \<and>
        blocks s' = insert (p, n) (blocks s)"
    and dealloc_law: "inv s \<Longrightarrow> (p, n) \<in> blocks s \<Longrightarrow>
      \<exists>s'. dealloc (Addr p) s = Inr s' \<and> inv s' \<and> blocks s' = blocks s - {(p, n)}"
begin

text \<open>A new block overlaps no old one.\<close>

lemma alloc_fresh:
  assumes "inv s" "0 < unat sz" "room sz s"
  obtains p n s' where "alloc sz s = Inr (Addr p, s')" "inv s'" "unat sz \<le> n"
    "blocks s' = insert (p, n) (blocks s)" "ALIGNMENT dvd p"
    "\<And>q k. (q, k) \<in> blocks s \<Longrightarrow> p + n \<le> q \<or> q + k \<le> p"
proof -
  obtain p n s' where a: "alloc sz s = Inr (Addr p, s')" "inv s'" "unat sz \<le> n" "p \<notin> fst ` blocks s"
      "blocks s' = insert (p, n) (blocks s)"
    using alloc_law [OF assms] by blast
  have "ALIGNMENT dvd p" using blocks_aligned [OF a(2)] a(5) by auto
  moreover have "p + n \<le> q \<or> q + k \<le> p" if "(q, k) \<in> blocks s" for q k
  proof -
    have "q \<noteq> p" using a(4) that by force
    then consider "p < q" | "q < p" by linarith
    then show ?thesis
      using blocks_disjoint [OF a(2), of p n q k] blocks_disjoint [OF a(2), of q k p n] a(5) that by cases auto
  qed
  ultimately show thesis using that a by blast
qed

text \<open>Releasing what was just allocated gives the old blocks back.\<close>

lemma alloc_dealloc:
  assumes "inv s" "0 < unat sz" "room sz s" "alloc sz s = Inr (q, s1)"
  shows "\<exists>s2. dealloc q s1 = Inr s2 \<and> inv s2 \<and> blocks s2 = blocks s"
proof -
  obtain p n s' where a: "alloc sz s = Inr (Addr p, s')" "inv s'" "p \<notin> fst ` blocks s"
      "blocks s' = insert (p, n) (blocks s)"
    using alloc_law [OF assms(1-3)] by blast
  then have q: "q = Addr p" "s1 = s'" using assms(4) by simp_all
  obtain s2 where "dealloc (Addr p) s' = Inr s2" "inv s2" "blocks s2 = blocks s' - {(p, n)}"
    using dealloc_law [OF a(2), of p n] a(4) by auto
  moreover have "blocks s' - {(p, n)} = blocks s" using a(3,4) by force
  ultimately show ?thesis using q by auto
qed

text \<open>A client: any run of allocations and releases of live blocks keeps the blocks apart.\<close>

inductive run_step :: "'s \<Rightarrow> 's \<Rightarrow> bool" where
  run_alloc: "0 < unat sz \<Longrightarrow> room sz s \<Longrightarrow> alloc sz s = Inr (p, s') \<Longrightarrow> run_step s s'"
| run_dealloc: "(p, n) \<in> blocks s \<Longrightarrow> dealloc (Addr p) s = Inr s' \<Longrightarrow> run_step s s'"

lemma run_step_inv:
  assumes "run_step s s'" "inv s"
  shows "inv s'"
  using assms(1)
proof cases
  case (run_alloc sz p)
  then show ?thesis using alloc_law [OF assms(2) run_alloc(1,2)] by auto
next
  case (run_dealloc p n)
  then show ?thesis using dealloc_law [OF assms(2) run_dealloc(1)] by auto
qed

lemma run_inv: "reachable s run_step s' \<Longrightarrow> inv s \<Longrightarrow> inv s'"
  by (induction rule: reachable.induct) (auto intro: run_step_inv)

lemma run_apart:
  assumes "inv s" "reachable s run_step s'" "(p, n) \<in> blocks s'" "(q, k) \<in> blocks s'" "p \<noteq> q"
  shows "p + n \<le> q \<or> q + k \<le> p"
  using blocks_disjoint [OF run_inv [OF assms(2,1)]] assms(3-5) by (meson linorder_neqE_nat)

end

end
