(* ===== verification/MmSpec.thy ===== *)
theory MmSpec
  imports MmAlloc AllocSpec
begin

text \<open>
  mm.c as an instance of the allocator contract. The allocated blocks of a heap are read off by walking
  its chunks from the start of the heap to the break, the way \<open>mm_checkheap\<close> does.
\<close>

fun walk_chunks :: "nat \<Rightarrow> mm \<Rightarrow> nat \<Rightarrow> nat list" where
  "walk_chunks 0 m a = []"
| "walk_chunks (Suc f) m a =
     (if a < mem_brk (vm m) then a # walk_chunks f m (a + csize m a) else [])"

definition heap_chunks :: "mm \<Rightarrow> nat list" where
  "heap_chunks m = walk_chunks (mem_heapsize (vm m)) m (mem_start_brk (vm m))"

definition mm_blocks :: "mm \<Rightarrow> (nat \<times> nat) set" where
  "mm_blocks m = {(a + HDR, csize m a - HDR) | a. a \<in> set (heap_chunks m) \<and> h_status (hdrs m a)}"

definition mm_inv :: "mm \<Rightarrow> bool" where
  "mm_inv m \<longleftrightarrow> (\<exists>al fl. mm_ok m al fl)"

text \<open>Enough memory for a request, whatever the free list holds.\<close>

definition mm_room :: "64 word \<Rightarrow> mm \<Rightarrow> bool" where
  "mm_room sz m \<longleftrightarrow> unat sz \<le> 2 ^ 30 \<and> mem_brk (vm m) + chunk_need sz \<le> mem_max_addr (vm m)"

lemma walk_chunks_tiles:
  "tiles (csize m) a cs (mem_brk (vm m)) \<Longrightarrow> mem_brk (vm m) - a \<le> f \<Longrightarrow> walk_chunks f m a = cs"
proof (induction cs arbitrary: a f)
  case Nil
  then show ?case by (cases f) simp_all
next
  case (Cons b cs)
  have b: "b = a" "HDR < csize m a" "tiles (csize m) (a + csize m a) cs (mem_brk (vm m))"
    using Cons.prems(1) by auto
  have le: "a + csize m a \<le> mem_brk (vm m)" using tiles_le [OF b(3)] .
  then obtain g where "f = Suc g" using b(2) Cons.prems(2) by (cases f) auto
  then show ?case using Cons.IH [OF b(3), of g] b le Cons.prems(2) by simp
qed

lemma heap_chunks_eq: "heap_ok m al fl ex cs \<Longrightarrow> heap_chunks m = cs"
  unfolding heap_chunks_def by (rule walk_chunks_tiles [OF heap_okD(7)]) (simp_all add: mem_heapsize_def)

lemma mm_blocks_eq:
  assumes "mm_ok m al fl"
  shows "mm_blocks m = {(a + HDR, csize m a - HDR) | a. a \<in> set al}"
proof -
  obtain cs where h: "heap_ok m al fl [] cs" using assms by (auto simp: mm_ok_def)
  then have "a \<in> set cs \<and> h_status (hdrs m a) \<longleftrightarrow> a \<in> set al" for a
    using heap_okD(2) [OF h] by (auto simp: heap_ok_def)
  then show ?thesis by (simp add: mm_blocks_def heap_chunks_eq [OF h])
qed

text \<open>How a call may move the break.\<close>

definition grows :: "64 word \<Rightarrow> mm \<Rightarrow> mm \<Rightarrow> bool" where
  "grows sz m m' \<longleftrightarrow> vm m' = vm m \<or> vm m' = (vm m)\<lparr>mem_brk := mem_brk (vm m) + chunk_need sz\<rparr>"

lemma mm_malloc_full:
  assumes "mm_inv m" "0 < unat sz" "mm_room sz m"
  shows "\<exists>p n m'. mm_malloc sz m = Inr (Addr p, m') \<and> mm_inv m' \<and> unat sz \<le> n \<and> p \<notin> fst ` mm_blocks m \<and>
    mm_blocks m' = insert (p, n) (mm_blocks m) \<and> bytes m' = bytes m \<and> grows sz m m'"
proof -
  obtain al fl where ok: "mm_ok m al fl" using assms(1) by (auto simp: mm_inv_def)
  obtain a m' fl' where m': "mm_malloc sz m = Inr (Addr (a + HDR), m')" "a \<notin> set al" "mm_ok m' (a # al) fl'"
      "unat sz + HDR \<le> csize m' a" "\<forall>b \<in> set al. csize m' b = csize m b" "bytes m' = bytes m" "grows sz m m'"
    using mm_malloc_ok [OF ok assms(2)] assms(3) by (auto simp: mm_room_def grows_def)
  have "mm_blocks m' = insert (a + HDR, csize m' a - HDR) (mm_blocks m)"
    unfolding mm_blocks_eq [OF m'(3)] mm_blocks_eq [OF ok] using m'(5) by force
  moreover have "a + HDR \<notin> fst ` mm_blocks m" unfolding mm_blocks_eq [OF ok] using m'(2) by force
  ultimately show ?thesis
    using m' by (intro exI [of _ "a + HDR"] exI [of _ "csize m' a - HDR"] exI [of _ m']) (auto simp: mm_inv_def)
qed

lemma mm_free_full:
  assumes "mm_inv m" "(p, n) \<in> mm_blocks m"
  shows "\<exists>m'. mm_free (Addr p) m = Inr m' \<and> mm_inv m' \<and> mm_blocks m' = mm_blocks m - {(p, n)} \<and>
    bytes m' = bytes m \<and> vm m' = vm m"
proof -
  obtain al fl where ok: "mm_ok m al fl" using assms(1) by (auto simp: mm_inv_def)
  obtain a where a: "p = a + HDR" "n = csize m a - HDR" "a \<in> set al"
    using assms(2) unfolding mm_blocks_eq [OF ok] by auto
  then obtain xs ys where al: "al = xs @ a # ys" by (meson split_list)
  obtain m' fl' where m': "mm_free (Addr (a + HDR)) m = Inr m'" "mm_ok m' (xs @ ys) fl'" "frame (xs @ ys) m m'"
    using mm_free_ok [OF ok [unfolded al]] by blast
  have "a \<notin> set (xs @ ys)" using ok heap_okD(1) unfolding al mm_ok_def by fastforce
  then have "mm_blocks m' = mm_blocks m - {(p, n)}"
    unfolding mm_blocks_eq [OF m'(2)] mm_blocks_eq [OF ok] a(1,2) al
    using m'(3) by (auto simp: frame_def)
  then show ?thesis using m' a(1) by (auto simp: mm_inv_def frame_def)
qed

text \<open>The two laws of the contract.\<close>

lemma mm_alloc_law:
  assumes "mm_inv m" "0 < unat sz" "mm_room sz m"
  shows "\<exists>p n m'. mm_malloc sz m = Inr (Addr p, m') \<and> mm_inv m' \<and> unat sz \<le> n \<and> p \<notin> fst ` mm_blocks m \<and>
    mm_blocks m' = insert (p, n) (mm_blocks m)"
  using mm_malloc_full [OF assms] by blast

lemma mm_dealloc_law:
  assumes "mm_inv m" "(p, n) \<in> mm_blocks m"
  shows "\<exists>m'. mm_free (Addr p) m = Inr m' \<and> mm_inv m' \<and> mm_blocks m' = mm_blocks m - {(p, n)}"
  using mm_free_full [OF assms] by blast

lemma mm_blocks_in_heap:
  assumes "mm_inv m" "(p, n) \<in> mm_blocks m"
  shows "mem_start_brk (vm m) \<le> p" "p + n \<le> mem_brk (vm m)" "0 < n" "16 dvd p" "mem_brk (vm m) < 2 ^ 63"
proof -
  obtain al fl where ok: "mm_ok m al fl" using assms(1) by (auto simp: mm_inv_def)
  then obtain cs where h: "heap_ok m al fl [] cs" by (auto simp: mm_ok_def)
  obtain a where a: "p = a + HDR" "n = csize m a - HDR" "a \<in> set al"
    using assms(2) unfolding mm_blocks_eq [OF ok] by auto
  show "mem_start_brk (vm m) \<le> p" "p + n \<le> mem_brk (vm m)" "0 < n" "16 dvd p"
    using chunk_bounds(1-3,5) [OF h, of a] a by auto
  show "mem_brk (vm m) < 2 ^ 63" using h by (auto simp: heap_ok_def mem_ok_def)
qed

interpretation mma: allocator mm_inv mm_blocks mm_room mm_malloc mm_free
proof
  show "p + n \<le> q" if prems: "mm_inv s" "(p, n) \<in> mm_blocks s" "(q, k) \<in> mm_blocks s" "p < q" for s p n q k
  proof -
    obtain al fl where ok: "mm_ok s al fl" using prems(1) by (auto simp: mm_inv_def)
    then obtain cs where h: "heap_ok s al fl [] cs" by (auto simp: mm_ok_def)
    obtain a b where "p = a + HDR" "n = csize s a - HDR" "a \<in> set al" "q = b + HDR" "b \<in> set al"
      using prems(2,3) unfolding mm_blocks_eq [OF ok] by auto
    then show ?thesis using chunks_disjoint [OF h, of a b] chunk_bounds(3) [OF h, of a] prems(4) by simp
  qed
  show "n = k" if "mm_inv s" "(p, n) \<in> mm_blocks s" "(p, k) \<in> mm_blocks s" for s p n k
    using that by (auto simp: mm_blocks_def)
  show "ALIGNMENT dvd p" if prems: "mm_inv s" "(p, n) \<in> mm_blocks s" for s p n
  proof -
    obtain al fl where ok: "mm_ok s al fl" using prems(1) by (auto simp: mm_inv_def)
    then obtain cs where h: "heap_ok s al fl [] cs" by (auto simp: mm_ok_def)
    obtain a where "p = a + HDR" "a \<in> set al" using prems(2) unfolding mm_blocks_eq [OF ok] by auto
    then show ?thesis using chunk_bounds(5) [OF h, of a] by simp
  qed
qed (use mm_alloc_law mm_dealloc_law in blast)+

section \<open>The empty heap and reallocation\<close>

definition fresh_heap :: "nat \<Rightarrow> (nat \<Rightarrow> hdr) \<Rightarrow> (nat \<Rightarrow> 8 word) \<Rightarrow> mm" where
  "fresh_heap a H B = snd (mm_init
     \<lparr>vm = \<lparr>mem_start_brk = a, mem_brk = a, mem_max_addr = a + MAX_HEAP\<rparr>, hdrs = H, bytes = B,
      global_free_list = SBRK_FAILED, global_allocated_list_head = SBRK_FAILED\<rparr>)"

text \<open>Memory contents for concrete examples.\<close>

definition junk_hdrs :: "nat \<Rightarrow> hdr" where
  "junk_hdrs = (\<lambda>_. \<lparr>h_size = 0, h_next = Null, h_prev = Null, h_status = False\<rparr>)"

definition junk_bytes :: "nat \<Rightarrow> 8 word" where
  "junk_bytes = (\<lambda>_. 0)"

lemma fresh_heap_ok:
  assumes "0 < a" "ALIGNMENT dvd a" "a + MAX_HEAP < 2 ^ 63"
  shows "mm_ok (fresh_heap a H B) [] []"
proof -
  have "heap_ok (fresh_heap a H B) [] [] [] []"
    using assms by (simp add: heap_ok_def fresh_heap_def mm_init_def mem_ok_def linked_def)
  then show ?thesis by (auto simp: mm_ok_def coalesced_def adjacent_def)
qed

lemma fresh_heap_inv:
  assumes "0 < a" "ALIGNMENT dvd a" "a + MAX_HEAP < 2 ^ 63"
  shows "mm_inv (fresh_heap a H B)" "mm_blocks (fresh_heap a H B) = {}"
  using fresh_heap_ok [OF assms, of H B] mm_blocks_eq [OF fresh_heap_ok [OF assms, of H B]]
  by (auto simp: mm_inv_def)

lemma fresh_heap_room:
  assumes "unat sz \<le> 209715152"
  shows "mm_room sz (fresh_heap a H B)"
proof -
  have "chunk_need sz \<le> MAX_HEAP" using assms unfolding chunk_need_def by linarith
  then show ?thesis using assms by (simp add: mm_room_def fresh_heap_def mm_init_def)
qed

lemma linked_bytes: "linked (m\<lparr>bytes := B\<rparr>) al fl = linked m al fl"
  by (simp add: linked_def)

lemma mm_ok_bytes: "mm_ok (m\<lparr>bytes := B\<rparr>) al fl = mm_ok m al fl"
proof -
  have "csize (m\<lparr>bytes := B\<rparr>) = csize m" by (auto simp: csize_def)
  then show ?thesis by (simp add: mm_ok_def heap_ok_def coalesced_def adjacent_def linked_bytes)
qed

lemma mm_free_frame:
  assumes "mm_ok m al fl" "a \<in> set al"
  shows "\<exists>m' al' fl'. mm_free (Addr (a + HDR)) m = Inr m' \<and> mm_ok m' al' fl' \<and> set al' = set al - {a} \<and>
    frame al' m m'"
proof -
  obtain xs ys where al: "al = xs @ a # ys" using assms(2) by (meson split_list)
  have "a \<notin> set (xs @ ys)" using assms(1) heap_okD(1) unfolding al mm_ok_def by fastforce
  then have "set (xs @ ys) = set al - {a}" unfolding al by auto
  then show ?thesis using mm_free_ok [OF assms(1) [unfolded al]] by blast
qed

lemma mm_realloc_ok:
  assumes inv: "mm_inv m" and pn: "(p, n) \<in> mm_blocks m" and sz: "0 < unat sz" and room: "mm_room sz m"
  shows "\<exists>q k m'. mm_realloc (Addr p) sz m = Inr (Addr q, m') \<and> mm_inv m' \<and> unat sz \<le> k \<and>
    mm_blocks m' = insert (q, k) (mm_blocks m - {(p, n)}) \<and>
    (\<forall>i < min n (unat sz). bytes m' (q + i) = bytes m (p + i)) \<and>
    (\<forall>(r, j) \<in> mm_blocks m - {(p, n)}. \<forall>i < j. bytes m' (r + i) = bytes m (r + i)) \<and>
    (q, k) \<notin> mm_blocks m \<and> grows sz m m'"
proof -
  obtain al fl where ok: "mm_ok m al fl" using inv by (auto simp: mm_inv_def)
  obtain a where a: "p = a + HDR" "n = csize m a - HDR" "a \<in> set al"
    using pn unfolding mm_blocks_eq [OF ok] by auto
  obtain c m1 fl1 where m1: "mm_malloc sz m = Inr (Addr (c + HDR), m1)" "c \<notin> set al" "mm_ok m1 (c # al) fl1"
      "unat sz + HDR \<le> csize m1 c" "bytes m1 = bytes m" "\<forall>b \<in> set al. csize m1 b = csize m b" "grows sz m m1"
    using mm_malloc_ok [OF ok sz] room by (auto simp: mm_room_def grows_def)
  obtain cs where h1: "heap_ok m1 (c # al) fl1 [] cs" using m1(3) by (auto simp: mm_ok_def)
  have ca: "csize m1 a = csize m a" using m1(6) a(3) by simp
  have a1: "in_heap m1 a" "HDR < csize m a" "csize m a < 2 ^ 63"
    using chunk_bounds(3,6,7) [OF h1, of a] a(3) ca by auto
  have pay: "to_size_t (int (csize m a) - int HDR) = n"
    using a1 a(2) by (simp add: to_size_t_def nat_diff_distrib)
  let ?N = "if unat sz < n then unat sz else n"
  let ?m2 = "m1\<lparr>bytes := memcpy (c + HDR) (a + HDR) ?N (bytes m)\<rparr>"
  have copy: "copy_payload (Addr (c + HDR)) (Addr p) sz m1 = Inr ?m2"
    using a1(1) pay m1(5) ca
    by (simp add: copy_payload_def payload_to_header_def a(1) csize_def Let_def)
  obtain m3 al3 fl3 where m3: "mm_free (Addr (a + HDR)) ?m2 = Inr m3" "mm_ok m3 al3 fl3"
      "set al3 = set (c # al) - {a}" "frame al3 ?m2 m3"
    using mm_free_frame [of ?m2 "c # al" fl1 a] m1(3) a(3) by (auto simp: mm_ok_bytes)
  have sz0: "0 < sz" using sz by (metis unat_0 word_gt_0 less_irrefl)
  have run: "mm_realloc (Addr p) sz m = Inr (Addr (c + HDR), m3)"
    using m1(1) copy m3(1) sz0 by (simp add: mm_realloc_def a(1))
  have size3: "csize m3 b = (if b = c then csize m1 c else csize m b)" if "b \<in> set al3" for b
    using m3(3,4) m1(6) that by (auto simp: frame_def csize_def)
  have "c \<noteq> a" using m1(2) a(3) by auto
  have im: "mm_blocks M = (\<lambda>b. (b + HDR, csize M b - HDR)) ` set bs" if "mm_ok M bs fs" for M bs fs
    unfolding mm_blocks_eq [OF that] by (rule Setcompr_eq_image)
  have "mm_blocks m3 = (\<lambda>b. (b + HDR, (if b = c then csize m1 c else csize m b) - HDR)) ` set al3"
    unfolding im [OF m3(2)] by (rule image_cong) (simp_all add: size3)
  also have "set al3 = insert c (set al - {a})" using m3(3) \<open>c \<noteq> a\<close> by auto
  also have "(\<lambda>b. (b + HDR, (if b = c then csize m1 c else csize m b) - HDR)) ` insert c (set al - {a}) =
      insert (c + HDR, csize m1 c - HDR) ((\<lambda>b. (b + HDR, csize m b - HDR)) ` (set al - {a}))"
    unfolding image_insert using m1(2) by (intro arg_cong2 [where f = insert] image_cong) auto
  also have "(\<lambda>b. (b + HDR, csize m b - HDR)) ` (set al - {a}) = mm_blocks m - {(p, n)}"
    unfolding im [OF ok] a(1,2) using a(3) by (subst inj_on_image_set_diff [of _ "set al"]) (auto simp: inj_on_def)
  finally have blocks: "mm_blocks m3 = insert (c + HDR, csize m1 c - HDR) (mm_blocks m - {(p, n)})" .
  have by3: "bytes m3 = memcpy (c + HDR) (a + HDR) ?N (bytes m)" using m3(4) by (simp add: frame_def)
  have "bytes m3 (c + HDR + i) = bytes m (p + i)" if "i < min n (unat sz)" for i
    using that by (simp add: by3 memcpy_def a(1) split: if_splits)
  then have new: "\<forall>i < min n (unat sz). bytes m3 (c + HDR + i) = bytes m (p + i)" by blast
  have "bytes m3 (r + i) = bytes m (r + i)" if rj: "(r, j) \<in> mm_blocks m - {(p, n)}" "i < j" for r j i
  proof -
    obtain b where b: "r = b + HDR" "j = csize m b - HDR" "b \<in> set al" "b \<noteq> a"
      using rj(1) a unfolding mm_blocks_eq [OF ok] by auto
    have bc: "b \<noteq> c" "csize m1 b = csize m b" using b(3) m1(2,6) by auto
    have "b < c \<or> c < b" using bc(1) by auto
    then have "c + csize m1 c \<le> b \<or> b + csize m b \<le> c"
      using chunks_disjoint [OF h1, of b c] chunks_disjoint [OF h1, of c b] b(3) bc by auto
    then have "\<not> (c + HDR \<le> r + i \<and> r + i < c + HDR + ?N)"
      using b(1,2) rj(2) m1(4) by auto
    then show ?thesis unfolding by3 memcpy_def by (simp only: if_False)
  qed
  then have others: "\<forall>(r, j) \<in> mm_blocks m - {(p, n)}. \<forall>i < j. bytes m3 (r + i) = bytes m (r + i)" by blast
  have fresh: "(c + HDR, csize m1 c - HDR) \<notin> mm_blocks m"
    unfolding mm_blocks_eq [OF ok] using m1(2) by simp
  show ?thesis
  proof (intro exI conjI)
    show "mm_realloc (Addr p) sz m = Inr (Addr (c + HDR), m3)" by (rule run)
    show "mm_inv m3" using m3(2) unfolding mm_inv_def by blast
    show "unat sz \<le> csize m1 c - HDR" using m1(4) by simp
    show "mm_blocks m3 = insert (c + HDR, csize m1 c - HDR) (mm_blocks m - {(p, n)})" by (rule blocks)
    show "\<forall>i < min n (unat sz). bytes m3 (c + HDR + i) = bytes m (p + i)" by (rule new)
    show "\<forall>(r, j) \<in> mm_blocks m - {(p, n)}. \<forall>i < j. bytes m3 (r + i) = bytes m (r + i)" by (rule others)
    show "(c + HDR, csize m1 c - HDR) \<notin> mm_blocks m" by (rule fresh)
    show "grows sz m m3" using m1(7) m3(4) by (simp add: grows_def frame_def)
  qed
qed

section \<open>Properties\<close>

text \<open>C2: \<open>mm_malloc\<close> of a positive size, with room in the heap for it, returns an address that is a
  multiple of 16 and begins a block of at least that many bytes which overlaps no allocated block; the other
  blocks stay as they are and the heap is well formed again, whether the chunk was found whole, split off a
  free chunk or taken from \<open>mem_sbrk\<close>.\<close>

theorem mm_malloc_spec:
  assumes "mm_inv m" "0 < unat sz" "mm_room sz m"
  shows "\<exists>p n m'. mm_malloc sz m = Inr (Addr p, m') \<and> mm_inv m' \<and> unat sz \<le> n \<and> 16 dvd p \<and>
    mm_blocks m' = insert (p, n) (mm_blocks m) \<and> (\<forall>(q, k) \<in> mm_blocks m. p + n \<le> q \<or> q + k \<le> p)"
proof -
  obtain p n m' where "mm_malloc sz m = Inr (Addr p, m')" "mm_inv m'" "unat sz \<le> n"
      "mm_blocks m' = insert (p, n) (mm_blocks m)" "16 dvd p"
      "\<And>q k. (q, k) \<in> mm_blocks m \<Longrightarrow> p + n \<le> q \<or> q + k \<le> p"
    using mma.alloc_fresh [OF assms] by metis
  then show ?thesis by (intro exI [of _ p] exI [of _ n] exI [of _ m']) auto
qed

theorem mm_malloc_spec_witness:
  "\<exists>p n m'. mm_malloc 100 (fresh_heap 4096 junk_hdrs junk_bytes) = Inr (Addr p, m') \<and> 100 \<le> n \<and> mm_blocks m' = {(p, n)}"
  using mm_malloc_spec [of "fresh_heap 4096 junk_hdrs junk_bytes" 100] fresh_heap_inv [of 4096 junk_hdrs junk_bytes] fresh_heap_room [of 100 4096 junk_hdrs junk_bytes]
  by auto

text \<open>C3: \<open>mm_free\<close> of an allocated block returns, with a well formed heap in which exactly that block is
  no longer allocated; the free list is in address order and no two free chunks touch.\<close>

theorem mm_free_spec:
  assumes "mm_inv m" "(p, n) \<in> mm_blocks m"
  shows "\<exists>m' al fl. mm_free (Addr p) m = Inr m' \<and> mm_blocks m' = mm_blocks m - {(p, n)} \<and>
    mm_ok m' al fl \<and> sorted fl \<and> coalesced m' fl"
proof -
  obtain m' where m': "mm_free (Addr p) m = Inr m'" "mm_inv m'" "mm_blocks m' = mm_blocks m - {(p, n)}"
    using mma.dealloc_law [OF assms] by blast
  then obtain al fl where "mm_ok m' al fl" by (auto simp: mm_inv_def)
  moreover from this have "sorted fl" "coalesced m' fl" by (auto simp: mm_ok_def heap_ok_def)
  ultimately show ?thesis using m' by blast
qed

theorem mm_free_spec_witness:
  "\<exists>p m1 m2. mm_malloc 100 (fresh_heap 4096 junk_hdrs junk_bytes) = Inr (Addr p, m1) \<and> mm_free (Addr p) m1 = Inr m2 \<and>
    mm_blocks m2 = {}"
proof -
  obtain p n m' where m': "mm_malloc 100 (fresh_heap 4096 junk_hdrs junk_bytes) = Inr (Addr p, m')" "mm_inv m'"
      "mm_blocks m' = {(p, n)}"
    using mm_alloc_law [of "fresh_heap 4096 junk_hdrs junk_bytes" 100] fresh_heap_inv [of 4096 junk_hdrs junk_bytes] fresh_heap_room [of 100 4096 junk_hdrs junk_bytes]
    by auto
  then show ?thesis using mm_free_spec [of m' p n] by auto
qed

text \<open>C5: from an empty heap on, after any number of successful \<open>mm_malloc\<close> calls and of \<open>mm_free\<close> calls on
  allocated blocks, in any order, no two allocated blocks overlap.\<close>

theorem mm_blocks_never_overlap:
  assumes "0 < a" "16 dvd a" "a + MAX_HEAP < 2 ^ 63"
    "reachable (fresh_heap a H B) (mma.run_step) m" "(p, n) \<in> mm_blocks m" "(q, k) \<in> mm_blocks m" "p \<noteq> q"
  shows "p + n \<le> q \<or> q + k \<le> p"
  using mma.run_apart [OF fresh_heap_inv(1) [OF assms(1-3)] assms(4-7)] .

theorem mm_blocks_never_overlap_witness:
  "\<exists>m p n q k. reachable (fresh_heap 4096 junk_hdrs junk_bytes) mma.run_step m \<and> (p, n) \<in> mm_blocks m \<and>
    (q, k) \<in> mm_blocks m \<and> p \<noteq> q \<and> (p + n \<le> q \<or> q + k \<le> p)"
proof -
  let ?m = "fresh_heap 4096 junk_hdrs junk_bytes"
  have i: "mm_inv ?m" using fresh_heap_inv(1) [of 4096 junk_hdrs junk_bytes] by simp
  obtain p n m1 where m1: "mm_malloc 64 ?m = Inr (Addr p, m1)" "(p, n) \<in> mm_blocks m1" "mm_inv m1"
      "mem_brk (vm m1) = 4192" "mem_max_addr (vm m1) = 4096 + MAX_HEAP"
  proof -
    have n: "chunk_need 64 = 96" by (simp add: chunk_need_def)
    have run: "mm_malloc 64 ?m = grow_heap 64 ?m"
      by (simp add: mm_malloc_def find_memory_def heap_fuel_def fresh_heap_def mm_init_def)
    obtain m1 where "grow_heap 64 ?m = Inr (Addr (4096 + HDR), m1)" "mm_ok m1 [4096] []"
        "vm m1 = (vm ?m)\<lparr>mem_brk := 4096 + 96\<rparr>"
      using grow_heap_ok [OF fresh_heap_ok [of 4096 junk_hdrs junk_bytes], of 64] n by (auto simp: fresh_heap_def mm_init_def)
    then show thesis
      using that [of "4096 + HDR" m1 "csize m1 4096 - HDR"] run mm_blocks_eq
      by (auto simp: mm_inv_def fresh_heap_def mm_init_def)
  qed
  have r1: "reachable ?m mma.run_step m1"
    using mma.run_alloc [OF _ _ m1(1)] fresh_heap_room [of 64 4096 junk_hdrs junk_bytes] by (intro reach_step [OF reach_start]) simp
  have "mm_room 64 m1" using m1(4,5) by (simp add: mm_room_def chunk_need_def)
  then obtain q k m2 where m2: "mm_malloc 64 m1 = Inr (Addr q, m2)" "q \<notin> fst ` mm_blocks m1"
      "mm_blocks m2 = insert (q, k) (mm_blocks m1)"
    using mm_alloc_law [OF m1(3), of 64] by auto
  have r2: "reachable ?m mma.run_step m2"
    using mma.run_alloc [OF _ \<open>mm_room 64 m1\<close> m2(1)] by (intro reach_step [OF r1]) simp
  have "(p, n) \<in> mm_blocks m2" "(q, k) \<in> mm_blocks m2" "p \<noteq> q" using m1(2) m2(2,3) by force+
  moreover from this have "p + n \<le> q \<or> q + k \<le> p" using mm_blocks_never_overlap [OF _ _ _ r2] by simp
  ultimately show ?thesis using r2 by blast
qed

text \<open>C4: \<open>mm_realloc\<close> of an allocated block to a positive size with room gives a block of at least that
  size whose first bytes, up to the smaller of the two sizes, are those of the old block; the old block is
  released and the contents of every other block are unchanged.\<close>

theorem mm_realloc_spec:
  assumes "mm_inv m" "(p, n) \<in> mm_blocks m" "0 < unat sz" "mm_room sz m"
  shows "\<exists>q k m'. mm_realloc (Addr p) sz m = Inr (Addr q, m') \<and> mm_inv m' \<and> unat sz \<le> k \<and>
    mm_blocks m' = insert (q, k) (mm_blocks m - {(p, n)}) \<and>
    (\<forall>i < min n (unat sz). bytes m' (q + i) = bytes m (p + i)) \<and>
    (\<forall>(r, j) \<in> mm_blocks m - {(p, n)}. \<forall>i < j. bytes m' (r + i) = bytes m (r + i))"
  using mm_realloc_ok [OF assms] by (elim exE conjE) (intro exI conjI; assumption)

theorem mm_realloc_spec_witness:
  "\<exists>m p n q m'. mm_blocks m = {(p, n)} \<and> mm_realloc (Addr p) 8 m = Inr (Addr q, m') \<and>
    bytes m' q = bytes m p"
proof -
  let ?m = "fresh_heap 4096 junk_hdrs junk_bytes"
  have n: "chunk_need 64 = 96" by (simp add: chunk_need_def)
  obtain m1 where m1: "mm_ok m1 [4096] []" "csize m1 4096 = 96" "vm m1 = (vm ?m)\<lparr>mem_brk := 4096 + 96\<rparr>"
    using grow_heap_ok [OF fresh_heap_ok [of 4096 junk_hdrs junk_bytes], of 64] n by (auto simp: fresh_heap_def mm_init_def)
  have b: "mm_blocks m1 = {(4128, 64)}" using mm_blocks_eq [OF m1(1)] m1(2) by simp
  have "mm_room 8 m1" using m1(3) by (simp add: mm_room_def chunk_need_def fresh_heap_def mm_init_def)
  then obtain q m' where "mm_realloc (Addr 4128) 8 m1 = Inr (Addr q, m')"
      "\<forall>i < min 64 8. bytes m' (q + i) = bytes m1 (4128 + i)"
    using mm_realloc_spec [of m1 4128 64 8] m1(1) b by (auto simp: mm_inv_def)
  moreover from this have "bytes m' (q + 0) = bytes m1 (4128 + 0)" by (metis zero_less_numeral min_less_iff_conj)
  ultimately show ?thesis using b by (intro exI [of _ m1] exI [of _ 4128] exI [of _ 64] exI [of _ q] exI [of _ m']) simp
qed

text \<open>C30: the check of \<open>mem_sbrk\<close>'s result is commented out. When no free chunk fits and the heap cannot
  grow, \<open>mm_malloc\<close> does not return NULL: it writes a header at address \<open>(void *)-1\<close>.\<close>

theorem mm_malloc_out_of_memory:
  assumes "mm_inv m" "0 < unat sz" "unat sz \<le> 2 ^ 30" "find_memory sz m = Inr (Null, m)"
    "mem_max_addr (vm m) < mem_brk (vm m) + chunk_need sz"
  shows "mm_malloc sz m = Inl BadPointer"
proof -
  obtain al fl cs where "heap_ok m al fl [] cs" using assms(1) by (auto simp: mm_inv_def mm_ok_def)
  then have v: "mem_brk (vm m) < 2 ^ 63" by (simp add: heap_ok_def mem_ok_def)
  have "sz \<noteq> 0" using assms(2) by auto
  then show ?thesis
    using assms(4,5) get_newsize_need(1) [OF assms(3)] v
    by (simp add: mm_malloc_def grow_heap_def mem_sbrk_def set_chunk_size_status_def wr_def SBRK_FAILED_def in_heap_def)
qed

theorem mm_malloc_out_of_memory_witness:
  "mm_malloc 209715200 (fresh_heap 4096 junk_hdrs junk_bytes) = Inl BadPointer"
proof -
  have "find_memory 209715200 (fresh_heap 4096 junk_hdrs junk_bytes) = Inr (Null, fresh_heap 4096 junk_hdrs junk_bytes)"
    by (simp add: find_memory_def heap_fuel_def fresh_heap_def mm_init_def)
  moreover have "mem_max_addr (vm (fresh_heap 4096 junk_hdrs junk_bytes)) < mem_brk (vm (fresh_heap 4096 junk_hdrs junk_bytes)) + chunk_need 209715200"
    by (simp add: chunk_need_def fresh_heap_def mm_init_def)
  ultimately show ?thesis
    using mm_malloc_out_of_memory [of "fresh_heap 4096 junk_hdrs junk_bytes" 209715200] fresh_heap_inv(1) [of 4096 junk_hdrs junk_bytes] by simp
qed

text \<open>The chunk size is cut to an \<open>int\<close>: a request of 4 GiB is answered with a chunk of 32 bytes,
  all of it header, and so with a block of no bytes at all.\<close>

lemma mm_malloc_truncates:
  "\<exists>m'. mm_malloc 4294967296 (fresh_heap 4096 H B) = Inr (Addr 4128, m') \<and> mem_brk (vm m') = 4128"
proof -
  have "unat (align 4294967296) = 4294967296" by (subst unat_align) simp_all
  then have "unat (align 4294967296 + of_nat HDR) = 4294967328" by (simp add: unat_word_ariths)
  then have "uint (align 4294967296 + of_nat HDR) = 4294967328" by (simp only: uint_nat of_nat_numeral)
  then have "get_newsize 4294967296 = 32" by (simp add: get_newsize_def s32_def)
  then show ?thesis
    by (simp add: mm_malloc_def find_memory_def heap_fuel_def fresh_heap_def mm_init_def grow_heap_def
        mem_sbrk_def set_chunk_size_status_def in_heap_def to_size_t_def insert_allocated_list_def
        set_chunk_status_def header_to_payload_def ptr_add_def)
qed

text \<open>\<open>mm_checkheap\<close> dereferences a null pointer on any heap whose lowest chunk is the last of its
  list, as after a single \<open>mm_malloc\<close>: an argument of \<open>my_assert\<close> reads \<open>h->next->size\<close>.\<close>

lemma mm_checkheap_null:
  assumes "mem_start_brk (vm m) + HDR \<le> mem_brk (vm m)"
    "h_next (hdrs m (mem_start_brk (vm m))) = Null"
  shows "mm_checkheap m = Inl NullDeref"
  using assms
  by (simp add: mm_checkheap_def heap_fuel_def mem_heap_hi_def mem_heap_lo_def in_heap_def rd_def)

end
