(* ===== verification/MmDriver.thy ===== *)
theory MmDriver
  imports MmSpec
begin

text \<open>
  malloclab/mdriver.c: the list of payload ranges with which the driver looks for overlapping blocks, and the
  three interpreters of a trace for the package mm.c (validity, utilisation, speed) with the same interpreter
  for the C library's allocator, which is an argument. A trace is the list of its requests; the arrays
  \<open>blocks\<close> and \<open>block_sizes\<close> of \<open>trace_t\<close> start uninitialised. The text of an error message is left
  out, \<open>malloc_error\<close> counts; \<open>app_error\<close> and \<open>unix_error\<close> call \<open>exit(1)\<close>.
\<close>

section \<open>Range lists\<close>

record range =
  rg_lo :: nat
  rg_hi :: int

definition heap_contains :: "mem \<Rightarrow> int \<Rightarrow> bool" where
  "heap_contains v x \<longleftrightarrow> \<not> (x < int (mem_heap_lo v) \<or> x > mem_heap_hi v)"

text \<open>The new list, or \<open>None\<close> where \<open>add_range\<close> reports an error and returns 0.\<close>

definition ranges_overlap :: "int \<Rightarrow> int \<Rightarrow> range \<Rightarrow> bool" where
  "ranges_overlap lo hi p \<longleftrightarrow>
     (lo \<ge> int (rg_lo p) \<and> lo \<le> rg_hi p) \<or> (hi \<ge> int (rg_lo p) \<and> hi \<le> rg_hi p)"

definition add_range :: "mem \<Rightarrow> range list \<Rightarrow> nat \<Rightarrow> int \<Rightarrow> range list option cres" where
  "add_range v ranges lo sz =
     (let hi = int lo + sz - 1 in
      c_bind (c_assert (sz > 0)) (\<lambda>_.
      Inr (if \<not> is_aligned (of_nat lo) then None
           else if \<not> heap_contains v (int lo) \<or> \<not> heap_contains v hi then None
           else if list_ex (ranges_overlap (int lo) hi) ranges then None
           else Some (\<lparr>rg_lo = lo, rg_hi = hi\<rparr> # ranges))))"

fun remove_range :: "range list \<Rightarrow> nat \<Rightarrow> range list" where
  "remove_range [] lo = []"
| "remove_range (p # ps) lo = (if rg_lo p = lo then ps else p # remove_range ps lo)"

definition clear_ranges :: "range list \<Rightarrow> range list" where
  "clear_ranges ranges = []"

section \<open>Traces\<close>

datatype op_type = ALLOC | FREE | REALLOC

record traceop =
  op_type :: op_type
  op_index :: int
  op_size :: int

record drv =
  heap :: mm
  ranges :: "range list"
  tr_blocks :: "ptr option list"
  tr_sizes :: "nat option list"
  errors :: int

definition read_slot :: "'a option list \<Rightarrow> int \<Rightarrow> 'a cres" where
  "read_slot xs i = c_bind (arr_at xs i) (\<lambda>v. case v of None \<Rightarrow> Inl Uninitialised | Some x \<Rightarrow> Inr x)"

definition malloc_error :: "drv \<Rightarrow> drv" where
  "malloc_error d = d\<lparr>errors := errors d + 1\<rparr>"

definition app_error :: "'a cres" where
  "app_error = Inl (Exit 1)"

definition memset :: "nat \<Rightarrow> 8 word \<Rightarrow> int \<Rightarrow> (nat \<Rightarrow> 8 word) \<Rightarrow> nat \<Rightarrow> 8 word" where
  "memset p v n b = (\<lambda>x. if p \<le> x \<and> int x < int p + n then v else b x)"

definition remember :: "int \<Rightarrow> nat \<Rightarrow> int \<Rightarrow> drv \<Rightarrow> drv cres" where
  "remember index p sz d =
     c_bind (arr_set (tr_blocks d) index (Some (Addr p))) (\<lambda>bs.
     c_bind (arr_set (tr_sizes d) index (Some (to_size_t sz))) (\<lambda>ss.
     Inr (d\<lparr>tr_blocks := bs, tr_sizes := ss\<rparr>)))"

text \<open>The byte \<open>index & 0xFF\<close> and the test of \<open>newp[j]\<close>, a signed \<open>char\<close>, against it.\<close>

definition index_byte :: "int \<Rightarrow> 8 word" where
  "index_byte index = word_of_int index"

definition byte_differs :: "(nat \<Rightarrow> 8 word) \<Rightarrow> nat \<Rightarrow> int \<Rightarrow> bool" where
  "byte_differs b x index \<longleftrightarrow> sint (b x) \<noteq> index mod 256"

text \<open>The checks that follow a successful call: \<open>Inr (False, d)\<close> is the return of 0.\<close>

definition accept_block :: "int \<Rightarrow> nat \<Rightarrow> int \<Rightarrow> drv \<Rightarrow> (bool \<times> drv) cres" where
  "accept_block index p sz d =
     c_bind (add_range (vm (heap d)) (ranges d) p sz) (\<lambda>r.
     case r of
       None \<Rightarrow> Inr (False, malloc_error d)
     | Some rs \<Rightarrow> Inr (True, d\<lparr>ranges := rs\<rparr>))"

definition fill_block :: "int \<Rightarrow> nat \<Rightarrow> int \<Rightarrow> drv \<Rightarrow> (bool \<times> drv) cres" where
  "fill_block index p sz d =
     c_bind (remember index p sz (d\<lparr>heap := (heap d)\<lparr>bytes := memset p (index_byte index) sz (bytes (heap d))\<rparr>\<rparr>))
       (\<lambda>d. Inr (True, d))"

definition valid_alloc :: "int \<Rightarrow> int \<Rightarrow> drv \<Rightarrow> (bool \<times> drv) cres" where
  "valid_alloc index sz d =
     c_bind (mm_malloc (word_of_int sz) (heap d)) (\<lambda>(p, h). let d = d\<lparr>heap := h\<rparr> in
     case p of
       Null \<Rightarrow> Inr (False, malloc_error d)
     | Addr a \<Rightarrow> c_bind (accept_block index a sz d) (\<lambda>(ok, d).
         if ok then fill_block index a sz d else Inr (False, d)))"

definition ptr_addr :: "ptr \<Rightarrow> nat" where
  "ptr_addr p = (case p of Null \<Rightarrow> 0 | Addr a \<Rightarrow> a)"

definition valid_realloc :: "int \<Rightarrow> int \<Rightarrow> drv \<Rightarrow> (bool \<times> drv) cres" where
  "valid_realloc index sz d =
     c_bind (read_slot (tr_blocks d) index) (\<lambda>oldp.
     c_bind (mm_realloc oldp (word_of_int sz) (heap d)) (\<lambda>(newp, h). let d = d\<lparr>heap := h\<rparr> in
     case newp of
       Null \<Rightarrow> Inr (False, malloc_error d)
     | Addr a \<Rightarrow>
         let d = d\<lparr>ranges := remove_range (ranges d) (ptr_addr oldp)\<rparr> in
         c_bind (accept_block index a sz d) (\<lambda>(ok, d).
         if \<not> ok then Inr (False, d)
         else c_bind (read_slot (tr_sizes d) index) (\<lambda>old.
           let oldsize = s32 (int old); oldsize = (if sz < oldsize then sz else oldsize) in
           if list_ex (\<lambda>j. byte_differs (bytes (heap d)) (a + j) index) [0..<nat oldsize]
           then Inr (False, malloc_error d)
           else fill_block index a sz d))))"

definition valid_free :: "int \<Rightarrow> drv \<Rightarrow> (bool \<times> drv) cres" where
  "valid_free index d =
     c_bind (read_slot (tr_blocks d) index) (\<lambda>p.
     let d = d\<lparr>ranges := remove_range (ranges d) (ptr_addr p)\<rparr> in
     c_bind (mm_free p (heap d)) (\<lambda>h. Inr (True, d\<lparr>heap := h\<rparr>)))"

definition valid_op :: "traceop \<Rightarrow> drv \<Rightarrow> (bool \<times> drv) cres" where
  "valid_op r d = (case op_type r of
     ALLOC \<Rightarrow> valid_alloc (op_index r) (op_size r) d
   | REALLOC \<Rightarrow> valid_realloc (op_index r) (op_size r) d
   | FREE \<Rightarrow> valid_free (op_index r) d)"

fun valid_ops :: "traceop list \<Rightarrow> drv \<Rightarrow> (bool \<times> drv) cres" where
  "valid_ops [] d = Inr (True, d)"
| "valid_ops (r # rs) d = c_bind (valid_op r d) (\<lambda>(ok, d). if ok then valid_ops rs d else Inr (False, d))"

definition reset_heap :: "mm \<Rightarrow> int \<times> mm" where
  "reset_heap m = mm_init (m\<lparr>vm := mem_reset_brk (vm m)\<rparr>)"

definition eval_mm_valid :: "traceop list \<Rightarrow> drv \<Rightarrow> (int \<times> drv) cres" where
  "eval_mm_valid ops d =
     (let (r, h) = reset_heap (heap d); d = d\<lparr>heap := h, ranges := clear_ranges (ranges d)\<rparr> in
      if r < 0 then Inr (0, malloc_error d)
      else c_bind (valid_ops ops d) (\<lambda>(ok, d). Inr (if ok then 1 else 0, d)))"

section \<open>Utilisation and speed\<close>

record util =
  total_size :: int
  max_total_size :: int

definition account :: "int \<Rightarrow> util \<Rightarrow> util" where
  "account n u =
     (let total = s32 (total_size u + n) in
      \<lparr>total_size = total, max_total_size = (if total > max_total_size u then total else max_total_size u)\<rparr>)"

definition set_block :: "int \<Rightarrow> ptr \<Rightarrow> drv \<Rightarrow> drv cres" where
  "set_block index p d = c_bind (arr_set (tr_blocks d) index (Some p)) (\<lambda>bs. Inr (d\<lparr>tr_blocks := bs\<rparr>))"

definition set_size :: "int \<Rightarrow> int \<Rightarrow> drv \<Rightarrow> drv cres" where
  "set_size index sz d =
     c_bind (arr_set (tr_sizes d) index (Some (to_size_t sz))) (\<lambda>ss. Inr (d\<lparr>tr_sizes := ss\<rparr>))"

text \<open>One request for some allocator \<open>al\<close>, \<open>re\<close>, \<open>fr\<close>, as \<open>eval_mm_speed\<close> and the two functions for the C
  library make it.\<close>

definition speed_op ::
  "('h \<Rightarrow> int \<Rightarrow> (ptr \<times> 'h) cres) \<Rightarrow> ('h \<Rightarrow> ptr \<Rightarrow> int \<Rightarrow> (ptr \<times> 'h) cres) \<Rightarrow> ('h \<Rightarrow> ptr \<Rightarrow> 'h cres) \<Rightarrow>
   traceop \<Rightarrow> ptr option list \<times> 'h \<Rightarrow> (ptr option list \<times> 'h) cres" where
  "speed_op al re fr r = (\<lambda>(bs, h).
     case op_type r of
       ALLOC \<Rightarrow> c_bind (al h (op_size r)) (\<lambda>(p, h).
         if p = Null then app_error
         else c_bind (arr_set bs (op_index r) (Some p)) (\<lambda>bs. Inr (bs, h)))
     | REALLOC \<Rightarrow> c_bind (read_slot bs (op_index r)) (\<lambda>oldp.
         c_bind (re h oldp (op_size r)) (\<lambda>(newp, h).
         if newp = Null then app_error
         else c_bind (arr_set bs (op_index r) (Some newp)) (\<lambda>bs. Inr (bs, h))))
     | FREE \<Rightarrow> c_bind (read_slot bs (op_index r)) (\<lambda>p.
         c_bind (fr h p) (\<lambda>h. Inr (bs, h))))"

fun speed_ops ::
  "('h \<Rightarrow> int \<Rightarrow> (ptr \<times> 'h) cres) \<Rightarrow> ('h \<Rightarrow> ptr \<Rightarrow> int \<Rightarrow> (ptr \<times> 'h) cres) \<Rightarrow> ('h \<Rightarrow> ptr \<Rightarrow> 'h cres) \<Rightarrow>
   traceop list \<Rightarrow> ptr option list \<times> 'h \<Rightarrow> (ptr option list \<times> 'h) cres" where
  "speed_ops al re fr [] s = Inr s"
| "speed_ops al re fr (r # rs) s = c_bind (speed_op al re fr r s) (speed_ops al re fr rs)"

definition eval_mm_speed :: "traceop list \<Rightarrow> ptr option list \<Rightarrow> mm \<Rightarrow> (ptr option list \<times> mm) cres" where
  "eval_mm_speed ops bs m =
     (let (r, m) = reset_heap m in
      if r < 0 then app_error
      else speed_ops (\<lambda>h n. mm_malloc (word_of_int n) h) (\<lambda>h p n. mm_realloc p (word_of_int n) h)
        (\<lambda>h p. mm_free p h) ops (bs, m))"

text \<open>\<open>eval_libc_valid\<close> returns 1 when it gets to the end; \<open>eval_libc_speed\<close> makes the same calls.\<close>

definition eval_libc_valid ::
  "('h \<Rightarrow> int \<Rightarrow> (ptr \<times> 'h) cres) \<Rightarrow> ('h \<Rightarrow> ptr \<Rightarrow> int \<Rightarrow> (ptr \<times> 'h) cres) \<Rightarrow> ('h \<Rightarrow> ptr \<Rightarrow> 'h cres) \<Rightarrow>
   traceop list \<Rightarrow> ptr option list \<Rightarrow> 'h \<Rightarrow> (int \<times> ptr option list \<times> 'h) cres" where
  "eval_libc_valid al re fr ops bs h = c_bind (speed_ops al re fr ops (bs, h)) (\<lambda>s. Inr (1, s))"

definition eval_libc_speed ::
  "('h \<Rightarrow> int \<Rightarrow> (ptr \<times> 'h) cres) \<Rightarrow> ('h \<Rightarrow> ptr \<Rightarrow> int \<Rightarrow> (ptr \<times> 'h) cres) \<Rightarrow> ('h \<Rightarrow> ptr \<Rightarrow> 'h cres) \<Rightarrow>
   traceop list \<Rightarrow> ptr option list \<Rightarrow> 'h \<Rightarrow> (ptr option list \<times> 'h) cres" where
  "eval_libc_speed al re fr ops bs h = speed_ops al re fr ops (bs, h)"

definition util_op :: "traceop \<Rightarrow> drv \<times> util \<Rightarrow> (drv \<times> util) cres" where
  "util_op r = (\<lambda>(d, u). let index = op_index r; sz = op_size r in
     case op_type r of
       ALLOC \<Rightarrow> c_bind (mm_malloc (word_of_int sz) (heap d)) (\<lambda>(p, h).
         if p = Null then app_error
         else c_bind (set_block index p (d\<lparr>heap := h\<rparr>)) (\<lambda>d. c_bind (set_size index sz d) (\<lambda>d.
           Inr (d, account sz u))))
     | REALLOC \<Rightarrow> c_bind (read_slot (tr_sizes d) index) (\<lambda>old.
         c_bind (read_slot (tr_blocks d) index) (\<lambda>oldp.
         c_bind (mm_realloc oldp (word_of_int sz) (heap d)) (\<lambda>(newp, h).
         if newp = Null then app_error
         else c_bind (set_block index newp (d\<lparr>heap := h\<rparr>)) (\<lambda>d. c_bind (set_size index sz d) (\<lambda>d.
           Inr (d, account (s32 (sz - s32 (int old))) u))))))
     | FREE \<Rightarrow> c_bind (read_slot (tr_sizes d) index) (\<lambda>sz.
         c_bind (read_slot (tr_blocks d) index) (\<lambda>p.
         c_bind (mm_free p (heap d)) (\<lambda>h.
         Inr (d\<lparr>heap := h\<rparr>, u\<lparr>total_size := s32 (total_size u - s32 (int sz))\<rparr>)))))"

fun util_ops :: "traceop list \<Rightarrow> drv \<times> util \<Rightarrow> (drv \<times> util) cres" where
  "util_ops [] s = Inr s"
| "util_ops (r # rs) s = c_bind (util_op r s) (util_ops rs)"

text \<open>The two numbers whose quotient \<open>eval_mm_util\<close> returns as a \<open>double\<close>.\<close>

definition eval_mm_util :: "traceop list \<Rightarrow> drv \<Rightarrow> (int \<times> nat \<times> drv) cres" where
  "eval_mm_util ops d =
     (let (r, h) = reset_heap (heap d) in
      if r < 0 then app_error
      else c_bind (util_ops ops (d\<lparr>heap := h\<rparr>, \<lparr>total_size = 0, max_total_size = 0\<rparr>)) (\<lambda>(d, u).
        Inr (max_total_size u, mem_heapsize (vm (heap d)), d)))"

section \<open>The driver accepts the allocator\<close>

lemma unat_word_of_int: "0 \<le> x \<Longrightarrow> x < 2 ^ 64 \<Longrightarrow> unat (word_of_int x :: 64 word) = nat x"
  by (simp add: unat_eq_nat_uint uint_word_of_int)

definition block_range :: "(int \<Rightarrow> nat) \<Rightarrow> (int \<Rightarrow> nat) \<Rightarrow> int \<Rightarrow> range" where
  "block_range addr len i = \<lparr>rg_lo = addr i, rg_hi = int (addr i) + int (len i) - 1\<rparr>"

text \<open>The live block of index \<open>i\<close>: recorded in the two arrays, allocated, and filled with its byte.\<close>

definition live_block :: "drv \<Rightarrow> (int \<Rightarrow> nat) \<Rightarrow> (int \<Rightarrow> nat) \<Rightarrow> int \<Rightarrow> bool" where
  "live_block d addr len i \<longleftrightarrow>
     0 \<le> i \<and> i < int (length (tr_blocks d)) \<and>
     tr_blocks d ! nat i = Some (Addr (addr i)) \<and> tr_sizes d ! nat i = Some (len i) \<and>
     0 < len i \<and> len i \<le> 2 ^ 30 \<and> (\<exists>k. len i \<le> k \<and> (addr i, k) \<in> mm_blocks (heap d)) \<and>
     (\<forall>j < len i. bytes (heap d) (addr i + j) = index_byte i)"

definition drv_ok :: "drv \<Rightarrow> int set \<Rightarrow> (int \<Rightarrow> nat) \<Rightarrow> (int \<Rightarrow> nat) \<Rightarrow> bool" where
  "drv_ok d live addr len \<longleftrightarrow>
     mm_inv (heap d) \<and> length (tr_sizes d) = length (tr_blocks d) \<and> (\<forall>i \<in> live. live_block d addr len i) \<and>
     inj_on addr live \<and> set (ranges d) = block_range addr len ` live \<and> distinct (map rg_lo (ranges d))"

lemma ranges_apart:
  assumes "mm_inv h" "(p, n) \<in> mm_blocks h" "(rg_lo g, k) \<in> mm_blocks h" "rg_lo g \<noteq> p"
    "rg_hi g < int (rg_lo g) + int k" "0 < sz" "sz \<le> int n"
  shows "\<not> ranges_overlap (int p) (int p + sz - 1) g"
proof -
  have "p + n \<le> rg_lo g \<or> rg_lo g + k \<le> p"
    using mma.blocks_disjoint [OF assms(1,2,3)] mma.blocks_disjoint [OF assms(1,3,2)] assms(4)
    by (meson linorder_neqE_nat)
  then show ?thesis using assms(5-7) by (auto simp: ranges_overlap_def)
qed

lemma accept_block_ok:
  assumes inv: "mm_inv (heap d)" and p: "(p, n) \<in> mm_blocks (heap d)" and sz: "0 < sz" "sz \<le> int n"
    and others: "\<forall>g \<in> set (ranges d). rg_lo g \<noteq> p \<and>
      (\<exists>k. (rg_lo g, k) \<in> mm_blocks (heap d) \<and> rg_hi g < int (rg_lo g) + int k)"
  shows "accept_block index p sz d =
    Inr (True, d\<lparr>ranges := \<lparr>rg_lo = p, rg_hi = int p + sz - 1\<rparr> # ranges d\<rparr>)"
proof -
  note b = mm_blocks_in_heap [OF inv p]
  have "unat (of_nat p :: 64 word) = p"
    using b(2,5) by (simp add: unat_of_nat)
  then have "is_aligned (of_nat p)" using b(4) by (simp add: is_aligned_iff)
  moreover have "heap_contains (vm (heap d)) (int p)" "heap_contains (vm (heap d)) (int p + sz - 1)"
    using b sz by (simp_all add: heap_contains_def mem_heap_lo_def mem_heap_hi_def)
  moreover have "\<not> list_ex (ranges_overlap (int p) (int p + sz - 1)) (ranges d)"
    unfolding list_ex_iff using others ranges_apart [OF inv p _ _ _ sz] by blast
  ultimately show ?thesis using sz by (simp add: accept_block_def add_range_def Let_def)
qed

lemma remove_range_spec:
  assumes "distinct (map rg_lo rs)"
  shows "set (remove_range rs lo) = {g \<in> set rs. rg_lo g \<noteq> lo}" "distinct (map rg_lo (remove_range rs lo))"
proof -
  have "set (remove_range rs lo) = {g \<in> set rs. rg_lo g \<noteq> lo} \<and> distinct (map rg_lo (remove_range rs lo))"
    using assms
  proof (induction rs)
    case (Cons a rs)
    then have "rg_lo a \<notin> rg_lo ` set rs" by simp
    then have "\<forall>g \<in> set rs. rg_lo g \<noteq> rg_lo a" by (metis imageI)
    then show ?case using Cons by (cases "rg_lo a = lo") auto
  qed simp
  then show "set (remove_range rs lo) = {g \<in> set rs. rg_lo g \<noteq> lo}" "distinct (map rg_lo (remove_range rs lo))"
    by simp_all
qed

lemma drv_range_of:
  assumes "drv_ok d live addr len" "g \<in> set (ranges d)"
  obtains i k where "i \<in> live" "rg_lo g = addr i" "rg_hi g = int (addr i) + int (len i) - 1"
    "(addr i, k) \<in> mm_blocks (heap d)" "len i \<le> k"
  using assms by (auto simp: drv_ok_def block_range_def live_block_def)

lemma memset_outside: "x < p \<or> int p + sz \<le> int x \<Longrightarrow> memset p v sz b x = b x"
  by (auto simp: memset_def)

lemma mm_blocks_bytes: "mm_blocks (m\<lparr>bytes := B\<rparr>) = mm_blocks m"
proof -
  have c: "csize (m\<lparr>bytes := B\<rparr>) = csize m" by (auto simp: csize_def)
  have "walk_chunks f (m\<lparr>bytes := B\<rparr>) a = walk_chunks f m a" for f a
    by (induction f arbitrary: a) (simp_all add: c)
  then show ?thesis by (simp add: mm_blocks_def heap_chunks_def c)
qed

lemma mm_inv_bytes: "mm_inv (m\<lparr>bytes := B\<rparr>) = mm_inv m"
  by (simp add: mm_inv_def mm_ok_bytes)

text \<open>Filling and recording a block whose range has just been added.\<close>

lemma fill_block_ok:
  assumes inv: "mm_inv (heap d)" and p: "(p, n) \<in> mm_blocks (heap d)" and sz: "0 < sz" "sz \<le> int n" "sz \<le> 2 ^ 30"
    and len: "length (tr_sizes d) = length (tr_blocks d)" and i: "0 \<le> i" "i < int (length (tr_blocks d))"
    and live: "\<forall>j \<in> live - {i}. live_block d addr ln j \<and> addr j \<noteq> p" and inj: "inj_on addr (live - {i})"
    and rs: "set (ranges d) = insert \<lparr>rg_lo = p, rg_hi = int p + sz - 1\<rparr> (block_range addr ln ` (live - {i}))"
      "distinct (map rg_lo (ranges d))"
  shows "\<exists>d'. fill_block i p sz d = Inr (True, d') \<and> drv_ok d' (insert i live) (addr(i := p)) (ln(i := nat sz)) \<and>
    vm (heap d') = vm (heap d) \<and> errors d' = errors d"
proof -
  let ?B = "memset p (index_byte i) sz (bytes (heap d))"
  let ?d = "d\<lparr>heap := (heap d)\<lparr>bytes := ?B\<rparr>, tr_blocks := (tr_blocks d)[nat i := Some (Addr p)],
    tr_sizes := (tr_sizes d)[nat i := Some (to_size_t sz)]\<rparr>"
  have t: "to_size_t sz = nat sz" using sz by (simp add: to_size_t_def)
  have ranges_same: "ranges ?d = ranges d" by simp
  have run: "fill_block i p sz d = Inr (True, ?d)"
    using i len by (simp add: fill_block_def remember_def arr_set_int)
  have self: "live_block ?d (addr(i := p)) (ln(i := nat sz)) i"
    using i len sz p unfolding live_block_def
    by (auto simp: t mm_blocks_bytes memset_def intro!: exI [of _ n])
  have old: "live_block ?d (addr(i := p)) (ln(i := nat sz)) j" if j: "j \<in> live - {i}" for j
  proof -
    have l: "live_block d addr ln j" "addr j \<noteq> p" "j \<noteq> i" using live j by auto
    then obtain k where k: "ln j \<le> k" "(addr j, k) \<in> mm_blocks (heap d)" by (auto simp: live_block_def)
    have ap: "p + n \<le> addr j \<or> addr j + k \<le> p"
      using mma.blocks_disjoint [OF inv p k(2)] mma.blocks_disjoint [OF inv k(2) p] l(2)
      by (meson linorder_neqE_nat)
    have "?B (addr j + x) = bytes (heap d) (addr j + x)" if "x < ln j" for x
      using ap that k(1) sz by (intro memset_outside) auto
    moreover have "nat j \<noteq> nat i" using l i by (auto simp: live_block_def)
    ultimately show ?thesis using l by (simp add: live_block_def mm_blocks_bytes)
  qed
  have "inj_on (addr(i := p)) (insert i live)"
    using inj live by (auto simp: inj_on_def)
  moreover have "set (ranges ?d) = block_range (addr(i := p)) (ln(i := nat sz)) ` insert i live"
  proof -
    have "block_range (addr(i := p)) (ln(i := nat sz)) i = \<lparr>rg_lo = p, rg_hi = int p + sz - 1\<rparr>"
      using sz by (simp add: block_range_def)
    moreover have "block_range (addr(i := p)) (ln(i := nat sz)) ` (live - {i}) = block_range addr ln ` (live - {i})"
      by (rule image_cong) (simp_all add: block_range_def)
    moreover have "insert i live = insert i (live - {i})" by auto
    ultimately show ?thesis using rs(1) by (metis image_insert ranges_same)
  qed
  ultimately have "drv_ok ?d (insert i live) (addr(i := p)) (ln(i := nat sz))"
    using self old inv len rs(2) by (auto simp: drv_ok_def mm_inv_bytes)
  then show ?thesis using run by (intro exI [of _ ?d]) simp
qed

section \<open>One request\<close>

definition heap_left :: "mm \<Rightarrow> nat" where
  "heap_left m = mem_max_addr (vm m) - mem_brk (vm m)"

definition heap_area :: "mm \<Rightarrow> nat \<times> nat" where
  "heap_area m = (mem_start_brk (vm m), mem_max_addr (vm m))"

lemma grows_left:
  assumes "grows sz m m'" "chunk_need sz + k \<le> heap_left m"
  shows "k \<le> heap_left m'"
  using assms by (auto simp: grows_def heap_left_def)

lemma grows_area: "grows sz m m' \<Longrightarrow> heap_area m' = heap_area m"
  by (auto simp: grows_def heap_area_def)

text \<open>What a request leaves alone, and the \<open>k\<close> bytes that are still there for later ones.\<close>

definition goes_on :: "drv \<Rightarrow> drv \<Rightarrow> nat \<Rightarrow> bool" where
  "goes_on d d' k \<longleftrightarrow> length (tr_blocks d') = length (tr_blocks d) \<and>
     length (tr_sizes d') = length (tr_sizes d) \<and> k \<le> heap_left (heap d') \<and>
     heap_area (heap d') = heap_area (heap d) \<and> errors d' = errors d"

lemma goes_on_trans: "goes_on d d1 j \<Longrightarrow> goes_on d1 d2 k \<Longrightarrow> goes_on d d2 k"
  by (simp add: goes_on_def)

lemma room_left: "unat sz \<le> 2 ^ 30 \<Longrightarrow> 0 < unat sz \<Longrightarrow> chunk_need sz + k \<le> heap_left m \<Longrightarrow> mm_room sz m"
  using chunk_need_bounds(4) [of sz] by (auto simp: mm_room_def heap_left_def)

lemma drv_ok_ids: "drv_ok d live addr ln \<Longrightarrow> i \<in> live \<Longrightarrow> live_block d addr ln i"
  by (simp add: drv_ok_def)

lemma live_block_cong:
  assumes "live_block d addr ln j" "tr_blocks d' = tr_blocks d" "tr_sizes d' = tr_sizes d"
    "\<And>k. (addr j, k) \<in> mm_blocks (heap d) \<Longrightarrow> (addr j, k) \<in> mm_blocks (heap d')"
    "\<And>x k. (addr j, k) \<in> mm_blocks (heap d) \<Longrightarrow> ln j \<le> k \<Longrightarrow> x < ln j \<Longrightarrow>
      bytes (heap d') (addr j + x) = bytes (heap d) (addr j + x)"
  shows "live_block d' addr ln j"
proof -
  obtain k where "ln j \<le> k" "(addr j, k) \<in> mm_blocks (heap d)" using assms(1) by (auto simp: live_block_def)
  then show ?thesis using assms by (auto simp: live_block_def)
qed

lemma drv_others:
  assumes ok: "drv_ok d live addr ln" and g: "g \<in> set (ranges d)"
  shows "\<exists>k. (rg_lo g, k) \<in> mm_blocks (heap d) \<and> rg_hi g < int (rg_lo g) + int k"
proof -
  obtain i k where "rg_lo g = addr i" "rg_hi g = int (addr i) + int (ln i) - 1"
    "(addr i, k) \<in> mm_blocks (heap d)" "ln i \<le> k"
    by (rule drv_range_of [OF assms])
  then show ?thesis by (intro exI [of _ k]) simp
qed

lemma valid_alloc_ok:
  assumes ok: "drv_ok d live addr ln" and i: "0 \<le> i" "i < int (length (tr_blocks d))" "i \<notin> live"
    and sz: "0 < sz" "sz \<le> 2 ^ 30" and left: "chunk_need (word_of_int sz) + k \<le> heap_left (heap d)"
  shows "\<exists>d' addr' ln'. valid_alloc i sz d = Inr (True, d') \<and> drv_ok d' (insert i live) addr' ln' \<and>
    goes_on d d' k"
proof -
  have u: "unat (word_of_int sz :: 64 word) = nat sz" using sz by (intro unat_word_of_int) simp_all
  have inv: "mm_inv (heap d)" using ok by (simp add: drv_ok_def)
  have room: "mm_room (word_of_int sz) (heap d)" using room_left [OF _ _ left] u sz by simp
  obtain p n h where h: "mm_malloc (word_of_int sz) (heap d) = Inr (Addr p, h)" "mm_inv h" "nat sz \<le> n"
      "p \<notin> fst ` mm_blocks (heap d)" "mm_blocks h = insert (p, n) (mm_blocks (heap d))"
      "bytes h = bytes (heap d)" "grows (word_of_int sz) (heap d) h"
    using mm_malloc_full [OF inv _ room] u sz by auto
  let ?d = "d\<lparr>heap := h\<rparr>"
  let ?d2 = "?d\<lparr>ranges := \<lparr>rg_lo = p, rg_hi = int p + sz - 1\<rparr> # ranges d\<rparr>"
  have fresh: "rg_lo g \<noteq> p" if "g \<in> set (ranges d)" for g
    using drv_others [OF ok that] h(4) by force
  have others: "\<forall>g \<in> set (ranges ?d). rg_lo g \<noteq> p \<and>
      (\<exists>k. (rg_lo g, k) \<in> mm_blocks (heap ?d) \<and> rg_hi g < int (rg_lo g) + int k)"
    using drv_others [OF ok] fresh h(5) by auto
  have acc: "accept_block i p sz ?d = Inr (True, ?d2)"
    using accept_block_ok [OF _ _ sz(1) _ others, of n] h(2,3,5) sz by simp
  have lives: "live_block ?d2 addr ln j \<and> addr j \<noteq> p" if "j \<in> live - {i}" for j
  proof -
    have l: "live_block d addr ln j" using ok that by (simp add: drv_ok_def)
    then have "addr j \<noteq> p" using h(4) by (force simp: live_block_def)
    then show ?thesis using live_block_cong [OF l, of ?d2] h(5,6) by simp
  qed
  have "\<exists>d'. fill_block i p sz ?d2 = Inr (True, d') \<and> drv_ok d' (insert i live) (addr(i := p)) (ln(i := nat sz)) \<and>
      vm (heap d') = vm (heap ?d2) \<and> errors d' = errors ?d2"
    using ok i h(2,3,5) sz lives fresh
    by (intro fill_block_ok [where n = n]) (auto simp: drv_ok_def inj_on_def)
  then obtain d' where d': "fill_block i p sz ?d2 = Inr (True, d')"
      "drv_ok d' (insert i live) (addr(i := p)) (ln(i := nat sz))" "vm (heap d') = vm h" "errors d' = errors d" by auto
  have "valid_alloc i sz d = Inr (True, d')" using h(1) acc d'(1) by (simp add: valid_alloc_def)
  moreover have "length (tr_blocks d') = length (tr_blocks d)"
    using d'(1) i ok by (auto simp: fill_block_def remember_def arr_set_int drv_ok_def)
  moreover have "k \<le> heap_left (heap d')" using grows_left [OF h(7) left] d'(3) by (simp add: heap_left_def)
  moreover have "heap_area (heap d') = heap_area (heap d)" using grows_area [OF h(7)] d'(3) by (simp add: heap_area_def)
  moreover have "length (tr_sizes d') = length (tr_sizes d)" using d'(2) ok calculation(2) by (simp add: drv_ok_def)
  ultimately show ?thesis using d'(2,4) by (auto simp: goes_on_def)
qed

text \<open>Taking the range of a live index off the list.\<close>

lemma drop_range:
  assumes ok: "drv_ok d live addr ln" and i: "i \<in> live"
  shows "set (remove_range (ranges d) (addr i)) = block_range addr ln ` (live - {i})"
    "distinct (map rg_lo (remove_range (ranges d) (addr i)))"
proof -
  have d: "set (ranges d) = block_range addr ln ` live" "distinct (map rg_lo (ranges d))" "inj_on addr live"
    using ok by (simp_all add: drv_ok_def)
  have "{g \<in> block_range addr ln ` live. rg_lo g \<noteq> addr i} = block_range addr ln ` (live - {i})"
    using d(3) i by (auto simp: block_range_def inj_on_def)
  then show "set (remove_range (ranges d) (addr i)) = block_range addr ln ` (live - {i})"
    using remove_range_spec(1) [OF d(2)] d(1) by simp
  show "distinct (map rg_lo (remove_range (ranges d) (addr i)))" using remove_range_spec(2) [OF d(2)] .
qed

lemma read_live:
  assumes "live_block d addr ln i" "length (tr_sizes d) = length (tr_blocks d)"
  shows "read_slot (tr_blocks d) i = Inr (Addr (addr i))" "read_slot (tr_sizes d) i = Inr (ln i)"
  using assms by (simp_all add: live_block_def read_slot_def arr_at_int)

lemma addr_distinct: "drv_ok d live addr ln \<Longrightarrow> i \<in> live \<Longrightarrow> j \<in> live - {i} \<Longrightarrow> addr j \<noteq> addr i"
  by (auto simp: drv_ok_def inj_on_def)

lemma valid_free_ok:
  assumes ok: "drv_ok d live addr ln" and i: "i \<in> live" and left: "k \<le> heap_left (heap d)"
  shows "\<exists>d'. valid_free i d = Inr (True, d') \<and> drv_ok d' (live - {i}) addr ln \<and>
    goes_on d d' k"
proof -
  have l: "live_block d addr ln i" and len: "length (tr_sizes d) = length (tr_blocks d)" and inv: "mm_inv (heap d)"
    using ok i by (simp_all add: drv_ok_def)
  obtain n where n: "(addr i, n) \<in> mm_blocks (heap d)" using l by (auto simp: live_block_def)
  obtain h where h: "mm_free (Addr (addr i)) (heap d) = Inr h" "mm_inv h"
      "mm_blocks h = mm_blocks (heap d) - {(addr i, n)}" "bytes h = bytes (heap d)" "vm h = vm (heap d)"
    using mm_free_full [OF inv n] by blast
  let ?d = "d\<lparr>ranges := remove_range (ranges d) (addr i), heap := h\<rparr>"
  have "live_block ?d addr ln j" if "j \<in> live - {i}" for j
    using live_block_cong [OF drv_ok_ids [OF ok], of j ?d] that addr_distinct [OF ok i that] h(3,4) by simp
  then have "drv_ok ?d (live - {i}) addr ln"
    using drop_range [OF ok i] h(2) len ok by (auto simp: drv_ok_def inj_on_def)
  moreover have "valid_free i d = Inr (True, ?d)"
    using read_live(1) [OF l len] h(1) by (simp add: valid_free_def ptr_addr_def)
  ultimately show ?thesis using left h(5)
    by (intro exI [of _ ?d]) (simp add: goes_on_def heap_left_def heap_area_def)
qed

lemma sint_index_byte:
  assumes "i mod 256 < 128"
  shows "sint (index_byte i) = i mod 256"
proof -
  have "uint (index_byte i) = i mod 256" by (simp add: index_byte_def uint_word_of_int)
  moreover have "sint (index_byte i) = signed_take_bit 7 (uint (index_byte i))" by (simp add: sint_uint)
  ultimately show ?thesis using assms by (simp add: signed_take_bit_int_eq_self)
qed

lemma valid_realloc_ok:
  assumes ok: "drv_ok d live addr ln" and i: "i \<in> live" "i mod 256 < 128"
    and sz: "0 < sz" "sz \<le> 2 ^ 30" and left: "chunk_need (word_of_int sz) + k \<le> heap_left (heap d)"
  shows "\<exists>d' addr' ln'. valid_realloc i sz d = Inr (True, d') \<and> drv_ok d' live addr' ln' \<and>
    goes_on d d' k"
proof -
  have u: "unat (word_of_int sz :: 64 word) = nat sz" using sz by (intro unat_word_of_int) simp_all
  have l: "live_block d addr ln i" and len: "length (tr_sizes d) = length (tr_blocks d)" and inv: "mm_inv (heap d)"
    using ok i by (simp_all add: drv_ok_def)
  have room: "mm_room (word_of_int sz) (heap d)" using room_left [OF _ _ left] u sz by simp
  obtain n where n: "(addr i, n) \<in> mm_blocks (heap d)" "ln i \<le> n" using l by (auto simp: live_block_def)
  have u0: "0 < unat (word_of_int sz :: 64 word)" using u sz by simp
  obtain q m h where h: "mm_realloc (Addr (addr i)) (word_of_int sz) (heap d) = Inr (Addr q, h)" "mm_inv h"
      "nat sz \<le> m" "mm_blocks h = insert (q, m) (mm_blocks (heap d) - {(addr i, n)})"
      "\<forall>j < min n (nat sz). bytes h (q + j) = bytes (heap d) (addr i + j)"
      "\<forall>(r, j) \<in> mm_blocks (heap d) - {(addr i, n)}. \<forall>x < j. bytes h (r + x) = bytes (heap d) (r + x)"
      "(q, m) \<notin> mm_blocks (heap d)" "grows (word_of_int sz) (heap d) h"
    using mm_realloc_ok [OF inv n(1) u0 room] unfolding u by (elim exE conjE)
  let ?rs = "remove_range (ranges d) (addr i)"
  let ?d = "d\<lparr>heap := h, ranges := ?rs\<rparr>"
  let ?d2 = "?d\<lparr>ranges := \<lparr>rg_lo = q, rg_hi = int q + sz - 1\<rparr> # ?rs\<rparr>"
  have other: "(addr j, x) \<in> mm_blocks h \<and> addr j \<noteq> q" if "j \<in> live - {i}" "(addr j, x) \<in> mm_blocks (heap d)" for j x
  proof -
    have "addr j \<noteq> addr i" using addr_distinct [OF ok i(1) that(1)] .
    then have x: "(addr j, x) \<in> mm_blocks h" using that(2) h(4) by simp
    moreover have "addr j \<noteq> q"
    proof
      assume "addr j = q"
      then have "x = m" using mma.blocks_unique [OF h(2), of q x m] x h(4) by simp
      then show False using h(7) that(2) \<open>addr j = q\<close> by simp
    qed
    ultimately show ?thesis by simp
  qed
  have others: "\<forall>g \<in> set (ranges ?d). rg_lo g \<noteq> q \<and>
      (\<exists>x. (rg_lo g, x) \<in> mm_blocks (heap ?d) \<and> rg_hi g < int (rg_lo g) + int x)"
  proof
    fix g assume "g \<in> set (ranges ?d)"
    then obtain j where j: "j \<in> live - {i}" "g = block_range addr ln j" using drop_range(1) [OF ok i(1)] by auto
    obtain x where "ln j \<le> x" "(addr j, x) \<in> mm_blocks (heap d)"
      using drv_ok_ids [OF ok] j(1) by (auto simp: live_block_def)
    then show "rg_lo g \<noteq> q \<and> (\<exists>x. (rg_lo g, x) \<in> mm_blocks (heap ?d) \<and> rg_hi g < int (rg_lo g) + int x)"
      using other [OF j(1)] j(2) by (auto simp: block_range_def intro!: exI [of _ x])
  qed
  have acc: "accept_block i q sz ?d = Inr (True, ?d2)"
    using accept_block_ok [OF _ _ sz(1) _ others, of m] h(2,3,4) sz by simp
  let ?old = "if sz < int (ln i) then sz else int (ln i)"
  have old: "s32 (int (ln i)) = int (ln i)" using l by (intro s32_id) (simp_all add: live_block_def)
  have data: "\<not> byte_differs (bytes h) (q + j) i" if "j < nat ?old" for j
  proof -
    have j: "j < min n (nat sz)" "j < ln i" using that n(2) sz by (auto split: if_splits)
    then have "bytes h (q + j) = index_byte i" using h(5) l by (simp add: live_block_def)
    then show ?thesis using sint_index_byte [OF i(2)] by (simp add: byte_differs_def)
  qed
  have same: "\<not> list_ex (\<lambda>j. byte_differs (bytes h) (q + j) i) [0..<nat ?old]"
    unfolding list_ex_iff using data by simp
  have lives: "live_block ?d2 addr ln j \<and> addr j \<noteq> q" if j: "j \<in> live - {i}" for j
  proof -
    have lj: "live_block d addr ln j" using ok j by (simp add: drv_ok_def)
    then obtain x where x: "ln j \<le> x" "(addr j, x) \<in> mm_blocks (heap d)" by (auto simp: live_block_def)
    have sub: "(addr j, y) \<in> mm_blocks (heap d) - {(addr i, n)}" if "(addr j, y) \<in> mm_blocks (heap d)" for y
      using that addr_distinct [OF ok i(1) j] by simp
    have "bytes h (addr j + z) = bytes (heap d) (addr j + z)"
      if y: "(addr j, y) \<in> mm_blocks (heap d)" "ln j \<le> y" "z < ln j" for y z
      using bspec [OF h(6) sub [OF y(1)]] y(2,3) by simp
    then show ?thesis using live_block_cong [OF lj, of ?d2] other [OF j] x(2) by simp
  qed
  have il: "insert i live = live" using i(1) by auto
  have "\<exists>d'. fill_block i q sz ?d2 = Inr (True, d') \<and> drv_ok d' (insert i live) (addr(i := q)) (ln(i := nat sz)) \<and>
      vm (heap d') = vm (heap ?d2) \<and> errors d' = errors ?d2"
  proof (rule fill_block_ok [where n = m])
    show "mm_inv (heap ?d2)" "(q, m) \<in> mm_blocks (heap ?d2)" "sz \<le> int m" using h(2-4) by auto
    show "0 \<le> i" "i < int (length (tr_blocks ?d2))" using l by (simp_all add: live_block_def)
    show "inj_on addr (live - {i})" using ok by (auto simp: drv_ok_def inj_on_def)
    show "\<forall>j \<in> live - {i}. live_block ?d2 addr ln j \<and> addr j \<noteq> q" using lives by blast
    show "distinct (map rg_lo (ranges ?d2))" using drop_range(2) [OF ok i(1)] others by auto
  qed (use sz len drop_range(1) [OF ok i(1)] in simp_all)
  then obtain d' where d': "fill_block i q sz ?d2 = Inr (True, d')"
      "drv_ok d' live (addr(i := q)) (ln(i := nat sz))" "vm (heap d') = vm h" "errors d' = errors d" unfolding il by auto
  have r: "read_slot (tr_blocks d) i = Inr (Addr (addr i))" "read_slot (tr_sizes d) i = Inr (ln i)"
    using read_live [OF l len] by simp_all
  have "valid_realloc i sz d = Inr (True, d')"
    using h(1) acc r d'(1) same
    by (cases "sz < int (ln i)") (simp_all add: valid_realloc_def ptr_addr_def Let_def old)
  moreover have "length (tr_blocks d') = length (tr_blocks d)"
    using d'(1) l len by (auto simp: fill_block_def remember_def arr_set_int live_block_def)
  moreover have "k \<le> heap_left (heap d')" using grows_left [OF h(8) left] d'(3) by (simp add: heap_left_def)
  moreover have "heap_area (heap d') = heap_area (heap d)" using grows_area [OF h(8)] d'(3) by (simp add: heap_area_def)
  moreover have "length (tr_sizes d') = length (tr_sizes d)" using d'(2) ok calculation(2) by (simp add: drv_ok_def)
  ultimately show ?thesis using d'(2,4) by (auto simp: goes_on_def)
qed

section \<open>Whole traces\<close>

text \<open>A trace whose requests make sense: indices in range, sizes from 1 byte to 1 GiB, an index allocated
  when it is free and reallocated or freed when it is live. \<open>index mod 256 < 128\<close> on reallocations keeps
  the fill byte a non-negative \<open>char\<close>.\<close>

fun trace_ok :: "int \<Rightarrow> int set \<Rightarrow> traceop list \<Rightarrow> bool" where
  "trace_ok n live [] = True"
| "trace_ok n live (r # rs) =
     (0 \<le> op_index r \<and> op_index r < n \<and>
      (case op_type r of
         ALLOC \<Rightarrow> op_index r \<notin> live \<and> 0 < op_size r \<and> op_size r \<le> 2 ^ 30 \<and> trace_ok n (insert (op_index r) live) rs
       | REALLOC \<Rightarrow> op_index r \<in> live \<and> 0 < op_size r \<and> op_size r \<le> 2 ^ 30 \<and> op_index r mod 256 < 128 \<and>
           trace_ok n live rs
       | FREE \<Rightarrow> op_index r \<in> live \<and> trace_ok n (live - {op_index r}) rs))"

fun trace_need :: "traceop list \<Rightarrow> nat" where
  "trace_need [] = 0"
| "trace_need (r # rs) =
     (case op_type r of FREE \<Rightarrow> 0 | _ \<Rightarrow> chunk_need (word_of_int (op_size r))) + trace_need rs"

lemma valid_ops_ok:
  assumes "drv_ok d live addr ln" "trace_ok (int (length (tr_blocks d))) live ops" "trace_need ops \<le> heap_left (heap d)"
  shows "\<exists>d'. valid_ops ops d = Inr (True, d') \<and> goes_on d d' 0"
  using assms
proof (induction ops arbitrary: d live addr ln)
  case (Cons r rs)
  have "\<exists>d' live' addr' ln'. valid_op r d = Inr (True, d') \<and> drv_ok d' live' addr' ln' \<and>
      goes_on d d' (trace_need rs) \<and>
      trace_ok (int (length (tr_blocks d))) live' rs"
  proof (cases "op_type r")
    case ALLOC
    then show ?thesis
      using valid_alloc_ok [OF Cons.prems(1), of "op_index r" "op_size r" "trace_need rs"] Cons.prems(2,3)
      by (simp add: valid_op_def) blast
  next
    case FREE
    then show ?thesis
      using valid_free_ok [OF Cons.prems(1), of "op_index r" "trace_need rs"] Cons.prems(2,3)
      by (simp add: valid_op_def) blast
  next
    case REALLOC
    then show ?thesis
      using valid_realloc_ok [OF Cons.prems(1), of "op_index r" "op_size r" "trace_need rs"] Cons.prems(2,3)
      by (simp add: valid_op_def) blast
  qed
  then obtain d' live' addr' ln' where d': "valid_op r d = Inr (True, d')" "drv_ok d' live' addr' ln'"
      "goes_on d d' (trace_need rs)"
      "trace_ok (int (length (tr_blocks d))) live' rs" by blast
  then obtain d2 where "valid_ops rs d' = Inr (True, d2)" "goes_on d' d2 0"
    using Cons.IH [OF d'(2)] by (auto simp: goes_on_def)
  then show ?case using d'(1) goes_on_trans [OF d'(3)] by auto
qed (simp add: goes_on_def)

text \<open>The driver before a trace: the memory is there, the arrays have \<open>n\<close> uninitialised entries.\<close>

definition start_drv :: "mm \<Rightarrow> range list \<Rightarrow> nat \<Rightarrow> drv" where
  "start_drv m rs n =
     \<lparr>heap = m, ranges = rs, tr_blocks = replicate n None, tr_sizes = replicate n None, errors = 0\<rparr>"

definition mem_area :: "mm \<Rightarrow> bool" where
  "mem_area m \<longleftrightarrow> 0 < mem_start_brk (vm m) \<and> 16 dvd mem_start_brk (vm m) \<and>
     mem_max_addr (vm m) = mem_start_brk (vm m) + MAX_HEAP \<and> mem_max_addr (vm m) < 2 ^ 63"

lemma reset_heap_ok:
  assumes "mem_area m"
  obtains h where "reset_heap m = (0, h)" "mm_inv h" "mm_blocks h = {}" "heap_left h = MAX_HEAP"
    "heap_area h = heap_area m"
proof -
  let ?h = "fresh_heap (mem_start_brk (vm m)) (hdrs m) (bytes m)"
  have "reset_heap m = (0, ?h)"
    using assms by (simp add: reset_heap_def mm_init_def mem_reset_brk_def fresh_heap_def mem_area_def)
  moreover have "mm_inv ?h" "mm_blocks ?h = {}" using assms fresh_heap_inv by (simp_all add: mem_area_def)
  moreover have "heap_left ?h = MAX_HEAP" by (simp add: heap_left_def fresh_heap_def mm_init_def)
  moreover have "heap_area ?h = heap_area m" using assms by (simp add: heap_area_def fresh_heap_def mm_init_def mem_area_def)
  ultimately show thesis by (rule that)
qed

lemma add_range_run:
  assumes "mem_start_brk v \<le> lo" "0 < sz" "int lo + sz \<le> int (mem_brk v)" "16 dvd lo" "mem_brk v < 2 ^ 63"
  shows "add_range v rs lo sz =
    Inr (if list_ex (ranges_overlap (int lo) (int lo + sz - 1)) rs then None
         else Some (\<lparr>rg_lo = lo, rg_hi = int lo + sz - 1\<rparr> # rs))"
proof -
  have "unat (of_nat lo :: 64 word) = lo" using assms by (simp add: unat_of_nat)
  then have "is_aligned (of_nat lo)" using assms(4) by (simp add: is_aligned_iff)
  then show ?thesis
    using assms by (simp add: add_range_def heap_contains_def mem_heap_lo_def mem_heap_hi_def Let_def)
qed

section \<open>Properties\<close>

lemma eval_mm_valid_ok:
  assumes "mem_area (heap d)" "length (tr_blocks d) = n" "length (tr_sizes d) = n"
    and "trace_ok (int n) {} ops" "trace_need ops \<le> MAX_HEAP"
  shows "\<exists>d'. eval_mm_valid ops d = Inr (1, d') \<and> goes_on d d' 0"
proof -
  obtain h where h: "reset_heap (heap d) = (0, h)" "mm_inv h" "mm_blocks h = {}" "heap_left h = MAX_HEAP"
      "heap_area h = heap_area (heap d)"
    by (rule reset_heap_ok [OF assms(1)])
  let ?d = "d\<lparr>heap := h, ranges := clear_ranges (ranges d)\<rparr>"
  have "drv_ok ?d {} (\<lambda>_. 0) (\<lambda>_. 0)" using h(2) assms(2,3) by (simp add: drv_ok_def clear_ranges_def)
  then obtain d' where "valid_ops ops ?d = Inr (True, d')" "goes_on ?d d' 0"
    using valid_ops_ok [of ?d "{}" "\<lambda>_. 0" "\<lambda>_. 0" ops] assms(2,4,5) h(4) by auto
  then show ?thesis using h(1,5) by (simp add: eval_mm_valid_def goes_on_def)
qed

text \<open>C18: \<open>eval_mm_valid\<close> accepts mm.c: on every sensible trace whose requests fit together into the
  200 MB, it interprets all requests and returns 1. No range check fails (alignment, heap bounds, overlap),
  no \<open>mm_malloc\<close> or \<open>mm_realloc\<close> returns NULL, and every reallocated block still holds its data.\<close>

theorem eval_mm_valid_accepts:
  assumes "mem_area m" "trace_ok (int n) {} ops" "trace_need ops \<le> MAX_HEAP"
  shows "\<exists>d. eval_mm_valid ops (start_drv m rs n) = Inr (1, d)"
  using eval_mm_valid_ok [of "start_drv m rs n" n ops] assms by (auto simp: start_drv_def)

theorem eval_mm_valid_accepts_witness:
  "\<exists>d. eval_mm_valid
     [\<lparr>op_type = ALLOC, op_index = 0, op_size = 100\<rparr>, \<lparr>op_type = ALLOC, op_index = 1, op_size = 40\<rparr>,
      \<lparr>op_type = REALLOC, op_index = 0, op_size = 200\<rparr>, \<lparr>op_type = FREE, op_index = 1, op_size = 0\<rparr>]
     (start_drv (fresh_heap 4096 junk_hdrs junk_bytes) [] 2) = Inr (1, d)"
  by (rule eval_mm_valid_accepts) (simp_all add: mem_area_def fresh_heap_def mm_init_def chunk_need_def)

text \<open>The overlap test of \<open>add_range\<close> looks only for an end of the new block inside an old one. A new
  block that strictly encloses an allocated block is accepted.\<close>

lemma add_range_misses_enclosing:
  assumes "mem_start_brk v \<le> lo" "0 < sz" "int lo + sz \<le> int (mem_brk v)" "16 dvd lo" "mem_brk v < 2 ^ 63"
    "lo < rg_lo g" "rg_hi g < int lo + sz - 1"
  shows "add_range v [g] lo sz = Inr (Some [\<lparr>rg_lo = lo, rg_hi = int lo + sz - 1\<rparr>, g])"
  using add_range_run [OF assms(1-5), of "[g]"] assms(6,7) by (simp add: ranges_overlap_def)

text \<open>The check of the data after a reallocation compares a signed \<open>char\<close> with \<open>index & 0xFF\<close>. For an
  index whose low byte is 128 or more they are never equal, so a block that kept its data is reported as
  not preserved.\<close>

lemma realloc_check_rejects_good_data:
  assumes "128 \<le> index mod 256" "b x = index_byte index"
  shows "byte_differs b x index"
proof -
  have "sint (b x) < 2 ^ 7" using sint_lt [of "b x"] by simp
  then show ?thesis using assms(1) by (auto simp: byte_differs_def)
qed

end
