(* ===== verification/MdTrace.thy ===== *)
theory MdTrace
  imports MmDriver
begin

text \<open>
  \<open>read_trace\<close> of malloclab/mdriver.c: the text of a trace file is the list of its characters, and the
  conversions of \<open>fscanf\<close> that the function uses are functions on what is left of it. A number is cut to 32
  bits. A variable or field that was not written is \<open>None\<close>; the unwritten \<open>size\<close> of a free request, which
  the interpreters copy but do not use, is the argument \<open>junk\<close>.
\<close>

section \<open>Conversions\<close>

definition is_space :: "char \<Rightarrow> bool" where
  "is_space c \<longleftrightarrow> c \<in> {CHR '' '', CHR 0x09, CHR 0x0A, CHR 0x0B, CHR 0x0C, CHR 0x0D}"

definition is_digit :: "char \<Rightarrow> bool" where
  "is_digit c \<longleftrightarrow> 48 \<le> (of_char c :: nat) \<and> of_char c \<le> (57 :: nat)"

definition digits_value :: "char list \<Rightarrow> nat" where
  "digits_value ds = foldl (\<lambda>v c. 10 * v + (of_char c - 48)) 0 ds"

text \<open>\<open>%s\<close>: the next word, \<open>None\<close> for \<open>EOF\<close>.\<close>

definition scan_word :: "char list \<Rightarrow> (char list \<times> char list) option" where
  "scan_word s =
     (let s = dropWhile is_space s in
      if s = [] then None
      else Some (takeWhile (\<lambda>c. \<not> is_space c) s, dropWhile (\<lambda>c. \<not> is_space c) s))"

text \<open>\<open>%d\<close> and \<open>%u\<close>: the number before it is cut to the type, \<open>None\<close> when there is none.\<close>

definition scan_number :: "char list \<Rightarrow> int option \<times> char list" where
  "scan_number s =
     (let s = dropWhile is_space s;
          (neg, s) = (case s of [] \<Rightarrow> (False, [])
            | c # cs \<Rightarrow> if c = CHR ''-'' then (True, cs) else if c = CHR ''+'' then (False, cs) else (False, s));
          ds = takeWhile is_digit s in
      if ds = [] then (None, s)
      else (Some (if neg then - int (digits_value ds) else int (digits_value ds)), dropWhile is_digit s))"

section \<open>Requests\<close>

record trace =
  sugg_heapsize :: "int option"
  num_ids :: int
  num_ops :: int
  weight :: "int option"
  ops :: "traceop option list"

text \<open>The variables of the loop: the array \<open>trace->ops\<close>, \<open>op_index\<close>, \<open>index\<close>, \<open>size\<close> and \<open>max_index\<close>.\<close>

record rd_state =
  rs_ops :: "traceop option list"
  op_idx :: "32 word"
  idx :: "32 word"
  sze :: "32 word option"
  max_idx :: "32 word"

definition scan_index :: "char list \<Rightarrow> rd_state \<Rightarrow> bool \<times> char list \<times> rd_state" where
  "scan_index s r = (case scan_number s of
     (None, s) \<Rightarrow> (False, s, r) | (Some v, s) \<Rightarrow> (True, s, r\<lparr>idx := word_of_int v\<rparr>))"

definition scan_size :: "char list \<Rightarrow> rd_state \<Rightarrow> char list \<times> rd_state" where
  "scan_size s r = (case scan_number s of
     (None, s) \<Rightarrow> (s, r) | (Some v, s) \<Rightarrow> (s, r\<lparr>sze := Some (word_of_int v)\<rparr>))"

definition store_op :: "traceop \<Rightarrow> rd_state \<Rightarrow> rd_state cres" where
  "store_op t r = c_bind (arr_set (rs_ops r) (uint (op_idx r)) (Some t)) (\<lambda>xs. Inr (r\<lparr>rs_ops := xs\<rparr>))"

definition read_alloc :: "op_type \<Rightarrow> char list \<Rightarrow> rd_state \<Rightarrow> (char list \<times> rd_state) cres" where
  "read_alloc ty s r =
     (let (ok, s, r) = scan_index s r; (s, r) = (if ok then scan_size s r else (s, r)) in
      c_bind (case sze r of None \<Rightarrow> Inl Uninitialised | Some z \<Rightarrow> Inr z) (\<lambda>z.
      c_bind (store_op \<lparr>op_type = ty, op_index = sint (idx r), op_size = sint z\<rparr> r) (\<lambda>r.
      Inr (s, r\<lparr>max_idx := (if idx r > max_idx r then idx r else max_idx r)\<rparr>))))"

text \<open>The format \<open>%ud\<close> of a free request also reads a letter \<open>d\<close> right behind the number.\<close>

definition read_free :: "int \<Rightarrow> char list \<Rightarrow> rd_state \<Rightarrow> (char list \<times> rd_state) cres" where
  "read_free junk s r =
     (let (ok, s, r) = scan_index s r;
          s = (case s of c # cs \<Rightarrow> if ok \<and> c = CHR ''d'' then cs else s | [] \<Rightarrow> s) in
      c_bind (store_op \<lparr>op_type = FREE, op_index = sint (idx r), op_size = junk\<rparr> r) (\<lambda>r. Inr (s, r)))"

definition MAXLINE :: nat where "MAXLINE = 1024"

definition read_op :: "int \<Rightarrow> char list \<Rightarrow> char list \<Rightarrow> rd_state \<Rightarrow> (char list \<times> rd_state) cres" where
  "read_op junk type s r =
     (if MAXLINE \<le> length type then Inl OutOfBounds
      else c_bind
        (if hd type = CHR ''a'' then read_alloc ALLOC s r
         else if hd type = CHR ''r'' then read_alloc REALLOC s r
         else if hd type = CHR ''f'' then read_free junk s r
         else Inl (Exit 1))
        (\<lambda>(s, r). Inr (s, r\<lparr>op_idx := op_idx r + 1\<rparr>)))"

lemma scan_word_shorter: "scan_word s = Some (w, s') \<Longrightarrow> length s' < length s"
proof -
  assume "scan_word s = Some (w, s')"
  then obtain c cs where c: "dropWhile is_space s = c # cs" "s' = dropWhile (\<lambda>c. \<not> is_space c) (c # cs)"
    by (cases "dropWhile is_space s") (auto simp: scan_word_def Let_def)
  then have "\<not> is_space c" using hd_dropWhile [of is_space s] by auto
  then have "length s' \<le> length cs" using c(2) length_dropWhile_le by simp
  moreover have "length (c # cs) \<le> length s" using length_dropWhile_le [of is_space s] c(1) by simp
  ultimately show ?thesis by simp
qed

lemma scan_number_shorter: "length (snd (scan_number s)) \<le> length s"
proof -
  let ?s = "dropWhile is_space s"
  have "length ?s \<le> length s" by (rule length_dropWhile_le)
  moreover have "length (snd (scan_number s)) \<le> length ?s"
    by (auto simp: scan_number_def Let_def split: list.splits
        intro: le_trans [OF length_dropWhile_le])
  ultimately show ?thesis by linarith
qed

lemma scan_index_shorter: "scan_index s r = (ok, s', r') \<Longrightarrow> length s' \<le> length s"
  using scan_number_shorter [of s] by (auto simp: scan_index_def split: prod.splits option.splits)

lemma scan_size_shorter: "scan_size s r = (s', r') \<Longrightarrow> length s' \<le> length s"
  using scan_number_shorter [of s] by (auto simp: scan_size_def split: prod.splits option.splits)

lemma read_alloc_shorter: "read_alloc ty s r = Inr (s', r') \<Longrightarrow> length s' \<le> length s"
proof -
  assume a: "read_alloc ty s r = Inr (s', r')"
  obtain ok s1 r1 where 1: "scan_index s r = (ok, s1, r1)" by (cases "scan_index s r") auto
  obtain s2 r2 where 2: "scan_size s1 r1 = (s2, r2)" by (cases "scan_size s1 r1") auto
  have "s' = (if ok then s2 else s1)"
    using a 1 2 by (auto simp: read_alloc_def Let_def c_bind_eq_Inr split: if_splits)
  then show ?thesis using scan_index_shorter [OF 1] scan_size_shorter [OF 2] by auto
qed

lemma read_free_shorter: "read_free junk s r = Inr (s', r') \<Longrightarrow> length s' \<le> length s"
proof -
  assume a: "read_free junk s r = Inr (s', r')"
  obtain ok s1 r1 where 1: "scan_index s r = (ok, s1, r1)" by (cases "scan_index s r") auto
  have "length s' \<le> length s1"
    using a 1 by (cases s1) (auto simp: read_free_def Let_def c_bind_eq_Inr split: if_splits)
  then show ?thesis using scan_index_shorter [OF 1] by simp
qed

lemma read_op_shorter: "read_op junk w s r = Inr (s', r') \<Longrightarrow> length s' \<le> length s"
  by (auto simp: read_op_def c_bind_eq_Inr dest: read_alloc_shorter read_free_shorter split: if_splits)

function read_ops :: "int \<Rightarrow> char list \<Rightarrow> rd_state \<Rightarrow> rd_state cres" where
  "read_ops junk s r =
     (case scan_word s of
        None \<Rightarrow> Inr r
      | Some (type, s) \<Rightarrow> c_bind (read_op junk type s r) (\<lambda>(s, r). read_ops junk s r))"
  by pat_completeness auto
termination
  by (relation "measure (\<lambda>(junk, s, r). length s)")
    (auto dest!: scan_word_shorter read_op_shorter)

declare read_ops.simps [simp del]

text \<open>A number that was not read is an uninitialised field when it is used; \<open>malloc\<close> fails only for the
  huge size that a negative count is converted to.\<close>

definition used :: "int option \<Rightarrow> int cres" where
  "used v = (case v of None \<Rightarrow> Inl Uninitialised | Some n \<Rightarrow> Inr (s32 n))"

definition read_trace :: "int \<Rightarrow> char list \<Rightarrow> trace cres" where
  "read_trace junk s =
     (let (sugg, s) = scan_number s; (ids, s) = scan_number s; (nops, s) = scan_number s; (wt, s) = scan_number s in
      c_bind (used nops) (\<lambda>nops. if nops < 0 then Inl (Exit 1) else
      c_bind (used ids) (\<lambda>ids. if ids < 0 then Inl (Exit 1) else
      c_bind (read_ops junk s
        \<lparr>rs_ops = replicate (nat nops) None, op_idx = 0, idx = 0, sze = None, max_idx = 0\<rparr>) (\<lambda>r.
      c_bind (c_assert (max_idx r = word_of_int (ids - 1))) (\<lambda>_.
      c_bind (c_assert (word_of_int nops = op_idx r)) (\<lambda>_.
      Inr \<lparr>sugg_heapsize = map_option s32 sugg, num_ids = ids, num_ops = nops, weight = map_option s32 wt,
        ops = rs_ops r\<rparr>))))))"

section \<open>The text of a trace\<close>

fun dec :: "nat \<Rightarrow> char list" where
  "dec n = (if n < 10 then [] else dec (n div 10)) @ [char_of (48 + n mod 10)]"

declare dec.simps [simp del]

lemma digit_char: "k < 10 \<Longrightarrow> (of_char (char_of (48 + k) :: char) :: nat) = 48 + k"
  by (simp add: of_char_of)

lemma dec_digits: "dec n \<noteq> [] \<and> (\<forall>c \<in> set (dec n). is_digit c) \<and> digits_value (dec n) = n"
proof (induction n rule: dec.induct)
  case (1 n)
  have d: "is_digit (char_of (48 + n mod 10))" by (simp add: is_digit_def digit_char)
  have "digits_value (dec n) = 10 * (if n < 10 then 0 else n div 10) + n mod 10"
    using 1 by (subst dec.simps) (simp add: digits_value_def digit_char)
  also have "\<dots> = n" by auto
  finally have v: "digits_value (dec n) = n" .
  show ?case
    using 1 d v by (auto simp: dec.simps [of n])
qed

lemma digit_not_space: "is_digit c \<Longrightarrow> \<not> is_space c \<and> c \<noteq> CHR ''-'' \<and> c \<noteq> CHR ''+''"
  by (auto simp: is_digit_def is_space_def)

lemma scan_number_dec:
  assumes "\<forall>c \<in> set ws. is_space c" "rest = [] \<or> \<not> is_digit (hd rest)"
  shows "scan_number (ws @ dec n @ rest) = (Some (int n), rest)"
proof -
  obtain c cs where c: "dec n = c # cs" using dec_digits [of n] by (cases "dec n") auto
  have dg: "is_digit c" "\<forall>c \<in> set cs. is_digit c" using dec_digits [of n] c by auto
  have sp: "dropWhile is_space (ws @ dec n @ rest) = c # cs @ rest"
    using assms(1) digit_not_space [OF dg(1)] c by (simp add: dropWhile_append)
  have tw: "takeWhile is_digit (c # cs @ rest) = dec n"
    using dg assms(2) c by (cases rest) (auto simp: takeWhile_append)
  have dw: "dropWhile is_digit (c # cs @ rest) = rest"
    using dg assms(2) by (cases rest) (auto simp: dropWhile_append)
  show ?thesis
    using digit_not_space [OF dg(1)] dec_digits [of n]
    by (simp add: scan_number_def sp tw dw del: takeWhile.simps dropWhile.simps)
qed

lemma scan_word_letter:
  assumes "\<forall>c \<in> set ws. is_space c" "\<not> is_space c" "is_space d"
  shows "scan_word (ws @ c # d # rest) = Some ([c], d # rest)"
  using assms by (simp add: scan_word_def dropWhile_append)

definition op_text :: "traceop \<Rightarrow> char list" where
  "op_text t = (case op_type t of
       ALLOC \<Rightarrow> ''a '' @ dec (nat (op_index t)) @ '' '' @ dec (nat (op_size t))
     | REALLOC \<Rightarrow> ''r '' @ dec (nat (op_index t)) @ '' '' @ dec (nat (op_size t))
     | FREE \<Rightarrow> ''f '' @ dec (nat (op_index t))) @ [CHR 0x0A]"

definition ops_text :: "traceop list \<Rightarrow> char list" where
  "ops_text ts = concat (map op_text ts)"

definition trace_text :: "nat \<Rightarrow> nat \<Rightarrow> nat \<Rightarrow> traceop list \<Rightarrow> char list" where
  "trace_text sugg ids wt ts =
     dec sugg @ [CHR 0x0A] @ dec ids @ [CHR 0x0A] @ dec (length ts) @ [CHR 0x0A] @ dec wt @ [CHR 0x0A] @ ops_text ts"

section \<open>Reading back\<close>

definition op_ok :: "traceop \<Rightarrow> bool" where
  "op_ok t \<longleftrightarrow> 0 \<le> op_index t \<and> op_index t < 2 ^ 31 \<and> 0 \<le> op_size t \<and> op_size t < 2 ^ 31"

definition stored :: "int \<Rightarrow> traceop \<Rightarrow> traceop" where
  "stored junk t = (if op_type t = FREE then t\<lparr>op_size := junk\<rparr> else t)"

definition next_max :: "nat \<Rightarrow> traceop \<Rightarrow> nat" where
  "next_max k t = (if op_type t = FREE then k else max k (nat (op_index t)))"

definition reading :: "traceop list \<Rightarrow> nat \<Rightarrow> nat \<Rightarrow> rd_state \<Rightarrow> bool" where
  "reading ts k mx r \<longleftrightarrow> rs_ops r = map Some ts @ replicate k None \<and> op_idx r = of_nat (length ts) \<and>
     max_idx r = of_nat mx \<and> length ts + k < 2 ^ 31 \<and> mx < 2 ^ 31"

lemma store_op_reading:
  assumes "rs_ops r = map Some ts @ replicate (Suc k) None" "op_idx r = of_nat (length ts)" "length ts < 2 ^ 31"
  shows "store_op t r = Inr (r\<lparr>rs_ops := map Some (ts @ [t]) @ replicate k None\<rparr>)"
proof -
  have u: "uint (op_idx r) = int (length ts)" using assms(2,3) by (simp add: uint_nat unat_of_nat)
  have "arr_set (map Some ts @ replicate (Suc k) None) (int (length ts)) (Some t) =
      Inr (map Some (ts @ [t]) @ replicate k None)"
    by (subst arr_set_nth) (simp_all add: list_update_append)
  then show ?thesis by (simp only: store_op_def u assms(1) c_bind_Inr)
qed

lemma sint_small: "k < 2 ^ 31 \<Longrightarrow> sint (of_nat k :: 32 word) = int k"
  by (simp add: signed_of_nat signed_take_bit_int_eq_self)

lemma less_small: "k < 2 ^ 31 \<Longrightarrow> j < 2 ^ 31 \<Longrightarrow> (of_nat k :: 32 word) < of_nat j \<longleftrightarrow> k < j"
  by (simp add: word_less_nat_alt unat_of_nat)

lemma scan_space_number:
  "rest = [] \<or> \<not> is_digit (hd rest) \<Longrightarrow> scan_number (CHR '' '' # dec n @ rest) = (Some (int n), rest)"
  using scan_number_dec [of "'' ''" rest n] by (simp add: is_space_def)

lemma newline_ends: "\<not> is_digit (CHR 0x0A)" "\<not> is_digit (CHR '' '')"
  by (simp_all add: is_digit_def)

lemma read_alloc_ok:
  assumes "reading ts (Suc k) mx r" "i < 2 ^ 31" "n < 2 ^ 31"
  shows "\<exists>r'. read_alloc ty (CHR '' '' # dec i @ CHR '' '' # dec n @ CHR 0x0A # rest) r = Inr (CHR 0x0A # rest, r') \<and>
    rs_ops r' = map Some (ts @ [\<lparr>op_type = ty, op_index = int i, op_size = int n\<rparr>]) @ replicate k None \<and>
    op_idx r' = op_idx r \<and> max_idx r' = of_nat (max mx i)"
proof -
  have r: "rs_ops r = map Some ts @ replicate (Suc k) None" "op_idx r = of_nat (length ts)" "max_idx r = of_nat mx"
      "length ts < 2 ^ 31" "mx < 2 ^ 31"
    using assms(1) by (auto simp: reading_def)
  let ?r = "r\<lparr>idx := of_nat i, sze := Some (of_nat n)\<rparr>"
  have st: "store_op t ?r = Inr (?r\<lparr>rs_ops := map Some (ts @ [t]) @ replicate k None\<rparr>)" for t
    using r by (intro store_op_reading) simp_all
  have i: "scan_index (CHR '' '' # dec i @ CHR '' '' # dec n @ CHR 0x0A # rest) r =
      (True, CHR '' '' # dec n @ CHR 0x0A # rest, r\<lparr>idx := of_nat i\<rparr>)"
    by (simp add: scan_index_def scan_space_number newline_ends)
  have n: "scan_size (CHR '' '' # dec n @ CHR 0x0A # rest) (r\<lparr>idx := of_nat i\<rparr>) = (CHR 0x0A # rest, ?r)"
    by (simp add: scan_size_def scan_space_number newline_ends)
  have si: "sint (of_nat i :: 32 word) = int i" "sint (of_nat n :: 32 word) = int n"
    using sint_small assms(2,3) by simp_all
  let ?s = "?r\<lparr>rs_ops := map Some (ts @ [\<lparr>op_type = ty, op_index = int i, op_size = int n\<rparr>]) @ replicate k None\<rparr>"
  have "read_alloc ty (CHR '' '' # dec i @ CHR '' '' # dec n @ CHR 0x0A # rest) r =
      Inr (CHR 0x0A # rest, ?s\<lparr>max_idx := (if idx ?s > max_idx ?s then idx ?s else max_idx ?s)\<rparr>)"
    unfolding read_alloc_def i n Let_def
    by (simp add: n si st [simplified])
  moreover have "(if idx ?s > max_idx ?s then idx ?s else max_idx ?s) = of_nat (max mx i)"
    using less_small [OF r(5) assms(2)] r(3) by (auto simp: max_def)
  ultimately show ?thesis
    by (intro exI [of _ "?s\<lparr>max_idx := (if idx ?s > max_idx ?s then idx ?s else max_idx ?s)\<rparr>"]) simp
qed

lemma read_free_ok:
  assumes "reading ts (Suc k) mx r" "i < 2 ^ 31"
  shows "\<exists>r'. read_free junk (CHR '' '' # dec i @ CHR 0x0A # rest) r = Inr (CHR 0x0A # rest, r') \<and>
    rs_ops r' = map Some (ts @ [\<lparr>op_type = FREE, op_index = int i, op_size = junk\<rparr>]) @ replicate k None \<and>
    op_idx r' = op_idx r \<and> max_idx r' = of_nat mx"
proof -
  have r: "rs_ops r = map Some ts @ replicate (Suc k) None" "op_idx r = of_nat (length ts)" "max_idx r = of_nat mx"
      "length ts < 2 ^ 31"
    using assms(1) by (auto simp: reading_def)
  let ?r = "r\<lparr>idx := of_nat i\<rparr>"
  have st: "store_op t ?r = Inr (?r\<lparr>rs_ops := map Some (ts @ [t]) @ replicate k None\<rparr>)" for t
    using r by (intro store_op_reading) simp_all
  have i: "scan_index (CHR '' '' # dec i @ CHR 0x0A # rest) r = (True, CHR 0x0A # rest, ?r)"
    by (simp add: scan_index_def scan_space_number newline_ends)
  have si: "sint (of_nat i :: 32 word) = int i" using sint_small assms(2) by simp
  have "read_free junk (CHR '' '' # dec i @ CHR 0x0A # rest) r =
      Inr (CHR 0x0A # rest, ?r\<lparr>rs_ops := map Some (ts @ [\<lparr>op_type = FREE, op_index = int i, op_size = junk\<rparr>]) @ replicate k None\<rparr>)"
    unfolding read_free_def i Let_def by (simp add: si st [simplified])
  then show ?thesis using r(3) by simp
qed

lemma read_ops_step:
  assumes ok: "op_ok t" and r: "reading ts (Suc k) mx r" and ws: "\<forall>c \<in> set ws. is_space c"
  shows "\<exists>r'. reading (ts @ [stored junk t]) k (next_max mx t) r' \<and>
    read_ops junk (ws @ op_text t @ rest) r = read_ops junk (CHR 0x0A # rest) r'"
proof -
  define i n where "i = nat (op_index t)" and "n = nat (op_size t)"
  have b: "i < 2 ^ 31" "n < 2 ^ 31" "op_index t = int i" "op_size t = int n"
    using ok by (auto simp: op_ok_def i_def n_def nat_less_iff)
  have letters: "\<not> is_space (CHR ''a'')" "\<not> is_space (CHR ''r'')" "\<not> is_space (CHR ''f'')" "is_space (CHR '' '')"
    by (simp_all add: is_space_def)
  have step: "\<exists>r'. reading (ts @ [u]) k m r' \<and> read_ops junk s r = read_ops junk (CHR 0x0A # rest) r'"
    if w: "scan_word s = Some ([c], s')" and op: "read_op junk [c] s' r = Inr (CHR 0x0A # rest, r1\<lparr>op_idx := op_idx r1 + 1\<rparr>)"
      and r1: "rs_ops r1 = map Some (ts @ [u]) @ replicate k None" "op_idx r1 = op_idx r" "max_idx r1 = of_nat m" "m < 2 ^ 31"
    for u m s c s' r1
  proof -
    have "reading (ts @ [u]) k m (r1\<lparr>op_idx := op_idx r1 + 1\<rparr>)"
      using r r1 by (simp add: reading_def add.commute)
    then show ?thesis using w op by (subst read_ops.simps) auto
  qed
  have mx: "mx < 2 ^ 31" using r by (simp add: reading_def)
  show ?thesis
  proof (cases "op_type t")
    case ALLOC
    obtain r1 where r1: "read_alloc ALLOC (CHR '' '' # dec i @ CHR '' '' # dec n @ CHR 0x0A # rest) r = Inr (CHR 0x0A # rest, r1)"
        "rs_ops r1 = map Some (ts @ [\<lparr>op_type = ALLOC, op_index = int i, op_size = int n\<rparr>]) @ replicate k None"
        "op_idx r1 = op_idx r" "max_idx r1 = of_nat (max mx i)"
      using read_alloc_ok [OF r b(1,2)] by blast
    have t: "stored junk t = \<lparr>op_type = ALLOC, op_index = int i, op_size = int n\<rparr>" "next_max mx t = max mx i"
      using ALLOC b(3,4) by (simp_all add: stored_def next_max_def i_def)
    show ?thesis unfolding t
      by (rule step [of _ "CHR ''a''" "CHR '' '' # dec i @ CHR '' '' # dec n @ CHR 0x0A # rest" r1])
        (use r1 mx b(1) scan_word_letter [OF ws letters(1,4)] ALLOC in \<open>simp_all add: op_text_def read_op_def MAXLINE_def i_def n_def\<close>)
  next
    case REALLOC
    obtain r1 where r1: "read_alloc REALLOC (CHR '' '' # dec i @ CHR '' '' # dec n @ CHR 0x0A # rest) r = Inr (CHR 0x0A # rest, r1)"
        "rs_ops r1 = map Some (ts @ [\<lparr>op_type = REALLOC, op_index = int i, op_size = int n\<rparr>]) @ replicate k None"
        "op_idx r1 = op_idx r" "max_idx r1 = of_nat (max mx i)"
      using read_alloc_ok [OF r b(1,2)] by blast
    have t: "stored junk t = \<lparr>op_type = REALLOC, op_index = int i, op_size = int n\<rparr>" "next_max mx t = max mx i"
      using REALLOC b(3,4) by (simp_all add: stored_def next_max_def i_def)
    show ?thesis unfolding t
      by (rule step [of _ "CHR ''r''" "CHR '' '' # dec i @ CHR '' '' # dec n @ CHR 0x0A # rest" r1])
        (use r1 mx b(1) scan_word_letter [OF ws letters(2,4)] REALLOC in \<open>simp_all add: op_text_def read_op_def MAXLINE_def i_def n_def\<close>)
  next
    case FREE
    obtain r1 where r1: "read_free junk (CHR '' '' # dec i @ CHR 0x0A # rest) r = Inr (CHR 0x0A # rest, r1)"
        "rs_ops r1 = map Some (ts @ [\<lparr>op_type = FREE, op_index = int i, op_size = junk\<rparr>]) @ replicate k None"
        "op_idx r1 = op_idx r" "max_idx r1 = of_nat mx"
      using read_free_ok [OF r b(1)] by blast
    have t: "stored junk t = \<lparr>op_type = FREE, op_index = int i, op_size = junk\<rparr>" "next_max mx t = mx"
      using FREE b(3) by (simp_all add: stored_def next_max_def)
    show ?thesis unfolding t
      by (rule step [of _ "CHR ''f''" "CHR '' '' # dec i @ CHR 0x0A # rest" r1])
        (use r1 mx scan_word_letter [OF ws letters(3,4)] FREE in \<open>simp_all add: op_text_def read_op_def MAXLINE_def i_def\<close>)
  qed
qed

lemma read_ops_text:
  "\<forall>t \<in> set us. op_ok t \<Longrightarrow> reading ts (length us) mx r \<Longrightarrow> \<forall>c \<in> set ws. is_space c \<Longrightarrow>
     \<exists>r'. read_ops junk (ws @ ops_text us) r = Inr r' \<and>
       reading (ts @ map (stored junk) us) 0 (foldl next_max mx us) r'"
proof (induction us arbitrary: ts mx r ws)
  case Nil
  then have "scan_word (ws @ ops_text []) = None" by (simp add: scan_word_def ops_text_def)
  then show ?case using Nil.prems(2) by (subst read_ops.simps) simp
next
  case (Cons u us)
  obtain r1 where r1: "reading (ts @ [stored junk u]) (length us) (next_max mx u) r1"
      "read_ops junk (ws @ op_text u @ ops_text us) r = read_ops junk (CHR 0x0A # ops_text us) r1"
    using read_ops_step [of u ts "length us" mx r ws junk "ops_text us"] Cons.prems by auto
  obtain r' where "read_ops junk ([CHR 0x0A] @ ops_text us) r1 = Inr r'"
      "reading ((ts @ [stored junk u]) @ map (stored junk) us) 0 (foldl next_max (next_max mx u) us) r'"
    using Cons.IH [OF _ r1(1), of "[CHR 0x0A]"] Cons.prems(1) by (auto simp: is_space_def)
  then show ?case using r1(2) by (simp add: ops_text_def)
qed

lemma trace_ok_stored: "trace_ok n live (map (stored junk) ts) = trace_ok n live ts"
  by (induction ts arbitrary: live) (auto simp: stored_def split: op_type.splits)

lemma trace_need_stored: "trace_need (map (stored junk) ts) = trace_need ts"
  by (induction ts) (auto simp: stored_def split: op_type.splits)

section \<open>The properties\<close>

lemma read_trace_ok:
  assumes "\<forall>t \<in> set ts. op_ok t" "length ts < 2 ^ 31" "sugg < 2 ^ 31" "wt < 2 ^ 31"
    and "ids = foldl next_max 0 ts + 1" "ids < 2 ^ 31"
  shows "read_trace junk (trace_text sugg ids wt ts) =
    Inr \<lparr>sugg_heapsize = Some (int sugg), num_ids = int ids, num_ops = int (length ts), weight = Some (int wt),
      ops = map (Some \<circ> stored junk) ts\<rparr>"
proof -
  let ?o = "ops_text ts"
  have nl: "scan_number (CHR 0x0A # dec k @ CHR 0x0A # x) = (Some (int k), CHR 0x0A # x)" for k x
    using scan_number_dec [of "[CHR 0x0A]" "CHR 0x0A # x" k] by (simp add: is_space_def newline_ends)
  have first: "scan_number (dec k @ CHR 0x0A # x) = (Some (int k), CHR 0x0A # x)" for k x
    using scan_number_dec [of "[]" "CHR 0x0A # x" k] by (simp add: newline_ends)
  have s: "s32 (int sugg) = int sugg" "s32 (int wt) = int wt" "s32 (int ids) = int ids"
      "s32 (int (length ts)) = int (length ts)"
    using assms by (simp_all add: s32_id)
  let ?r = "\<lparr>rs_ops = replicate (length ts) None, op_idx = 0, idx = 0, sze = None, max_idx = 0\<rparr>"
  have "reading [] (length ts) 0 ?r" using assms(2) by (simp add: reading_def)
  then obtain r' where r': "read_ops junk ([CHR 0x0A] @ ?o) ?r = Inr r'"
      "reading (map (stored junk) ts) 0 (foldl next_max 0 ts) r'"
    using read_ops_text [OF assms(1), of "[]" 0 ?r "[CHR 0x0A]" junk] by (auto simp: is_space_def)
  have m: "max_idx r' = word_of_int (int ids - 1)" "word_of_int (int (length ts)) = op_idx r'"
      "rs_ops r' = map (Some \<circ> stored junk) ts"
    using r'(2) assms(5) by (simp_all add: reading_def)
  show ?thesis
    using r'(1) m by (simp add: read_trace_def trace_text_def first nl used_def s)
qed

text \<open>C35: reading back what was written: on the text of a trace whose header announces the number of its
  requests and one more than the largest index of an allocation or reallocation, \<open>read_trace\<close> stays inside its
  arrays, both assertions hold, and it returns exactly the requests and the header.\<close>

theorem read_trace_text:
  assumes "\<forall>t \<in> set ts. op_ok t" "length ts < 2 ^ 31" "sugg < 2 ^ 31" "wt < 2 ^ 31"
    and "ids = foldl next_max 0 ts + 1" "ids < 2 ^ 31"
  shows "read_trace junk (trace_text sugg ids wt ts) =
    Inr \<lparr>sugg_heapsize = Some (int sugg), num_ids = int ids, num_ops = int (length ts), weight = Some (int wt),
      ops = map (Some \<circ> stored junk) ts\<rparr>"
  using assms by (rule read_trace_ok)

theorem read_trace_text_witness:
  "read_trace 0 (trace_text 7 1 1 [\<lparr>op_type = ALLOC, op_index = 0, op_size = 12\<rparr>, \<lparr>op_type = FREE, op_index = 0, op_size = 0\<rparr>]) =
    Inr \<lparr>sugg_heapsize = Some 7, num_ids = 1, num_ops = 2, weight = Some 1,
      ops = [Some \<lparr>op_type = ALLOC, op_index = 0, op_size = 12\<rparr>, Some \<lparr>op_type = FREE, op_index = 0, op_size = 0\<rparr>]\<rparr>"
  using read_trace_text [of "[\<lparr>op_type = ALLOC, op_index = 0, op_size = 12\<rparr>, \<lparr>op_type = FREE, op_index = 0, op_size = 0\<rparr>]" 7 1 1 0]
  by (simp add: op_ok_def next_max_def stored_def)

text \<open>A file with more requests than its header announces is written past the end of the array before
  the assertion can notice.\<close>

lemma store_op_overrun: "uint (op_idx r) = int (length (rs_ops r)) \<Longrightarrow> store_op t r = Inl OutOfBounds"
  by (simp add: store_op_def)

section \<open>Any text\<close>

text \<open>The request of an allocation has an index that \<open>max_index\<close> covers; that of a free may have any.\<close>

definition typed_op :: "32 word \<Rightarrow> traceop \<Rightarrow> bool" where
  "typed_op m t \<longleftrightarrow> (op_type t \<noteq> FREE \<longrightarrow> (\<exists>i. op_index t = sint i \<and> i \<le> m))"

definition typed_ops :: "nat \<Rightarrow> rd_state \<Rightarrow> bool" where
  "typed_ops n r \<longleftrightarrow> length (rs_ops r) = n \<and> unat (op_idx r) \<le> n \<and>
     (\<forall>j < unat (op_idx r). \<exists>t. rs_ops r ! j = Some t \<and> typed_op (max_idx r) t)"

lemma scan_index_fields: "scan_index s r = (ok, s', r') \<Longrightarrow> rs_ops r' = rs_ops r \<and> op_idx r' = op_idx r \<and> max_idx r' = max_idx r"
  by (auto simp: scan_index_def split: prod.splits option.splits)

lemma scan_size_fields: "scan_size s r = (s', r') \<Longrightarrow>
  rs_ops r' = rs_ops r \<and> op_idx r' = op_idx r \<and> max_idx r' = max_idx r \<and> idx r' = idx r"
  by (auto simp: scan_size_def split: prod.splits option.splits)

text \<open>A request that is stored and counted.\<close>

lemma typed_ops_store:
  assumes r: "typed_ops n r" and n: "n < 2 ^ 31" and st: "store_op t r = Inr r'" and m: "max_idx r \<le> m" and t: "typed_op m t"
  shows "typed_ops n (r'\<lparr>max_idx := m, op_idx := op_idx r' + 1\<rparr>)"
proof -
  let ?k = "unat (op_idx r)"
  have l: "length (rs_ops r) = n" using r by (simp add: typed_ops_def)
  have u: "nat (uint (op_idx r)) = ?k" by simp
  have "uint (op_idx r) < int n" and r': "r' = r\<lparr>rs_ops := (rs_ops r)[?k := Some t]\<rparr>"
    using st by (simp_all add: store_op_def arr_set_def l u split: if_splits)
  then have k: "?k < n" by (simp add: unat_eq_nat_uint nat_less_iff del: nat_uint_eq)
  have s: "unat (op_idx r + 1) = Suc ?k"
    using k n by (simp add: unat_word_ariths)
  have weak: "typed_op m u" if "typed_op (max_idx r) u" for u
    using that m by (auto simp: typed_op_def intro: order_trans)
  have "\<exists>u. (rs_ops r)[?k := Some t] ! j = Some u \<and> typed_op m u" if j: "j < Suc ?k" for j
  proof (cases "j = ?k")
    case True
    then show ?thesis using k r t by (simp add: typed_ops_def)
  next
    case False
    then have "j < ?k" using j by simp
    then obtain u where "rs_ops r ! j = Some u" "typed_op (max_idx r) u" using r unfolding typed_ops_def by blast
    then show ?thesis using False weak by auto
  qed
  then show ?thesis using r k s by (simp add: typed_ops_def r')
qed

lemma read_alloc_result:
  assumes "read_alloc ty s r = Inr (s', r')"
  shows "\<exists>r2 z r3. rs_ops r2 = rs_ops r \<and> op_idx r2 = op_idx r \<and> max_idx r2 = max_idx r \<and>
    store_op \<lparr>op_type = ty, op_index = sint (idx r2), op_size = z\<rparr> r2 = Inr r3 \<and>
    r' = r3\<lparr>max_idx := (if idx r3 > max_idx r3 then idx r3 else max_idx r3)\<rparr>"
proof -
  obtain ok s1 r1 where 1: "scan_index s r = (ok, s1, r1)" by (cases "scan_index s r") auto
  obtain s2 r2 where 2: "(if ok then scan_size s1 r1 else (s1, r1)) = (s2, r2)" by (cases "if ok then scan_size s1 r1 else (s1, r1)")
  have f: "rs_ops r2 = rs_ops r \<and> op_idx r2 = op_idx r \<and> max_idx r2 = max_idx r"
    using scan_index_fields [OF 1] scan_size_fields [of s1 r1 s2 r2] 2 by (simp split: if_splits)
  show ?thesis
  proof (cases "sze r2")
    case None
    then show ?thesis using assms by (simp add: read_alloc_def 1 2)
  next
    case (Some z)
    show ?thesis
    proof (cases "store_op \<lparr>op_type = ty, op_index = sint (idx r2), op_size = sint z\<rparr> r2")
      case (Inl e)
      then show ?thesis using assms by (simp add: read_alloc_def 1 2 Some)
    next
      case (Inr r3)
      then show ?thesis using assms f by (intro exI [of _ r2] exI [of _ "sint z"] exI [of _ r3]) (simp add: read_alloc_def 1 2 Some)
    qed
  qed
qed

lemma store_op_fields: "store_op t r = Inr r' \<Longrightarrow> idx r' = idx r \<and> max_idx r' = max_idx r"
  by (auto simp: store_op_def c_bind_eq_Inr)

lemma typed_read_alloc:
  assumes r: "typed_ops n r" "n < 2 ^ 31" and "ty \<noteq> FREE" "read_alloc ty s r = Inr (s', r')"
  shows "typed_ops n (r'\<lparr>op_idx := op_idx r' + 1\<rparr>)"
proof -
  obtain r2 z r3 where f: "rs_ops r2 = rs_ops r" "op_idx r2 = op_idx r" "max_idx r2 = max_idx r"
    and st: "store_op \<lparr>op_type = ty, op_index = sint (idx r2), op_size = z\<rparr> r2 = Inr r3"
    and r': "r' = r3\<lparr>max_idx := (if idx r3 > max_idx r3 then idx r3 else max_idx r3)\<rparr>"
    using read_alloc_result [OF assms(4)] by blast
  define m where "m = (if idx r2 > max_idx r2 then idx r2 else max_idx r2)"
  have m: "idx r2 \<le> m" "max_idx r2 \<le> m" by (auto simp: m_def)
  have "typed_op m \<lparr>op_type = ty, op_index = sint (idx r2), op_size = z\<rparr>" using m(1) by (auto simp: typed_op_def)
  moreover have "typed_ops n r2" using r(1) f by (simp add: typed_ops_def)
  ultimately have "typed_ops n (r3\<lparr>max_idx := m, op_idx := op_idx r3 + 1\<rparr>)" using typed_ops_store [OF _ r(2) st m(2)] by blast
  then show ?thesis using r' store_op_fields [OF st] by (simp add: m_def split: if_splits)
qed

lemma typed_read_free:
  assumes "typed_ops n r" "n < 2 ^ 31" "read_free junk s r = Inr (s', r')"
  shows "typed_ops n (r'\<lparr>op_idx := op_idx r' + 1\<rparr>)"
proof -
  obtain ok s1 r1 where 1: "scan_index s r = (ok, s1, r1)" by (cases "scan_index s r") auto
  have st: "store_op \<lparr>op_type = FREE, op_index = sint (idx r1), op_size = junk\<rparr> r1 = Inr r'"
    using assms(3) by (auto simp: read_free_def 1 c_bind_eq_Inr Let_def)
  have "typed_ops n r1" using assms(1) scan_index_fields [OF 1] by (simp add: typed_ops_def)
  from typed_ops_store [OF this assms(2) st, of "max_idx r1"]
  have "typed_ops n (r'\<lparr>max_idx := max_idx r1, op_idx := op_idx r' + 1\<rparr>)" by (simp add: typed_op_def)
  moreover have "max_idx r' = max_idx r1" using st by (auto simp: store_op_def c_bind_eq_Inr)
  ultimately show ?thesis by (metis rd_state.surjective rd_state.update_convs(2,5))
qed

lemma typed_read_op: "typed_ops n r \<Longrightarrow> n < 2 ^ 31 \<Longrightarrow> read_op junk w s r = Inr (s', r') \<Longrightarrow> typed_ops n r'"
  by (auto simp: read_op_def c_bind_eq_Inr dest: typed_read_alloc [rotated 3] typed_read_free [rotated 2] split: if_splits)

lemma typed_read_ops: "typed_ops n r \<Longrightarrow> n < 2 ^ 31 \<Longrightarrow> read_ops junk s r = Inr r' \<Longrightarrow> typed_ops n r'"
proof (induction junk s r rule: read_ops.induct)
  case (1 junk s r)
  show ?case
  proof (cases "scan_word s")
    case None
    then show ?thesis using "1.prems" by (simp add: read_ops.simps)
  next
    case (Some p)
    obtain w s1 where p: "p = (w, s1)" by (cases p)
    obtain s2 r2 where 2: "read_op junk w s1 r = Inr (s2, r2)" "read_ops junk s2 r2 = Inr r'"
      using "1.prems"(3) Some p by (subst (asm) read_ops.simps) (auto simp: c_bind_eq_Inr)
    then show ?thesis using "1.IH" [OF Some p [symmetric] 2(1) refl typed_read_op [OF "1.prems"(1,2) 2(1)] "1.prems"(2) 2(2)] by simp
  qed
qed

lemma read_trace_result:
  assumes "read_trace junk s = Inr t"
  obtains s1 nops ids r where
    "read_ops junk s1 \<lparr>rs_ops = replicate (nat (s32 nops)) None, op_idx = 0, idx = 0, sze = None, max_idx = 0\<rparr> = Inr r"
    "0 \<le> s32 nops" "0 \<le> s32 ids" "max_idx r = word_of_int (s32 ids - 1)" "word_of_int (s32 nops) = op_idx r"
    "num_ids t = s32 ids" "num_ops t = s32 nops" "ops t = rs_ops r"
proof -
  obtain sugg s1 where 1: "scan_number s = (sugg, s1)" by (cases "scan_number s")
  obtain ids s2 where 2: "scan_number s1 = (ids, s2)" by (cases "scan_number s1")
  obtain nops s3 where 3: "scan_number s2 = (nops, s3)" by (cases "scan_number s2")
  obtain wt s4 where 4: "scan_number s3 = (wt, s4)" by (cases "scan_number s3")
  note d = assms [unfolded read_trace_def 1 2 3 4 Let_def prod.case]
  obtain nn where nn: "nops = Some nn" "0 \<le> s32 nn" using d by (cases nops) (auto simp: used_def split: if_splits)
  obtain ii where ii: "ids = Some ii" "0 \<le> s32 ii" using d nn by (cases ids) (auto simp: used_def split: if_splits)
  obtain r where r: "read_ops junk s4 \<lparr>rs_ops = replicate (nat (s32 nn)) None, op_idx = 0, idx = 0, sze = None, max_idx = 0\<rparr> = Inr r"
    using d nn ii by (cases "read_ops junk s4 \<lparr>rs_ops = replicate (nat (s32 nn)) None, op_idx = 0, idx = 0, sze = None, max_idx = 0\<rparr>")
      (auto simp: used_def)
  have c: "max_idx r = word_of_int (s32 ii - 1)" "word_of_int (s32 nn) = op_idx r"
    using d nn ii r by (auto simp: used_def c_assert_def split: if_splits)
  then have "t = \<lparr>sugg_heapsize = map_option s32 sugg, num_ids = s32 ii, num_ops = s32 nn, weight = map_option s32 wt, ops = rs_ops r\<rparr>"
    using d nn ii r by (simp add: used_def)
  then show thesis using that [OF r nn(2) ii(2) c] by simp
qed

lemma unat_word_small: "0 \<le> x \<Longrightarrow> x < 2 ^ 31 \<Longrightarrow> unat (word_of_int x :: 32 word) = nat x"
  by (simp only: unat_eq_nat_uint uint_word_of_int_eq) (simp add: take_bit_int_eq_self)

lemma read_trace_checks:
  assumes "read_trace junk s = Inr t" "0 < num_ids t"
  shows "length (ops t) = nat (num_ops t) \<and>
    (\<forall>x \<in> set (ops t). \<exists>op. x = Some op \<and> (op_type op \<noteq> FREE \<longrightarrow> 0 \<le> op_index op \<and> op_index op < num_ids t))"
proof -
  obtain s1 nops ids r where rd: "read_ops junk s1 \<lparr>rs_ops = replicate (nat (s32 nops)) None, op_idx = 0, idx = 0, sze = None, max_idx = 0\<rparr> = Inr r"
    and p: "0 \<le> s32 nops" "0 \<le> s32 ids" and c: "max_idx r = word_of_int (s32 ids - 1)" "word_of_int (s32 nops) = op_idx r"
    and t: "num_ids t = s32 ids" "num_ops t = s32 nops" "ops t = rs_ops r"
    by (rule read_trace_result [OF assms(1)]) blast
  have n: "s32 nops < 2 ^ 31" "s32 ids < 2 ^ 31" using s32_range by simp_all
  have "typed_ops (nat (s32 nops)) \<lparr>rs_ops = replicate (nat (s32 nops)) None, op_idx = 0, idx = 0, sze = None, max_idx = 0\<rparr>"
    by (simp add: typed_ops_def)
  moreover have "nat (s32 nops) < 2 ^ 31" using n(1) p(1) by (simp add: nat_less_iff)
  ultimately have r: "typed_ops (nat (s32 nops)) r" using rd typed_read_ops by blast
  have k: "unat (op_idx r) = nat (s32 nops)"
    using unat_word_small [OF p(1) n(1)] c(2) by simp
  have m: "unat (max_idx r) = nat (s32 ids - 1)"
    unfolding c(1) using n(2) assms(2) t(1) by (intro unat_word_small) simp_all
  have i: "0 \<le> sint i \<and> sint i < s32 ids" if "i \<le> max_idx r" for i
  proof -
    have u: "unat i \<le> nat (s32 ids - 1)" using that m by (simp add: word_le_nat_alt)
    moreover have "nat (s32 ids - 1) < 2 ^ 31" using n(2) by (simp add: nat_less_iff)
    ultimately have "unat i < 2 ^ 31" by (rule le_less_trans)
    then have "sint i = int (unat i)" using sint_small [of "unat i"] by simp
    moreover have "int (unat i) \<le> int (nat (s32 ids - 1))" using u by (simp only: of_nat_le_iff)
    moreover have "int (nat (s32 ids - 1)) = s32 ids - 1" using assms(2) t(1) by simp
    ultimately show ?thesis by linarith
  qed
  have "\<exists>op. ops t ! j = Some op \<and> (op_type op \<noteq> FREE \<longrightarrow> 0 \<le> op_index op \<and> op_index op < num_ids t)" if "j < nat (s32 nops)" for j
    using r that i unfolding typed_ops_def k typed_op_def t by metis
  then show ?thesis using r t by (auto simp: typed_ops_def in_set_conv_nth)
qed

text \<open>The index of a free is not checked: this text is accepted, and the request frees block 7 of 1.\<close>

lemma free_index_unchecked:
  "read_trace 0 ''0 1 2 0 a 0 8 f 7'' =
     Inr \<lparr>sugg_heapsize = Some 0, num_ids = 1, num_ops = 2, weight = Some 0,
       ops = [Some \<lparr>op_type = ALLOC, op_index = 0, op_size = 8\<rparr>, Some \<lparr>op_type = FREE, op_index = 7, op_size = 0\<rparr>]\<rparr>"
  by code_simp



end
