(* ===== verification/MdUtil.thy ===== *)
theory MdUtil
  imports MmDriver
begin

text \<open>
  What the two other interpreters of mdriver.c compute on a sensible trace: \<open>eval_mm_speed\<close> runs to its end, and
  \<open>eval_mm_util\<close> finds the largest number of payload bytes that are live at one time, which the heap it is
  divided by is never smaller than.
\<close>

section \<open>Requests on a heap with recorded blocks\<close>

text \<open>The live requests with their sizes are a map; each has its block, which is recorded in the array.\<close>

definition placed :: "ptr option list \<Rightarrow> mm \<Rightarrow> (int \<rightharpoonup> nat) \<Rightarrow> (int \<Rightarrow> nat) \<Rightarrow> bool" where
  "placed bs h m addr \<longleftrightarrow> mm_inv h \<and> finite (dom m) \<and> inj_on addr (dom m) \<and>
     (\<forall>i n. m i = Some n \<longrightarrow> 0 \<le> i \<and> i < int (length bs) \<and> bs ! nat i = Some (Addr (addr i)) \<and>
        0 < n \<and> (\<exists>k. n \<le> k \<and> (addr i, k) \<in> mm_blocks h))"

lemma placedD:
  assumes "placed bs h m addr" "m i = Some n"
  shows "0 \<le> i" "i < int (length bs)" "bs ! nat i = Some (Addr (addr i))" "0 < n"
    "\<exists>k. n \<le> k \<and> (addr i, k) \<in> mm_blocks h"
  using assms by (auto simp: placed_def)

lemma placed_new:
  assumes p: "placed bs h m addr" and i: "0 \<le> i" "i < int (length bs)" and n: "0 < n" "n \<le> k"
    and inv: "mm_inv h'" "(p, k) \<in> mm_blocks h'"
    and old: "\<And>j a x. j \<noteq> i \<Longrightarrow> m j = Some a \<Longrightarrow> (addr j, x) \<in> mm_blocks h \<Longrightarrow> addr j \<noteq> p \<and> (addr j, x) \<in> mm_blocks h'"
  shows "placed (bs[nat i := Some (Addr p)]) h' (m(i \<mapsto> n)) (addr(i := p))"
proof -
  have o: "0 \<le> j \<and> j < int (length bs) \<and> (bs[nat i := Some (Addr p)]) ! nat j = Some (Addr (addr j)) \<and> 0 < a \<and>
      addr j \<noteq> p \<and> (\<exists>x. a \<le> x \<and> (addr j, x) \<in> mm_blocks h')" if "j \<noteq> i" "m j = Some a" for j a
  proof -
    note d = placedD [OF p that(2)]
    obtain x where "a \<le> x" "(addr j, x) \<in> mm_blocks h" using d(5) by blast
    then show ?thesis using old [OF that] d(1-4) i(1) that(1) by auto
  qed
  have "inj_on addr (dom m)" "finite (dom m)" using p by (simp_all add: placed_def)
  then have "inj_on (addr(i := p)) (dom (m(i \<mapsto> n)))"
    using o by (fastforce simp: inj_on_def)
  then show ?thesis
    using o i n inv \<open>finite (dom m)\<close> by (auto simp: placed_def)
qed

lemma placed_alloc:
  assumes p: "placed bs h m addr" and i: "0 \<le> i" "i < int (length bs)" "m i = None"
    and sz: "0 < sz" "sz \<le> 2 ^ 30" and left: "chunk_need (word_of_int sz) + k \<le> heap_left h"
  shows "\<exists>a h'. mm_malloc (word_of_int sz) h = Inr (Addr a, h') \<and>
    placed (bs[nat i := Some (Addr a)]) h' (m(i \<mapsto> nat sz)) (addr(i := a)) \<and> grows (word_of_int sz) h h'"
proof -
  have u: "unat (word_of_int sz :: 64 word) = nat sz" using sz by (intro unat_word_of_int) simp_all
  have inv: "mm_inv h" using p by (simp add: placed_def)
  have room: "mm_room (word_of_int sz) h" using room_left [OF _ _ left] u sz by simp
  obtain a n h' where h: "mm_malloc (word_of_int sz) h = Inr (Addr a, h')" "mm_inv h'" "nat sz \<le> n"
      "a \<notin> fst ` mm_blocks h" "mm_blocks h' = insert (a, n) (mm_blocks h)" "grows (word_of_int sz) h h'"
    using mm_malloc_full [OF inv _ room] u sz by auto
  have "placed (bs[nat i := Some (Addr a)]) h' (m(i \<mapsto> nat sz)) (addr(i := a))"
    using h sz by (intro placed_new [OF p i(1,2), of _ n]) (auto, force)
  then show ?thesis using h(1,6) by blast
qed

lemma placed_other:
  assumes p: "placed bs h m addr" and i: "m i = Some n" "(addr i, k) \<in> mm_blocks h"
    and j: "j \<noteq> i" "m j = Some a" "(addr j, x) \<in> mm_blocks h"
  shows "(addr j, x) \<in> mm_blocks h - {(addr i, k)}"
  using assms by (auto simp: placed_def inj_on_def)

lemma placed_realloc:
  assumes p: "placed bs h m addr" and i: "m i = Some n"
    and sz: "0 < sz" "sz \<le> 2 ^ 30" and left: "chunk_need (word_of_int sz) + k \<le> heap_left h"
  shows "\<exists>a h'. mm_realloc (Addr (addr i)) (word_of_int sz) h = Inr (Addr a, h') \<and>
    placed (bs[nat i := Some (Addr a)]) h' (m(i \<mapsto> nat sz)) (addr(i := a)) \<and> grows (word_of_int sz) h h'"
proof -
  have u: "unat (word_of_int sz :: 64 word) = nat sz" using sz by (intro unat_word_of_int) simp_all
  have inv: "mm_inv h" using p by (simp add: placed_def)
  have room: "mm_room (word_of_int sz) h" using room_left [OF _ _ left] u sz by simp
  note d = placedD [OF p i]
  obtain l where l: "(addr i, l) \<in> mm_blocks h" using d(5) by blast
  have u0: "0 < unat (word_of_int sz :: 64 word)" using u sz by simp
  obtain a x h' where h: "mm_realloc (Addr (addr i)) (word_of_int sz) h = Inr (Addr a, h')" "mm_inv h'" "nat sz \<le> x"
      "mm_blocks h' = insert (a, x) (mm_blocks h - {(addr i, l)})" "(a, x) \<notin> mm_blocks h" "grows (word_of_int sz) h h'"
    using mm_realloc_ok [OF inv l u0 room] unfolding u by (elim exE conjE)
  have "addr j \<noteq> a \<and> (addr j, y) \<in> mm_blocks h'" if j: "j \<noteq> i" "m j = Some b" "(addr j, y) \<in> mm_blocks h" for j b y
  proof -
    have y: "(addr j, y) \<in> mm_blocks h'" using placed_other [OF p i l j] h(4) by simp
    moreover have "addr j \<noteq> a"
    proof
      assume "addr j = a"
      then have "y = x" using mma.blocks_unique [OF h(2), of a y x] y h(4) by simp
      then show False using h(5) j(3) \<open>addr j = a\<close> by simp
    qed
    ultimately show ?thesis by simp
  qed
  then have "placed (bs[nat i := Some (Addr a)]) h' (m(i \<mapsto> nat sz)) (addr(i := a))"
    using h sz by (intro placed_new [OF p d(1,2), of _ x]) auto
  then show ?thesis using h(1,6) by blast
qed

lemma placed_free:
  assumes p: "placed bs h m addr" and i: "m i = Some n"
  shows "\<exists>h'. mm_free (Addr (addr i)) h = Inr h' \<and> placed bs h' (m(i := None)) addr \<and> vm h' = vm h"
proof -
  note d = placedD [OF p i]
  obtain l where l: "(addr i, l) \<in> mm_blocks h" using d(5) by blast
  have inv: "mm_inv h" using p by (simp add: placed_def)
  obtain h' where h: "mm_free (Addr (addr i)) h = Inr h'" "mm_inv h'" "mm_blocks h' = mm_blocks h - {(addr i, l)}"
      "vm h' = vm h"
    using mm_free_full [OF inv l] by blast
  have "placed bs h' (m(i := None)) addr"
    unfolding placed_def
  proof (intro conjI allI impI)
    fix j a assume j: "(m(i := None)) j = Some a"
    then have ji: "j \<noteq> i" "m j = Some a" by (auto split: if_splits)
    note e = placedD [OF p ji(2)]
    show "0 \<le> j" "j < int (length bs)" "bs ! nat j = Some (Addr (addr j))" "0 < a" using e by simp_all
    obtain x where "a \<le> x" "(addr j, x) \<in> mm_blocks h" using e(5) by blast
    then show "\<exists>k. a \<le> k \<and> (addr j, k) \<in> mm_blocks h'" using placed_other [OF p i l ji] h(3) by auto
  qed (use p h(2) in \<open>auto simp: placed_def inj_on_def\<close>)
  then show ?thesis using h(1,4) by blast
qed

lemma placed_read: "placed bs h m addr \<Longrightarrow> m i = Some n \<Longrightarrow> read_slot bs i = Inr (Addr (addr i))"
  using placedD [of bs h m addr i n] by (simp add: read_slot_def arr_at_int)

section \<open>The live payload\<close>

definition step_sizes :: "traceop \<Rightarrow> (int \<rightharpoonup> nat) \<Rightarrow> (int \<rightharpoonup> nat)" where
  "step_sizes r m = (case op_type r of
     FREE \<Rightarrow> m(op_index r := None) | _ \<Rightarrow> m(op_index r \<mapsto> nat (op_size r)))"

definition payload :: "(int \<rightharpoonup> nat) \<Rightarrow> nat" where
  "payload m = (\<Sum>i \<in> dom m. the (m i))"

text \<open>The largest payload that is live at some moment of a trace.\<close>

fun high_water :: "(int \<rightharpoonup> nat) \<Rightarrow> traceop list \<Rightarrow> nat" where
  "high_water m [] = payload m"
| "high_water m (r # rs) = max (payload m) (high_water (step_sizes r m) rs)"

lemma payload_upd: "finite (dom m) \<Longrightarrow> payload (m(i \<mapsto> n)) + (case m i of None \<Rightarrow> 0 | Some k \<Rightarrow> k) = payload m + n"
proof -
  assume fin: "finite (dom m)"
  have rest: "(\<Sum>j \<in> dom m - {i}. the ((m(i \<mapsto> n)) j)) = (\<Sum>j \<in> dom m - {i}. the (m j))"
    by (rule sum.cong) auto
  have "payload (m(i \<mapsto> n)) = n + (\<Sum>j \<in> dom m - {i}. the (m j))"
    using fin by (simp add: payload_def sum.insert_remove rest)
  moreover have "payload m = (case m i of None \<Rightarrow> 0 | Some k \<Rightarrow> k) + (\<Sum>j \<in> dom m - {i}. the (m j))"
  proof (cases "m i")
    case (Some k)
    then show ?thesis using fin sum.remove [of "dom m" i "\<lambda>j. the (m j)"] by (auto simp: payload_def)
  qed (simp add: payload_def domIff)
  ultimately show ?thesis by simp
qed

lemma payload_del: "finite (dom m) \<Longrightarrow> m i = Some n \<Longrightarrow> payload (m(i := None)) + n = payload m"
  using payload_upd [of "m(i := None)" i n] by (simp add: map_upd_triv)

lemma payload_in_heap:
  assumes p: "placed bs h m addr" shows "payload m \<le> mem_heapsize (vm h)"
proof -
  let ?I = "\<lambda>i. {addr i ..< addr i + the (m i)}"
  have inv: "mm_inv h" and fin: "finite (dom m)" using p by (simp_all add: placed_def)
  have apart: "?I i \<inter> ?I j = {}" if ij: "i \<in> dom m" "j \<in> dom m" "i \<noteq> j" for i j
  proof -
    obtain a where a: "m i = Some a" using ij(1) by (auto simp: dom_def)
    obtain b where b: "m j = Some b" using ij(2) by (auto simp: dom_def)
    note ab = a b
    obtain x y where xy: "a \<le> x" "(addr i, x) \<in> mm_blocks h" "b \<le> y" "(addr j, y) \<in> mm_blocks h"
      using placedD(5) [OF p ab(1)] placedD(5) [OF p ab(2)] by blast
    have "addr i \<noteq> addr j" using p ij unfolding placed_def inj_on_def by blast
    then have "addr i + x \<le> addr j \<or> addr j + y \<le> addr i"
      using mma.blocks_disjoint [OF inv xy(2,4)] mma.blocks_disjoint [OF inv xy(4,2)] by (meson linorder_neqE_nat)
    then show ?thesis using xy(1,3) ab by auto
  qed
  have sub: "?I i \<subseteq> {mem_start_brk (vm h) ..< mem_brk (vm h)}" if i: "i \<in> dom m" for i
  proof -
    obtain a where a: "m i = Some a" using i by (auto simp: dom_def)
    obtain x where x: "a \<le> x" "(addr i, x) \<in> mm_blocks h" using placedD(5) [OF p a] by blast
    show ?thesis using mm_blocks_in_heap(1,2) [OF inv x(2)] x(1) a by auto
  qed
  have "payload m = card (\<Union>i \<in> dom m. ?I i)"
    using fin apart by (subst card_UN_disjoint) (auto simp: payload_def)
  also have "\<dots> \<le> card {mem_start_brk (vm h) ..< mem_brk (vm h)}"
    by (intro card_mono UN_least sub) simp_all
  finally show ?thesis by (simp add: mem_heapsize_def)
qed

section \<open>Utilisation\<close>

lemma grows_heapsize: "grows sz h h' \<Longrightarrow> mem_heapsize (vm h) \<le> mem_heapsize (vm h')"
  by (auto simp: grows_def mem_heapsize_def)

definition util_ok :: "drv \<Rightarrow> util \<Rightarrow> (int \<rightharpoonup> nat) \<Rightarrow> (int \<Rightarrow> nat) \<Rightarrow> bool" where
  "util_ok d u m addr \<longleftrightarrow> placed (tr_blocks d) (heap d) m addr \<and> length (tr_sizes d) = length (tr_blocks d) \<and>
     (\<forall>i n. m i = Some n \<longrightarrow> tr_sizes d ! nat i = Some n \<and> n \<le> 2 ^ 30) \<and>
     mem_area (heap d) \<and> total_size u = int (payload m) \<and> int (payload m) \<le> max_total_size u \<and>
     max_total_size u \<le> int (mem_heapsize (vm (heap d)))"

lemma payload_small:
  assumes "placed bs h m addr" "mem_area h" shows "payload m \<le> MAX_HEAP" "mem_heapsize (vm h) \<le> MAX_HEAP"
proof -
  have "mm_inv h" using assms(1) by (simp add: placed_def)
  then have "mem_brk (vm h) \<le> mem_max_addr (vm h)" by (auto simp: mm_inv_def mm_ok_def heap_ok_def mem_ok_def)
  then show "mem_heapsize (vm h) \<le> MAX_HEAP" using assms(2) by (simp add: mem_heapsize_def mem_area_def)
  then show "payload m \<le> MAX_HEAP" using payload_in_heap [OF assms(1)] by simp
qed

lemma mem_area_cong: "heap_area h' = heap_area h \<Longrightarrow> mem_area h' = mem_area h"
  by (simp add: heap_area_def mem_area_def)

lemma set_slots:
  assumes "0 \<le> i" "i < int (length (tr_blocks d))" "length (tr_sizes d) = length (tr_blocks d)" "0 < sz" "sz \<le> 2 ^ 30"
  shows "c_bind (set_block i p d) (\<lambda>d. c_bind (set_size i sz d) f) =
    f (d\<lparr>tr_blocks := (tr_blocks d)[nat i := Some p], tr_sizes := (tr_sizes d)[nat i := Some (nat sz)]\<rparr>)"
  using assms by (simp add: set_block_def set_size_def arr_set_int to_size_t_def)

text \<open>Recording a new block of \<open>sz\<close> bytes for index \<open>i\<close>.\<close>

lemma util_ok_record:
  assumes ok: "util_ok d u m addr" and i: "0 \<le> i" "i < int (length (tr_blocks d))" and sz: "0 < sz" "sz \<le> 2 ^ 30"
    and p: "placed ((tr_blocks d)[nat i := Some (Addr a)]) h' (m(i \<mapsto> nat sz)) addr'" and g: "grows w (heap d) h'"
    and n: "n + (case m i of None \<Rightarrow> 0 | Some k \<Rightarrow> int k) = sz"
  defines "d' \<equiv> d\<lparr>heap := h', tr_blocks := (tr_blocks d)[nat i := Some (Addr a)],
    tr_sizes := (tr_sizes d)[nat i := Some (nat sz)]\<rparr>"
  shows "util_ok d' (account n u) (m(i \<mapsto> nat sz)) addr' \<and>
    max_total_size (account n u) = max (max_total_size u) (int (payload (m(i \<mapsto> nat sz))))"
proof -
  let ?m = "m(i \<mapsto> nat sz)"
  have area: "mem_area h'" using ok mem_area_cong [OF grows_area [OF g]] by (simp add: util_ok_def)
  have "finite (dom m)" using ok by (simp add: util_ok_def placed_def)
  from payload_upd [OF this, of i "nat sz"] have "int (payload ?m) = int (payload m) + n"
    using n sz by (simp split: option.splits)
  then have t: "total_size u + n = int (payload ?m)" using ok by (simp add: util_ok_def)
  have small: "payload ?m \<le> MAX_HEAP" by (rule payload_small(1) [OF p area])
  then have acc: "account n u = \<lparr>total_size = int (payload ?m),
      max_total_size = max (max_total_size u) (int (payload ?m))\<rparr>"
    by (simp add: account_def t s32_id Let_def max_def)
  have "int (payload ?m) \<le> int (mem_heapsize (vm h'))" using payload_in_heap [OF p] by simp
  moreover have "max_total_size u \<le> int (mem_heapsize (vm h'))"
    using ok grows_heapsize [OF g] by (simp add: util_ok_def)
  moreover have "tr_sizes d' ! nat j = Some k \<and> k \<le> 2 ^ 30" if "?m j = Some k" for j k
  proof (cases "j = i")
    case True
    then show ?thesis using that i ok sz by (simp add: d'_def util_ok_def)
  next
    case False
    then have j: "m j = Some k" using that by simp
    then have "0 \<le> j" using ok placedD(1) unfolding util_ok_def by blast
    then have "nat j \<noteq> nat i" using False i by simp
    then show ?thesis using j ok by (simp add: d'_def util_ok_def)
  qed
  ultimately show ?thesis using p ok area unfolding util_ok_def acc d'_def by simp
qed

lemma util_op_ok:
  assumes ok: "util_ok d u m addr" and t: "trace_ok (int (length (tr_blocks d))) (dom m) (r # rs)"
    and left: "trace_need (r # rs) \<le> heap_left (heap d)"
  shows "\<exists>d' u' addr'. util_op r (d, u) = Inr (d', u') \<and> util_ok d' u' (step_sizes r m) addr' \<and>
    goes_on d d' (trace_need rs) \<and> max_total_size u' = max (max_total_size u) (int (payload (step_sizes r m)))"
proof -
  let ?i = "op_index r" and ?sz = "op_size r"
  have p: "placed (tr_blocks d) (heap d) m addr" and len: "length (tr_sizes d) = length (tr_blocks d)"
    using ok by (simp_all add: util_ok_def)
  have i: "0 \<le> ?i" "?i < int (length (tr_blocks d))" using t by simp_all
  have read: "read_slot (tr_sizes d) ?i = Inr n" "s32 (int n) = int n" if n: "m ?i = Some n" for n
  proof -
    have "tr_sizes d ! nat ?i = Some n" "n \<le> 2 ^ 30" using ok n unfolding util_ok_def by blast+
    then show "read_slot (tr_sizes d) ?i = Inr n" "s32 (int n) = int n"
      using i len by (simp_all add: read_slot_def arr_at_int s32_id)
  qed
  let ?d = "\<lambda>a h'. d\<lparr>heap := h', tr_blocks := (tr_blocks d)[nat ?i := Some (Addr a)],
    tr_sizes := (tr_sizes d)[nat ?i := Some (nat ?sz)]\<rparr>"
  have on: "goes_on d (?d a h') (trace_need rs)" if "grows (word_of_int ?sz) (heap d) h'" "op_type r \<noteq> FREE" for a h'
    using that grows_left [OF that(1), of "trace_need rs"] grows_area [OF that(1)] left
    by (cases "op_type r") (simp_all add: goes_on_def)
  show ?thesis
  proof (cases "op_type r")
    case ALLOC
    then have a: "m ?i = None" "0 < ?sz" "?sz \<le> 2 ^ 30" "chunk_need (word_of_int ?sz) + trace_need rs \<le> heap_left (heap d)"
      using t left by auto
    obtain q h' where h: "mm_malloc (word_of_int ?sz) (heap d) = Inr (Addr q, h')"
        "placed ((tr_blocks d)[nat ?i := Some (Addr q)]) h' (m(?i \<mapsto> nat ?sz)) (addr(?i := q))" "grows (word_of_int ?sz) (heap d) h'"
      using placed_alloc [OF p i a] by blast
    have "util_op r (d, u) = Inr (?d q h', account ?sz u)"
      using ALLOC h(1) i len a(2,3) by (simp add: util_op_def set_slots Let_def)
    then show ?thesis
      using util_ok_record [OF ok i a(2,3) h(2,3), of ?sz] on [OF h(3)] a(1) ALLOC by (simp add: step_sizes_def) blast
  next
    case REALLOC
    then obtain n where n: "m ?i = Some n" using t by auto
    have a: "0 < ?sz" "?sz \<le> 2 ^ 30" "chunk_need (word_of_int ?sz) + trace_need rs \<le> heap_left (heap d)"
      using t left REALLOC by auto
    obtain q h' where h: "mm_realloc (Addr (addr ?i)) (word_of_int ?sz) (heap d) = Inr (Addr q, h')"
        "placed ((tr_blocks d)[nat ?i := Some (Addr q)]) h' (m(?i \<mapsto> nat ?sz)) (addr(?i := q))" "grows (word_of_int ?sz) (heap d) h'"
      using placed_realloc [OF p n a] by blast
    have "n \<le> 2 ^ 30" using ok n by (auto simp: util_ok_def)
    then have "s32 (?sz - int n) = ?sz - int n" using a by (intro s32_id) simp_all
    then have "util_op r (d, u) = Inr (?d q h', account (?sz - int n) u)"
      using REALLOC h(1) i len a read [OF n] placed_read [OF p n] by (simp add: util_op_def set_slots Let_def)
    then show ?thesis
      using util_ok_record [OF ok i a(1,2) h(2,3), of "?sz - int n"] on [OF h(3)] n REALLOC by (simp add: step_sizes_def) blast
  next
    case FREE
    then obtain n where n: "m ?i = Some n" using t by auto
    obtain h' where h: "mm_free (Addr (addr ?i)) (heap d) = Inr h'" "placed (tr_blocks d) h' (m(?i := None)) addr"
        "vm h' = vm (heap d)"
      using placed_free [OF p n] by blast
    have fin: "finite (dom m)" using p by (simp add: placed_def)
    have pay: "int (payload (m(?i := None))) = total_size u - int n" "int (payload (m(?i := None))) \<le> max_total_size u"
      using payload_del [OF fin n] ok by (simp_all add: util_ok_def)
    have area: "mem_area h'" using ok h(3) by (simp add: util_ok_def mem_area_def)
    then have s: "s32 (total_size u - int n) = total_size u - int n"
      using payload_small(1) [OF h(2)] pay(1) by (intro s32_id) simp_all
    have "util_op r (d, u) = Inr (d\<lparr>heap := h'\<rparr>, u\<lparr>total_size := total_size u - int n\<rparr>)"
      using FREE h(1) read [OF n] placed_read [OF p n] s by (simp add: util_op_def Let_def)
    moreover have "util_ok (d\<lparr>heap := h'\<rparr>) (u\<lparr>total_size := total_size u - int n\<rparr>) (m(?i := None)) addr"
      using ok h(2,3) area pay unfolding util_ok_def by auto
    moreover have "goes_on d (d\<lparr>heap := h'\<rparr>) (trace_need rs)"
      using h(3) left FREE by (simp add: goes_on_def heap_left_def heap_area_def)
    ultimately show ?thesis using pay(2) FREE by (auto simp: step_sizes_def)
  qed
qed

lemma dom_step: "dom (step_sizes r m) = (if op_type r = FREE then dom m - {op_index r} else insert (op_index r) (dom m))"
  by (cases "op_type r") (auto simp: step_sizes_def)

lemma trace_ok_step: "trace_ok n (dom m) (r # rs) \<Longrightarrow> trace_ok n (dom (step_sizes r m)) rs"
  by (cases "op_type r") (auto simp: dom_step insert_absorb)

lemma util_ops_ok:
  assumes "util_ok d u m addr" "trace_ok (int (length (tr_blocks d))) (dom m) ops" "trace_need ops \<le> heap_left (heap d)"
    and "0 \<le> max_total_size u"
  shows "\<exists>d' u' addr' m'. util_ops ops (d, u) = Inr (d', u') \<and> util_ok d' u' m' addr' \<and> goes_on d d' 0 \<and>
    max_total_size u' = max (max_total_size u) (int (high_water m ops))"
  using assms
proof (induction ops arbitrary: d u m addr)
  case Nil
  then have "max_total_size u = max (max_total_size u) (int (payload m))" by (simp add: util_ok_def)
  then show ?case using Nil.prems(1)
    by (intro exI [of _ d] exI [of _ u] exI [of _ addr] exI [of _ m]) (simp add: goes_on_def)
next
  case (Cons r rs)
  obtain d1 u1 addr1 where 1: "util_op r (d, u) = Inr (d1, u1)" "util_ok d1 u1 (step_sizes r m) addr1"
      "goes_on d d1 (trace_need rs)" "max_total_size u1 = max (max_total_size u) (int (payload (step_sizes r m)))"
    using util_op_ok [OF Cons.prems(1-3)] by blast
  have len: "length (tr_blocks d1) = length (tr_blocks d)" "trace_need rs \<le> heap_left (heap d1)"
    using 1(3) by (simp_all add: goes_on_def)
  have "int (payload m) \<le> max_total_size u" using Cons.prems(1) by (simp add: util_ok_def)
  moreover have "payload (step_sizes r m) \<le> high_water (step_sizes r m) rs" by (cases rs) simp_all
  ultimately have mx: "max (max_total_size u1) (int (high_water (step_sizes r m) rs)) =
      max (max_total_size u) (int (high_water m (r # rs)))"
    using 1(4) by simp
  have "0 \<le> max_total_size u1" using 1(4) Cons.prems(4) by (simp add: max_def)
  then obtain d2 u2 addr2 m2 where "util_ops rs (d1, u1) = Inr (d2, u2)" "util_ok d2 u2 m2 addr2" "goes_on d1 d2 0"
      "max_total_size u2 = max (max_total_size u1) (int (high_water (step_sizes r m) rs))"
    using Cons.IH [OF 1(2)] trace_ok_step [OF Cons.prems(2)] len by auto
  then show ?case using 1(1) goes_on_trans [OF 1(3)] mx by auto
qed

lemma eval_mm_util_ok:
  assumes "mem_area (heap d)" "length (tr_blocks d) = n" "length (tr_sizes d) = n"
    and "trace_ok (int n) {} ops" "trace_need ops \<le> MAX_HEAP"
  shows "\<exists>d'. eval_mm_util ops d = Inr (int (high_water Map.empty ops), mem_heapsize (vm (heap d')), d') \<and>
    high_water Map.empty ops \<le> mem_heapsize (vm (heap d')) \<and> mem_heapsize (vm (heap d')) \<le> MAX_HEAP \<and> goes_on d d' 0"
proof -
  obtain h where h: "reset_heap (heap d) = (0, h)" "mm_inv h" "mm_blocks h = {}" "heap_left h = MAX_HEAP"
      "heap_area h = heap_area (heap d)"
    by (rule reset_heap_ok [OF assms(1)])
  let ?u = "\<lparr>total_size = 0, max_total_size = 0\<rparr>"
  have "util_ok (d\<lparr>heap := h\<rparr>) ?u Map.empty (\<lambda>_. 0)"
    using h(2) assms(1-3) mem_area_cong [OF h(5)] by (simp add: util_ok_def placed_def payload_def)
  from util_ops_ok [OF this, of ops] obtain d' u' addr' m' where u: "util_ops ops (d\<lparr>heap := h\<rparr>, ?u) = Inr (d', u')"
      "util_ok d' u' m' addr'" "goes_on (d\<lparr>heap := h\<rparr>) d' 0" "max_total_size u' = int (high_water Map.empty ops)"
    using assms(2,4,5) h(4) by auto
  have "high_water Map.empty ops \<le> mem_heapsize (vm (heap d'))" using u(2,4) by (simp add: util_ok_def)
  moreover have "mem_heapsize (vm (heap d')) \<le> MAX_HEAP" using u(2) payload_small(2) unfolding util_ok_def by blast
  moreover have "goes_on d d' 0" using u(3) h(5) by (simp add: goes_on_def)
  ultimately show ?thesis using h(1) u(1,4) by (simp add: eval_mm_util_def)
qed

section \<open>Speed\<close>

lemma speed_op_ok:
  assumes p: "placed bs h m addr" and t: "trace_ok (int (length bs)) (dom m) (r # rs)"
    and left: "trace_need (r # rs) \<le> heap_left h"
  shows "\<exists>bs' h' addr'. speed_op (\<lambda>h n. mm_malloc (word_of_int n) h) (\<lambda>h p n. mm_realloc p (word_of_int n) h)
      (\<lambda>h p. mm_free p h) r (bs, h) = Inr (bs', h') \<and> placed bs' h' (step_sizes r m) addr' \<and>
    length bs' = length bs \<and> trace_need rs \<le> heap_left h' \<and> heap_area h' = heap_area h"
proof -
  let ?i = "op_index r" and ?sz = "op_size r"
  have i: "0 \<le> ?i" "?i < int (length bs)" using t by simp_all
  have on: "trace_need rs \<le> heap_left h' \<and> heap_area h' = heap_area h"
    if "grows (word_of_int ?sz) h h'" "op_type r \<noteq> FREE" for h'
    using that grows_left [OF that(1), of "trace_need rs"] grows_area [OF that(1)] left by (cases "op_type r") simp_all
  show ?thesis
  proof (cases "op_type r")
    case ALLOC
    then have a: "m ?i = None" "0 < ?sz" "?sz \<le> 2 ^ 30" "chunk_need (word_of_int ?sz) + trace_need rs \<le> heap_left h"
      using t left by auto
    show ?thesis using placed_alloc [OF p i a] ALLOC on i
      by (auto simp: speed_op_def step_sizes_def arr_set_int)
  next
    case REALLOC
    then obtain n where n: "m ?i = Some n" using t by auto
    have a: "0 < ?sz" "?sz \<le> 2 ^ 30" "chunk_need (word_of_int ?sz) + trace_need rs \<le> heap_left h"
      using t left REALLOC by auto
    show ?thesis using placed_realloc [OF p n a] REALLOC on i placed_read [OF p n]
      by (auto simp: speed_op_def step_sizes_def arr_set_int)
  next
    case FREE
    then obtain n where n: "m ?i = Some n" using t by auto
    show ?thesis using placed_free [OF p n] FREE left placed_read [OF p n]
      by (auto simp: speed_op_def step_sizes_def heap_left_def heap_area_def)
  qed
qed

lemma eval_mm_speed_ok:
  assumes "mem_area h" "trace_ok (int (length bs)) {} ops" "trace_need ops \<le> MAX_HEAP"
  shows "\<exists>bs' h'. eval_mm_speed ops bs h = Inr (bs', h') \<and> length bs' = length bs \<and> heap_area h' = heap_area h"
proof -
  let ?al = "\<lambda>h n. mm_malloc (word_of_int n) h" and ?re = "\<lambda>h p n. mm_realloc p (word_of_int n) h"
    and ?fr = "\<lambda>h p. mm_free p h"
  have run: "\<exists>bs' h'. speed_ops ?al ?re ?fr ops (bs, h) = Inr (bs', h') \<and> length bs' = length bs \<and> heap_area h' = heap_area h"
    if "placed bs h m addr" "trace_ok (int (length bs)) (dom m) ops" "trace_need ops \<le> heap_left h" for bs h m addr ops
    using that
  proof (induction ops arbitrary: bs h m addr)
    case (Cons r rs)
    obtain bs1 h1 addr1 where 1: "speed_op ?al ?re ?fr r (bs, h) = Inr (bs1, h1)" "placed bs1 h1 (step_sizes r m) addr1"
        "length bs1 = length bs" "trace_need rs \<le> heap_left h1" "heap_area h1 = heap_area h"
      using speed_op_ok [OF Cons.prems] by blast
    then show ?case using Cons.IH [OF 1(2)] trace_ok_step [OF Cons.prems(2)] by auto
  qed simp
  obtain h0 where h0: "reset_heap h = (0, h0)" "mm_inv h0" "heap_left h0 = MAX_HEAP" "heap_area h0 = heap_area h"
    by (rule reset_heap_ok [OF assms(1)])
  have "placed bs h0 Map.empty (\<lambda>_. 0)" using h0(2) by (simp add: placed_def)
  from run [OF this] show ?thesis using assms(2,3) h0 by (simp add: eval_mm_speed_def)
qed

section \<open>The property\<close>

text \<open>C17: the utilisation of mm.c: on a sensible trace that fits in the heap \<open>eval_mm_util\<close> ends without an error, its
  numerator is the largest payload that is live at one time, and the heap size it is divided by is at least
  as large.\<close>

theorem eval_mm_util_high_water:
  assumes "mem_area m" "trace_ok (int n) {} ops" "trace_need ops \<le> MAX_HEAP"
  shows "\<exists>d'. eval_mm_util ops (start_drv m rs n) = Inr (int (high_water Map.empty ops), mem_heapsize (vm (heap d')), d') \<and>
    high_water Map.empty ops \<le> mem_heapsize (vm (heap d'))"
  using eval_mm_util_ok [of "start_drv m rs n" n ops] assms by (auto simp: start_drv_def)

theorem eval_mm_util_high_water_witness:
  "\<exists>d'. eval_mm_util
     [\<lparr>op_type = ALLOC, op_index = 0, op_size = 100\<rparr>, \<lparr>op_type = ALLOC, op_index = 1, op_size = 40\<rparr>,
      \<lparr>op_type = FREE, op_index = 0, op_size = 0\<rparr>, \<lparr>op_type = REALLOC, op_index = 1, op_size = 60\<rparr>]
     (start_drv (fresh_heap 4096 junk_hdrs junk_bytes) [] 2) = Inr (140, mem_heapsize (vm (heap d')), d') \<and>
    140 \<le> mem_heapsize (vm (heap d'))"
proof -
  let ?ops = "[\<lparr>op_type = ALLOC, op_index = 0, op_size = 100\<rparr>, \<lparr>op_type = ALLOC, op_index = 1, op_size = 40\<rparr>,
      \<lparr>op_type = FREE, op_index = 0, op_size = 0\<rparr>, \<lparr>op_type = REALLOC, op_index = 1, op_size = 60\<rparr>]"
  have "high_water Map.empty ?ops = 140" by (simp add: step_sizes_def payload_def)
  then show ?thesis
    using eval_mm_util_high_water [of "fresh_heap 4096 junk_hdrs junk_bytes" 2 ?ops "[]"]
    by (simp add: mem_area_def fresh_heap_def mm_init_def chunk_need_def)
qed

end
