(* ===== verification/CDouble.thy ===== *)
theory CDouble
  imports Complex_Main CPrelude
begin

text \<open>
  The C type \<open>double\<close>: the values of the IEEE 754 binary64 format and its arithmetic, every operation the exact
  one followed by rounding to the nearest value, ties to the even one, with subnormal numbers, overflow
  to an infinity, and NaN. The sign of a zero is not kept: a zero divisor counts as positive.
\<close>

section \<open>Rounding\<close>

text \<open>The exponent of a number: of the binade it lies in, cut off at the one of the smallest normal number
  and above the largest finite one.\<close>

fun expo_up :: "nat \<Rightarrow> real \<Rightarrow> int" where
  "expo_up 0 x = 0"
| "expo_up (Suc n) x = (if x < 2 then 0 else 1 + expo_up n (x / 2))"

fun expo_down :: "nat \<Rightarrow> real \<Rightarrow> int" where
  "expo_down 0 x = 0"
| "expo_down (Suc n) x = (if 1 \<le> x then 0 else expo_down n (2 * x) - 1)"

definition expo :: "real \<Rightarrow> int" where
  "expo x = (if 1 \<le> \<bar>x\<bar> then expo_up 1024 \<bar>x\<bar> else expo_down 1022 \<bar>x\<bar>)"

text \<open>The distance of neighbouring values of this exponent, and the nearest integer.\<close>

definition ulp :: "real \<Rightarrow> real" where
  "ulp x = 2 powi (expo x - 52)"

definition rne :: "real \<Rightarrow> int" where
  "rne y = (let f = \<lfloor>y\<rfloor>; d = y - of_int f in
     if d < 1 / 2 \<or> (d = 1 / 2 \<and> even f) then f else f + 1)"

definition rnd :: "real \<Rightarrow> real" where
  "rnd x = of_int (rne (x / ulp x)) * ulp x"

lemma rne_int [simp]: "rne (of_int k) = k"
  by (simp add: rne_def)

lemma rne_mono: "x \<le> y \<Longrightarrow> rne x \<le> rne y"
proof -
  assume xy: "x \<le> y"
  then have "\<lfloor>x\<rfloor> \<le> \<lfloor>y\<rfloor>" by (rule floor_mono)
  then consider "\<lfloor>x\<rfloor> = \<lfloor>y\<rfloor>" | "\<lfloor>x\<rfloor> + 1 \<le> \<lfloor>y\<rfloor>" by linarith
  then show ?thesis using xy by cases (auto simp: rne_def Let_def)
qed

lemma rne_minus: "rne (- x) = - rne x"
proof (cases "x \<in> \<int>")
  case True
  then obtain k where "x = of_int k" by (auto elim: Ints_cases)
  then show ?thesis using rne_int [of k] rne_int [of "- k"] by simp
next
  case False
  then have "x \<noteq> of_int \<lfloor>x\<rfloor>" by (metis Ints_of_int)
  then have "\<lfloor>- x\<rfloor> = - \<lfloor>x\<rfloor> - 1" by linarith
  then show ?thesis by (auto simp: rne_def Let_def; linarith?)
qed

lemma rne_error: "\<bar>of_int (rne y) - y\<bar> \<le> 1 / 2"
  using floor_correct [of y] by (auto simp: rne_def Let_def)

lemma expo_up_bounds:
  "1 \<le> x \<Longrightarrow> 0 \<le> expo_up n x \<and> expo_up n x \<le> int n \<and> 2 powi (expo_up n x) \<le> x \<and>
     (expo_up n x < int n \<longrightarrow> x < 2 powi (expo_up n x + 1))"
  by (induction n x rule: expo_up.induct)
    (auto simp: power_int_add field_simps)

lemma expo_down_bounds:
  "0 \<le> x \<Longrightarrow> x < 1 \<Longrightarrow> expo_down n x \<le> 0 \<and> - int n \<le> expo_down n x \<and>
     (- int n < expo_down n x \<longrightarrow> 2 powi (expo_down n x) \<le> x) \<and> (0 < n \<longrightarrow> expo_down n x < 0 \<and> x < 2 powi (expo_down n x + 1))"
proof (induction n x rule: expo_down.induct)
  case (2 n x)
  show ?case
  proof (cases "2 * x < 1")
    case True
    then show ?thesis using 2 by (cases n) (auto simp: power_int_diff power_int_add field_simps)
  next
    case False
    then have "expo_down n (2 * x) = 0" by (cases n) auto
    then show ?thesis using False 2 by (auto simp: power_int_diff field_simps)
  qed
qed simp

lemma expo_range: "- 1022 \<le> expo x \<and> expo x \<le> 1024"
  using expo_up_bounds [of "\<bar>x\<bar>" 1024] expo_down_bounds [of "\<bar>x\<bar>" 1022] by (auto simp: expo_def)

lemma expo_lower: "- 1022 < expo x \<Longrightarrow> 2 powi (expo x) \<le> \<bar>x\<bar>"
  using expo_up_bounds [of "\<bar>x\<bar>" 1024] expo_down_bounds [of "\<bar>x\<bar>" 1022] by (auto simp: expo_def split: if_splits)

lemma expo_upper: "expo x < 1024 \<Longrightarrow> \<bar>x\<bar> < 2 powi (expo x + 1)"
  using expo_up_bounds [of "\<bar>x\<bar>" 1024] expo_down_bounds [of "\<bar>x\<bar>" 1022] by (auto simp: expo_def split: if_splits)

lemma powi_le_iff [simp]: "(2::real) powi a \<le> 2 powi b \<longleftrightarrow> a \<le> b"
  by (metis linorder_not_le one_less_numeral_iff power_int_strict_increasing power_int_increasing order_less_imp_le
      semiring_norm(76) one_le_numeral)

lemma powi_less_iff [simp]: "(2::real) powi a < 2 powi b \<longleftrightarrow> a < b"
  by (simp flip: linorder_not_le)

lemma expo_mono: "\<bar>x\<bar> \<le> \<bar>y\<bar> \<Longrightarrow> expo x \<le> expo y"
proof (rule ccontr)
  assume a: "\<bar>x\<bar> \<le> \<bar>y\<bar>" and n: "\<not> expo x \<le> expo y"
  have "\<bar>y\<bar> < 2 powi (expo y + 1)" using n expo_range [of x] by (intro expo_upper) linarith
  moreover have "2 powi (expo x) \<le> \<bar>x\<bar>" using n expo_range [of y] by (intro expo_lower) linarith
  ultimately have "(2::real) powi (expo x) < 2 powi (expo y + 1)" using a by linarith
  then show False using n by simp
qed

lemma expo_minus [simp]: "expo (- x) = expo x"
  by (simp add: expo_def)

lemma expo_abs [simp]: "expo \<bar>x\<bar> = expo x"
  by (simp add: expo_def)

lemma ulp_neq [simp]: "ulp x \<noteq> 0"
  by (simp add: ulp_def)

lemma ulp_pos [simp]: "0 < ulp x"
  by (simp add: ulp_def)

lemma ulp_nonneg [simp]: "0 \<le> ulp x"
  by (simp add: ulp_def)

lemma rnd_minus: "rnd (- x) = - rnd x"
  by (simp add: rnd_def ulp_def rne_minus)

lemma rnd_0 [simp]: "rnd 0 = 0"
  using rne_int [of 0] by (simp add: rnd_def)

lemma powi_int: "0 \<le> e \<Longrightarrow> (2::real) powi e = of_int (2 ^ nat e)"
  by (simp add: power_int_def)

lemma powi_ratio: "(2::real) powi a / 2 powi b = 2 powi (a - b)"
  by (simp add: power_int_diff)

lemma sqrt_powi: "sqrt (2 powi (2 * k)) = 2 powi k"
proof -
  have "2 powi (2 * k) = ((2::real) powi k)\<^sup>2" using power_int_power' [of "2::real" k 2] by (simp add: mult.commute)
  then show ?thesis by simp
qed

lemma rnd_below_binade:
  assumes "0 \<le> x" "expo x < 1024" shows "rnd x \<le> 2 powi (expo x + 1)"
proof -
  have "x / ulp x \<le> 2 powi (expo x + 1) / ulp x" using expo_upper [OF assms(2)] assms(1)
    by (intro divide_right_mono) simp_all
  also have "\<dots> = of_int (2 ^ 53)" by (simp add: ulp_def powi_ratio)
  finally have "rne (x / ulp x) \<le> 2 ^ 53" using rne_mono rne_int by metis
  then have "rnd x \<le> of_int (2 ^ 53) * ulp x" unfolding rnd_def by (intro mult_right_mono) (simp_all flip: of_int_le_iff)
  also have "\<dots> = 2 powi (expo x + 1)" using power_int_add [of "2::real" 53 "expo x - 52"] by (simp add: ulp_def add.commute)
  finally show ?thesis .
qed

lemma rnd_above_binade:
  assumes "0 \<le> x" "- 1022 < expo x" shows "2 powi (expo x) \<le> rnd x"
proof -
  have "of_int (2 ^ 52) = 2 powi (expo x) / ulp x" by (simp add: ulp_def powi_ratio)
  also have "\<dots> \<le> x / ulp x" using expo_lower [OF assms(2)] assms(1)
    by (intro divide_right_mono) simp_all
  finally have "2 ^ 52 \<le> rne (x / ulp x)" using rne_mono rne_int by metis
  then have "of_int (2 ^ 52) * ulp x \<le> rnd x" unfolding rnd_def by (intro mult_right_mono) (simp_all flip: of_int_le_iff)
  moreover have "of_int (2 ^ 52) * ulp x = 2 powi (expo x)" using power_int_add [of "2::real" 52 "expo x - 52"] by (simp add: ulp_def)
  ultimately show ?thesis by simp
qed

lemma rnd_nonneg: "0 \<le> x \<Longrightarrow> 0 \<le> rnd x"
  using rne_mono [of 0 "x / ulp x"] rne_int [of 0] ulp_pos [of x] by (simp add: rnd_def)

lemma rnd_mono_nonneg:
  assumes "0 \<le> x" "x \<le> y" shows "rnd x \<le> rnd y"
proof (cases "expo x = expo y")
  case True
  then have "rne (x / ulp x) \<le> rne (y / ulp y)" using assms by (intro rne_mono) (simp add: ulp_def divide_right_mono)
  then show ?thesis using True by (simp add: rnd_def ulp_def)
next
  case False
  then have lt: "expo x < expo y" using expo_mono [of x y] assms by simp
  have "rnd x \<le> 2 powi (expo x + 1)" using assms lt expo_range [of y] by (intro rnd_below_binade) auto
  also have "\<dots> \<le> 2 powi (expo y)" using lt by simp
  also have "\<dots> \<le> rnd y" using assms lt expo_range [of x] by (intro rnd_above_binade) auto
  finally show ?thesis .
qed

lemma rnd_mono: "x \<le> y \<Longrightarrow> rnd x \<le> rnd y"
  using rnd_mono_nonneg [of x y] rnd_mono_nonneg [of "- y" "- x"] rnd_nonneg [of y] rnd_nonneg [of "- x"]
  by (cases "0 \<le> x"; cases "0 \<le> y") (auto simp: rnd_minus)

text \<open>The values of the format, with no upper limit on the exponent, are not changed.\<close>

definition double_val :: "real \<Rightarrow> bool" where
  "double_val x \<longleftrightarrow> (\<exists>m e. x = of_int m * 2 powi e \<and> \<bar>m\<bar> \<le> 2 ^ 53 \<and> - 1074 \<le> e)"

lemma rnd_double_val:
  assumes "double_val x" shows "rnd x = x"
proof -
  obtain m e where x: "x = of_int m * 2 powi e" "\<bar>m\<bar> \<le> 2 ^ 53" "- 1074 \<le> e"
    using assms by (auto simp: double_val_def)
  have m: "\<bar>of_int m :: real\<bar> \<le> 2 powi 53" using x(2) by (simp flip: of_int_abs)
  have "expo x - 52 \<le> e \<or> expo x = e + 53"
  proof (cases "- 1022 < expo x")
    case True
    have "2 powi (expo x) \<le> \<bar>x\<bar>" by (rule expo_lower [OF True])
    also have "\<bar>x\<bar> = \<bar>of_int m\<bar> * 2 powi e" by (simp add: x(1) abs_mult)
    also have "\<dots> \<le> 2 powi 53 * 2 powi e" using m by (intro mult_right_mono) auto
    also have "\<dots> = 2 powi (e + 53)" using power_int_add [of "2::real" 53 e] by (simp add: add.commute)
    finally have "expo x \<le> e + 53" unfolding powi_le_iff .
    then show ?thesis by linarith
  qed (use x(3) in linarith)
  then have "\<exists>k. x / ulp x = of_int k"
  proof
    assume "expo x - 52 \<le> e"
    then have "x / ulp x = of_int (m * 2 ^ nat (e - (expo x - 52)))"
      using powi_int [of "e - (expo x - 52)"] by (simp add: x(1) ulp_def powi_ratio flip: times_divide_eq_right)
    then show ?thesis by blast
  next
    assume a: "expo x = e + 53"
    have "2 powi (e + 53) \<le> \<bar>x\<bar>" using expo_lower [of x] a x(3) by simp
    then have "2 powi 53 \<le> \<bar>of_int m :: real\<bar>" using power_int_add [of "2::real" 53 e]
      by (simp add: x(1) abs_mult add.commute)
    then have "\<bar>m\<bar> = 2 ^ 53" using x(2) by (simp flip: of_int_abs)
    then have "m = 2 * 2 ^ 52 \<or> m = 2 * - (2 ^ 52)" by (auto simp: abs_if split: if_splits)
    then obtain k where "m = 2 * k" by blast
    moreover have "x / ulp x = of_int m / 2"
    proof -
      have "x / 2 powi (e + 1) = of_int m * (2 powi e / 2 powi (e + 1))" by (simp add: x(1))
      then show ?thesis unfolding powi_ratio by (simp add: ulp_def a power_int_minus add.commute)
    qed
    ultimately have "x / ulp x = of_int k" by simp
    then show ?thesis by blast
  qed
  then obtain k where k: "x / ulp x = of_int k" by blast
  show ?thesis unfolding rnd_def k rne_int using k by (simp add: divide_eq_eq)
qed

lemma rnd_is_double_val:
  assumes "\<bar>x\<bar> < 2 ^ 1024" shows "double_val (rnd x)"
proof -
  have "expo x < 1024"
  proof (rule ccontr)
    assume "\<not> expo x < 1024"
    then have "expo x = 1024" using expo_range [of x] by simp
    then show False using expo_lower [of x] assms by simp
  qed
  then have "rnd \<bar>x\<bar> \<le> 2 powi (expo x + 1)" using rnd_below_binade [of "\<bar>x\<bar>"] by simp
  moreover have "\<bar>rnd x\<bar> = rnd \<bar>x\<bar>"
    using rnd_minus [of x] rnd_nonneg [of x] rnd_nonneg [of "- x"] by (cases "0 \<le> x") auto
  ultimately have "\<bar>of_int (rne (x / ulp x))\<bar> * ulp x \<le> 2 powi (expo x + 1)" by (simp add: rnd_def abs_mult)
  also have "\<dots> = of_int (2 ^ 53) * ulp x" using power_int_add [of "2::real" 53 "expo x - 52"] by (simp add: ulp_def add.commute)
  finally have "\<bar>of_int (rne (x / ulp x)) :: real\<bar> \<le> of_int (2 ^ 53)" using ulp_pos [of x] mult_le_cancel_right_pos by blast
  then have "\<bar>rne (x / ulp x)\<bar> \<le> 2 ^ 53" unfolding of_int_abs [symmetric] of_int_le_iff .
  moreover have "- 1074 \<le> expo x - 52" using expo_range [of x] by simp
  ultimately show ?thesis unfolding double_val_def rnd_def ulp_def by blast
qed

lemma rnd_idem: "\<bar>x\<bar> < 2 ^ 1024 \<Longrightarrow> rnd (rnd x) = rnd x"
  by (rule rnd_double_val [OF rnd_is_double_val])

lemma double_val_int: "\<bar>k\<bar> \<le> 2 ^ 53 \<Longrightarrow> double_val (of_int k)"
  unfolding double_val_def by (rule exI [of _ k], rule exI [of _ 0]) simp

lemma double_val_scaled: "\<bar>k\<bar> \<le> 2 ^ 53 \<Longrightarrow> - 1074 \<le> e \<Longrightarrow> double_val (of_int k * 2 powi e)"
  unfolding double_val_def by blast

lemma rnd_error: "\<bar>rnd x - x\<bar> \<le> ulp x / 2"
proof -
  have "rnd x - x = (of_int (rne (x / ulp x)) - x / ulp x) * ulp x"
    using ulp_pos [of x] by (simp add: rnd_def left_diff_distrib)
  then have "\<bar>rnd x - x\<bar> = \<bar>of_int (rne (x / ulp x)) - x / ulp x\<bar> * ulp x" by (simp add: abs_mult)
  also have "\<dots> \<le> 1 / 2 * ulp x" by (intro mult_right_mono rne_error) simp
  finally show ?thesis by simp
qed

text \<open>Away from the subnormal numbers the relative error is at most \<open>unit_roundoff\<close>.\<close>

definition unit_roundoff :: real where "unit_roundoff = 1 / 2 ^ 53"

lemma rnd_relative:
  assumes "2 powi (- 1022) \<le> \<bar>x\<bar>" shows "\<bar>rnd x - x\<bar> \<le> unit_roundoff * \<bar>x\<bar>"
proof -
  have "2 powi (expo x) \<le> \<bar>x\<bar>"
    using expo_lower [of x] expo_range [of x] assms by (cases "expo x = - 1022") auto
  then have "ulp x / 2 \<le> unit_roundoff * \<bar>x\<bar>"
    using power_int_diff [of "2::real" "expo x" 52] by (simp add: ulp_def unit_roundoff_def)
  then show ?thesis using rnd_error [of x] by linarith
qed

section \<open>Values and operations\<close>

text \<open>The first number that is too large.\<close>

definition double_limit :: real where "double_limit = 2 ^ 1024"

lemma double_limit_pos [simp]: "0 < double_limit"
  by (simp add: double_limit_def)

lemma double_limit_nonpos [simp]: "\<not> double_limit \<le> 0" "\<not> double_limit < 0"
  by (simp_all add: double_limit_def)

lemma powi_below_limit: "e < 1024 \<Longrightarrow> 2 powi e < double_limit"
  using powi_less_iff [of e 1024] by (simp add: double_limit_def del: powi_less_iff)

datatype double = Fin real | PInf | MInf | NaN

text \<open>A linear order for sorting; where no NaN is involved it is the comparison of C, see \<open>dless_less\<close> below.\<close>

instantiation double :: linorder
begin

fun less_eq_double :: "double \<Rightarrow> double \<Rightarrow> bool" where
  "less_eq_double (Fin x) (Fin y) \<longleftrightarrow> x \<le> y"
| "less_eq_double a NaN \<longleftrightarrow> True"
| "less_eq_double NaN b \<longleftrightarrow> False"
| "less_eq_double a PInf \<longleftrightarrow> True"
| "less_eq_double PInf b \<longleftrightarrow> False"
| "less_eq_double MInf b \<longleftrightarrow> True"
| "less_eq_double a MInf \<longleftrightarrow> False"

definition less_double :: "double \<Rightarrow> double \<Rightarrow> bool" where
  "less_double a b \<longleftrightarrow> a \<le> b \<and> \<not> b \<le> a"

instance
proof
  fix a b c :: double
  show "a < b \<longleftrightarrow> a \<le> b \<and> \<not> b \<le> a" by (rule less_double_def)
  show "a \<le> a" by (cases a) simp_all
  show "a \<le> b \<Longrightarrow> b \<le> c \<Longrightarrow> a \<le> c" by (cases a; cases b; cases c) simp_all
  show "a \<le> b \<Longrightarrow> b \<le> a \<Longrightarrow> a = b" by (cases a; cases b) simp_all
  show "a \<le> b \<or> b \<le> a" by (cases a; cases b) auto
qed

end

definition to_double :: "real \<Rightarrow> double" where
  "to_double x = (let r = rnd x in if double_limit \<le> r then PInf else if r \<le> - double_limit then MInf else Fin r)"

fun dneg :: "double \<Rightarrow> double" where
  "dneg (Fin x) = Fin (- x)" | "dneg PInf = MInf" | "dneg MInf = PInf" | "dneg NaN = NaN"

fun dadd :: "double \<Rightarrow> double \<Rightarrow> double" where
  "dadd (Fin x) (Fin y) = to_double (x + y)"
| "dadd NaN b = NaN" | "dadd a NaN = NaN"
| "dadd PInf MInf = NaN" | "dadd MInf PInf = NaN"
| "dadd PInf b = PInf" | "dadd MInf b = MInf"
| "dadd a PInf = PInf" | "dadd a MInf = MInf"

definition dsub :: "double \<Rightarrow> double \<Rightarrow> double" where
  "dsub a b = dadd a (dneg b)"

definition dinf :: "real \<Rightarrow> double" where
  "dinf s = (if 0 < s then PInf else if s < 0 then MInf else NaN)"

fun dsign :: "double \<Rightarrow> real" where
  "dsign (Fin x) = sgn x" | "dsign PInf = 1" | "dsign MInf = - 1" | "dsign NaN = 0"

fun dmul :: "double \<Rightarrow> double \<Rightarrow> double" where
  "dmul (Fin x) (Fin y) = to_double (x * y)"
| "dmul a b = (if a = NaN \<or> b = NaN then NaN else dinf (dsign a * dsign b))"

fun ddiv :: "double \<Rightarrow> double \<Rightarrow> double" where
  "ddiv (Fin x) (Fin y) = (if y = 0 then dinf x else to_double (x / y))"
| "ddiv NaN b = NaN" | "ddiv a NaN = NaN"
| "ddiv (Fin x) b = Fin 0"
| "ddiv a (Fin y) = dinf (dsign a * (if y < 0 then - 1 else 1))"
| "ddiv a b = NaN"

fun dsqrt :: "double \<Rightarrow> double" where
  "dsqrt (Fin x) = (if x < 0 then NaN else to_double (sqrt x))"
| "dsqrt PInf = PInf" | "dsqrt MInf = NaN" | "dsqrt NaN = NaN"

fun dless :: "double \<Rightarrow> double \<Rightarrow> bool" where
  "dless (Fin x) (Fin y) \<longleftrightarrow> x < y"
| "dless NaN b \<longleftrightarrow> False" | "dless a NaN \<longleftrightarrow> False"
| "dless a MInf \<longleftrightarrow> False" | "dless MInf b \<longleftrightarrow> True"
| "dless PInf b \<longleftrightarrow> False" | "dless a PInf \<longleftrightarrow> True"

lemma dless_less: "a \<noteq> NaN \<Longrightarrow> b \<noteq> NaN \<Longrightarrow> dless a b \<longleftrightarrow> a < b"
  by (cases a; cases b) (auto simp: less_double_def)

lemma dless_NaN [simp]: "\<not> dless a NaN" "\<not> dless NaN b"
  by (cases a; simp)+

definition deq :: "double \<Rightarrow> double \<Rightarrow> bool" where
  "deq a b \<longleftrightarrow> a = b \<and> a \<noteq> NaN"

definition dle :: "double \<Rightarrow> double \<Rightarrow> bool" where
  "dle a b \<longleftrightarrow> dless a b \<or> deq a b"

definition dint :: "int \<Rightarrow> double" where
  "dint k = to_double (of_int k)"

text \<open>The conversion to \<open>int\<close> drops the fraction; out of range it is undefined.\<close>

fun double_to_int :: "double \<Rightarrow> int cres" where
  "double_to_int (Fin x) = (let t = (if x < 0 then \<lceil>x\<rceil> else \<lfloor>x\<rfloor>) in
     if - (2 ^ 31) \<le> t \<and> t < 2 ^ 31 then Inr t else Inl BadConversion)"
| "double_to_int a = Inl BadConversion"

section \<open>The contract of rounding\<close>

locale rounding =
  fixes r :: "real \<Rightarrow> real" and val :: "real \<Rightarrow> bool"
  assumes mono: "x \<le> y \<Longrightarrow> r x \<le> r y"
    and exact: "val x \<Longrightarrow> r x = x"
    and odd: "r (- x) = - r x"
begin

lemma at_most: "x \<le> v \<Longrightarrow> val v \<Longrightarrow> r x \<le> v"
  using mono [of x v] exact by simp

lemma at_least: "v \<le> x \<Longrightarrow> val v \<Longrightarrow> v \<le> r x"
  using mono [of v x] exact by simp

lemma zero: "r 0 = 0"
  using odd [of 0] by simp

lemma abs_round: "\<bar>r x\<bar> = r \<bar>x\<bar>"
  using mono [of 0 x] mono [of x 0] zero odd [of x] by (cases "0 \<le> x") auto

end

interpretation dbl: rounding rnd double_val
  by unfold_locales (auto intro: rnd_mono rnd_double_val rnd_minus)

lemma to_double_between:
  assumes "lo \<le> x" "x \<le> hi" "double_val lo" "double_val hi" "- double_limit < lo" "hi < double_limit"
  shows "to_double x = Fin (rnd x)" "lo \<le> rnd x" "rnd x \<le> hi"
proof -
  show 1: "lo \<le> rnd x" "rnd x \<le> hi" using assms by (auto intro: dbl.at_least dbl.at_most)
  have "\<not> double_limit \<le> rnd x" "\<not> rnd x \<le> - double_limit" using 1 assms(5,6) by auto
  then show "to_double x = Fin (rnd x)" by (simp only: to_double_def Let_def if_False)
qed

lemma to_double_minus: "to_double (- x) = dneg (to_double x)"
  using double_limit_pos by (auto simp: to_double_def Let_def rnd_minus simp del: double_limit_pos)

lemma to_double_val: "double_val x \<Longrightarrow> \<bar>x\<bar> < double_limit \<Longrightarrow> to_double x = Fin x"
  using to_double_between(1) [of x x x] dbl.exact [of x] by auto

lemma dint_exact: "\<bar>k\<bar> \<le> 2 ^ 53 \<Longrightarrow> dint k = Fin (of_int k)"
proof -
  assume k: "\<bar>k\<bar> \<le> 2 ^ 53"
  have "\<bar>of_int k :: real\<bar> \<le> of_int (2 ^ 53)" using k unfolding of_int_abs [symmetric] of_int_le_iff .
  also have "\<dots> < double_limit" using powi_below_limit [of 53] by simp
  finally show ?thesis unfolding dint_def by (intro to_double_val double_val_int k)
qed

lemma dadd_commute: "dadd a b = dadd b a"
  by (cases a; cases b) (simp_all add: add.commute)

text \<open>A result that is within \<open>k\<close> roundings of the exact one.\<close>

definition near :: "nat \<Rightarrow> real \<Rightarrow> real \<Rightarrow> bool" where
  "near k a b \<longleftrightarrow> (1 - unit_roundoff) ^ k * b \<le> a \<and> a \<le> (1 + unit_roundoff) ^ k * b"

lemma near_exact: "near 0 a a"
  by (simp add: near_def)

lemma roundoff_powers:
  assumes "k \<le> 10" shows "1 / 2 \<le> (1 - unit_roundoff) ^ k" "(1 + unit_roundoff) ^ k \<le> 2"
proof -
  have "1 / 2 \<le> (1 - unit_roundoff) ^ 10" by (simp add: unit_roundoff_def power_divide)
  also have "\<dots> \<le> (1 - unit_roundoff) ^ k" using assms by (intro power_decreasing) (simp_all add: unit_roundoff_def)
  finally show "1 / 2 \<le> (1 - unit_roundoff) ^ k" .
  have "(1 + unit_roundoff) ^ k \<le> (1 + unit_roundoff) ^ 10" using assms by (intro power_increasing) (simp_all add: unit_roundoff_def)
  also have "\<dots> \<le> 2" by (simp add: unit_roundoff_def power_divide)
  finally show "(1 + unit_roundoff) ^ k \<le> 2" .
qed

lemma near_rnd:
  assumes "near k a b" "0 \<le> b" "2 powi (- 1022) \<le> a" shows "near (Suc k) (rnd a) b"
proof -
  have a: "0 \<le> a" using assms(3) zero_le_power_int [of "2::real" "- 1022"] by linarith
  then have r: "\<bar>rnd a - a\<bar> \<le> unit_roundoff * a" using rnd_relative [of a] assms(3) by simp
  have u: "0 \<le> unit_roundoff" "unit_roundoff \<le> 1" by (simp_all add: unit_roundoff_def)
  have "(1 - unit_roundoff) * ((1 - unit_roundoff) ^ k * b) \<le> (1 - unit_roundoff) * a"
    using assms(1) u by (intro mult_left_mono) (auto simp: near_def)
  also have "\<dots> \<le> rnd a" using r by (simp add: left_diff_distrib)
  finally have 1: "(1 - unit_roundoff) ^ Suc k * b \<le> rnd a" by (simp add: mult.assoc)
  have "rnd a \<le> (1 + unit_roundoff) * a" using r by (simp add: distrib_right)
  also have "\<dots> \<le> (1 + unit_roundoff) * ((1 + unit_roundoff) ^ k * b)"
    using assms(1) u by (intro mult_left_mono) (auto simp: near_def)
  finally show ?thesis using 1 by (simp add: near_def mult.assoc)
qed

lemma near_to_double:
  assumes "near k a b" "k \<le> 10" "b = 0 \<or> 2 powi (- 1010) \<le> b \<and> b \<le> 2 powi 1010"
  shows "to_double a = Fin (rnd a) \<and> near (Suc k) (rnd a) b"
proof (cases "b = 0")
  case True
  then have "a = 0" using assms(1) by (simp add: near_def)
  then show ?thesis using True by (simp add: to_double_def near_def)
next
  case False
  have b: "0 \<le> b" using assms(3) False zero_le_power_int [of "2::real" "- 1010"] by linarith
  have "2 powi (- 1011) = 1 / 2 * (2::real) powi (- 1010)" using power_int_diff [of "2::real" "- 1010" 1] by simp
  also have "\<dots> \<le> (1 - unit_roundoff) ^ k * b"
    using assms(2,3) False roundoff_powers(1) [of k] by (intro mult_mono) auto
  also have lo: "\<dots> \<le> a" using assms(1) by (simp add: near_def)
  finally have l: "2 powi (- 1011) \<le> a" .
  have "a \<le> (1 + unit_roundoff) ^ k * b" using assms(1) by (simp add: near_def)
  also have "\<dots> \<le> 2 * 2 powi 1010" using assms(2,3) False roundoff_powers(2) [of k] b by (intro mult_mono) auto
  finally have h: "a \<le> 2 powi 1011" by simp
  have "double_val (1 * 2 powi (- 1011))" using double_val_scaled [of 1 "- 1011"] by simp
  moreover have "double_val (1 * 2 powi 1011)" using double_val_scaled [of 1 1011] by simp
  moreover have "0 \<le> (2::real) powi (- 1011)" by simp
  moreover have "2 powi 1011 < double_limit" by (rule powi_below_limit) simp
  ultimately have "to_double a = Fin (rnd a)" 
    using to_double_between(1) [OF l h] double_limit_pos by simp
  moreover have "2 powi (- 1022) \<le> a" using l powi_le_iff [of "- 1022" "- 1011"] by linarith
  ultimately show ?thesis using near_rnd [OF assms(1) b] by blast
qed

lemma near_mult: "near j a b \<Longrightarrow> near k c d \<Longrightarrow> 0 \<le> b \<Longrightarrow> 0 \<le> d \<Longrightarrow> near (j + k) (a * c) (b * d)"
proof -
  assume n: "near j a b" "near k c d" and pos: "0 \<le> b" "0 \<le> d"
  have u: "0 \<le> (1 - unit_roundoff) ^ n" "0 \<le> (1 + unit_roundoff) ^ n" for n by (simp_all add: unit_roundoff_def)
  have "0 \<le> (1 - unit_roundoff) ^ j * b" "0 \<le> (1 - unit_roundoff) ^ k * d" using u pos by simp_all
  then have ac: "0 \<le> a" "0 \<le> c" using n by (auto simp: near_def)
  have "((1 - unit_roundoff) ^ j * b) * ((1 - unit_roundoff) ^ k * d) \<le> a * c"
    using n u pos ac by (intro mult_mono) (auto simp: near_def)
  moreover have "a * c \<le> ((1 + unit_roundoff) ^ j * b) * ((1 + unit_roundoff) ^ k * d)"
    using n u pos ac by (intro mult_mono) (auto simp: near_def)
  ultimately show ?thesis by (simp add: near_def power_add mult_ac)
qed

lemma near_add: "near k a b \<Longrightarrow> near k c d \<Longrightarrow> near k (a + c) (b + d)"
  by (simp add: near_def distrib_left)

lemma near_sqrt: "near (2 * k) a b \<Longrightarrow> near k (sqrt a) (sqrt b)"
proof -
  assume n: "near (2 * k) a b"
  have u: "0 \<le> (1 - unit_roundoff) ^ k" "0 \<le> (1 + unit_roundoff) ^ k" by (simp_all add: unit_roundoff_def)
  have "sqrt ((1 - unit_roundoff) ^ (2 * k) * b) \<le> sqrt a" "sqrt a \<le> sqrt ((1 + unit_roundoff) ^ (2 * k) * b)"
    using n by (simp_all add: near_def)
  moreover have "sqrt (x ^ (2 * k) * b) = x ^ k * sqrt b" if "0 \<le> x ^ k" for x :: real
    using that by (simp add: real_sqrt_mult mult.commute [of 2 k] power_mult)
  ultimately show ?thesis using u by (simp add: near_def)
qed

end
