(* ===== verification/Ftimer.thy ===== *)
theory Ftimer
  imports CDouble
begin

text \<open>
  malloclab/ftimer.c and the choice that fsecs.c makes by config.h (\<open>USE_GETTOD\<close>): the time of a function
  is measured with \<open>gettimeofday\<close> around ten runs. What the clock and the interval timer show before and after
  is an argument; the state that the measured function changes is threaded through the runs.
\<close>

record timeval =
  tv_sec :: int
  tv_usec :: int

definition run_times :: "int \<Rightarrow> ('s \<Rightarrow> 's cres) \<Rightarrow> 's \<Rightarrow> 's cres" where
  "run_times n f s = c_for 0 n (\<lambda>i s. f s) s"

definition ftimer_gettod :: "('s \<Rightarrow> 's cres) \<Rightarrow> int \<Rightarrow> timeval \<times> timeval \<Rightarrow> 's \<Rightarrow> (double \<times> 's) cres" where
  "ftimer_gettod f n = (\<lambda>(stv, etv) s.
     c_bind (run_times n f s) (\<lambda>s.
     let diff = dadd (dmul (to_double 1000) (dint (s64 (tv_sec etv - tv_sec stv))))
           (dmul (to_double (1 / 1000)) (dint (s64 (tv_usec etv - tv_usec stv))));
         diff = ddiv diff (dint n)
     in Inr (dmul (to_double (1 / 1000)) diff, s)))"

text \<open>The three interval timers are set to one day and count down; the elapsed time is read off the one for real time.\<close>

definition MAX_ETIME :: int where "MAX_ETIME = 86400"

record itimerval =
  it_interval :: timeval
  it_value :: timeval

record timers =
  first_u :: itimerval
  first_r :: itimerval
  first_p :: itimerval

definition init_etime :: timers where
  "init_etime =
     (let day = \<lparr>it_interval = \<lparr>tv_sec = 0, tv_usec = 0\<rparr>, it_value = \<lparr>tv_sec = MAX_ETIME, tv_usec = 0\<rparr>\<rparr>
      in \<lparr>first_u = day, first_r = day, first_p = day\<rparr>)"

definition get_etime :: "timers \<Rightarrow> timeval \<Rightarrow> double" where
  "get_etime t r_curr =
     dadd (dint (s64 (tv_sec (it_value (first_p t)) - tv_sec r_curr)))
       (dmul (dint (s64 (tv_usec (it_value (first_p t)) - tv_usec r_curr))) (to_double (1 / 1000000)))"

definition ftimer_itimer :: "('s \<Rightarrow> 's cres) \<Rightarrow> int \<Rightarrow> timeval \<times> timeval \<Rightarrow> 's \<Rightarrow> (double \<times> 's) cres" where
  "ftimer_itimer f n = (\<lambda>(at_start, at_end) s.
     let t = init_etime; start = get_etime t at_start in
     c_bind (run_times n f s) (\<lambda>s.
     let tmeas = dsub (get_etime t at_end) start in
     Inr (ddiv tmeas (dint n), s)))"

definition fsecs :: "('s \<Rightarrow> 's cres) \<Rightarrow> timeval \<times> timeval \<Rightarrow> 's \<Rightarrow> (double \<times> 's) cres" where
  "fsecs f = ftimer_gettod f 10"

section \<open>Running\<close>

lemma run_times_inv:
  assumes "0 \<le> n" "P s" "\<And>s. P s \<Longrightarrow> \<exists>s'. f s = Inr s' \<and> P s'"
  shows "\<exists>s'. run_times n f s = Inr s' \<and> P s'"
  unfolding run_times_def using c_for_inv [of 0 n "\<lambda>_. P" s "\<lambda>_. f"] assms by blast

section \<open>The measured time\<close>

text \<open>Two readings of the clock that lie at least a microsecond apart.\<close>

definition clock_advances :: "timeval \<times> timeval \<Rightarrow> bool" where
  "clock_advances = (\<lambda>(stv, etv).
     0 \<le> tv_usec stv \<and> tv_usec stv < 1000000 \<and> 0 \<le> tv_usec etv \<and> tv_usec etv < 1000000 \<and>
     tv_sec etv - tv_sec stv \<le> 2 ^ 31 \<and>
     (tv_sec stv < tv_sec etv \<or> tv_sec stv = tv_sec etv \<and> tv_usec stv < tv_usec etv))"

definition milli :: real where "milli = rnd (1 / 1000)"

lemma powi_bounds: "(2::real) powi (- 10) = 1 / 1024" "(2::real) powi (- 51) = 1 / 2 ^ 51" "(2::real) powi 42 = 2 ^ 42"
  by (simp_all add: power_int_minus)

lemma double_val_powi: "- 1074 \<le> e \<Longrightarrow> double_val (2 powi e)"
  using double_val_scaled [of 1 e] by simp

lemma to_double_powi:
  assumes "2 powi a \<le> x" "x \<le> 2 powi b" "- 1074 \<le> a" "b < 1024" "a \<le> b"
  shows "to_double x = Fin (rnd x)" "2 powi a \<le> rnd x" "rnd x \<le> 2 powi b"
  using to_double_between [OF assms(1,2) double_val_powi double_val_powi] assms(3-5) powi_below_limit [of b]
    double_limit_pos zero_less_power_int [of "2::real" a] by (simp_all; linarith)+

lemma milli:
  "to_double (1 / 1000) = Fin milli" "1 / 1024 \<le> milli" "milli \<le> 1" "milli * 999999 \<le> 1023999 / 1024"
proof -
  show "to_double (1 / 1000) = Fin milli" "1 / 1024 \<le> milli" "milli \<le> 1"
    using to_double_powi [of "- 10" "1 / 1000" 0] powi_bounds(1) by (simp_all add: milli_def)
  have "\<bar>milli - 1 / 1000\<bar> \<le> unit_roundoff * \<bar>1 / 1000\<bar>"
    unfolding milli_def using powi_bounds(1) powi_le_iff [of "- 1022" "- 10"] by (intro rnd_relative) (simp del: powi_le_iff)
  then have "milli - 1 / 1000 \<le> unit_roundoff * (1 / 1000)" by (simp only: abs_le_iff) simp
  then have "milli \<le> 1 / 1000 * (1 + unit_roundoff)" by simp
  also have "\<dots> \<le> 1023999 / 1024 / 999999" by (simp add: unit_roundoff_def)
  finally show "milli * 999999 \<le> 1023999 / 1024" by simp
qed

text \<open>The microseconds of a difference, in milliseconds.\<close>

lemma usec_part:
  assumes "- 1000000 < k" "k < 1000000"
  shows "dmul (to_double (1 / 1000)) (dint k) = Fin (rnd (milli * k)) \<and>
    - (1023999 / 1024) \<le> rnd (milli * k) \<and> rnd (milli * k) \<le> 1000 \<and> (0 < k \<longrightarrow> 1 / 1024 \<le> rnd (milli * k))"
proof -
  have k: "- 999999 \<le> (of_int k :: real)" "(of_int k :: real) \<le> 999999" using assms by linarith+
  have pos: "0 \<le> milli" using milli(2) by linarith
  have lo: "- (1023999 / 1024) \<le> milli * k" using mult_left_mono [OF k(1) pos] milli(4) by linarith
  have hi: "milli * k \<le> 1000" using mult_left_mono [OF k(2) pos] milli(4) by linarith
  have v: "double_val (- (1023999 / 1024))" "double_val 1000"
    using double_val_scaled [of "- 1023999" "- 10"] double_val_int [of 1000] powi_bounds(1) by simp_all
  have lim: "1000 < double_limit" using powi_below_limit [of 10] by simp
  note b = to_double_between [OF lo hi v]
  have "1 / 1024 \<le> rnd (milli * k)" if "0 < k"
  proof -
    have "milli * 1 \<le> milli * k" using that pos by (intro mult_left_mono) linarith+
    then have "2 powi (- 10) \<le> milli * k" using milli(2) powi_bounds(1) by linarith
    from dbl.at_least [OF this double_val_powi] show ?thesis using powi_bounds(1) by simp
  qed
  moreover have "dint k = Fin (of_int k)" using assms by (intro dint_exact) simp
  ultimately show ?thesis using b lim milli(1) by simp
qed

lemma elapsed_ms:
  assumes "0 \<le> s" "s \<le> 2 ^ 31" "- 1000000 < k" "k < 1000000" "0 < s \<or> 0 < k"
  shows "\<exists>x. dadd (dmul (to_double 1000) (dint s)) (dmul (to_double (1 / 1000)) (dint k)) = Fin x \<and>
    2 powi (- 10) \<le> x \<and> x \<le> 2 powi 42"
proof -
  have "dmul (to_double 1000) (dint s) = Fin (1000 * of_int s)"
  proof -
    have "dint s = Fin (of_int s)" using assms by (intro dint_exact) simp
    moreover have "to_double 1000 = Fin 1000" using dint_exact [of 1000] by (simp add: dint_def)
    moreover have "to_double (1000 * of_int s) = Fin (1000 * of_int s)"
      using dint_exact [of "1000 * s"] assms by (simp add: dint_def)
    ultimately show ?thesis by simp
  qed
  moreover have x: "2 powi (- 10) \<le> 1000 * of_int s + rnd (milli * k)" "1000 * of_int s + rnd (milli * k) \<le> 2 powi 42"
  proof -
    note u = usec_part [OF assms(3,4)]
    show "2 powi (- 10) \<le> 1000 * of_int s + rnd (milli * k)"
    proof (cases "s = 0")
      case True
      then show ?thesis using u assms(5) unfolding powi_bounds by simp
    next
      case False
      then have "1 \<le> (of_int s :: real)" using assms(1) by linarith
      then show ?thesis using u unfolding powi_bounds by linarith
    qed
    have "(of_int s :: real) \<le> 2 ^ 31" using assms(2) by (metis of_int_le_iff of_int_numeral of_int_power)
    then show "1000 * of_int s + rnd (milli * k) \<le> 2 powi 42" using u unfolding powi_bounds by simp
  qed
  ultimately show ?thesis using usec_part [OF assms(3,4)] to_double_powi [OF x] by simp
qed

lemma fsecs_positive:
  assumes "clock_advances t" "run_times 10 f s = Inr s'"
  shows "\<exists>x. fsecs f t s = Inr (Fin x, s') \<and> 2 powi (- 51) \<le> x \<and> x \<le> 2 powi 42"
proof -
  obtain stv etv where t: "t = (stv, etv)" by (cases t)
  let ?s = "tv_sec etv - tv_sec stv" and ?k = "tv_usec etv - tv_usec stv"
  have c: "0 \<le> ?s" "?s \<le> 2 ^ 31" "- 1000000 < ?k" "?k < 1000000" "0 < ?s \<or> 0 < ?k"
    using assms(1) by (auto simp: clock_advances_def t)
  then have w: "s64 ?s = ?s" "s64 ?k = ?k" by (simp_all add: s64_id)
  obtain x where x: "dadd (dmul (to_double 1000) (dint ?s)) (dmul (to_double (1 / 1000)) (dint ?k)) = Fin x"
      "2 powi (- 10) \<le> x" "x \<le> 2 powi 42"
    using elapsed_ms [OF c] by blast
  have d10: "dint 10 = Fin 10" using dint_exact [of 10] by simp
  have q: "2 powi (- 14) \<le> x / 10" "x / 10 \<le> 2 powi 42" using x(2,3) by (simp_all add: power_int_minus)
  note dq = to_double_powi [OF q]
  have m: "2 powi (- 51) \<le> milli * rnd (x / 10)" "milli * rnd (x / 10) \<le> 2 powi 42"
  proof -
    have "1 / 1024 * 2 powi (- 14) \<le> milli * rnd (x / 10)" using milli(2) dq(2) by (intro mult_mono) simp_all
    moreover have "milli * rnd (x / 10) \<le> 1 * 2 powi 42" using milli dq(2,3) by (intro mult_mono) (simp_all add: power_int_minus)
    ultimately show "2 powi (- 51) \<le> milli * rnd (x / 10)" "milli * rnd (x / 10) \<le> 2 powi 42"
      by (simp_all add: power_int_minus)
  qed
  show ?thesis
    using to_double_powi [OF m] dq(1) assms(2) x(1) by (simp add: fsecs_def ftimer_gettod_def t w milli(1) d10)
qed

end
