(* ===== verification/MdScore.thy ===== *)
theory MdScore
  imports Ftimer
begin

text \<open>
  The statistics of mdriver.c: one \<open>stats_t\<close> for every trace, the performance index that
  \<open>calculate_perfindex\<close> computes from the utilisation and the times, the table of \<open>printresults\<close> with the
  numbers it prints, and the sum that \<open>main\<close> makes at the end.
\<close>

record stats =
  st_ops :: double
  st_valid :: int
  st_secs :: double
  st_util :: double
  thru_ratio :: double
  perfindex :: int

text \<open>What \<open>calloc\<close> returns.\<close>

definition zero_stats :: stats where
  "zero_stats = \<lparr>st_ops = Fin 0, st_valid = 0, st_secs = Fin 0, st_util = Fin 0, thru_ratio = Fin 0, perfindex = 0\<rparr>"

definition UTIL_WEIGHT :: double where
  "UTIL_WEIGHT = to_double (60 / 100)"

definition score :: "stats \<Rightarrow> stats \<Rightarrow> stats cres" where
  "score libc st =
     (let avg_mm_throughput = ddiv (st_ops st) (st_secs st);
          avg_libc_throughput = ddiv (st_ops libc) (st_secs libc);
          p1 = dmul UTIL_WEIGHT (st_util st);
          p2 = (if dless avg_libc_throughput avg_mm_throughput then dsub (dint 1) UTIL_WEIGHT
                else dmul (dsub (dint 1) UTIL_WEIGHT) (ddiv avg_mm_throughput avg_libc_throughput))
      in c_bind (double_to_int (dmul (dadd p1 p2) (dint 100))) (\<lambda>index.
         Inr (st\<lparr>perfindex := index, thru_ratio := ddiv avg_mm_throughput avg_libc_throughput\<rparr>)))"

definition calculate_perfindex :: "int \<Rightarrow> stats list \<Rightarrow> stats list \<Rightarrow> stats list cres" where
  "calculate_perfindex n libc_stats stats = c_for 0 n (\<lambda>i stats.
     c_bind (arr_at stats i) (\<lambda>st.
     c_bind (if st_valid st \<noteq> 0 then c_bind (arr_at libc_stats i) (\<lambda>libc. score libc st)
             else Inr (st\<lparr>perfindex := 0, thru_ratio := dint 0\<rparr>)) (\<lambda>st.
     arr_set stats i st))) stats"

text \<open>A row of the table: the utilisation in percent, the requests, the seconds, the thousands of requests
  per second and, in the table for mm.c, the performance index.\<close>

datatype row = Passed int double double double double "int option" | Failed int

definition print_row :: "bool \<Rightarrow> int \<Rightarrow> stats \<Rightarrow> row" where
  "print_row with_index i st =
     (if st_valid st \<noteq> 0 then Passed i (dmul (st_util st) (dint 100)) (st_ops st) (st_secs st)
        (ddiv (ddiv (st_ops st) (dint 1000)) (st_secs st)) (if with_index then Some (perfindex st) else None)
      else Failed i)"

definition printresults :: "int \<Rightarrow> stats list \<Rightarrow> bool \<Rightarrow> row list cres" where
  "printresults n stats with_index = c_for 0 n (\<lambda>i rows.
     c_bind (arr_at stats i) (\<lambda>st. Inr (rows @ [print_row with_index i st]))) []"

text \<open>The number of valid traces and the average performance index.\<close>

definition sum_index :: "int \<Rightarrow> stats list \<Rightarrow> (int \<times> double) cres" where
  "sum_index n stats =
     c_bind (c_for 0 n (\<lambda>i (numcorrect, total).
       c_bind (arr_at stats i) (\<lambda>st.
       Inr (if st_valid st \<noteq> 0 then (numcorrect + 1, dadd total (dint (perfindex st))) else (numcorrect, total))))
       (0, dint 0)) (\<lambda>(numcorrect, total). Inr (numcorrect, ddiv total (dint n)))"

section \<open>The index lies between 0 and 100\<close>

definition util_weight :: real where "util_weight = rnd (60 / 100)"

lemma weights:
  "UTIL_WEIGHT = Fin util_weight" "0 \<le> util_weight" "util_weight \<le> 1"
  "dsub (dint 1) UTIL_WEIGHT = Fin (1 - util_weight)" "double_val (1 - util_weight)" "double_val util_weight"
proof -
  have v: "double_val 0" "double_val 1" using double_val_int [of 0] double_val_int [of 1] by simp_all
  have lim: "1 < double_limit" using powi_below_limit [of 0] by simp
  note b = to_double_between [of 0 "60 / 100" 1, OF _ _ v]
  show w: "UTIL_WEIGHT = Fin util_weight" "0 \<le> util_weight" "util_weight \<le> 1"
    using b lim by (simp_all add: UTIL_WEIGHT_def util_weight_def)
  have "expo (60 / 100) = - 1"
    by (simp add: expo_def expo_down.simps eval_nat_numeral)
  then obtain k where k: "util_weight = of_int k * 2 powi (- 53)" by (auto simp: util_weight_def rnd_def ulp_def)
  have p: "(2::real) powi (- 53) = 1 / 2 ^ 53" by (simp add: power_int_minus)
  have k01: "0 \<le> k" "k \<le> 2 ^ 53" using w(2,3) unfolding k p by (simp_all add: zero_le_divide_iff divide_le_eq)
  then have d: "1 - util_weight = of_int (2 ^ 53 - k) * 2 powi (- 53)" unfolding k p by (simp add: field_simps)
  show vd: "double_val (1 - util_weight)" "double_val util_weight"
    using double_val_scaled [of "2 ^ 53 - k" "- 53"] double_val_scaled [of k "- 53"] k01
    by (simp_all only: d [symmetric] k [symmetric])
  have "dint 1 = Fin 1" using dint_exact [of 1] by simp
  moreover have "to_double (1 - util_weight) = Fin (1 - util_weight)"
    using w(2,3) lim by (intro to_double_val vd) linarith
  ultimately show "dsub (dint 1) UTIL_WEIGHT = Fin (1 - util_weight)" by (simp add: w(1) dsub_def)
qed

lemma to_double_unit:
  assumes "0 \<le> x" "x \<le> y" "double_val y" "y \<le> 100"
  shows "to_double x = Fin (rnd x)" "0 \<le> rnd x" "rnd x \<le> y"
proof -
  have "double_val 0" using double_val_int [of 0] by simp
  moreover have "y < double_limit" using assms(4) powi_below_limit [of 7] by simp
  ultimately show "to_double x = Fin (rnd x)" "0 \<le> rnd x" "rnd x \<le> y"
    using to_double_between [OF assms(1,2) _ assms(3)] by simp_all
qed

text \<open>What the statistics of a valid trace look like.\<close>

definition timed :: "stats \<Rightarrow> bool" where
  "timed st \<longleftrightarrow> (\<exists>x s. st_ops st = Fin x \<and> 1 \<le> x \<and> x \<le> 2 powi 31 \<and>
     st_secs st = Fin s \<and> 2 powi (- 51) \<le> s \<and> s \<le> 2 powi 42)"

lemma throughput:
  assumes "timed st"
  shows "\<exists>a. ddiv (st_ops st) (st_secs st) = Fin a \<and> 2 powi (- 42) \<le> a \<and> a \<le> 2 powi 82"
proof -
  obtain x s where xs: "st_ops st = Fin x" "1 \<le> x" "x \<le> 2 powi 31" "st_secs st = Fin s" "2 powi (- 51) \<le> s" "s \<le> 2 powi 42"
    using assms by (auto simp: timed_def)
  have pos: "0 < s" using xs(5) zero_less_power_int [of "2::real" "- 51"] by linarith
  have "2 powi (- 42) \<le> x / s"
  proof -
    have "2 powi (- 42) * s \<le> 2 powi (- 42) * 2 powi 42" using xs(6) by (intro mult_left_mono) simp_all
    also have "\<dots> = 1" using power_int_add [of "2::real" "- 42" 42] by simp
    finally show ?thesis using xs(2) pos by (simp add: le_divide_eq)
  qed
  moreover have "x / s \<le> 2 powi 82"
  proof -
    have "x \<le> 2 powi 82 * 2 powi (- 51)" using xs(3) power_int_add [of "2::real" 82 "- 51"] by simp
    also have "\<dots> \<le> 2 powi 82 * s" using xs(5) by (intro mult_left_mono) simp_all
    finally show ?thesis using pos by (simp add: divide_le_eq)
  qed
  ultimately show ?thesis using to_double_powi [of "- 42" "x / s" 82] xs(1,4) pos by simp
qed

lemma throughput_ratio:
  assumes "2 powi (- 42) \<le> a" "a \<le> 2 powi 82" "2 powi (- 42) \<le> b" "b \<le> 2 powi 82"
  shows "ddiv (Fin a) (Fin b) = Fin (rnd (a / b))" "0 \<le> rnd (a / b)" "a \<le> b \<Longrightarrow> rnd (a / b) \<le> 1"
proof -
  have pos: "0 < a" "0 < b" using assms(1,3) zero_less_power_int [of "2::real" "- 42"] by linarith+
  have "2 powi (- 124) * b \<le> 2 powi (- 124) * 2 powi 82" using assms(4) by (intro mult_left_mono) simp_all
  also have "\<dots> = 2 powi (- 42)" using power_int_add [of "2::real" "- 124" 82] by simp
  finally have l: "2 powi (- 124) \<le> a / b" using assms(1) pos by (simp add: le_divide_eq)
  have "a \<le> 2 powi 124 * 2 powi (- 42)" using assms(2) power_int_add [of "2::real" 124 "- 42"] by simp
  also have "\<dots> \<le> 2 powi 124 * b" using assms(3) by (intro mult_left_mono) simp_all
  finally have h: "a / b \<le> 2 powi 124" using pos by (simp add: divide_le_eq)
  note d = to_double_powi [OF l h]
  show "ddiv (Fin a) (Fin b) = Fin (rnd (a / b))" using d(1) pos by simp
  show "0 \<le> rnd (a / b)" using pos by (intro rnd_nonneg) simp
  show "rnd (a / b) \<le> 1" if "a \<le> b"
  proof -
    have "double_val 1" using double_val_int [of 1] by simp
    then show ?thesis using dbl.at_most [of "a / b" 1] that pos by simp
  qed
qed

lemma score_ok:
  assumes "timed st" "timed libc" "st_util st = Fin u" "0 \<le> u" "u \<le> 1"
  shows "\<exists>k r. score libc st = Inr (st\<lparr>perfindex := k, thru_ratio := Fin r\<rparr>) \<and> 0 \<le> k \<and> k \<le> 100"
proof -
  note w = weights
  obtain a where a: "ddiv (st_ops st) (st_secs st) = Fin a" "2 powi (- 42) \<le> a" "a \<le> 2 powi 82"
    using throughput [OF assms(1)] by blast
  obtain b where b: "ddiv (st_ops libc) (st_secs libc) = Fin b" "2 powi (- 42) \<le> b" "b \<le> 2 powi 82"
    using throughput [OF assms(2)] by blast
  note r = throughput_ratio [OF a(2,3) b(2,3)]
  let ?r = "rnd (a / b)"
  have "util_weight * u \<le> util_weight * 1" using assms(5) w(2) by (intro mult_left_mono)
  then have p1: "to_double (util_weight * u) = Fin (rnd (util_weight * u))" "0 \<le> rnd (util_weight * u)"
      "rnd (util_weight * u) \<le> util_weight"
    using to_double_unit [of "util_weight * u" util_weight] assms(4) w(2,3,6) by simp_all
  obtain p2 where p2: "(if b < a then Fin (1 - util_weight) else dmul (Fin (1 - util_weight)) (Fin ?r)) = Fin p2"
      "0 \<le> p2" "p2 \<le> 1 - util_weight"
  proof (cases "b < a")
    case False
    then have "(1 - util_weight) * ?r \<le> (1 - util_weight) * 1" using r(3) w(3) by (intro mult_left_mono) simp_all
    then show thesis using to_double_unit [of "(1 - util_weight) * ?r" "1 - util_weight"] False w(2,3,5) r(2) that by simp
  qed (use w(3) that in simp)
  let ?s = "rnd (util_weight * u) + p2"
  have "double_val 1" "double_val 100" using double_val_int [of 1] double_val_int [of 100] by simp_all
  then have s: "to_double ?s = Fin (rnd ?s)" "0 \<le> rnd ?s" "rnd ?s \<le> 1"
      and h: "to_double (rnd ?s * 100) = Fin (rnd (rnd ?s * 100))" "0 \<le> rnd (rnd ?s * 100)" "rnd (rnd ?s * 100) \<le> 100"
    using to_double_unit [of ?s 1] to_double_unit [of "rnd ?s * 100" 100] p1(2,3) p2(2,3) by simp_all
  let ?k = "\<lfloor>rnd (rnd ?s * 100)\<rfloor>"
  have k: "0 \<le> ?k" "?k \<le> 100" using h(2,3) by linarith+
  have d100: "dint 100 = Fin 100" using dint_exact [of 100] by simp
  have e1: "dmul UTIL_WEIGHT (st_util st) = Fin (rnd (util_weight * u))" by (simp add: w(1) assms(3) p1(1))
  have e2: "(if dless (Fin b) (Fin a) then dsub (dint 1) UTIL_WEIGHT
      else dmul (dsub (dint 1) UTIL_WEIGHT) (Fin ?r)) = Fin p2"
    using p2(1) by (simp only: w(4) dless.simps)
  have e3: "dmul (dadd (Fin (rnd (util_weight * u))) (Fin p2)) (dint 100) = Fin (rnd (rnd ?s * 100))"
    by (simp add: s(1) h(1) d100)
  have e4: "double_to_int (Fin (rnd (rnd ?s * 100))) = Inr ?k" using k h(2) by simp
  have "score libc st = Inr (st\<lparr>perfindex := ?k, thru_ratio := Fin ?r\<rparr>)"
    by (simp only: score_def Let_def a(1) b(1) e1 e2 e3 e4 r(1) c_bind_Inr)
  then show ?thesis using k by blast
qed

section \<open>All traces\<close>

definition rated :: "stats \<Rightarrow> stats \<Rightarrow> bool" where
  "rated st st' \<longleftrightarrow> (\<exists>k r. st' = st\<lparr>perfindex := k, thru_ratio := r\<rparr> \<and> 0 \<le> k \<and> k \<le> 100)"

lemma calculate_perfindex_ok:
  assumes "length libc = length sts"
    and "\<And>i. i < length sts \<Longrightarrow> st_valid (sts ! i) \<noteq> 0 \<Longrightarrow> timed (sts ! i) \<and> timed (libc ! i) \<and>
      (\<exists>u. st_util (sts ! i) = Fin u \<and> 0 \<le> u \<and> u \<le> 1)"
  shows "\<exists>sts'. calculate_perfindex (int (length sts)) libc sts = Inr sts' \<and> list_all2 rated sts sts'"
proof -
  let ?n = "int (length sts)"
  let ?P = "\<lambda>i xs. length xs = length sts \<and> (\<forall>j < length sts. if int j < i then rated (sts ! j) (xs ! j) else xs ! j = sts ! j)"
  let ?body = "\<lambda>i sts. c_bind (arr_at sts i) (\<lambda>st.
     c_bind (if st_valid st \<noteq> 0 then c_bind (arr_at libc i) (\<lambda>libc. score libc st)
             else Inr (st\<lparr>perfindex := 0, thru_ratio := dint 0\<rparr>)) (\<lambda>st.
     arr_set sts i st))"
  have "\<exists>xs'. ?body i xs = Inr xs' \<and> ?P (i + 1) xs'" if i: "0 \<le> i" "i < ?n" "?P i xs" for i xs
  proof -
    obtain j where j: "i = int j" "j < length sts" using i(1,2) by (metis nonneg_int_cases of_nat_less_iff)
    have same: "xs ! j = sts ! j" "length xs = length sts" using i(3) j by simp_all
    obtain st' where st': "(if st_valid (sts ! j) \<noteq> 0 then score (libc ! j) (sts ! j)
        else Inr ((sts ! j)\<lparr>perfindex := 0, thru_ratio := dint 0\<rparr>)) = Inr st'" "rated (sts ! j) st'"
    proof (cases "st_valid (sts ! j) = 0")
      case True
      have "rated (sts ! j) ((sts ! j)\<lparr>perfindex := 0, thru_ratio := dint 0\<rparr>)"
        unfolding rated_def by (intro exI [of _ 0] exI [of _ "dint 0"]) simp
      then show thesis using True that by simp
    next
      case False
      then obtain u where "timed (sts ! j)" "timed (libc ! j)" "st_util (sts ! j) = Fin u" "0 \<le> u" "u \<le> 1"
        using assms(2) [OF j(2)] by blast
      then show thesis using score_ok False that by (fastforce simp: rated_def)
    qed
    have "?body i xs = Inr (xs[j := st'])"
      using st'(1) same j assms(1) by (auto simp: arr_at_int arr_set_int)
    moreover have "?P (i + 1) (xs[j := st'])"
      using i(3) st'(2) j by (auto simp: nth_list_update)
    ultimately show ?thesis by blast
  qed
  then have "\<exists>xs'. c_for 0 ?n ?body sts = Inr xs' \<and> ?P ?n xs'"
    by (intro c_for_inv [where P = ?P]) simp_all
  then show ?thesis unfolding calculate_perfindex_def by (auto simp: list_all2_conv_all_nth)
qed

lemma sum_index_ok:
  assumes "\<And>st. st \<in> set sts \<Longrightarrow> st_valid st \<noteq> 0 \<and> 0 \<le> perfindex st \<and> perfindex st \<le> 100"
    and "sts \<noteq> []" "length sts < 2 ^ 31"
  shows "\<exists>x. sum_index (int (length sts)) sts = Inr (int (length sts), Fin x) \<and> 0 \<le> x \<and> x \<le> 100"
proof -
  let ?n = "int (length sts)"
  let ?body = "\<lambda>i (numcorrect, total).
       c_bind (arr_at sts i) (\<lambda>st.
       Inr (if st_valid st \<noteq> 0 then (numcorrect + 1, dadd total (dint (perfindex st))) else (numcorrect, total)))"
  let ?P = "\<lambda>i (c, t). c = i \<and> (\<exists>s. t = Fin (of_int s) \<and> 0 \<le> s \<and> s \<le> 100 * i)"
  have "\<exists>s'. ?body i s = Inr s' \<and> ?P (i + 1) s'" if i: "0 \<le> i" "i < ?n" "?P i s" for i s
  proof -
    obtain j where j: "i = int j" "j < length sts" using i(1,2) by (metis nonneg_int_cases of_nat_less_iff)
    have st: "st_valid (sts ! j) \<noteq> 0" "0 \<le> perfindex (sts ! j)" "perfindex (sts ! j) \<le> 100"
      using assms(1) [of "sts ! j"] j(2) by simp_all
    obtain c t where s: "s = (c, Fin (of_int t))" "c = i" "0 \<le> t" "t \<le> 100 * i" using i(3) by (cases s) auto
    have small: "100 * i + 100 \<le> 2 ^ 53" using i(2) assms(3) by simp
    have "dadd (Fin (of_int t)) (dint (perfindex (sts ! j))) = dint (t + perfindex (sts ! j))"
      using dint_exact [of "perfindex (sts ! j)"] st by (simp add: dint_def)
    also have "\<dots> = Fin (of_int (t + perfindex (sts ! j)))"
      using s(3,4) st small by (intro dint_exact) linarith
    finally show ?thesis
      using s st j by (auto simp: arr_at_int intro!: exI [of _ "t + perfindex (sts ! j)"])
  qed
  moreover have "?P 0 (0, dint 0)" using dint_exact [of 0] by auto
  ultimately obtain c t where run: "c_for 0 ?n ?body (0, dint 0) = Inr (c, t)" "?P ?n (c, t)"
    using c_for_inv [of 0 ?n ?P "(0, dint 0)" ?body] by auto
  then obtain s where s: "c = ?n" "t = Fin (of_int s)" "0 \<le> s" "s \<le> 100 * ?n" by auto
  have n: "0 < length sts" using assms(2) by simp
  then have d: "dint ?n = Fin (of_int ?n)" using assms(3) by (intro dint_exact) simp
  have "of_int s / of_int ?n \<le> (100 :: real)"
    using s(4) n by (simp add: divide_le_eq)
  moreover have "0 \<le> (of_int s / of_int ?n :: real)" using s(3) by simp
  moreover have "double_val 100" using double_val_int [of 100] by simp
  ultimately have q: "to_double (of_int s / of_int ?n) = Fin (rnd (of_int s / of_int ?n))"
      "0 \<le> rnd (of_int s / of_int ?n)" "rnd (of_int s / of_int ?n) \<le> 100"
    using to_double_unit [of "of_int s / of_int ?n" 100] by simp_all
  have "sum_index ?n sts = Inr (?n, Fin (rnd (of_int s / of_int ?n)))"
    using run(1) s(1,2) d q(1) n unfolding sum_index_def by simp
  then show ?thesis using q(2,3) by blast
qed

lemma printresults_ok: "\<exists>rows. printresults (int (length sts)) sts w = Inr rows"
  unfolding printresults_def
  using c_for_inv [of 0 "int (length sts)" "\<lambda>_ _. True" "[]"
      "\<lambda>i rows. c_bind (arr_at sts i) (\<lambda>st. Inr (rows @ [print_row w i st]))"]
  by (fastforce simp: arr_at_def)

text \<open>Traces whose ten runs fall into one microsecond of the clock: both throughputs are infinite, their ratio is not
  a number, and its conversion to \<open>int\<close> is undefined.\<close>

lemma score_clock_stands_still:
  assumes "st_ops st = Fin x" "st_ops libc = Fin y" "0 < x" "0 < y" "st_secs st = Fin 0" "st_secs libc = Fin 0"
  shows "score libc st = Inl BadConversion"
proof -
  have "dadd (dmul UTIL_WEIGHT (st_util st)) NaN = NaN" by (cases "dmul UTIL_WEIGHT (st_util st)") simp_all
  moreover have "dmul (dsub (dint 1) UTIL_WEIGHT) NaN = NaN" by (cases "dsub (dint 1) UTIL_WEIGHT") simp_all
  ultimately show ?thesis using assms by (simp add: score_def dinf_def)
qed

end
