(* ===== verification/MdMain.thy ===== *)
theory MdMain
  imports MdTrace MdUtil MdScore
begin

text \<open>
  \<open>main\<close> of mdriver.c: options, the evaluation of the C library's allocator and of mm.c on every trace file, and the
  performance index. The options are what \<open>getopt\<close> delivers. The files, the C library's allocator with its
  heap, and the clock readings around the measurement of each trace are an argument; what is printed
  is the result, and the final \<open>exit(0)\<close> is the normal return.
\<close>

section \<open>Options\<close>

record options =
  tracedir :: string
  tracefiles :: "string list option"
  num_tracefiles :: int
  verbose :: int
  autograder :: int

definition TRACEDIR :: string where "TRACEDIR = ''./traces/''"

definition DEFAULT_TRACEFILES :: "string list" where
  "DEFAULT_TRACEFILES =
     [''amptjp-bal.rep'', ''cccp-bal.rep'', ''cp-decl-bal.rep'', ''expr-bal.rep'', ''coalescing-bal.rep'',
      ''random-bal.rep'', ''random2-bal.rep'', ''binary-bal.rep'', ''binary2-bal.rep'', ''realloc-bal.rep'',
      ''realloc2-bal.rep'']"

definition start_options :: options where
  "start_options = \<lparr>tracedir = TRACEDIR, tracefiles = None, num_tracefiles = 0, verbose = 0, autograder = 0\<rparr>"

text \<open>\<open>strcpy\<close> and \<open>strcat\<close> into an array of \<open>MAXLINE\<close> characters.\<close>

definition in_line :: "string \<Rightarrow> string cres" where
  "in_line s = (if length s < MAXLINE then Inr s else Inl OutOfBounds)"

definition set_tracedir :: "string \<Rightarrow> options \<Rightarrow> options cres" where
  "set_tracedir arg opt =
     (if num_tracefiles opt = 1 then Inr opt
      else c_bind (in_line arg) (\<lambda>dir.
        if dir = [] then Inl OutOfBounds
        else if last dir \<noteq> CHR ''/'' then c_bind (in_line (dir @ ''/'')) (\<lambda>dir. Inr (opt\<lparr>tracedir := dir\<rparr>))
        else Inr (opt\<lparr>tracedir := dir\<rparr>)))"

fun parse_opts :: "(char \<times> string) list \<Rightarrow> options \<Rightarrow> options cres" where
  "parse_opts [] opt = Inr opt"
| "parse_opts ((c, arg) # opts) opt =
     (if c = CHR ''g'' then parse_opts opts (opt\<lparr>autograder := 1\<rparr>)
      else if c = CHR ''f'' then parse_opts opts (opt\<lparr>num_tracefiles := 1, tracefiles := Some [arg], tracedir := ''./''\<rparr>)
      else if c = CHR ''t'' then c_bind (set_tracedir arg opt) (parse_opts opts)
      else if c = CHR ''v'' then parse_opts opts (opt\<lparr>verbose := 1\<rparr>)
      else if c = CHR ''V'' then parse_opts opts (opt\<lparr>verbose := 2\<rparr>)
      else if c = CHR ''h'' then Inl (Exit 0)
      else Inl (Exit 1))"

definition choose_files :: "options \<Rightarrow> string list \<times> int" where
  "choose_files opt = (case tracefiles opt of
     None \<Rightarrow> (DEFAULT_TRACEFILES, int (length DEFAULT_TRACEFILES)) | Some fs \<Rightarrow> (fs, num_tracefiles opt))"

section \<open>One trace\<close>

record 'h env =
  files :: "string \<Rightarrow> string option"
  junk :: int
  libc_malloc :: "'h \<Rightarrow> int \<Rightarrow> (ptr \<times> 'h) cres"
  libc_realloc :: "'h \<Rightarrow> ptr \<Rightarrow> int \<Rightarrow> (ptr \<times> 'h) cres"
  libc_free :: "'h \<Rightarrow> ptr \<Rightarrow> 'h cres"
  libc_clock :: "int \<Rightarrow> timeval \<times> timeval"
  mm_clock :: "int \<Rightarrow> timeval \<times> timeval"

text \<open>Opening the file; the message of a failure has 29 characters besides the path.\<close>

definition load_trace :: "'h env \<Rightarrow> string \<Rightarrow> string \<Rightarrow> trace cres" where
  "load_trace env dir filename =
     c_bind (in_line (dir @ filename)) (\<lambda>path.
     case files env path of
       None \<Rightarrow> if length path + 29 < MAXLINE then Inl (Exit 1) else Inl OutOfBounds
     | Some s \<Rightarrow> read_trace (junk env) s)"

text \<open>The requests of a trace, all of which were written.\<close>

definition requests :: "trace \<Rightarrow> traceop list cres" where
  "requests t = (if None \<in> set (ops t) then Inl Uninitialised else Inr (map the (ops t)))"

definition libc_trace :: "'h env \<Rightarrow> string \<Rightarrow> int \<Rightarrow> string \<Rightarrow> 'h \<Rightarrow> (stats \<times> 'h) cres" where
  "libc_trace env dir i filename h =
     c_bind (load_trace env dir filename) (\<lambda>t. c_bind (requests t) (\<lambda>rs.
     let st = zero_stats\<lparr>st_ops := dint (num_ops t)\<rparr> in
     c_bind (eval_libc_valid (libc_malloc env) (libc_realloc env) (libc_free env) rs
         (replicate (nat (num_ids t)) None) h) (\<lambda>(valid, bs, h).
     let st = st\<lparr>st_valid := valid\<rparr> in
     if valid = 0 then Inr (st, h)
     else c_bind (fsecs (\<lambda>(bs, h). eval_libc_speed (libc_malloc env) (libc_realloc env) (libc_free env) rs bs h)
         (libc_clock env i) (bs, h)) (\<lambda>(secs, bs, h).
       Inr (st\<lparr>st_secs := secs\<rparr>, h)))))"

definition mm_trace :: "'h env \<Rightarrow> string \<Rightarrow> int \<Rightarrow> string \<Rightarrow> drv \<Rightarrow> (stats \<times> drv) cres" where
  "mm_trace env dir i filename d =
     c_bind (load_trace env dir filename) (\<lambda>t. c_bind (requests t) (\<lambda>rs.
     let st = zero_stats\<lparr>st_ops := dint (num_ops t)\<rparr>;
         d = d\<lparr>tr_blocks := replicate (nat (num_ids t)) None, tr_sizes := replicate (nat (num_ids t)) None\<rparr> in
     c_bind (eval_mm_valid rs d) (\<lambda>(valid, d).
     let st = st\<lparr>st_valid := valid\<rparr> in
     if valid = 0 then Inr (st, d)
     else c_bind (eval_mm_util rs d) (\<lambda>(max_total_size, heapsize, d).
       let st = st\<lparr>st_util := ddiv (dint max_total_size) (dint (int heapsize))\<rparr> in
       c_bind (fsecs (\<lambda>(bs, h). eval_mm_speed rs bs h) (mm_clock env i) (tr_blocks d, heap d)) (\<lambda>(secs, bs, h).
       Inr (st\<lparr>st_secs := secs\<rparr>, d\<lparr>tr_blocks := bs, heap := h\<rparr>))))))"

section \<open>The whole program\<close>

text \<open>The loop over the trace files, from number \<open>i\<close>.\<close>

fun each_trace :: "(int \<Rightarrow> string \<Rightarrow> 's \<Rightarrow> (stats \<times> 's) cres) \<Rightarrow> int \<Rightarrow> string list \<Rightarrow> 's \<Rightarrow> (stats list \<times> 's) cres" where
  "each_trace f i [] s = Inr ([], s)"
| "each_trace f i (name # names) s =
     c_bind (f i name s) (\<lambda>(st, s). c_bind (each_trace f (i + 1) names s) (\<lambda>(sts, s). Inr (st # sts, s)))"

record report =
  libc_table :: "row list option"
  mm_table :: "row list option"
  numcorrect :: int
  num_traces :: int
  average_index :: double
  num_errors :: int
  autograder_lines :: "(int \<times> double) option"

definition print_if :: "int \<Rightarrow> row list cres \<Rightarrow> row list option cres" where
  "print_if v rows = (if v \<noteq> 0 then c_bind rows (\<lambda>rows. Inr (Some rows)) else Inr None)"

definition mdriver_main :: "'h env \<Rightarrow> (char \<times> string) list \<Rightarrow> ptr \<Rightarrow> mm \<Rightarrow> 'h \<Rightarrow> report cres" where
  "mdriver_main env opts area m h =
     c_bind (parse_opts opts start_options) (\<lambda>opt.
     let (names, n) = choose_files opt in
     c_bind (each_trace (libc_trace env (tracedir opt)) 0 names h) (\<lambda>(libc_stats, h).
     c_bind (print_if (verbose opt) (printresults n libc_stats False)) (\<lambda>libc_rows.
     c_bind (mem_init area) (\<lambda>v.
     let d = \<lparr>heap = m\<lparr>vm := v\<rparr>, ranges = [], tr_blocks = [], tr_sizes = [], errors = 0\<rparr> in
     c_bind (each_trace (mm_trace env (tracedir opt)) 0 names d) (\<lambda>(mm_stats, d).
     c_bind (calculate_perfindex n libc_stats mm_stats) (\<lambda>mm_stats.
     c_bind (print_if (verbose opt) (printresults n mm_stats True)) (\<lambda>mm_rows.
     c_bind (sum_index n mm_stats) (\<lambda>(correct, index).
     Inr \<lparr>libc_table = libc_rows, mm_table = mm_rows, numcorrect = correct, num_traces = n,
       average_index = index, num_errors = errors d,
       autograder_lines = (if autograder opt \<noteq> 0 then Some (correct, index) else None)\<rparr>))))))))"

section \<open>A run without complaints\<close>

text \<open>A trace file that the driver can use: the text of a non-empty sensible trace that fits in the heap.\<close>

definition good_trace :: "'h env \<Rightarrow> string \<Rightarrow> bool" where
  "good_trace env path \<longleftrightarrow> length path < MAXLINE \<and>
     (\<exists>ts sugg wt. files env path = Some (trace_text sugg (foldl next_max 0 ts + 1) wt ts) \<and> ts \<noteq> [] \<and>
        (\<forall>t \<in> set ts. op_ok t) \<and> length ts < 2 ^ 31 \<and> sugg < 2 ^ 31 \<and> wt < 2 ^ 31 \<and> foldl next_max 0 ts + 1 < 2 ^ 31 \<and>
        trace_ok (int (foldl next_max 0 ts + 1)) {} ts \<and> trace_need ts \<le> MAX_HEAP)"

text \<open>The C library always has memory.\<close>

definition libc_serves :: "'h env \<Rightarrow> bool" where
  "libc_serves env \<longleftrightarrow> (\<forall>h n. \<exists>p h'. libc_malloc env h n = Inr (Addr p, h')) \<and>
     (\<forall>h p n. \<exists>q h'. libc_realloc env h p n = Inr (Addr q, h')) \<and> (\<forall>h p. \<exists>h'. libc_free env h p = Inr h')"

lemma load_good:
  assumes "good_trace env (dir @ name)"
  obtains t rs n where "load_trace env dir name = Inr t" "requests t = Inr rs" "rs \<noteq> []" "length rs < 2 ^ 31"
    "num_ops t = int (length rs)" "num_ids t = int n" "trace_ok (int n) {} rs" "trace_need rs \<le> MAX_HEAP"
proof -
  obtain ts sugg wt where ts: "files env (dir @ name) = Some (trace_text sugg (foldl next_max 0 ts + 1) wt ts)" "ts \<noteq> []"
      "\<forall>t \<in> set ts. op_ok t" "length ts < 2 ^ 31" "sugg < 2 ^ 31" "wt < 2 ^ 31" "foldl next_max 0 ts + 1 < 2 ^ 31"
      "trace_ok (int (foldl next_max 0 ts + 1)) {} ts" "trace_need ts \<le> MAX_HEAP" "length (dir @ name) < MAXLINE"
    using assms unfolding good_trace_def by blast
  let ?t = "\<lparr>sugg_heapsize = Some (int sugg), num_ids = int (foldl next_max 0 ts + 1), num_ops = int (length ts),
      weight = Some (int wt), ops = map (Some \<circ> stored (junk env)) ts\<rparr>"
  have "read_trace (junk env) (trace_text sugg (foldl next_max 0 ts + 1) wt ts) = Inr ?t"
    by (rule read_trace_ok) (use ts in simp_all)
  then have l: "load_trace env dir name = Inr ?t" using ts(1,10) by (simp add: load_trace_def in_line_def)
  have q: "requests ?t = Inr (map (stored (junk env)) ts)" by (auto simp: requests_def)
  show thesis
    by (rule that [OF l q, of "foldl next_max 0 ts + 1"])
      (use ts(2,4,8,9) in \<open>simp_all add: trace_ok_stored trace_need_stored\<close>)
qed

lemma dint_count: "0 < n \<Longrightarrow> n < 2 ^ 31 \<Longrightarrow> \<exists>x. dint (int n) = Fin x \<and> 1 \<le> x \<and> x \<le> 2 powi 31"
proof -
  assume n: "0 < n" "n < 2 ^ 31"
  have "dint (int n) = Fin (of_int (int n))" using n by (intro dint_exact) simp
  moreover have "1 \<le> (of_int (int n) :: real)" "(of_int (int n) :: real) \<le> 2 powi 31" using n by simp_all
  ultimately show ?thesis by blast
qed

lemma libc_speed_ok:
  assumes "libc_serves env" "trace_ok (int (length bs)) live rs"
    and "\<forall>i \<in> live. 0 \<le> i \<and> i < int (length bs) \<and> bs ! nat i \<noteq> None"
  shows "\<exists>bs' h'. speed_ops (libc_malloc env) (libc_realloc env) (libc_free env) rs (bs, h) = Inr (bs', h') \<and>
    length bs' = length bs"
  using assms(2,3)
proof (induction rs arbitrary: bs live h)
  case (Cons r rs)
  let ?i = "op_index r"
  let ?live = "case op_type r of FREE \<Rightarrow> live - {?i} | _ \<Rightarrow> insert ?i live"
  have i: "0 \<le> ?i" "?i < int (length bs)" using Cons.prems(1) by simp_all
  have read: "\<exists>p. read_slot bs ?i = Inr p" if "?i \<in> live"
    using Cons.prems(2) that by (auto simp: read_slot_def arr_at_int)
  have "\<exists>bs1 h1. speed_op (libc_malloc env) (libc_realloc env) (libc_free env) r (bs, h) = Inr (bs1, h1) \<and>
      length bs1 = length bs \<and> (\<forall>j \<in> ?live. 0 \<le> j \<and> j < int (length bs) \<and> bs1 ! nat j \<noteq> None)"
  proof (cases "op_type r")
    case ALLOC
    obtain p h1 where "libc_malloc env h (op_size r) = Inr (Addr p, h1)" using assms(1) unfolding libc_serves_def by blast
    then show ?thesis using ALLOC i Cons.prems(2)
      by (auto simp: speed_op_def arr_set_int nth_list_update)
  next
    case REALLOC
    then obtain p where p: "read_slot bs ?i = Inr p" using read Cons.prems(1) by auto
    obtain q h1 where "libc_realloc env h p (op_size r) = Inr (Addr q, h1)" using assms(1) unfolding libc_serves_def by blast
    then show ?thesis using REALLOC i p Cons.prems(2)
      by (auto simp: speed_op_def arr_set_int nth_list_update)
  next
    case FREE
    then obtain p where p: "read_slot bs ?i = Inr p" using read Cons.prems(1) by auto
    obtain h1 where "libc_free env h p = Inr h1" using assms(1) unfolding libc_serves_def by blast
    then show ?thesis using FREE p Cons.prems(2) by (auto simp: speed_op_def)
  qed
  then obtain bs1 h1 where 1: "speed_op (libc_malloc env) (libc_realloc env) (libc_free env) r (bs, h) = Inr (bs1, h1)"
      "length bs1 = length bs" "\<forall>j \<in> ?live. 0 \<le> j \<and> j < int (length bs) \<and> bs1 ! nat j \<noteq> None" by blast
  have "trace_ok (int (length bs)) ?live rs" using Cons.prems(1) by (cases "op_type r") (auto simp: insert_absorb)
  then show ?case using Cons.IH [of bs1 ?live h1] 1 by auto
qed simp

lemma libc_trace_ok:
  assumes "good_trace env (dir @ name)" "libc_serves env" "clock_advances (libc_clock env i)"
  shows "\<exists>st h'. libc_trace env dir i name h = Inr (st, h') \<and> timed st"
proof -
  obtain t rs n where t: "load_trace env dir name = Inr t" "requests t = Inr rs" "rs \<noteq> []" "length rs < 2 ^ 31"
      "num_ops t = int (length rs)" "num_ids t = int n" "trace_ok (int n) {} rs"
    by (rule load_good [OF assms(1)])
  have run: "\<exists>bs' h'. speed_ops (libc_malloc env) (libc_realloc env) (libc_free env) rs (bs, h) = Inr (bs', h') \<and>
    length bs' = length bs" if "length bs = n" for bs h
    using libc_speed_ok [OF assms(2), of bs "{}" rs h] t(7) that by simp
  let ?f = "\<lambda>(bs, h). eval_libc_speed (libc_malloc env) (libc_realloc env) (libc_free env) rs bs h"
  obtain bs1 h1 where 1: "eval_libc_valid (libc_malloc env) (libc_realloc env) (libc_free env) rs (replicate n None) h =
      Inr (1, bs1, h1)" "length bs1 = n"
    using run [of "replicate n None" h] by (auto simp: eval_libc_valid_def)
  have "\<exists>s'. run_times 10 ?f (bs1, h1) = Inr s' \<and> length (fst s') = n"
    by (rule run_times_inv) (use 1(2) run in \<open>auto simp: eval_libc_speed_def\<close>)
  then obtain s' where s': "run_times 10 ?f (bs1, h1) = Inr s'" by blast
  obtain x where x: "fsecs ?f (libc_clock env i) (bs1, h1) = Inr (Fin x, s')" "2 powi (- 51) \<le> x" "x \<le> 2 powi 42"
    using fsecs_positive [OF assms(3) s'] by blast
  obtain y where y: "dint (int (length rs)) = Fin y" "1 \<le> y" "y \<le> 2 powi 31"
    using dint_count [of "length rs"] t(3,4) by auto
  show ?thesis
    using t(1,2,5,6) 1(1) x y by (cases s') (simp add: libc_trace_def Let_def timed_def zero_stats_def)
qed

definition accepted :: "stats \<Rightarrow> bool" where
  "accepted st \<longleftrightarrow> timed st \<and> st_valid st = 1 \<and> (\<exists>u. st_util st = Fin u \<and> 0 \<le> u \<and> u \<le> 1)"

text \<open>A heap that is as large as the live payload and not empty gives a utilisation between 0 and 1.\<close>

lemma utilisation_ok:
  assumes "k \<le> n" "0 < n" "n \<le> MAX_HEAP"
  shows "\<exists>u. ddiv (dint (int k)) (dint (int n)) = Fin u \<and> 0 \<le> u \<and> u \<le> 1"
proof -
  have d: "dint (int k) = Fin (real k)" "dint (int n) = Fin (real n)"
    using dint_exact [of "int k"] dint_exact [of "int n"] assms by simp_all
  have "real k / real n \<le> 1" "0 \<le> real k / real n" using assms by (simp_all add: divide_le_eq)
  moreover have "double_val 1" using double_val_int [of 1] by simp
  ultimately show ?thesis using to_double_unit [of "real k / real n" 1] d assms(2) by simp
qed

lemma high_water_pos:
  assumes "trace_ok n {} rs" "rs \<noteq> []" shows "0 < high_water Map.empty rs"
proof -
  obtain r rest where r: "rs = r # rest" using assms(2) by (cases rs) auto
  then have a: "op_type r = ALLOC" "0 < op_size r" using assms(1) by (auto split: op_type.splits)
  have "payload (step_sizes r Map.empty) = nat (op_size r)" using a by (simp add: step_sizes_def payload_def)
  moreover have "payload m \<le> high_water m xs" for m xs by (cases xs) simp_all
  ultimately have "nat (op_size r) \<le> high_water (step_sizes r Map.empty) rest" by metis
  then show ?thesis using r a(2) by simp
qed

lemma mm_trace_ok:
  assumes "good_trace env (dir @ name)" "clock_advances (mm_clock env i)" "mem_area (heap d)"
  shows "\<exists>st d'. mm_trace env dir i name d = Inr (st, d') \<and> accepted st \<and> mem_area (heap d') \<and> errors d' = errors d"
proof -
  obtain t rs n where t: "load_trace env dir name = Inr t" "requests t = Inr rs" "rs \<noteq> []" "length rs < 2 ^ 31"
      "num_ops t = int (length rs)" "num_ids t = int n" "trace_ok (int n) {} rs" "trace_need rs \<le> MAX_HEAP"
    by (rule load_good [OF assms(1)])
  let ?d = "d\<lparr>tr_blocks := replicate n None, tr_sizes := replicate n None\<rparr>"
  obtain d1 where 1: "eval_mm_valid rs ?d = Inr (1, d1)" "goes_on ?d d1 0" "length (tr_sizes d1) = n"
    using eval_mm_valid_ok [of ?d n rs] assms(3) t(7,8) by (auto simp: goes_on_def)
  have a1: "mem_area (heap d1)" "length (tr_blocks d1) = n" "errors d1 = errors d"
    using 1(2) assms(3) mem_area_cong [of "heap d1" "heap d"] by (simp_all add: goes_on_def)
  obtain d2 where 2: "eval_mm_util rs d1 = Inr (int (high_water Map.empty rs), mem_heapsize (vm (heap d2)), d2)"
      "high_water Map.empty rs \<le> mem_heapsize (vm (heap d2))" "mem_heapsize (vm (heap d2)) \<le> MAX_HEAP" "goes_on d1 d2 0"
    using eval_mm_util_ok [OF a1(1,2) 1(3) t(7,8)] by blast
  have a2: "mem_area (heap d2)" "length (tr_blocks d2) = n" "errors d2 = errors d"
    using 2(4) a1 mem_area_cong [of "heap d2" "heap d1"] by (simp_all add: goes_on_def)
  obtain u where u: "ddiv (dint (int (high_water Map.empty rs))) (dint (int (mem_heapsize (vm (heap d2))))) = Fin u"
      "0 \<le> u" "u \<le> 1"
    using utilisation_ok [OF 2(2) _ 2(3)] high_water_pos [OF t(7,3)] 2(2) by auto
  let ?f = "\<lambda>(bs, h). eval_mm_speed rs bs h"
  have "\<exists>s'. run_times 10 ?f (tr_blocks d2, heap d2) = Inr s' \<and> (length (fst s') = n \<and> mem_area (snd s'))"
  proof (rule run_times_inv)
    fix s :: "ptr option list \<times> mm" assume s: "length (fst s) = n \<and> mem_area (snd s)"
    then obtain bs' h' where "eval_mm_speed rs (fst s) (snd s) = Inr (bs', h')" "length bs' = n" "heap_area h' = heap_area (snd s)"
      using eval_mm_speed_ok [of "snd s" "fst s" rs] t(7,8) by auto
    then show "\<exists>s'. ?f s = Inr s' \<and> (length (fst s') = n \<and> mem_area (snd s'))"
      using s mem_area_cong [of h' "snd s"] by (auto simp: case_prod_beta)
  qed (use a2 in simp_all)
  then obtain bs3 h3 where 3: "run_times 10 ?f (tr_blocks d2, heap d2) = Inr (bs3, h3)" "mem_area h3" by auto
  obtain x where x: "fsecs ?f (mm_clock env i) (tr_blocks d2, heap d2) = Inr (Fin x, bs3, h3)"
      "2 powi (- 51) \<le> x" "x \<le> 2 powi 42"
    using fsecs_positive [OF assms(2) 3(1)] by blast
  obtain y where y: "dint (int (length rs)) = Fin y" "1 \<le> y" "y \<le> 2 powi 31"
    using dint_count [of "length rs"] t(3,4) by auto
  let ?st = "zero_stats\<lparr>st_ops := Fin y, st_valid := 1, st_util := Fin u, st_secs := Fin x\<rparr>"
  have "mm_trace env dir i name d = Inr (?st, d2\<lparr>tr_blocks := bs3, heap := h3\<rparr>)"
    using t(1,2,5,6) 1(1) 2(1) u(1) x(1) y(1) by (simp add: mm_trace_def Let_def zero_stats_def)
  moreover have "accepted ?st" using x y u by (auto simp: accepted_def timed_def)
  ultimately show ?thesis using 3(2) a2(3) by auto
qed

lemma each_trace_ok:
  assumes "P s" "\<And>i name s. name \<in> set names \<Longrightarrow> P s \<Longrightarrow> \<exists>st s'. f i name s = Inr (st, s') \<and> Q st \<and> P s'"
  shows "\<exists>sts s'. each_trace f i names s = Inr (sts, s') \<and> length sts = length names \<and> (\<forall>st \<in> set sts. Q st) \<and> P s'"
  using assms
proof (induction names arbitrary: i s)
  case (Cons name names)
  obtain st s1 where 1: "f i name s = Inr (st, s1)" "Q st" "P s1" using Cons.prems by (meson list.set_intros(1))
  obtain sts s2 where "each_trace f (i + 1) names s1 = Inr (sts, s2)" "length sts = length names" "\<forall>st \<in> set sts. Q st" "P s2"
    using Cons.IH [OF 1(3)] Cons.prems(2) by (metis list.set_intros(2))
  then show ?case using 1 by simp
qed simp

lemma parse_opts_files:
  "parse_opts opts opt = Inr opt' \<Longrightarrow> tracefiles opt = None \<or> (\<exists>f. tracefiles opt = Some [f]) \<and> num_tracefiles opt = 1 \<Longrightarrow>
     tracefiles opt' = None \<or> (\<exists>f. tracefiles opt' = Some [f]) \<and> num_tracefiles opt' = 1"
proof (induction opts opt rule: parse_opts.induct)
  case (2 c arg opts opt)
  have "tracefiles opt1 = tracefiles opt \<and> num_tracefiles opt1 = num_tracefiles opt"
    if "set_tracedir arg opt = Inr opt1" for opt1
    using that by (auto simp: set_tracedir_def in_line_def split: if_splits)
  then show ?case using 2 by (auto simp: c_bind_eq_Inr split: if_splits)
qed simp

lemma rated_accepted: "rated st st' \<Longrightarrow> accepted st \<Longrightarrow> st_valid st' \<noteq> 0 \<and> 0 \<le> perfindex st' \<and> perfindex st' \<le> 100"
  by (auto simp: rated_def accepted_def)

lemma ratings_ok:
  assumes "length libc = length sts" "\<forall>st \<in> set libc. timed st" "\<forall>st \<in> set sts. accepted st" "sts \<noteq> []" "length sts < 2 ^ 31"
  shows "\<exists>sts' x. calculate_perfindex (int (length sts)) libc sts = Inr sts' \<and> length sts' = length sts \<and>
    sum_index (int (length sts)) sts' = Inr (int (length sts), Fin x) \<and> 0 \<le> x \<and> x \<le> 100"
proof -
  have "\<exists>sts'. calculate_perfindex (int (length sts)) libc sts = Inr sts' \<and> list_all2 rated sts sts'"
    using assms(1-3) by (intro calculate_perfindex_ok) (auto simp: accepted_def)
  then obtain sts' where s: "calculate_perfindex (int (length sts)) libc sts = Inr sts'" "list_all2 rated sts sts'" by blast
  have len: "length sts' = length sts" using s(2) by (simp add: list_all2_lengthD)
  have "st_valid st' \<noteq> 0 \<and> 0 \<le> perfindex st' \<and> perfindex st' \<le> 100" if st': "st' \<in> set sts'" for st'
  proof -
    obtain j where "j < length sts'" "st' = sts' ! j" using st' by (auto simp: in_set_conv_nth)
    then show ?thesis using s(2) assms(3) rated_accepted [of "sts ! j" st'] len by (auto simp: list_all2_conv_all_nth)
  qed
  then obtain x where "sum_index (int (length sts')) sts' = Inr (int (length sts'), Fin x)" "0 \<le> x" "x \<le> 100"
    using sum_index_ok [of sts'] assms(4,5) len by (metis length_0_conv)
  then show ?thesis using s(1) len by auto
qed

lemma print_if_ok: "\<exists>t. print_if v (printresults (int (length sts)) sts w) = Inr t"
  using printresults_ok [of sts w] by (auto simp: print_if_def)

section \<open>The result\<close>

lemma mdriver_main_ok:
  assumes "parse_opts opts start_options = Inr opt" "\<forall>name \<in> set (fst (choose_files opt)). good_trace env (tracedir opt @ name)"
    and "libc_serves env" "\<forall>i. clock_advances (libc_clock env i) \<and> clock_advances (mm_clock env i)"
    and "0 < a" "16 dvd a" "a + MAX_HEAP < 2 ^ 63"
  shows "\<exists>r x. mdriver_main env opts (Addr a) m h = Inr r \<and> num_errors r = 0 \<and> numcorrect r = num_traces r \<and>
    num_traces r = int (length (fst (choose_files opt))) \<and> average_index r = Fin x \<and> 0 \<le> x \<and> x \<le> 100"
proof -
  obtain names n where c: "choose_files opt = (names, n)" by (cases "choose_files opt")
  have "tracefiles opt = None \<or> (\<exists>f. tracefiles opt = Some [f]) \<and> num_tracefiles opt = 1"
    by (rule parse_opts_files [OF assms(1)]) (simp add: start_options_def)
  then have n: "n = int (length names)" "names \<noteq> []" "length names < 2 ^ 31"
    using c by (auto simp: choose_files_def DEFAULT_TRACEFILES_def)
  have good: "\<And>name. name \<in> set names \<Longrightarrow> good_trace env (tracedir opt @ name)" using assms(2) c by simp
  have "\<exists>sts h'. each_trace (libc_trace env (tracedir opt)) 0 names h = Inr (sts, h') \<and> length sts = length names \<and>
      (\<forall>st \<in> set sts. timed st) \<and> True"
    by (rule each_trace_ok) (use libc_trace_ok [OF good assms(3)] assms(4) in auto)
  then obtain libc h' where l: "each_trace (libc_trace env (tracedir opt)) 0 names h = Inr (libc, h')"
      "length libc = length names" "\<forall>st \<in> set libc. timed st" by blast
  let ?v = "\<lparr>mem_start_brk = a, mem_brk = a, mem_max_addr = a + MAX_HEAP\<rparr>"
  let ?d = "\<lparr>heap = m\<lparr>vm := ?v\<rparr>, ranges = [], tr_blocks = [], tr_sizes = [], errors = 0\<rparr>"
  have "mem_area (heap ?d)" using assms(5-7) by (simp add: mem_area_def)
  then have "\<exists>sts d. each_trace (mm_trace env (tracedir opt)) 0 names ?d = Inr (sts, d) \<and> length sts = length names \<and>
      (\<forall>st \<in> set sts. accepted st) \<and> (mem_area (heap d) \<and> errors d = 0)"
    by (intro each_trace_ok) (use mm_trace_ok [OF good] assms(4) in \<open>simp_all, metis\<close>)
  then obtain sts d where s: "each_trace (mm_trace env (tracedir opt)) 0 names ?d = Inr (sts, d)"
      "length sts = length names" "\<forall>st \<in> set sts. accepted st" "errors d = 0" by blast
  obtain sts' x where r: "calculate_perfindex n libc sts = Inr sts'" "length sts' = length sts"
      "sum_index n sts' = Inr (n, Fin x)" "0 \<le> x" "x \<le> 100"
    using ratings_ok [OF _ l(3) s(3)] l(2) s(2) n by (metis length_0_conv)
  obtain lt where lt: "print_if (verbose opt) (printresults n libc False) = Inr lt"
    using print_if_ok [of "verbose opt" libc False] l(2) n(1) by auto
  obtain mt where mt: "print_if (verbose opt) (printresults n sts' True) = Inr mt"
    using print_if_ok [of "verbose opt" sts' True] r(2) s(2) n(1) by auto
  have "mdriver_main env opts (Addr a) m h = Inr \<lparr>libc_table = lt, mm_table = mt, numcorrect = n, num_traces = n,
      average_index = Fin x, num_errors = errors d,
      autograder_lines = (if autograder opt \<noteq> 0 then Some (n, Fin x) else None)\<rparr>"
    by (simp only: mdriver_main_def assms(1) c l(1) lt mem_init_def ptr.case Let_def s(1) r(1,3) mt c_bind_Inr case_prod_conv)
  then show ?thesis using r(4,5) s(4) c n(1) by simp
qed

text \<open>The usage message offers \<open>-l\<close>, but it is not handled: the program prints that message and exits with 1.\<close>

lemma option_l_exits: "mdriver_main env [(CHR ''l'', arg)] area m h = Inl (Exit 1)"
  by (simp add: mdriver_main_def)

text \<open>An empty argument of \<open>-t\<close> reads and may write the character before the array.\<close>

lemma option_t_empty: "mdriver_main env [(CHR ''t'', [])] area m h = Inl OutOfBounds"
  by (simp add: mdriver_main_def set_tracedir_def start_options_def in_line_def MAXLINE_def)

section \<open>An example\<close>

text \<open>A C library whose heap is the number of bytes it has handed out.\<close>

definition example_env :: "nat env" where
  "example_env = \<lparr>files = (\<lambda>path. if path = ''./a.rep''
       then Some (trace_text 0 1 1 [\<lparr>op_type = ALLOC, op_index = 0, op_size = 100\<rparr>, \<lparr>op_type = FREE, op_index = 0, op_size = 0\<rparr>])
       else None),
     junk = 0, libc_malloc = (\<lambda>h n. Inr (Addr (4096 + h), h + nat n)),
     libc_realloc = (\<lambda>h p n. Inr (Addr (4096 + h), h + nat n)), libc_free = (\<lambda>h p. Inr h),
     libc_clock = (\<lambda>i. (\<lparr>tv_sec = 5, tv_usec = 999999\<rparr>, \<lparr>tv_sec = 6, tv_usec = 3\<rparr>)),
     mm_clock = (\<lambda>i. (\<lparr>tv_sec = 7, tv_usec = 10\<rparr>, \<lparr>tv_sec = 7, tv_usec = 12\<rparr>))\<rparr>"

lemma example_good: "good_trace example_env ''./a.rep''"
  unfolding good_trace_def
  by (intro conjI exI [of _ "[\<lparr>op_type = ALLOC, op_index = 0, op_size = 100\<rparr>, \<lparr>op_type = FREE, op_index = 0, op_size = 0\<rparr>]"]
      exI [of _ 0] exI [of _ 1])
    (simp_all add: example_env_def MAXLINE_def op_ok_def next_max_def chunk_need_def)

end
