(* ===== verification/MmNaive.thy ===== *)
theory MmNaive
  imports AllocSpec
begin

unbundle bit_operations_syntax

text \<open>
  malloclab/mm-naive.c: the allocator that only moves the break. A header is two words of which the first
  holds the size with the status in its lowest bit; the second is padding. The model has the first word of
  every header and the bytes of the payloads. It is the second instance of the \<open>allocator\<close> contract.
\<close>

section \<open>Headers\<close>

abbreviation NHDR :: nat where "NHDR \<equiv> 16"

record nmm =
  vm :: mem
  size_n_status :: "nat \<Rightarrow> 64 word"
  bytes :: "nat \<Rightarrow> 8 word"

definition nv_in_heap :: "nmm \<Rightarrow> nat \<Rightarrow> bool" where
  "nv_in_heap m a \<longleftrightarrow> mem_start_brk (vm m) \<le> a \<and> a + NHDR \<le> mem_brk (vm m)"

definition nv_rd :: "nmm \<Rightarrow> nat \<Rightarrow> 64 word cres" where
  "nv_rd m a = (if nv_in_heap m a then Inr (size_n_status m a) else Inl BadPointer)"

definition nv_wr :: "nat \<Rightarrow> 64 word \<Rightarrow> nmm \<Rightarrow> nmm cres" where
  "nv_wr a w m = (if nv_in_heap m a then Inr (m\<lparr>size_n_status := (size_n_status m)(a := w)\<rparr>) else Inl BadPointer)"

definition status_bit :: "bool \<Rightarrow> 64 word" where
  "status_bit status = (if status then 1 else 0)"

definition nv_set_chunk_size_status :: "nat \<Rightarrow> 64 word \<Rightarrow> bool \<Rightarrow> nmm \<Rightarrow> nmm cres" where
  "nv_set_chunk_size_status hdr sz status = nv_wr hdr (sz OR status_bit status)"

definition nv_set_chunk_status :: "nat \<Rightarrow> bool \<Rightarrow> nmm \<Rightarrow> nmm cres" where
  "nv_set_chunk_status hdr status m =
     (let mask = NOT (1 - status_bit status) in
      c_bind (nv_rd m hdr) (\<lambda>w. nv_wr hdr (w AND mask) m))"

definition nv_get_chunk_status :: "nmm \<Rightarrow> nat \<Rightarrow> bool cres" where
  "nv_get_chunk_status m hdr = c_bind (nv_rd m hdr) (\<lambda>w. Inr (w AND 1 \<noteq> 0))"

definition nv_get_chunk_size :: "nmm \<Rightarrow> nat \<Rightarrow> 64 word cres" where
  "nv_get_chunk_size m hdr = c_bind (nv_rd m hdr) (\<lambda>w. Inr (w AND NOT 1))"

definition nv_payload_to_header :: "nat \<Rightarrow> nat" where
  "nv_payload_to_header p = (if NHDR \<le> p then p - NHDR else 2 ^ 64 + p - NHDR)"

definition nv_header_to_payload :: "nat \<Rightarrow> nat" where
  "nv_header_to_payload hdr = hdr + NHDR"

definition nv_get_next_chunk :: "nmm \<Rightarrow> nat \<Rightarrow> nat cres" where
  "nv_get_next_chunk m hdr = c_bind (nv_get_chunk_size m hdr) (\<lambda>sz. Inr (hdr + unat sz))"

section \<open>The operations\<close>

definition nv_init :: "nmm \<Rightarrow> int \<times> nmm" where
  "nv_init m = (0, m)"

text \<open>The loop of \<open>mm_checkheap\<close>; its counters are only printed.\<close>

fun nv_checkheap_loop :: "nat \<Rightarrow> nmm \<Rightarrow> nat \<Rightarrow> unit cres" where
  "nv_checkheap_loop 0 m h = Inl Loops"
| "nv_checkheap_loop (Suc f) m h =
     (if int h < mem_heap_hi (vm m) then
        c_bind (nv_get_chunk_status m h) (\<lambda>_. c_bind (nv_get_next_chunk m h) (nv_checkheap_loop f m))
      else Inr ())"

definition nv_checkheap :: "nmm \<Rightarrow> unit cres" where
  "nv_checkheap m = nv_checkheap_loop (Suc (mem_heapsize (vm m))) m (mem_heap_lo (vm m))"

definition nv_malloc :: "64 word \<Rightarrow> nmm \<Rightarrow> (ptr \<times> nmm) cres" where
  "nv_malloc sz m =
     (let newsize = s32 (uint (align sz + of_nat NHDR)); (h, v) = mem_sbrk newsize (vm m); m = m\<lparr>vm := v\<rparr> in
      if h = SBRK_FAILED then Inr (Null, m)
      else case h of
        Null \<Rightarrow> Inl NullDeref
      | Addr a \<Rightarrow>
          c_bind (c_assert (is_aligned (of_nat a))) (\<lambda>_.
          c_bind (nv_set_chunk_size_status a (word_of_int newsize) True m) (\<lambda>m.
          c_bind (nv_get_chunk_status m a) (\<lambda>st. c_bind (c_assert st) (\<lambda>_.
          c_bind (nv_get_chunk_size m a) (\<lambda>s. c_bind (c_assert (s = word_of_int newsize)) (\<lambda>_.
          Inr (Addr (nv_header_to_payload a), m))))))))"

definition nv_free :: "ptr \<Rightarrow> nmm \<Rightarrow> nmm cres" where
  "nv_free ptr m =
     (case ptr of
        Null \<Rightarrow> Inl AssertFail
      | Addr p \<Rightarrow>
          c_bind (c_assert (mem_heap_lo (vm m) \<le> p \<and> int p \<le> mem_heap_hi (vm m))) (\<lambda>_.
          let h = nv_payload_to_header p in
          c_bind (nv_set_chunk_status h False m) (\<lambda>m.
          c_bind (nv_get_chunk_status m h) (\<lambda>st. c_bind (c_assert (\<not> st)) (\<lambda>_.
          c_bind (nv_checkheap m) (\<lambda>_. Inr m))))))"

definition nv_copy :: "nat \<Rightarrow> nat \<Rightarrow> 64 word \<Rightarrow> nmm \<Rightarrow> nmm cres" where
  "nv_copy new p sz m =
     c_bind (nv_get_chunk_size m (nv_payload_to_header p)) (\<lambda>s.
     let copySize = s - of_nat NHDR; copySize = (if sz < copySize then sz else copySize) in
     Inr (m\<lparr>bytes := (\<lambda>x. if new \<le> x \<and> x < new + unat copySize then bytes m (p + (x - new)) else bytes m x)\<rparr>))"

definition nv_realloc :: "ptr \<Rightarrow> 64 word \<Rightarrow> nmm \<Rightarrow> (ptr \<times> nmm) cres" where
  "nv_realloc ptr sz m =
     (if sz > 0 then
        c_bind (nv_malloc sz m) (\<lambda>(newptr, m).
        case newptr of
          Null \<Rightarrow> Inr (Null, m)
        | Addr new \<Rightarrow>
            (case ptr of
               Null \<Rightarrow> Inr (newptr, m)
             | Addr p \<Rightarrow> c_bind (nv_copy new p sz m) (\<lambda>m. c_bind (nv_free ptr m) (\<lambda>m. Inr (newptr, m)))))
      else if ptr \<noteq> Null then c_bind (nv_free ptr m) (\<lambda>m. Inr (Null, m))
      else Inr (Null, m))"

section \<open>Size and status in one word\<close>

lemma tag_bits:
  fixes w :: "64 word"
  shows "(w AND NOT 1) AND NOT 1 = w AND NOT 1" "(w AND NOT 1) AND 1 = 0"
    "(w OR 1) AND 1 = 1" "(w OR 1) AND NOT 1 = w AND NOT 1"
  by (rule bit_eqI; auto simp: bit_simps)+

lemmas tag_simps [simp] = tag_bits [simplified]

lemma even_clear: "even (unat w) \<Longrightarrow> w AND NOT 1 = (w :: 64 word)"
proof -
  assume "even (unat w)"
  then have "unat (w mod 2) = 0" by (simp add: unat_mod)
  then have "w mod 2 = 0" by (simp only: unat_eq_zero)
  then have "\<not> bit w 0" by (simp add: bit_0 even_iff_mod_2_eq_zero)
  then show ?thesis by (intro bit_eqI) (auto simp: bit_simps intro: Nat.gr0I)
qed

section \<open>Chunks tile the heap\<close>

definition nsize :: "nmm \<Rightarrow> nat \<Rightarrow> nat" where
  "nsize m a = unat (size_n_status m a AND NOT 1)"

definition nlive :: "nmm \<Rightarrow> nat \<Rightarrow> bool" where
  "nlive m a \<longleftrightarrow> size_n_status m a AND 1 \<noteq> 0"

fun ntiles :: "(nat \<Rightarrow> nat) \<Rightarrow> nat \<Rightarrow> nat list \<Rightarrow> nat \<Rightarrow> bool" where
  "ntiles S lo [] hi \<longleftrightarrow> lo = hi"
| "ntiles S lo (a # as) hi \<longleftrightarrow> a = lo \<and> NHDR < S a \<and> ALIGNMENT dvd S a \<and> ntiles S (a + S a) as hi"

lemma ntiles_snoc: "ntiles S lo cs hi \<Longrightarrow> NHDR < S hi \<Longrightarrow> ALIGNMENT dvd S hi \<Longrightarrow> ntiles S lo (cs @ [hi]) (hi + S hi)"
  by (induction cs arbitrary: lo) auto

lemma ntiles_cong: "(\<And>a. a \<in> set cs \<Longrightarrow> S' a = S a) \<Longrightarrow> ntiles S' lo cs hi \<longleftrightarrow> ntiles S lo cs hi"
  by (induction cs arbitrary: lo) auto

lemma ntiles_end: "ntiles S lo cs hi \<Longrightarrow> ALIGNMENT dvd lo \<Longrightarrow> ALIGNMENT dvd hi"
  by (induction cs arbitrary: lo) (auto intro: dvd_add)

lemma ntiles_le: "ntiles S lo cs hi \<Longrightarrow> lo \<le> hi"
  by (induction cs arbitrary: lo) fastforce+

lemma ntiles_bounds:
  "ntiles S lo cs hi \<Longrightarrow> a \<in> set cs \<Longrightarrow> lo \<le> a \<and> a + S a \<le> hi \<and> NHDR < S a \<and> (ALIGNMENT dvd lo \<longrightarrow> ALIGNMENT dvd a)"
proof (induction cs arbitrary: lo)
  case (Cons b cs)
  have b: "b = lo" "NHDR < S b" "ALIGNMENT dvd S b" "ntiles S (b + S b) cs hi" using Cons.prems(1) by auto
  show ?case
  proof (cases "a = b")
    case True
    then show ?thesis using b ntiles_le [OF b(4)] by auto
  next
    case False
    then have "b + S b \<le> a \<and> a + S a \<le> hi \<and> NHDR < S a \<and> (ALIGNMENT dvd b + S b \<longrightarrow> ALIGNMENT dvd a)"
      using Cons.IH [OF b(4)] Cons.prems(2) by simp
    then show ?thesis using b(1,3) by (auto intro: dvd_add)
  qed
qed simp

lemma ntiles_apart: "ntiles S lo cs hi \<Longrightarrow> a \<in> set cs \<Longrightarrow> b \<in> set cs \<Longrightarrow> a < b \<Longrightarrow> a + S a \<le> b"
proof (induction cs arbitrary: lo)
  case (Cons c cs)
  have c: "c = lo" "ntiles S (c + S c) cs hi" using Cons.prems(1) by auto
  consider "a = c" "b \<in> set cs" | "b = c" "a \<in> set cs" | "a \<in> set cs" "b \<in> set cs"
    using Cons.prems(2-4) by auto
  then show ?case
  proof cases
    case 1
    then show ?thesis using ntiles_bounds [OF c(2), of b] by simp
  next
    case 2
    then show ?thesis using ntiles_bounds [OF c(2), of a] Cons.prems(4) by simp
  next
    case 3
    then show ?thesis using Cons.IH [OF c(2)] Cons.prems(4) by simp
  qed
qed simp

definition nv_ok :: "nmm \<Rightarrow> nat list \<Rightarrow> bool" where
  "nv_ok m cs \<longleftrightarrow> mem_ok (vm m) \<and> ALIGNMENT dvd mem_start_brk (vm m) \<and>
     ntiles (nsize m) (mem_start_brk (vm m)) cs (mem_brk (vm m))"

definition nv_inv :: "nmm \<Rightarrow> bool" where
  "nv_inv m \<longleftrightarrow> (\<exists>cs. nv_ok m cs)"

fun nv_walk :: "nat \<Rightarrow> nmm \<Rightarrow> nat \<Rightarrow> nat list" where
  "nv_walk 0 m a = []"
| "nv_walk (Suc f) m a = (if a < mem_brk (vm m) then a # nv_walk f m (a + nsize m a) else [])"

definition nv_blocks :: "nmm \<Rightarrow> (nat \<times> nat) set" where
  "nv_blocks m = {(a + NHDR, nsize m a - NHDR) | a.
     a \<in> set (nv_walk (mem_heapsize (vm m)) m (mem_start_brk (vm m))) \<and> nlive m a}"

lemma nv_walk_tiles: "ntiles (nsize m) a cs (mem_brk (vm m)) \<Longrightarrow> mem_brk (vm m) - a \<le> f \<Longrightarrow> nv_walk f m a = cs"
proof (induction cs arbitrary: a f)
  case Nil
  then show ?case by (cases f) simp_all
next
  case (Cons b cs)
  have b: "b = a" "NHDR < nsize m a" "ntiles (nsize m) (a + nsize m a) cs (mem_brk (vm m))"
    using Cons.prems(1) by auto
  then obtain g where "f = Suc g" using ntiles_le [OF b(3)] Cons.prems(2) by (cases f) auto
  then show ?case using Cons.IH [OF b(3), of g] b ntiles_le [OF b(3)] Cons.prems(2) by simp
qed

lemma nv_blocks_eq: "nv_ok m cs \<Longrightarrow> nv_blocks m = {(a + NHDR, nsize m a - NHDR) | a. a \<in> set cs \<and> nlive m a}"
  using nv_walk_tiles [of m "mem_start_brk (vm m)" cs "mem_heapsize (vm m)"]
  by (simp add: nv_blocks_def nv_ok_def mem_heapsize_def)

lemma nv_chunk:
  assumes "nv_ok m cs" "a \<in> set cs"
  shows "nv_in_heap m a" "a + nsize m a \<le> mem_brk (vm m)" "NHDR < nsize m a" "ALIGNMENT dvd a"
    "mem_start_brk (vm m) \<le> a" "nat (int a) = a"
  using ntiles_bounds [of "nsize m" "mem_start_brk (vm m)" cs "mem_brk (vm m)" a] assms
  by (auto simp: nv_ok_def nv_in_heap_def)

lemma nv_checkheap_loop_ok:
  "ntiles (nsize m) a cs (mem_brk (vm m)) \<Longrightarrow> mem_start_brk (vm m) \<le> a \<Longrightarrow> mem_brk (vm m) - a < f \<Longrightarrow>
     nv_checkheap_loop f m a = Inr ()"
proof (induction cs arbitrary: a f)
  case Nil
  then show ?case by (cases f) (simp_all add: mem_heap_hi_def)
next
  case (Cons b cs)
  have b: "b = a" "NHDR < nsize m a" "ntiles (nsize m) (a + nsize m a) cs (mem_brk (vm m))"
    using Cons.prems(1) by auto
  obtain g where f: "f = Suc g" using Cons.prems(3) by (cases f) auto
  have le: "a + nsize m a \<le> mem_brk (vm m)" using ntiles_le [OF b(3)] .
  then have i: "nv_in_heap m a" using b(2) Cons.prems(2) by (simp add: nv_in_heap_def)
  have "nv_checkheap_loop g m (a + nsize m a) = Inr ()"
    using Cons.IH [OF b(3), of g] Cons.prems(2,3) b(2) le f by simp
  then show ?case
    using f i le b(2)
    by (simp add: mem_heap_hi_def nv_get_chunk_status_def nv_get_next_chunk_def nv_get_chunk_size_def nv_rd_def nsize_def)
qed

lemma nv_checkheap_ok: "nv_ok m cs \<Longrightarrow> nv_checkheap m = Inr ()"
  unfolding nv_checkheap_def nv_ok_def mem_heap_lo_def
  by (rule nv_checkheap_loop_ok) (auto simp: mem_heapsize_def)

section \<open>The contract\<close>

definition nv_need :: "64 word \<Rightarrow> nat" where
  "nv_need sz = (unat sz + 15) div 16 * 16 + NHDR"

definition nv_room :: "64 word \<Rightarrow> nmm \<Rightarrow> bool" where
  "nv_room sz m \<longleftrightarrow> unat sz \<le> 2 ^ 30 \<and> mem_brk (vm m) + nv_need sz \<le> mem_max_addr (vm m)"

lemma nv_need_bounds:
  "unat sz + NHDR \<le> nv_need sz" "nv_need sz < unat sz + 16 + NHDR" "ALIGNMENT dvd nv_need sz"
proof -
  have "unat sz \<le> (unat sz + 15) div 16 * 16" "(unat sz + 15) div 16 * 16 < unat sz + 16" by presburger+
  then show "unat sz + NHDR \<le> nv_need sz" "nv_need sz < unat sz + 16 + NHDR" unfolding nv_need_def by linarith+
  show "ALIGNMENT dvd nv_need sz" unfolding nv_need_def by (intro dvd_add) simp_all
qed

lemma nv_newsize:
  assumes "unat sz \<le> 2 ^ 30"
  shows "s32 (uint (align sz + of_nat NHDR)) = int (nv_need sz)"
proof -
  have n: "nv_need sz < 2 ^ 30 + 48" using nv_need_bounds(2) [of sz] assms by simp
  have "unat (align sz) = (unat sz + 15) div 16 * 16" using assms by (intro unat_align) simp
  then have "unat (align sz + of_nat NHDR) = nv_need sz" using n by (simp add: unat_word_ariths nv_need_def)
  then have "uint (align sz + of_nat NHDR) = int (nv_need sz)" by (simp only: uint_nat)
  then show ?thesis using n by (simp add: s32_id)
qed

lemma nv_malloc_ok:
  assumes ok: "nv_ok m cs" and sz: "0 < unat sz" "nv_room sz m"
  defines "a \<equiv> mem_brk (vm m)"
  shows "\<exists>m'. nv_malloc sz m = Inr (Addr (a + NHDR), m') \<and> nv_ok m' (cs @ [a]) \<and> a \<notin> set cs \<and> nlive m' a \<and>
    nsize m' a = nv_need sz \<and> bytes m' = bytes m \<and>
    (\<forall>b \<in> set cs. nsize m' b = nsize m b \<and> nlive m' b = nlive m b) \<and> vm m' = (vm m)\<lparr>mem_brk := a + nv_need sz\<rparr>"
proof -
  let ?n = "nv_need sz"
  let ?w = "word_of_int (int ?n) :: 64 word"
  have mo: "mem_ok (vm m)" and al: "ALIGNMENT dvd mem_start_brk (vm m)"
    and ti: "ntiles (nsize m) (mem_start_brk (vm m)) cs a"
    using ok by (auto simp: nv_ok_def a_def)
  have room: "unat sz \<le> 2 ^ 30" "a + ?n \<le> mem_max_addr (vm m)" using sz(2) by (auto simp: nv_room_def a_def)
  have big: "a + ?n < 2 ^ 63" using room(2) mo by (auto simp: mem_ok_def)
  have uw: "unat ?w = ?n" using big by (simp add: unat_of_nat)
  have ev: "?w AND NOT 1 = ?w" using uw nv_need_bounds(3) [of sz] by (intro even_clear) (auto elim: dvd_trans [rotated])
  have ala: "ALIGNMENT dvd a" using ntiles_end [OF ti al] .
  have isal: "is_aligned (of_nat a)" using ala big by (simp add: is_aligned_iff unat_of_nat)
  have na: "a \<notin> set cs" using ntiles_bounds [OF ti, of a] by auto
  have sb: "mem_sbrk (int ?n) (vm m) = (Addr a, (vm m)\<lparr>mem_brk := a + ?n\<rparr>)"
    using mem_sbrk_ok [OF mo, of "int ?n"] room(2) by (simp add: a_def)
  have nf: "Addr a \<noteq> SBRK_FAILED" using big by (simp add: SBRK_FAILED_def)
  let ?m = "m\<lparr>vm := (vm m)\<lparr>mem_brk := a + ?n\<rparr>, size_n_status := (size_n_status m)(a := ?w OR 1)\<rparr>"
  have ih: "mem_start_brk (vm m) \<le> a" "NHDR \<le> ?n"
    using mo nv_need_bounds(1) [of sz] by (auto simp: a_def mem_ok_def)
  have run: "nv_malloc sz m = Inr (Addr (a + NHDR), ?m)"
    unfolding nv_malloc_def nv_newsize [OF room(1)] Let_def sb
    using isal nf ih ev
    by (simp add: nv_set_chunk_size_status_def nv_get_chunk_status_def nv_get_chunk_size_def nv_rd_def nv_wr_def
        nv_in_heap_def status_bit_def nv_header_to_payload_def)
  have sz_a: "nsize ?m a = ?n" using ev uw by (simp add: nsize_def)
  have old: "nsize ?m b = nsize m b" "nlive ?m b = nlive m b" if "b \<in> set cs" for b
    using that na by (auto simp: nsize_def nlive_def)
  have "ntiles (nsize ?m) (mem_start_brk (vm m)) (cs @ [a]) (a + nsize ?m a)"
  proof (rule ntiles_snoc)
    show "ntiles (nsize ?m) (mem_start_brk (vm m)) cs a"
      using ti old(1) ntiles_cong [of cs "nsize ?m" "nsize m"] by blast
    show "NHDR < nsize ?m a" unfolding sz_a using nv_need_bounds(1) [of sz] sz(1) by simp
    show "ALIGNMENT dvd nsize ?m a" unfolding sz_a by (rule nv_need_bounds(3))
  qed
  then have "nv_ok ?m (cs @ [a])"
    unfolding sz_a using mo al room(2) ih by (simp add: nv_ok_def mem_ok_def a_def)
  moreover have "nlive ?m a" by (simp add: nlive_def)
  ultimately show ?thesis using run na sz_a old by (intro exI [of _ ?m]) simp
qed

lemma nv_free_ok:
  assumes ok: "nv_ok m cs" and a: "a \<in> set cs"
  shows "\<exists>m'. nv_free (Addr (a + NHDR)) m = Inr m' \<and> nv_ok m' cs \<and> \<not> nlive m' a \<and> bytes m' = bytes m \<and>
    vm m' = vm m \<and> (\<forall>b. nsize m' b = nsize m b \<and> (b \<noteq> a \<longrightarrow> nlive m' b = nlive m b))"
proof -
  note c = nv_chunk [OF ok a]
  let ?m = "m\<lparr>size_n_status := (size_n_status m)(a := size_n_status m a AND NOT 1)\<rparr>"
  have sizes: "nsize ?m = nsize m" by (auto simp: nsize_def)
  then have ok': "nv_ok ?m cs" using ok by (simp add: nv_ok_def)
  have lo: "mem_heap_lo (vm m) \<le> a + NHDR" "int (a + NHDR) \<le> mem_heap_hi (vm m)"
    using c(2,3,5) by (simp_all add: mem_heap_lo_def mem_heap_hi_def)
  have i: "nv_in_heap ?m a" using c(1) by (simp add: nv_in_heap_def)
  have "nv_free (Addr (a + NHDR)) m = Inr ?m"
    using lo c(1) i nv_checkheap_ok [OF ok']
    by (simp add: nv_free_def nv_payload_to_header_def nv_set_chunk_status_def nv_get_chunk_status_def nv_rd_def
        nv_wr_def status_bit_def)
  then show ?thesis using ok' sizes by (intro exI [of _ ?m]) (auto simp: nlive_def)
qed

lemma nv_alloc_law:
  assumes "nv_inv m" "0 < unat sz" "nv_room sz m"
  shows "\<exists>p n m'. nv_malloc sz m = Inr (Addr p, m') \<and> nv_inv m' \<and> unat sz \<le> n \<and> p \<notin> fst ` nv_blocks m \<and>
    nv_blocks m' = insert (p, n) (nv_blocks m) \<and> bytes m' = bytes m"
proof -
  obtain cs where ok: "nv_ok m cs" using assms(1) by (auto simp: nv_inv_def)
  let ?a = "mem_brk (vm m)"
  obtain m' where m': "nv_malloc sz m = Inr (Addr (?a + NHDR), m')" "nv_ok m' (cs @ [?a])" "?a \<notin> set cs"
      "nlive m' ?a" "nsize m' ?a = nv_need sz" "bytes m' = bytes m"
      "\<forall>b \<in> set cs. nsize m' b = nsize m b \<and> nlive m' b = nlive m b"
    using nv_malloc_ok [OF ok assms(2,3)] by blast
  have "nv_blocks m' = insert (?a + NHDR, nv_need sz - NHDR) (nv_blocks m)"
    unfolding nv_blocks_eq [OF m'(2)] nv_blocks_eq [OF ok] using m'(4,5,7) by force
  moreover have "?a + NHDR \<notin> fst ` nv_blocks m" unfolding nv_blocks_eq [OF ok] using m'(3) by force
  moreover have "unat sz \<le> nv_need sz - NHDR" using nv_need_bounds(1) [of sz] by simp
  ultimately show ?thesis
    using m'(1,2,6) by (intro exI [of _ "?a + NHDR"] exI [of _ "nv_need sz - NHDR"] exI [of _ m']) (auto simp: nv_inv_def)
qed

lemma nv_dealloc_law:
  assumes "nv_inv m" "(p, n) \<in> nv_blocks m"
  shows "\<exists>m'. nv_free (Addr p) m = Inr m' \<and> nv_inv m' \<and> nv_blocks m' = nv_blocks m - {(p, n)} \<and> bytes m' = bytes m"
proof -
  obtain cs where ok: "nv_ok m cs" using assms(1) by (auto simp: nv_inv_def)
  obtain a where a: "p = a + NHDR" "n = nsize m a - NHDR" "a \<in> set cs"
    using assms(2) unfolding nv_blocks_eq [OF ok] by auto
  obtain m' where m': "nv_free (Addr (a + NHDR)) m = Inr m'" "nv_ok m' cs" "\<not> nlive m' a" "bytes m' = bytes m"
      "\<forall>b. nsize m' b = nsize m b \<and> (b \<noteq> a \<longrightarrow> nlive m' b = nlive m b)"
    using nv_free_ok [OF ok a(3)] by blast
  have "nv_blocks m' = nv_blocks m - {(p, n)}"
    unfolding nv_blocks_eq [OF m'(2)] nv_blocks_eq [OF ok] a(1,2) using m'(3,5) by auto
  then show ?thesis using m'(1,2,4) a(1) by (auto simp: nv_inv_def)
qed

interpretation nva: allocator nv_inv nv_blocks nv_room nv_malloc nv_free
proof
  show "p + n \<le> q" if prems: "nv_inv s" "(p, n) \<in> nv_blocks s" "(q, k) \<in> nv_blocks s" "p < q" for s p n q k
  proof -
    obtain cs where ok: "nv_ok s cs" using prems(1) by (auto simp: nv_inv_def)
    obtain a b where "p = a + NHDR" "n = nsize s a - NHDR" "a \<in> set cs" "q = b + NHDR" "b \<in> set cs"
      using prems(2,3) unfolding nv_blocks_eq [OF ok] by auto
    then show ?thesis
      using ntiles_apart [of "nsize s" "mem_start_brk (vm s)" cs "mem_brk (vm s)" a b] nv_chunk(3) [OF ok, of a] prems(4) ok
      by (simp add: nv_ok_def)
  qed
  show "n = k" if "nv_inv s" "(p, n) \<in> nv_blocks s" "(p, k) \<in> nv_blocks s" for s p n k
    using that by (auto simp: nv_blocks_def)
  show "ALIGNMENT dvd p" if prems: "nv_inv s" "(p, n) \<in> nv_blocks s" for s p n
  proof -
    obtain cs where ok: "nv_ok s cs" using prems(1) by (auto simp: nv_inv_def)
    then show ?thesis using prems(2) nv_chunk(4) [OF ok] unfolding nv_blocks_eq [OF ok] by auto
  qed
  show "\<exists>p n s'. nv_malloc sz s = Inr (Addr p, s') \<and> nv_inv s' \<and> unat sz \<le> n \<and> p \<notin> fst ` nv_blocks s \<and>
      nv_blocks s' = insert (p, n) (nv_blocks s)" if prems: "nv_inv s" "0 < unat sz" "nv_room sz s" for s sz
    using nv_alloc_law [OF prems] by blast
  show "\<exists>s'. nv_free (Addr p) s = Inr s' \<and> nv_inv s' \<and> nv_blocks s' = nv_blocks s - {(p, n)}"
    if prems: "nv_inv s" "(p, n) \<in> nv_blocks s" for s p n
    using nv_dealloc_law [OF prems] by blast
qed

section \<open>Reallocation\<close>

lemma nv_upd_bytes [simp]:
  "nsize (m\<lparr>bytes := B\<rparr>) = nsize m" "nlive (m\<lparr>bytes := B\<rparr>) = nlive m"
  "nv_ok (m\<lparr>bytes := B\<rparr>) cs = nv_ok m cs"
proof -
  show "nsize (m\<lparr>bytes := B\<rparr>) = nsize m" "nlive (m\<lparr>bytes := B\<rparr>) = nlive m"
    by (simp_all add: nsize_def nlive_def fun_eq_iff)
  then show "nv_ok (m\<lparr>bytes := B\<rparr>) cs = nv_ok m cs" by (simp add: nv_ok_def)
qed

lemma nv_inv_bytes: "nv_inv (m\<lparr>bytes := B\<rparr>) = nv_inv m"
  by (simp add: nv_inv_def)

lemma nv_blocks_bytes: "nv_inv m \<Longrightarrow> nv_blocks (m\<lparr>bytes := B\<rparr>) = nv_blocks m"
proof -
  assume "nv_inv m"
  then obtain cs where ok: "nv_ok m cs" by (auto simp: nv_inv_def)
  then have "nv_ok (m\<lparr>bytes := B\<rparr>) cs" by simp
  then show ?thesis using ok by (simp add: nv_blocks_eq)
qed

lemma nv_copy_ok:
  assumes "nv_inv m" "(p, n) \<in> nv_blocks m"
  shows "nv_copy new p sz m = Inr (m\<lparr>bytes := (\<lambda>x.
    if new \<le> x \<and> x < new + min n (unat sz) then bytes m (p + (x - new)) else bytes m x)\<rparr>)"
proof -
  obtain cs where ok: "nv_ok m cs" using assms(1) by (auto simp: nv_inv_def)
  obtain a where a: "p = a + NHDR" "n = nsize m a - NHDR" "a \<in> set cs"
    using assms(2) unfolding nv_blocks_eq [OF ok] by auto
  note c = nv_chunk [OF ok a(3)]
  let ?s = "size_n_status m a AND NOT 1"
  have "NHDR \<le> unat ?s" using c(3) by (simp add: nsize_def)
  then have "unat (?s - of_nat NHDR) = n" by (subst unat_sub) (auto simp: a(2) nsize_def word_le_nat_alt)
  then have u: "unat (if sz < ?s - of_nat NHDR then sz else ?s - of_nat NHDR) = min n (unat sz)"
    by (simp add: word_less_nat_alt min_def)
  have gs: "nv_get_chunk_size m (nv_payload_to_header p) = Inr ?s"
    using c(1) a(1) by (simp add: nv_get_chunk_size_def nv_rd_def nv_payload_to_header_def)
  show ?thesis by (simp only: nv_copy_def Let_def gs c_bind_Inr u)
qed

text \<open>A failed allocation leaves everything as it was, unlike in mm.c.\<close>

lemma nv_malloc_full:
  assumes "unat sz \<le> 2 ^ 30" "mem_max_addr (vm m) < mem_brk (vm m) + nv_need sz"
  shows "nv_malloc sz m = Inr (Null, m)"
proof -
  have "mem_sbrk (int (nv_need sz)) (vm m) = (SBRK_FAILED, vm m)"
    using assms(2) by (simp add: mem_sbrk_def)
  then show ?thesis unfolding nv_malloc_def nv_newsize [OF assms(1)] Let_def by simp
qed

lemma nv_realloc_ok:
  assumes "nv_inv m" "(p, n) \<in> nv_blocks m" "0 < unat sz" "nv_room sz m"
  shows "\<exists>q k m'. nv_realloc (Addr p) sz m = Inr (Addr q, m') \<and> nv_inv m' \<and> unat sz \<le> k \<and>
    nv_blocks m' = insert (q, k) (nv_blocks m - {(p, n)}) \<and>
    (\<forall>i < min n (unat sz). bytes m' (q + i) = bytes m (p + i))"
proof -
  obtain q k m1 where m1: "nv_malloc sz m = Inr (Addr q, m1)" "nv_inv m1" "unat sz \<le> k" "q \<notin> fst ` nv_blocks m"
      "nv_blocks m1 = insert (q, k) (nv_blocks m)" "bytes m1 = bytes m"
    using nv_alloc_law [OF assms(1,3,4)] by blast
  have p1: "(p, n) \<in> nv_blocks m1" using assms(2) m1(5) by simp
  have pq: "p \<noteq> q" using assms(2) m1(4) by force
  let ?B = "\<lambda>x. if q \<le> x \<and> x < q + min n (unat sz) then bytes m1 (p + (x - q)) else bytes m1 x"
  let ?m2 = "m1\<lparr>bytes := ?B\<rparr>"
  have copy: "nv_copy q p sz m1 = Inr ?m2" by (rule nv_copy_ok [OF m1(2) p1])
  have inv2: "nv_inv ?m2" using m1(2) by (simp only: nv_inv_bytes)
  have bl2: "nv_blocks ?m2 = nv_blocks m1" by (rule nv_blocks_bytes [OF m1(2)])
  have p2: "(p, n) \<in> nv_blocks ?m2" unfolding bl2 by (rule p1)
  obtain m' where m': "nv_free (Addr p) ?m2 = Inr m'" "nv_inv m'" "nv_blocks m' = nv_blocks ?m2 - {(p, n)}"
      "bytes m' = bytes ?m2"
    using nv_dealloc_law [OF inv2 p2] by blast
  have "nv_realloc (Addr p) sz m = Inr (Addr q, m')"
    unfolding nv_realloc_def using m1(1) copy m'(1) assms(3) by (simp add: word_less_nat_alt)
  moreover have "nv_blocks m' = insert (q, k) (nv_blocks m - {(p, n)})"
    unfolding m'(3) bl2 m1(5) using pq by auto
  moreover have "\<forall>i < min n (unat sz). bytes m' (q + i) = bytes m (p + i)"
    unfolding m'(4) using m1(6) by simp
  ultimately show ?thesis using m1(3) m'(2) by blast
qed

section \<open>The properties\<close>

definition nv_start :: "nat \<Rightarrow> (nat \<Rightarrow> 64 word) \<Rightarrow> (nat \<Rightarrow> 8 word) \<Rightarrow> nmm" where
  "nv_start a W B = snd (nv_init
     \<lparr>vm = \<lparr>mem_start_brk = a, mem_brk = a, mem_max_addr = a + MAX_HEAP\<rparr>, size_n_status = W, bytes = B\<rparr>)"

lemma nv_start_inv:
  assumes "0 < a" "16 dvd a" "a + MAX_HEAP < 2 ^ 63"
  shows "nv_inv (nv_start a W B)" "nv_blocks (nv_start a W B) = {}"
proof -
  have "nv_ok (nv_start a W B) []" using assms by (simp add: nv_ok_def nv_start_def nv_init_def mem_ok_def)
  then show "nv_inv (nv_start a W B)" "nv_blocks (nv_start a W B) = {}"
    using nv_blocks_eq [of "nv_start a W B" "[]"] by (auto simp: nv_inv_def)
qed



end
