(* ===== verification/Fcyc.thy ===== *)
theory Fcyc
  imports CDouble "HOL-Library.Multiset"
begin

text \<open>
  malloclab/fcyc.c: the K-best scheme. The static variables are a record; the array \<open>values\<close> holds the smallest
  samples in ascending order. The measured function changes a state that is threaded through, and the
  cycles that each run takes by the counters of clock.c are an argument, by the number of the run.
\<close>

section \<open>The sampler\<close>

record fcyc_state =
  kbest :: int
  maxsamples :: int
  epsilon :: double
  compensate :: int
  clear_cache :: int
  cache_bytes :: int
  cache_block :: int
  cache_buf :: "32 word list option"
  samples :: "double list"
  samplecount :: int

definition default_fcyc :: fcyc_state where
  "default_fcyc = \<lparr>kbest = 3, maxsamples = 20, epsilon = to_double (1 / 100), compensate = 0, clear_cache = 0,
     cache_bytes = 524288, cache_block = 32, cache_buf = None, samples = [], samplecount = 0\<rparr>"

definition init_sampler :: "fcyc_state \<Rightarrow> fcyc_state" where
  "init_sampler s = s\<lparr>samples := replicate (nat (kbest s)) (Fin 0), samplecount := 0\<rparr>"

text \<open>The insertion sort moves the new value down from position \<open>pos\<close>.\<close>

fun sift_down :: "nat \<Rightarrow> double list \<Rightarrow> double list cres" where
  "sift_down 0 vs = Inr vs"
| "sift_down (Suc p) vs =
     c_bind (arr_at vs (int p)) (\<lambda>a. c_bind (arr_at vs (int (Suc p))) (\<lambda>b.
     if dless b a then sift_down p (vs[p := b, Suc p := a]) else Inr vs))"

definition add_sample :: "double \<Rightarrow> fcyc_state \<Rightarrow> fcyc_state cres" where
  "add_sample val s =
     c_bind (if samplecount s < kbest s then
         c_bind (arr_set (samples s) (samplecount s) val) (\<lambda>vs. Inr (samplecount s, vs))
       else c_bind (arr_at (samples s) (kbest s - 1)) (\<lambda>last_val.
         if dless val last_val then
           c_bind (arr_set (samples s) (kbest s - 1) val) (\<lambda>vs. Inr (kbest s - 1, vs))
         else Inr (0, samples s))) (\<lambda>(pos, vs).
     c_bind (sift_down (nat pos) vs) (\<lambda>vs.
     Inr (s\<lparr>samples := vs, samplecount := samplecount s + 1\<rparr>)))"

definition has_converged :: "fcyc_state \<Rightarrow> bool cres" where
  "has_converged s =
     (if samplecount s < kbest s then Inr False
      else c_bind (arr_at (samples s) 0) (\<lambda>v0. c_bind (arr_at (samples s) (kbest s - 1)) (\<lambda>vk.
        Inr (dle vk (dmul (dadd (dint 1) (epsilon s)) v0)))))"

text \<open>Clearing the cache: the sum of every \<open>incr\<close>-th word of the buffer, which \<open>malloc\<close> leaves with the contents
  \<open>junk\<close>. With an increment of 0 the loop does not end.\<close>

partial_function (option) sum_words :: "32 word list \<Rightarrow> nat \<Rightarrow> nat \<Rightarrow> 32 word \<Rightarrow> 32 word option" where
  "sum_words buf incr i x =
     (if i < length buf then sum_words buf incr (i + incr) (x + buf ! i) else Some x)"

declare sum_words.simps [code]

definition clear_buffer :: "32 word list \<Rightarrow> fcyc_state \<Rightarrow> fcyc_state option" where
  "clear_buffer junk s =
     (let buf = (case cache_buf s of None \<Rightarrow> take (nat (cache_bytes s div 4)) junk | Some b \<Rightarrow> b) in
      case sum_words buf (nat (cache_block s div 4)) 0 0 of
        None \<Rightarrow> None
      | Some x \<Rightarrow> Some (s\<lparr>cache_buf := Some buf\<rparr>))"

text \<open>One round of the loop of \<open>fcyc\<close>, number \<open>i\<close>, and the loop; \<open>maxsamples\<close> bounds it.\<close>

definition sample_once :: "32 word list \<Rightarrow> ('s \<Rightarrow> 's cres) \<Rightarrow> (nat \<Rightarrow> double) \<Rightarrow> nat \<Rightarrow> fcyc_state \<times> 's \<Rightarrow>
    (fcyc_state \<times> 's) cres" where
  "sample_once junk f cycles i = (\<lambda>(s, t).
     c_bind (if clear_cache s \<noteq> 0 then (case clear_buffer junk s of None \<Rightarrow> Inl Loops | Some s \<Rightarrow> Inr s) else Inr s) (\<lambda>s.
     c_bind (f t) (\<lambda>t.
     c_bind (add_sample (cycles i) s) (\<lambda>s. Inr (s, t)))))"

lemma add_sample_count:
  "add_sample v s = Inr s' \<Longrightarrow> samplecount s' = samplecount s + 1 \<and> maxsamples s' = maxsamples s"
  by (auto simp: add_sample_def c_bind_eq_Inr)

lemma clear_buffer_only: "clear_buffer junk s = Some s' \<Longrightarrow> \<exists>b. s' = s\<lparr>cache_buf := b\<rparr>"
  by (auto simp: clear_buffer_def Let_def split: option.splits)

lemma sample_once_count:
  assumes "sample_once junk f cycles i (s, t) = Inr (s', t')"
  shows "samplecount s' = samplecount s + 1 \<and> maxsamples s' = maxsamples s"
proof -
  obtain s1 where 1: "(if clear_cache s \<noteq> 0 then case clear_buffer junk s of None \<Rightarrow> Inl Loops | Some s \<Rightarrow> Inr s else Inr s) = Inr s1"
      "add_sample (cycles i) s1 = Inr s'"
    using assms unfolding sample_once_def c_bind_eq_Inr case_prod_conv by blast
  have "samplecount s1 = samplecount s \<and> maxsamples s1 = maxsamples s"
    using 1(1) by (auto split: if_splits option.splits dest!: clear_buffer_only)
  then show ?thesis using add_sample_count [OF 1(2)] by simp
qed

function fcyc_loop :: "32 word list \<Rightarrow> ('s \<Rightarrow> 's cres) \<Rightarrow> (nat \<Rightarrow> double) \<Rightarrow> nat \<Rightarrow> fcyc_state \<times> 's \<Rightarrow>
    (fcyc_state \<times> 's) cres" where
  "fcyc_loop junk f cycles i (s, t) =
     c_bind (sample_once junk f cycles i (s, t)) (\<lambda>(s, t).
     c_bind (has_converged s) (\<lambda>b.
     if \<not> b \<and> samplecount s < maxsamples s then fcyc_loop junk f cycles (i + 1) (s, t) else Inr (s, t)))"
  by pat_completeness auto
termination
  by (relation "measure (\<lambda>(junk, f, cycles, i, (s, t)). nat (maxsamples s - samplecount s))")
    (auto dest!: sample_once_count)

declare fcyc_loop.simps [simp del]

definition fcyc :: "32 word list \<Rightarrow> ('s \<Rightarrow> 's cres) \<Rightarrow> (nat \<Rightarrow> double) \<Rightarrow> (nat \<Rightarrow> double) \<Rightarrow> fcyc_state \<times> 's \<Rightarrow>
    (double \<times> fcyc_state \<times> 's) cres" where
  "fcyc junk f counter comp_counter = (\<lambda>(s, t).
     c_bind (fcyc_loop junk f (if compensate s \<noteq> 0 then comp_counter else counter) 0 (init_sampler s, t)) (\<lambda>(s, t).
     c_bind (arr_at (samples s) 0) (\<lambda>result. Inr (result, s\<lparr>samples := []\<rparr>, t))))"

section \<open>Parameters\<close>

definition set_fcyc_clear_cache :: "int \<Rightarrow> fcyc_state \<Rightarrow> fcyc_state" where
  "set_fcyc_clear_cache clear s = s\<lparr>clear_cache := clear\<rparr>"

definition set_fcyc_cache_size :: "int \<Rightarrow> fcyc_state \<Rightarrow> fcyc_state" where
  "set_fcyc_cache_size bytes s = (if bytes \<noteq> cache_bytes s then s\<lparr>cache_bytes := bytes, cache_buf := None\<rparr> else s)"

definition set_fcyc_cache_block :: "int \<Rightarrow> fcyc_state \<Rightarrow> fcyc_state" where
  "set_fcyc_cache_block bytes s = s\<lparr>cache_block := bytes\<rparr>"

definition set_fcyc_compensate :: "int \<Rightarrow> fcyc_state \<Rightarrow> fcyc_state" where
  "set_fcyc_compensate arg s = s\<lparr>compensate := arg\<rparr>"

definition set_fcyc_k :: "int \<Rightarrow> fcyc_state \<Rightarrow> fcyc_state" where
  "set_fcyc_k k s = s\<lparr>kbest := k\<rparr>"

definition set_fcyc_maxsamples :: "int \<Rightarrow> fcyc_state \<Rightarrow> fcyc_state" where
  "set_fcyc_maxsamples arg s = s\<lparr>maxsamples := arg\<rparr>"

definition set_fcyc_epsilon :: "double \<Rightarrow> fcyc_state \<Rightarrow> fcyc_state" where
  "set_fcyc_epsilon arg s = s\<lparr>epsilon := arg\<rparr>"

section \<open>The K smallest samples\<close>

lemma sift_down_insort:
  assumes "sorted vs" "NaN \<notin> set vs" "v \<noteq> NaN"
  shows "sift_down (length vs) (vs @ v # zs) = Inr (insort v vs @ zs)"
  using assms(1,2)
proof (induction vs arbitrary: zs rule: rev_induct)
  case Nil
  then show ?case by simp
next
  case (snoc a vs)
  have less: "dless v a \<longleftrightarrow> v < a" using snoc.prems assms(3) by (intro dless_less) auto
  have get: "arr_at (vs @ a # v # zs) (int (length vs)) = Inr a"
      "arr_at (vs @ a # v # zs) (int (Suc (length vs))) = Inr v"
    by (simp_all add: arr_at_nth nth_append del: of_nat_Suc)
  show ?case
  proof (cases "v < a")
    case True
    have "(vs @ a # v # zs)[length vs := v, Suc (length vs) := a] = vs @ v # a # zs" by (simp add: list_update_append)
    moreover have "insort v (vs @ [a]) = insort v vs @ [a]"
      using True snoc.prems(1) by (induction vs) (auto simp: sorted_append)
    ultimately show ?thesis using True less get snoc by (simp add: sorted_append)
  next
    case False
    then have "\<forall>x \<in> set vs. x \<le> v" using snoc.prems(1) by (fastforce simp: sorted_append)
    then have "insort v (vs @ [a]) = vs @ [a, v]"
      using False snoc.prems(1) sorted_insort_is_snoc [of "vs @ [a]" v] by (auto simp: sorted_append)
    then show ?thesis using False less get by simp
  qed
qed

text \<open>The array after the samples \<open>xs\<close>: the \<open>k\<close> smallest in ascending order, then zeros.\<close>

definition best :: "nat \<Rightarrow> double list \<Rightarrow> double list" where
  "best k xs = take k (sort xs) @ replicate (k - length xs) (Fin 0)"

lemma take_equal:
  assumes "sorted (a # vs)" "j < length vs" "vs ! j \<le> a" shows "a # take j vs = take (Suc j) vs"
proof -
  have eq: "vs ! i = a" if "i \<le> j" for i
    using sorted_nth_mono [of vs i j] assms that by (auto intro!: antisym)
  have "take j vs = replicate j a" "take (Suc j) vs = replicate (Suc j) a"
    using eq assms(2) by (auto intro!: nth_equalityI simp: less_Suc_eq_le nth_Cons' simp del: replicate_Suc)
  then show ?thesis by simp
qed

lemma take_insort: "sorted vs \<Longrightarrow> k < length vs \<Longrightarrow>
    take (Suc k) (insort v vs) = (if v < vs ! k then insort v (take k vs) else take (Suc k) vs)"
proof (induction vs arbitrary: k)
  case (Cons a vs)
  show ?case
  proof (cases k)
    case 0
    then show ?thesis by auto
  next
    case (Suc j)
    then have "a \<le> vs ! j" using Cons.prems by simp
    then have "v = a" if "v \<le> a" "\<not> v < vs ! j" using that by simp
    then show ?thesis
      using Suc Cons.IH [of j] Cons.prems take_equal [of a vs j] by (cases "v \<le> a"; cases "v < vs ! j") auto
  qed
qed simp

section \<open>What a measurement returns\<close>

definition sampled :: "fcyc_state \<Rightarrow> double list \<Rightarrow> bool" where
  "sampled s xs \<longleftrightarrow> 0 < kbest s \<and> samplecount s = int (length xs) \<and> samples s = best (nat (kbest s)) xs"

lemma init_sampled: "0 < kbest s \<Longrightarrow> sampled (init_sampler s) []"
  by (simp add: sampled_def init_sampler_def best_def)

lemma sort_snoc: "sort (xs @ [v]) = insort v (sort xs)"
  by (rule properties_for_sort) (simp_all add: sorted_insort)

text \<open>One sample keeps the array as it should be.\<close>

lemma add_sample_sampled:
  assumes s: "sampled s xs" and nan: "NaN \<notin> set xs" "v \<noteq> NaN"
  shows "\<exists>s'. add_sample v s = Inr s' \<and> sampled s' (xs @ [v]) \<and> s' = s\<lparr>samples := samples s', samplecount := samplecount s + 1\<rparr>"
proof -
  define k n where "k = nat (kbest s)" and "n = length xs"
  have k: "kbest s = int k" "0 < k" "samplecount s = int n" "samples s = best k xs"
    using s by (simp_all add: sampled_def k_def n_def)
  let ?sorted = "sort xs"
  have len: "length ?sorted = n" "NaN \<notin> set ?sorted" using nan by (simp_all add: n_def)
  have "\<exists>vs. add_sample v s = Inr (s\<lparr>samples := vs, samplecount := samplecount s + 1\<rparr>) \<and> vs = best k (xs @ [v])"
  proof (cases "n < k")
    case True
    then obtain z where z: "replicate (k - n) (Fin 0) = Fin 0 # z" "z = replicate (k - Suc n) (Fin 0)"
      by (metis Suc_diff_Suc replicate_Suc)
    have "samples s = ?sorted @ Fin 0 # z" using k(4) True z(1) len(1) by (simp add: best_def n_def)
    then have set: "arr_set (samples s) (int n) v = Inr (?sorted @ v # z)" using len(1) by (simp add: list_update_append)
    have "sift_down n (?sorted @ v # z) = Inr (insort v ?sorted @ z)"
      using sift_down_insort [of ?sorted v z] len nan(2) by simp
    then have "add_sample v s = Inr (s\<lparr>samples := insort v ?sorted @ z, samplecount := samplecount s + 1\<rparr>)"
      using True set k by (simp add: add_sample_def)
    moreover have "best k (xs @ [v]) = insort v ?sorted @ z"
      using True z(2) len(1) by (simp add: best_def sort_snoc n_def)
    ultimately show ?thesis by simp
  next
    case False
    then have vs: "samples s = take k ?sorted" using k(4) by (simp add: best_def n_def)
    obtain j where j: "k = Suc j" using k(2) by (cases k) simp_all
    have lj: "j < n" "length (take k ?sorted) = k" using False j len(1) by simp_all
    have last: "arr_at (samples s) (int k - 1) = Inr (?sorted ! j)"
      using vs lj j by (simp add: arr_at_int)
    have mem: "?sorted ! j \<noteq> NaN" using len lj(1) by (metis nth_mem)
    have ti: "take k (sort (xs @ [v])) = (if v < ?sorted ! j then insort v (take j ?sorted) else take k ?sorted)"
      using take_insort [of ?sorted j v] lj(1) len(1) j by (simp add: sort_snoc)
    have b: "best k (xs @ [v]) = take k (sort (xs @ [v]))" using False by (simp add: best_def n_def)
    show ?thesis
    proof (cases "v < ?sorted ! j")
      case True
      have "take k ?sorted = take j ?sorted @ [?sorted ! j]" using lj(1) len(1) j by (simp add: take_Suc_conv_app_nth)
      then have set: "arr_set (samples s) (int k - 1) v = Inr (take j ?sorted @ [v])"
        using vs lj len(1) j by (simp add: arr_set_int list_update_append)
      have "sift_down j (take j ?sorted @ v # []) = Inr (insort v (take j ?sorted) @ [])"
        using sift_down_insort [of "take j ?sorted" v "[]"] lj(1) len nan(2) in_set_takeD [of NaN j ?sorted]
        by (simp add: sorted_wrt_take) blast
      then have "add_sample v s = Inr (s\<lparr>samples := insort v (take j ?sorted), samplecount := samplecount s + 1\<rparr>)"
        using False True set last k j dless_less [OF nan(2) mem] by (simp add: add_sample_def)
      then show ?thesis using True ti b by simp
    next
      case ge: False
      then have "add_sample v s = Inr (s\<lparr>samples := samples s, samplecount := samplecount s + 1\<rparr>)"
        using False last k dless_less [OF nan(2) mem] by (simp add: add_sample_def)
      then show ?thesis using ge ti b vs by simp
    qed
  qed
  then obtain vs where "add_sample v s = Inr (s\<lparr>samples := vs, samplecount := samplecount s + 1\<rparr>)" "vs = best k (xs @ [v])"
    by blast
  then show ?thesis using k by (auto simp: sampled_def n_def)
qed

lemma sum_words_ends: "0 < incr \<Longrightarrow> \<exists>y. sum_words buf incr i x = Some y"
proof (induction "length buf - i" arbitrary: i x rule: less_induct)
  case less
  show ?case
  proof (cases "i < length buf")
    case True
    then have "\<exists>y. sum_words buf incr (i + incr) (x + buf ! i) = Some y" using less.prems by (intro less.hyps) auto
    then show ?thesis using True by (subst sum_words.simps) simp
  qed (subst sum_words.simps, simp)
qed

text \<open>With blocks of less than four bytes the loop that clears the cache never ends.\<close>

lemma sum_words_stuck:
  assumes "i < length buf" shows "sum_words buf 0 i x = None"
proof -
  note ind = sum_words.raw_induct [where P = "\<lambda>b n j z y. n = 0 \<longrightarrow> \<not> j < length b" and xa = "(((b, n), j), z)" for b n j z,
      unfolded prod.case]
  have "n = 0 \<longrightarrow> \<not> j < length b" if run: "sum_words b n j z = Some y" for b n j z y
  proof (rule ind [OF _ run])
    fix f b n j z y
    assume ih: "\<And>b n j z y. f b n j z = Some y \<Longrightarrow> n = 0 \<longrightarrow> \<not> j < length b"
      and r: "(if j < length b then f b n (j + n) (z + b ! j) else Some z) = Some y"
    then show "n = 0 \<longrightarrow> \<not> j < length b" using ih [of b n "j + n" "z + b ! j" y] by (auto split: if_splits)
  qed
  then show ?thesis using assms by (cases "sum_words buf 0 i x") auto
qed

definition clears :: "fcyc_state \<Rightarrow> bool" where
  "clears s \<longleftrightarrow> clear_cache s = 0 \<or> 4 \<le> cache_block s"

definition settings :: "fcyc_state \<Rightarrow> int \<times> int \<times> double \<times> int \<times> int \<times> int" where
  "settings s = (kbest s, maxsamples s, epsilon s, compensate s, clear_cache s, cache_block s)"

lemma sample_once_ok:
  assumes "sampled s xs" "NaN \<notin> set xs" "cycles i \<noteq> NaN" "clears s" "f t = Inr t'"
  shows "\<exists>s'. sample_once junk f cycles i (s, t) = Inr (s', t') \<and> sampled s' (xs @ [cycles i]) \<and> settings s' = settings s"
proof -
  have "\<exists>b. (if clear_cache s \<noteq> 0 then case clear_buffer junk s of None \<Rightarrow> Inl Loops | Some s \<Rightarrow> Inr s else Inr s) =
      Inr (s\<lparr>cache_buf := b\<rparr>)"
  proof (cases "clear_cache s = 0")
    case True
    then show ?thesis by (intro exI [of _ "cache_buf s"]) simp
  next
    case False
    then have pos: "0 < nat (cache_block s div 4)" using assms(4) by (simp add: clears_def)
    let ?buf = "case cache_buf s of None \<Rightarrow> take (nat (cache_bytes s div 4)) junk | Some b \<Rightarrow> b"
    obtain y where "sum_words ?buf (nat (cache_block s div 4)) 0 0 = Some y" using sum_words_ends [OF pos] by blast
    then have "clear_buffer junk s = Some (s\<lparr>cache_buf := Some ?buf\<rparr>)" by (simp add: clear_buffer_def Let_def)
    then show ?thesis using False by auto
  qed
  then obtain b where b: "(if clear_cache s \<noteq> 0 then case clear_buffer junk s of None \<Rightarrow> Inl Loops | Some s \<Rightarrow> Inr s else Inr s) =
      Inr (s\<lparr>cache_buf := b\<rparr>)" by blast
  have "sampled (s\<lparr>cache_buf := b\<rparr>) xs" using assms(1) by (simp add: sampled_def)
  from add_sample_sampled [OF this assms(2,3)] obtain s' where
    s': "add_sample (cycles i) (s\<lparr>cache_buf := b\<rparr>) = Inr s'" "sampled s' (xs @ [cycles i])"
      "s' = s\<lparr>cache_buf := b, samples := samples s', samplecount := samplecount s + 1\<rparr>" by auto
  have "settings s' = settings s" by (subst s'(3)) (simp add: settings_def)
  then show ?thesis using b s'(1,2) assms(5) by (simp add: sample_once_def)
qed

text \<open>The \<open>k\<close> smallest of some samples lie within the tolerance.\<close>

definition within_tolerance :: "fcyc_state \<Rightarrow> double list \<Rightarrow> bool" where
  "within_tolerance s xs \<longleftrightarrow> kbest s \<le> int (length xs) \<and>
     dle (sort xs ! (nat (kbest s) - 1)) (dmul (dadd (dint 1) (epsilon s)) (sort xs ! 0))"

lemma best_nth: "i < k \<Longrightarrow> k \<le> length xs \<Longrightarrow> best k xs ! i = sort xs ! i"
  by (simp add: best_def nth_append)

lemma has_converged_tolerance: "sampled s xs \<Longrightarrow> has_converged s = Inr (within_tolerance s xs)"
  by (auto simp: sampled_def has_converged_def within_tolerance_def best_nth arr_at_int best_def nth_append nat_diff_distrib)

lemma tolerance_settings: "settings s' = settings s \<Longrightarrow> within_tolerance s' = within_tolerance s"
  by (simp add: settings_def within_tolerance_def fun_eq_iff)

lemma fcyc_loop_ok:
  assumes "\<forall>i. cycles i \<noteq> NaN" "\<forall>t. \<exists>t'. f t = Inr t'"
  shows "sampled s (map cycles [0..<i]) \<Longrightarrow> clears s \<Longrightarrow>
    \<exists>n s' t'. fcyc_loop junk f cycles i (s, t) = Inr (s', t') \<and> sampled s' (map cycles [0..<n]) \<and> i < n \<and>
      (n = i + 1 \<or> int n \<le> maxsamples s) \<and> (maxsamples s \<le> int n \<or> within_tolerance s (map cycles [0..<n]))"
proof (induction "nat (maxsamples s - int i)" arbitrary: s i t rule: less_induct)
  case less
  obtain t1 where t1: "f t = Inr t1" using assms(2) by blast
  have nan: "NaN \<notin> set (map cycles [0..<i])" unfolding set_map using assms(1) by (metis imageE)
  obtain s1 where s1: "sample_once junk f cycles i (s, t) = Inr (s1, t1)" "sampled s1 (map cycles [0..<i + 1])"
      "settings s1 = settings s"
    using sample_once_ok [where cycles = cycles and i = i and f = f, OF less.prems(1) nan _ less.prems(2) t1] assms(1) by auto
  have set: "maxsamples s1 = maxsamples s" "clears s1" "within_tolerance s1 = within_tolerance s" "samplecount s1 = int i + 1"
    using s1(2,3) less.prems(2) tolerance_settings [OF s1(3)] by (simp_all add: settings_def clears_def sampled_def)
  note conv = has_converged_tolerance [OF s1(2)]
  show ?case
  proof (cases "\<not> within_tolerance s (map cycles [0..<i + 1]) \<and> int i + 1 < maxsamples s")
    case True
    have "\<exists>n s' t'. fcyc_loop junk f cycles (i + 1) (s1, t1) = Inr (s', t') \<and> sampled s' (map cycles [0..<n]) \<and> i + 1 < n \<and>
        (n = i + 1 + 1 \<or> int n \<le> maxsamples s1) \<and> (maxsamples s1 \<le> int n \<or> within_tolerance s1 (map cycles [0..<n]))"
      using True set s1(2) by (intro less.hyps) auto
    then obtain n s' t' where n: "fcyc_loop junk f cycles (i + 1) (s1, t1) = Inr (s', t')" "sampled s' (map cycles [0..<n])"
        "i + 1 < n" "n = i + 1 + 1 \<or> int n \<le> maxsamples s" "maxsamples s \<le> int n \<or> within_tolerance s (map cycles [0..<n])"
      using set(1,3) by auto
    have "fcyc_loop junk f cycles i (s, t) = fcyc_loop junk f cycles (i + 1) (s1, t1)"
      using s1(1) conv True set by (subst fcyc_loop.simps) simp
    then show ?thesis using n True by (intro exI [of _ n] exI [of _ s'] exI [of _ t']) (auto simp del: upt_Suc)
  next
    case False
    then have "fcyc_loop junk f cycles i (s, t) = Inr (s1, t1)"
      using s1(1) conv set by (subst fcyc_loop.simps) auto
    then show ?thesis using s1(2) False by (intro exI [of _ "i + 1"]) auto
  qed
qed

lemma sort_first: "xs \<noteq> [] \<Longrightarrow> sort xs ! 0 = Min (set xs)"
proof -
  assume "xs \<noteq> []"
  then obtain a ys where a: "sort xs = a # ys" by (metis length_0_conv length_sort neq_Nil_conv)
  then have "\<forall>y \<in> set (sort xs). a \<le> y" using sorted_sort [of xs] by auto
  moreover have "a \<in> set xs" using a by (metis list.set_intros(1) set_sort)
  ultimately have "Min (set xs) = a" by (intro Min_eqI) simp_all
  then show ?thesis using a by simp
qed

lemma fcyc_takes_smallest:
  assumes "0 < kbest s" "clears s" "cycles = (if compensate s \<noteq> 0 then comp_counter else counter)"
    and "\<forall>i. cycles i \<noteq> NaN" "\<forall>t. \<exists>t'. f t = Inr t'"
  shows "\<exists>n s' t'. fcyc junk f counter comp_counter (s, t) = Inr (Min (cycles ` {..<n}), s', t') \<and> 0 < n \<and>
    (n = 1 \<or> int n \<le> maxsamples s) \<and> (maxsamples s \<le> int n \<or> within_tolerance s (map cycles [0..<n]))"
proof -
  have i: "sampled (init_sampler s) (map cycles [0..<0])" "clears (init_sampler s)"
    using init_sampled [OF assms(1)] assms(2) by (simp_all add: init_sampler_def clears_def)
  obtain n s' t' where n: "fcyc_loop junk f cycles 0 (init_sampler s, t) = Inr (s', t')" "sampled s' (map cycles [0..<n])" "0 < n"
      "n = 1 \<or> int n \<le> maxsamples s" "maxsamples s \<le> int n \<or> within_tolerance s (map cycles [0..<n])"
    using fcyc_loop_ok [OF assms(4,5) i, where junk = junk and t = t] by (auto simp: init_sampler_def within_tolerance_def)
  let ?xs = "map cycles [0..<n]"
  have "sort ?xs ! 0 = Min (set ?xs)" using n(3) by (intro sort_first) simp
  moreover have "arr_at (samples s') 0 = Inr (sort ?xs ! 0)"
    using n(2,3) assms(1) by (auto simp: sampled_def best_def arr_at_int nth_append)
  moreover have "set ?xs = cycles ` {..<n}" by auto
  ultimately have "fcyc junk f counter comp_counter (s, t) = Inr (Min (cycles ` {..<n}), s'\<lparr>samples := []\<rparr>, t')"
    using n(1) by (simp add: fcyc_def flip: assms(3))
  then show ?thesis using n(3-5) by blast
qed

text \<open>C36: \<open>fcyc\<close> ends: it takes at least one sample and no more than \<open>maxsamples\<close>, stops early only when the K
  smallest samples lie within the tolerance, and returns the smallest sample it took.\<close>

theorem fcyc_smallest:
  assumes "0 < kbest s" "clears s" "cycles = (if compensate s \<noteq> 0 then comp_counter else counter)"
    and "\<forall>i. cycles i \<noteq> NaN" "\<forall>t. \<exists>t'. f t = Inr t'"
  shows "\<exists>n s' t'. fcyc junk f counter comp_counter (s, t) = Inr (Min (cycles ` {..<n}), s', t') \<and> 0 < n \<and>
    (n = 1 \<or> int n \<le> maxsamples s) \<and> (maxsamples s \<le> int n \<or> within_tolerance s (map cycles [0..<n]))"
  using assms by (rule fcyc_takes_smallest)

theorem fcyc_smallest_witness:
  "\<exists>n s' t'. fcyc [] (\<lambda>t. Inr (t + 1)) (\<lambda>i. Fin (1 / (1 + real i))) (\<lambda>i. NaN) (default_fcyc, 0 :: nat) =
      Inr (Min ((\<lambda>i. Fin (1 / (1 + real i))) ` {..<n}), s', t') \<and> 0 < n \<and>
    (n = 1 \<or> int n \<le> 20) \<and> (20 \<le> int n \<or> within_tolerance default_fcyc (map (\<lambda>i. Fin (1 / (1 + real i))) [0..<n]))"
  using fcyc_smallest [of default_fcyc "\<lambda>i. Fin (1 / (1 + real i))" "\<lambda>i. NaN" "\<lambda>i. Fin (1 / (1 + real i))"
      "\<lambda>t :: nat. Inr (t + 1)" "[]" 0]
  by (simp add: default_fcyc_def clears_def)

end
