(* ===== verification/Clock.thy ===== *)
theory Clock
  imports CDouble
begin

text \<open>
  malloclab/clock.c: cycle counters. What the processor's counter shows is an argument of every function that reads it,
  and so is what \<open>times\<close> reports. The file has three versions of the two basic functions, chosen by the platform:
  the x86 one, the Alpha one with the suffix \<open>_alpha\<close>, and one for all others, with the suffix \<open>_other\<close>.
\<close>

section \<open>Counters\<close>

record cyc =
  cyc_hi :: "32 word"
  cyc_lo :: "32 word"

definition access_counter :: "64 word \<Rightarrow> 32 word \<times> 32 word" where
  "access_counter tsc = (ucast (drop_bit 32 tsc), ucast tsc)"

definition start_counter :: "64 word \<Rightarrow> cyc" where
  "start_counter tsc = (let (hi, lo) = access_counter tsc in \<lparr>cyc_hi = hi, cyc_lo = lo\<rparr>)"

text \<open>The subtraction of two 64-bit numbers in halves.\<close>

definition elapsed :: "32 word \<Rightarrow> 32 word \<Rightarrow> cyc \<Rightarrow> double" where
  "elapsed ncyc_hi ncyc_lo s =
     (let lo = ncyc_lo - cyc_lo s;
          borrow = (if lo > ncyc_lo then 1 else 0);
          hi = ncyc_hi - cyc_hi s - borrow
      in dadd (dmul (dmul (dint (uint hi)) (dint 1073741824)) (dint 4)) (dint (uint lo)))"

definition get_counter :: "64 word \<Rightarrow> cyc \<Rightarrow> double" where
  "get_counter tsc s = (let (ncyc_hi, ncyc_lo) = access_counter tsc in elapsed ncyc_hi ncyc_lo s)"

definition start_counter_alpha :: "32 word \<Rightarrow> cyc" where
  "start_counter_alpha rpcc = \<lparr>cyc_hi = 0, cyc_lo = rpcc\<rparr>"

definition get_counter_alpha :: "32 word \<Rightarrow> cyc \<Rightarrow> double" where
  "get_counter_alpha rpcc s = elapsed 0 rpcc s"

definition start_counter_other :: "cyc cres" where
  "start_counter_other = Inl (Exit 1)"

definition get_counter_other :: "double cres" where
  "get_counter_other = Inl (Exit 1)"

section \<open>Derived measurements\<close>

text \<open>The two rounds of \<open>ovhd\<close>, each with the counter at its start and at its end.\<close>

definition ovhd :: "64 word \<times> 64 word \<Rightarrow> 64 word \<times> 64 word \<Rightarrow> double" where
  "ovhd cold warm = get_counter (snd warm) (start_counter (fst warm))"

definition mhz_full :: "64 word \<times> 64 word \<Rightarrow> int \<Rightarrow> double" where
  "mhz_full tsc sleeptime =
     ddiv (get_counter (snd tsc) (start_counter (fst tsc))) (dmul (to_double 1000000) (dint sleeptime))"

definition mhz :: "64 word \<times> 64 word \<Rightarrow> double" where
  "mhz tsc = mhz_full tsc 2"

definition NEVENT :: int where "NEVENT = 100"
definition THRESHOLD :: int where "THRESHOLD = 1000"
definition RECORDTHRESH :: int where "RECORDTHRESH = 3000"

text \<open>The loop of \<open>callibrate\<close> over the readings of the counter and, for a reading that comes late, of the user time;
  \<open>None\<close> when the readings end before the hundredth event.\<close>

fun callibrate_loop :: "(double \<times> int) list \<Rightarrow> double \<Rightarrow> int \<Rightarrow> int \<Rightarrow> double \<Rightarrow> double option" where
  "callibrate_loop rs oldt oldc e cpt =
     (if \<not> e < NEVENT then Some cpt
      else case rs of
        [] \<Rightarrow> None
      | (newt, newc) # rs \<Rightarrow>
          if dle (dint THRESHOLD) (dsub newt oldt) then
            if newc > oldc then
              let ratio = ddiv (dsub newt oldt) (dint (newc - oldc));
                  cpt = (if (deq cpt (dint 0) \<or> dless ratio cpt) \<and> dless (dint RECORDTHRESH) ratio then ratio else cpt)
              in callibrate_loop rs newt newc (e + 1) cpt
            else callibrate_loop rs newt oldc e cpt
          else callibrate_loop rs oldt oldc e cpt)"

declare callibrate_loop.simps [simp del]

definition callibrate :: "64 word \<Rightarrow> 64 word \<Rightarrow> int \<Rightarrow> (64 word \<times> int) list \<Rightarrow> double \<Rightarrow> double option" where
  "callibrate tsc0 tsc1 utime rs cyc_per_tick =
     (let s = start_counter tsc0 in
      callibrate_loop (map (\<lambda>(tsc, u). (get_counter tsc s, u)) rs) (get_counter tsc1 s) utime 0 cyc_per_tick)"

text \<open>\<open>start_comp_counter\<close> calibrates first when it has not been done; the result is the started counter, the ticks at
  the start and the cycles per tick.\<close>

definition start_comp_counter ::
  "double option \<Rightarrow> 64 word \<Rightarrow> int \<Rightarrow> double \<Rightarrow> (cyc \<times> int \<times> double) option" where
  "start_comp_counter calibrated tsc utime cyc_per_tick =
     (case (if deq cyc_per_tick (dint 0) then calibrated else Some cyc_per_tick) of
        None \<Rightarrow> None
      | Some cpt \<Rightarrow> Some (start_counter tsc, utime, cpt))"

definition get_comp_counter :: "64 word \<Rightarrow> int \<Rightarrow> cyc \<Rightarrow> int \<Rightarrow> double \<Rightarrow> double" where
  "get_comp_counter tsc utime s start_tick cyc_per_tick =
     (let time = get_counter tsc s; ticks = s64 (utime - start_tick)
      in dsub time (dmul (dint ticks) cyc_per_tick))"

section \<open>The difference of two readings\<close>

lemma uint_halves: "uint (ucast (drop_bit 32 w) :: 32 word) * 2 ^ 32 + uint (ucast w :: 32 word) = uint (w :: 64 word)"
proof -
  have low: "uint (ucast w :: 32 word) = uint w mod 2 ^ 32" by (simp add: unsigned_ucast_eq take_bit_eq_mod)
  have lt: "uint w div 2 ^ 32 < 2 ^ 32" using uint_lt2p [of w] by simp
  have "uint (drop_bit 32 w) = uint w div 2 ^ 32"
    using take_bit_int_eq_self [of "uint w" 64] uint_bounded [of w]
    by (simp add: unsigned_drop_bit_eq drop_bit_eq_div [of 32 "uint w"])
  then have "uint (ucast (drop_bit 32 w) :: 32 word) = uint w div 2 ^ 32"
    using mod_pos_pos_trivial [of "uint w div 2 ^ 32" "2 ^ 32", OF _ lt] uint_ge_0 [of w]
    by (simp add: unsigned_ucast_eq take_bit_eq_mod pos_imp_zdiv_nonneg_iff)
  then show ?thesis unfolding low by (simp add: mult.commute mult_div_mod_eq)
qed

lemma elapsed_halves:
  fixes a b :: "64 word"
  defines "lo \<equiv> ucast a - ucast b :: 32 word"
  defines "hi \<equiv> ucast (drop_bit 32 a) - ucast (drop_bit 32 b) - (if lo > ucast a then 1 else 0) :: 32 word"
  shows "uint hi * 2 ^ 32 + uint lo = uint (a - b)"
proof -
  define ah al where "ah = (ucast (drop_bit 32 a) :: 32 word)" and "al = (ucast a :: 32 word)"
  define bh bl where "bh = (ucast (drop_bit 32 b) :: 32 word)" and "bl = (ucast b :: 32 word)"
  have a: "uint a = uint ah * 2 ^ 32 + uint al" and b: "uint b = uint bh * 2 ^ 32 + uint bl"
    using uint_halves [of a] uint_halves [of b] by (simp_all add: ah_def al_def bh_def bl_def)
  have r: "0 \<le> uint w \<and> uint w < 2 ^ 32" for w :: "32 word" using uint_bounded [of w] by simp
  have lo: "uint lo = (if uint bl \<le> uint al then uint al - uint bl else uint al - uint bl + 2 ^ 32)"
    unfolding lo_def by (simp add: uint_sub_if' al_def bl_def)
  have borrow: "lo > ucast a \<longleftrightarrow> \<not> uint bl \<le> uint al"
    using lo r [of al] r [of bl] unfolding word_less_def al_def [symmetric] by auto
  have hb: "uint (ah - bh) = (if uint bh \<le> uint ah then uint ah - uint bh else uint ah - uint bh + 2 ^ 32)"
    by (simp add: uint_sub_if')
  have hi: "uint hi = (if uint bl \<le> uint al then uint (ah - bh)
      else if 1 \<le> uint (ah - bh) then uint (ah - bh) - 1 else uint (ah - bh) - 1 + 2 ^ 32)"
    unfolding hi_def borrow ah_def [symmetric] bh_def [symmetric] using uint_sub_if' [of "ah - bh" 1] by simp
  have ab: "uint (a - b) = (if uint b \<le> uint a then uint a - uint b else uint a - uint b + 2 ^ 64)"
    by (simp add: uint_sub_if')
  show ?thesis
    using lo hi hb ab a b r [of al] r [of bl] r [of ah] r [of bh]
    by (cases "uint bl \<le> uint al"; cases "uint bh \<le> uint ah"; cases "1 \<le> uint (ah - bh)"; cases "uint b \<le> uint a") simp_all
qed

lemma elapsed_double:
  fixes nh nl :: "32 word" and s :: cyc
  defines "lo \<equiv> nl - cyc_lo s"
  defines "hi \<equiv> nh - cyc_hi s - (if lo > nl then 1 else 0)"
  shows "elapsed nh nl s = to_double (of_int (uint hi * 2 ^ 32 + uint lo))"
proof -
  have r: "0 \<le> uint w \<and> uint w < 2 ^ 32" for w :: "32 word" using uint_bounded [of w] by simp
  have ex: "to_double (of_int k * 2 ^ e) = Fin (of_int k * 2 ^ e)" if "0 \<le> k" "k < 2 ^ 32" "e \<le> 40" for k e
  proof (rule to_double_val)
    show "double_val (of_int k * 2 ^ e)" using double_val_scaled [of k "int e"] that by simp
    have "(of_int k :: real) \<le> of_int (2 ^ 32)" using that(2) unfolding of_int_le_iff by simp
    then have "(of_int k :: real) \<le> 2 ^ 32" by simp
    moreover have "(2 :: real) ^ e \<le> 2 ^ 40" using that(3) by (intro power_increasing) simp_all
    ultimately have "of_int k * 2 ^ e \<le> (2 :: real) ^ 32 * 2 ^ 40" using that(1) by (intro mult_mono) simp_all
    also have "\<dots> < double_limit" using powi_below_limit [of 72] by simp
    finally show "\<bar>of_int k * 2 ^ e\<bar> < double_limit" using that(1) by simp
  qed
  have "dint (uint hi) = Fin (of_int (uint hi))" by (rule dint_exact) (use r [of hi] in simp)
  moreover have "dint (uint lo) = Fin (of_int (uint lo))" by (rule dint_exact) (use r [of lo] in simp)
  moreover have "dint 1073741824 = Fin 1073741824" "dint 4 = Fin 4"
    using dint_exact [of 1073741824] dint_exact [of 4] by simp_all
  moreover have "to_double (of_int (uint hi) * 1073741824) = Fin (of_int (uint hi) * 1073741824)"
    "to_double (of_int (uint hi) * 1073741824 * 4) = Fin (of_int (uint hi) * 1073741824 * 4)"
    "to_double (1073741824 * of_int (uint hi) * 4) = Fin (of_int (uint hi) * 1073741824 * 4)"
    using ex [of "uint hi" 30] ex [of "uint hi" 32] r [of hi] by (simp_all add: mult_ac)
  ultimately show ?thesis by (simp add: elapsed_def Let_def mult.commute [of 4294967296] flip: lo_def hi_def)
qed

text \<open>C37: the x86 cycle counter: the subtraction in two halves with a borrow is the subtraction modulo two to the 64,
  and the result is that number of cycles, rounded once.\<close>

theorem get_counter_difference:
  "get_counter now (start_counter before) = to_double (of_int (uint (now - before)))"
  using elapsed_halves [of now before] elapsed_double [of "ucast (drop_bit 32 now)" "ucast now" "start_counter before"]
  by (simp add: get_counter_def start_counter_def access_counter_def)

text \<open>On the Alpha the counter has 32 bits, but the borrow of its wrap goes into the upper half: the result is too large
  by the difference of two to the 64 and two to the 32.\<close>

lemma get_counter_alpha_wraps:
  assumes "now < before"
  shows "get_counter_alpha now (start_counter_alpha before) =
    to_double (of_int (uint (now - before) + (2 ^ 64 - 2 ^ 32)))"
proof -
  have minus1: "uint (0 - 0 - 1 :: 32 word) = 2 ^ 32 - 1" by (simp add: unsigned_minus_1_eq_mask mask_eq_exp_minus_1)
  have "now - before > now"
    using assms uint_sub_if' [of now before] uint_bounded [of now] uint_bounded [of before] by (simp add: word_less_def)
  then show ?thesis
    using elapsed_double [of 0 now "start_counter_alpha before"]
    by (simp only: get_counter_alpha_def start_counter_alpha_def cyc.simps if_True minus1) (simp add: add.commute)
qed

lemma get_counter_alpha_exact:
  assumes "before \<le> now"
  shows "get_counter_alpha now (start_counter_alpha before) = to_double (of_int (uint (now - before)))"
proof -
  have "\<not> now - before > now"
    using assms uint_sub_if' [of now before] uint_bounded [of before] by (simp add: word_less_def word_le_def)
  then show ?thesis
    using elapsed_double [of 0 now "start_counter_alpha before"]
    by (simp add: get_counter_alpha_def start_counter_alpha_def)
qed

text \<open>What \<open>callibrate\<close> returns is the value it started with or a ratio above the recording threshold.\<close>

lemma callibrate_loop_above:
  "callibrate_loop rs oldt oldc e cpt = Some r \<Longrightarrow> r = cpt \<or> dless (dint RECORDTHRESH) r"
proof (induction rs arbitrary: oldt oldc e cpt)
  case Nil
  then show ?case by (subst (asm) callibrate_loop.simps) (simp split: if_splits)
next
  case (Cons p rs)
  obtain newt newc where p: "p = (newt, newc)" by (cases p)
  show ?case
    using Cons.prems unfolding p
    by (subst (asm) callibrate_loop.simps) (auto simp: Let_def split: if_splits dest!: Cons.IH)
qed

end
