(* ===== verification/Fsecs.thy ===== *)
theory Fsecs
  imports Ftimer Fcyc Clock
begin

text \<open>
  malloclab/fsecs.c with each of the three timing methods that config.h can select, \<open>init_fsecs\<close> included (\<open>Ftimer.fsecs\<close> is
  the one it selects as it is). The static variables are those of fcyc.c and \<open>Mhz\<close>; the readings of the cycle counter around the
  sleep of \<open>mhz\<close>, the clock, and the cycles of each run are arguments.
\<close>

datatype timing_method = USE_FCYC | USE_ITIMER | USE_GETTOD

record timing =
  fcyc_vars :: fcyc_state
  Mhz :: double

definition init_fsecs :: "timing_method \<Rightarrow> 64 word \<times> 64 word \<Rightarrow> timing \<Rightarrow> timing" where
  "init_fsecs method tsc s =
     (let s = s\<lparr>Mhz := Fin 0\<rparr> in
      case method of
        USE_FCYC \<Rightarrow>
          (let fc = set_fcyc_k 3 (set_fcyc_epsilon (to_double (1 / 100)) (set_fcyc_compensate 1 (set_fcyc_clear_cache 1
                (set_fcyc_maxsamples 20 (fcyc_vars s)))))
           in s\<lparr>fcyc_vars := fc, Mhz := mhz tsc\<rparr>)
      | _ \<Rightarrow> s)"

definition fsecs_by :: "timing_method \<Rightarrow> 32 word list \<Rightarrow> (nat \<Rightarrow> double) \<times> (nat \<Rightarrow> double) \<Rightarrow> timeval \<times> timeval \<Rightarrow>
    ('s \<Rightarrow> 's cres) \<Rightarrow> timing \<Rightarrow> 's \<Rightarrow> (double \<times> timing \<times> 's) cres" where
  "fsecs_by method junk cycles t f s st =
     (case method of
        USE_FCYC \<Rightarrow> c_bind (fcyc junk f (fst cycles) (snd cycles) (fcyc_vars s, st)) (\<lambda>(cyc, fc, st).
          Inr (ddiv cyc (dmul (Mhz s) (to_double 1000000)), s\<lparr>fcyc_vars := fc\<rparr>, st))
      | USE_ITIMER \<Rightarrow> c_bind (ftimer_itimer f 10 t st) (\<lambda>(secs, st). Inr (secs, s, st))
      | USE_GETTOD \<Rightarrow> c_bind (ftimer_gettod f 10 t st) (\<lambda>(secs, st). Inr (secs, s, st)))"

lemma fsecs_by_clock: "fsecs_by USE_GETTOD junk cycles t f s st = c_bind (fsecs f t st) (\<lambda>(secs, st). Inr (secs, s, st))"
  by (simp add: fsecs_by_def fsecs_def)

lemma init_fsecs_ready:
  assumes "4 \<le> cache_block (fcyc_vars s)"
  shows "kbest (fcyc_vars (init_fsecs USE_FCYC tsc s)) = 3" "clears (fcyc_vars (init_fsecs USE_FCYC tsc s))"
    "compensate (fcyc_vars (init_fsecs USE_FCYC tsc s)) \<noteq> 0" "maxsamples (fcyc_vars (init_fsecs USE_FCYC tsc s)) = 20"
    "Mhz (init_fsecs USE_FCYC tsc s) = mhz tsc"
  using assms by (simp_all add: init_fsecs_def Let_def set_fcyc_k_def set_fcyc_epsilon_def set_fcyc_compensate_def
      set_fcyc_clear_cache_def set_fcyc_maxsamples_def clears_def)

text \<open>After \<open>init_fsecs\<close> the K-best scheme runs to its end with the cycle counter that compensates; the
  time is the least number of cycles over at most twenty runs, divided by the cycles of a second.\<close>

lemma fsecs_cycles:
  assumes "4 \<le> cache_block (fcyc_vars s)" "\<forall>i. cycles i \<noteq> NaN" "\<forall>t. \<exists>t'. f t = Inr t'"
  shows "\<exists>n s' st'. fsecs_by USE_FCYC junk (counter, cycles) t f (init_fsecs USE_FCYC tsc s) st =
      Inr (ddiv (Min (cycles ` {..<n})) (dmul (mhz tsc) (to_double 1000000)), s', st') \<and> 0 < n \<and> n \<le> 20"
proof -
  note r = init_fsecs_ready [OF assms(1), of tsc]
  obtain n s' t' where n: "fcyc junk f counter cycles (fcyc_vars (init_fsecs USE_FCYC tsc s), st) = Inr (Min (cycles ` {..<n}), s', t')"
      "0 < n" "n = 1 \<or> int n \<le> maxsamples (fcyc_vars (init_fsecs USE_FCYC tsc s))"
    using fcyc_takes_smallest [of "fcyc_vars (init_fsecs USE_FCYC tsc s)" cycles cycles counter f junk st] r assms(2,3) by auto
  have "n \<le> 20" using n(3) r(4) by auto
  then show ?thesis using n(1,2) r(5) by (intro exI [of _ n]) (simp add: fsecs_by_def)
qed

end
