(* ===== verification/Dealloc.thy ===== *)
theory Dealloc
  imports HTable MemLib
begin

text \<open>
  The functions that give memory back, on the set of the addresses that \<open>malloc\<close> gave out and that are not freed: \<open>htable_destroy\<close>
  and \<open>free_linked_list\<close> of threadlab/htable.c, \<open>bloom_free\<close> of rklab/bloom.c, \<open>free_trace\<close> of malloclab/mdriver.c and
  \<open>mem_deinit\<close> of malloclab/memlib.c. A read or a free of an address that is not in the set is an error, so memory that is used
  after it was freed or freed twice shows.
\<close>

section \<open>Memory\<close>

type_synonym blocks = "nat set"

definition free_block :: "ptr \<Rightarrow> blocks \<Rightarrow> blocks cres" where
  "free_block p B = (case p of Null \<Rightarrow> Inr B | Addr a \<Rightarrow> if a \<in> B then Inr (B - {a}) else Inl BadPointer)"

text \<open>Reading a field of the struct at \<open>p\<close>, and freeing what the field points to.\<close>

definition free_field :: "ptr \<Rightarrow> (nat \<Rightarrow> ptr) \<Rightarrow> blocks \<Rightarrow> blocks cres" where
  "free_field p field B =
     (case p of Null \<Rightarrow> Inl NullDeref | Addr a \<Rightarrow> if a \<in> B then free_block (field a) B else Inl BadPointer)"

section \<open>Structs with arrays\<close>

definition bloom_free :: "(nat \<Rightarrow> ptr) \<Rightarrow> ptr \<Rightarrow> blocks \<Rightarrow> blocks cres" where
  "bloom_free buf_at bf B = c_bind (free_field bf buf_at B) (free_block bf)"

definition free_trace :: "(nat \<Rightarrow> ptr) \<Rightarrow> (nat \<Rightarrow> ptr) \<Rightarrow> (nat \<Rightarrow> ptr) \<Rightarrow> ptr \<Rightarrow> blocks \<Rightarrow> blocks cres" where
  "free_trace ops_at blocks_at sizes_at trace B =
     c_bind (free_field trace ops_at B) (\<lambda>B. c_bind (free_field trace blocks_at B) (\<lambda>B.
     c_bind (free_field trace sizes_at B) (free_block trace)))"

definition mem_deinit :: "mem \<Rightarrow> blocks \<Rightarrow> blocks cres" where
  "mem_deinit m B = free_block (Addr (mem_start_brk m)) B"

text \<open>What \<open>bloom_init\<close>, \<open>read_trace\<close> and \<open>mem_init\<close> allocate is given back.\<close>

lemma bloom_free_ok:
  "distinct [f, b] \<Longrightarrow> {f, b} \<subseteq> B \<Longrightarrow> bloom_free (\<lambda>_. Addr b) (Addr f) B = Inr (B - {f, b})"
  by (auto simp: bloom_free_def free_field_def free_block_def)

lemma free_trace_ok:
  assumes "distinct [t, x, y, z]" "{t, x, y, z} \<subseteq> B" "ops_at t = Addr x" "blocks_at t = Addr y" "sizes_at t = Addr z"
  shows "free_trace ops_at blocks_at sizes_at (Addr t) B = Inr (B - {t, x, y, z})"
  using assms by (auto simp: free_trace_def free_field_def free_block_def)

lemma mem_deinit_ok: "mem_init (Addr a) = Inr m \<Longrightarrow> a \<in> B \<Longrightarrow> mem_deinit m B = Inr (B - {a})"
  by (auto simp: mem_init_def mem_deinit_def free_block_def)

section \<open>The hash table\<close>

text \<open>The table in memory: \<open>node_at\<close> is what the nodes hold, \<open>heads\<close> the array of the slots.\<close>

record mem_node =
  content :: node
  next_node :: ptr

record ht_mem =
  node_at :: "nat \<Rightarrow> mem_node"
  heads :: "ptr list"
  store_at :: ptr
  locks_at :: ptr
  allocated :: blocks

text \<open>The recursion frees the rest of the chain first; on a chain that runs into itself it does not end (\<open>None\<close>).\<close>

partial_function (option) free_linked_list :: "(nat \<Rightarrow> mem_node) \<Rightarrow> ptr \<Rightarrow> blocks \<Rightarrow> blocks cres option" where
  "free_linked_list nodes n B =
     (case n of Null \<Rightarrow> Some (Inr B)
      | Addr a \<Rightarrow> if a \<notin> B then Some (Inl BadPointer)
          else Option.bind (free_linked_list nodes (next_node (nodes a)) B) (\<lambda>r. Some (c_bind r (free_block n))))"

declare free_linked_list.simps [code]

fun free_chains :: "(nat \<Rightarrow> mem_node) \<Rightarrow> ptr list \<Rightarrow> blocks \<Rightarrow> blocks cres option" where
  "free_chains nodes [] B = Some (Inr B)"
| "free_chains nodes (h # hs) B =
     Option.bind (free_linked_list nodes h B) (\<lambda>r. case r of Inl e \<Rightarrow> Some (Inl e) | Inr B \<Rightarrow> free_chains nodes hs B)"

definition htable_destroy :: "htable \<Rightarrow> ht_mem \<Rightarrow> blocks cres option" where
  "htable_destroy ht m =
     (if int (length (heads m)) < ht_size ht then Some (Inl OutOfBounds)
      else Option.bind (free_chains (node_at m) (take (nat (ht_size ht)) (heads m)) (allocated m)) (\<lambda>r.
        Some (c_bind r (\<lambda>B. c_bind (free_block (store_at m) B) (free_block (locks_at m))))))"

subsection \<open>Tables in memory\<close>

text \<open>The chain \<open>ns\<close> is at \<open>p\<close>, its nodes at the addresses \<open>as\<close>.\<close>

fun chain_at :: "(nat \<Rightarrow> mem_node) \<Rightarrow> ptr \<Rightarrow> nat list \<Rightarrow> node list \<Rightarrow> bool" where
  "chain_at nodes p [] ns = (p = Null \<and> ns = [])"
| "chain_at nodes p (a # as) ns =
     (p = Addr a \<and> (\<exists>n ns'. ns = n # ns' \<and> content (nodes a) = n \<and> chain_at nodes (next_node (nodes a)) as ns'))"

definition table_at :: "htable \<Rightarrow> ht_mem \<Rightarrow> nat list list \<Rightarrow> nat \<Rightarrow> nat \<Rightarrow> bool" where
  "table_at t m ass st lc \<longleftrightarrow> length (heads m) = length (store t) \<and> length ass = length (store t) \<and>
     (\<forall>i < length (store t). chain_at (node_at m) (heads m ! i) (ass ! i) (store t ! i)) \<and>
     store_at m = Addr st \<and> locks_at m = Addr lc \<and> distinct (lc # st # concat ass) \<and> set (lc # st # concat ass) \<subseteq> allocated m"

lemma chain_at_length: "chain_at nodes p as ns \<Longrightarrow> length as = length ns"
  by (induction as arbitrary: p ns) auto

lemma free_linked_list_ok:
  "chain_at nodes p as ns \<Longrightarrow> distinct as \<Longrightarrow> set as \<subseteq> B \<Longrightarrow> free_linked_list nodes p B = Some (Inr (B - set as))"
proof (induction as arbitrary: p ns)
  case Nil
  then show ?case by (simp add: free_linked_list.simps)
next
  case (Cons a as)
  then obtain n ns' where p: "p = Addr a" "chain_at nodes (next_node (nodes a)) as ns'" by auto
  then have "free_linked_list nodes (next_node (nodes a)) B = Some (Inr (B - set as))" using Cons by auto
  then show ?case using Cons.prems(2,3) by (subst free_linked_list.simps) (auto simp: p(1) free_block_def)
qed

lemma free_chains_ok:
  assumes "length hs = length ass" "length ass = length nss" "\<forall>i < length nss. chain_at nodes (hs ! i) (ass ! i) (nss ! i)"
    and "distinct (concat ass)" "set (concat ass) \<subseteq> B"
  shows "free_chains nodes hs B = Some (Inr (B - set (concat ass)))"
  using assms
proof (induction hs ass nss arbitrary: B rule: list_induct3)
  case (Cons h hs as ass ns nss)
  have "chain_at nodes h as ns" using Cons.prems(1) by force
  then have "free_linked_list nodes h B = Some (Inr (B - set as))" using Cons.prems(2,3) by (intro free_linked_list_ok) auto
  moreover have "free_chains nodes hs (B - set as) = Some (Inr (B - set as - set (concat ass)))"
    using Cons.prems by (intro Cons.IH) (force+)
  ultimately show ?case by (simp add: Diff_eq Un_assoc Int_assoc)
qed simp

subsection \<open>The property\<close>

text \<open>\<open>htable_destroy\<close> gives back the memory of a table: on every table that is in memory as its invariant says it ends, frees each node of every
  chain, the array of the slots and the locks exactly once, and nothing else.\<close>

lemma htable_destroy_frees:
  assumes "table_ok t" "table_at t m ass st lc"
  shows "htable_destroy t m = Some (Inr (allocated m - set (lc # st # concat ass))) \<and> length (concat ass) = length (concat (store t))"
proof -
  have t: "ht_size t = int (length (heads m))" using assms by (simp add: table_ok_def table_at_def)
  have f: "free_chains (node_at m) (heads m) (allocated m) = Some (Inr (allocated m - set (concat ass)))"
    using assms(2) by (intro free_chains_ok [of _ _ "store t"]) (auto simp: table_at_def)
  have "htable_destroy t m = Some (Inr (allocated m - set (lc # st # concat ass)))"
    using assms(2) f by (auto simp: htable_destroy_def t table_at_def free_block_def)
  moreover have "map length ass = map length (store t)"
    using assms(2) chain_at_length by (intro nth_equalityI) (auto simp: table_at_def)
  then have "length (concat ass) = length (concat (store t))" by (simp add: length_concat)
  ultimately show ?thesis by blast
qed

text \<open>A table with one key, at the addresses 1 (locks), 2 (slots) and 3 (node).\<close>

definition example_mem :: ht_mem where
  "example_mem = \<lparr>node_at = (\<lambda>_. \<lparr>content = \<lparr>nd_hash = hashcode ''a'', nd_key = ''a'', nd_val = Null\<rparr>, next_node = Null\<rparr>),
     heads = [Addr 3], store_at = Addr 2, locks_at = Addr 1, allocated = {1, 2, 3, 9}\<rparr>"

end
