(* ===== verification/HtResize.thy ===== *)
theory HtResize
  imports HtThreads
begin

text \<open>
  threadlab/htable.c, used by several threads on a table that may be resized. Beside the slot locks of \<open>HtThreads\<close> there are the
  global mutex and the flag \<open>undergoing_resize\<close>; a thread may compute its slot before a resize and use it afterwards. Every access
  to a variable that threads share without a lock is a step of its own: the flag, the size, the mutex, each of the 10000 slot
  locks that a resize takes and gives back, each slot that it moves, and the two assignments that make the new array visible. The
  accesses are taken to be sequentially consistent. The old array is freed between those two assignments, when the resizing thread
  has every slot lock.

  Shown here is the invariant: who holds which lock and the mutex, that slots stay inside the array, and that moving keeps the nodes.
\<close>

section \<open>States\<close>

text \<open>Where a thread is. In \<open>htable_insert\<close> and \<open>htable_lookup\<close>: waiting for the mutex; about to compute the slot (with the mutex or not);
  acquiring the lock of the slot; at the node number \<open>i\<close>; about to link a node; giving the lock back with a result and the
  number of collisions. In \<open>htable_resize\<close>: about to set the flag; waiting for the mutex; about to compute the new size; acquiring the
  slot lock number \<open>j\<close>; moving slot number \<open>i\<close>; about to replace the array; giving back the slot lock number \<open>j\<close>; about to clear the flag.\<close>

datatype rpc =
    RReady
  | WantMu
  | Slot bool
  | Lock bool int
  | Walk int nat
  | Append int nat
  | Leave int res nat
  | Resize
  | ResizeMu
  | NewSize
  | Grab int nat
  | Move int nat "node list list"
  | Swap "node list list"
  | Drop nat
  | ClearFlag

record rts =
  shared :: htable
  rlocks :: "nat \<Rightarrow> sys"
  gmu :: "nat option"
  resizing :: int
  at :: "nat \<Rightarrow> rpc"
  pending :: "nat \<Rightarrow> htop list"
  answers :: "nat \<Rightarrow> (htop \<times> res) list"
  wrong :: "c_error option"

text \<open>The index of the lock of a slot.\<close>

definition lock_index :: "int \<Rightarrow> nat" where
  "lock_index slot = nat (slot smod NUM_LOCKS)"

section \<open>Steps\<close>

definition goto :: "nat \<Rightarrow> rpc \<Rightarrow> rts \<Rightarrow> rts" where
  "goto t p s = s\<lparr>at := (at s)(t := p)\<rparr>"

definition call_lock :: "mode \<Rightarrow> nat \<Rightarrow> nat \<Rightarrow> rts \<Rightarrow> rts" where
  "call_lock m t k s = s\<lparr>rlocks := (rlocks s)(k := begin_call m t (rlocks s k))\<rparr>"

definition call_unlock :: "mode \<Rightarrow> nat \<Rightarrow> nat \<Rightarrow> rts \<Rightarrow> rts" where
  "call_unlock m t k s = s\<lparr>rlocks := (rlocks s)(k := begin_unlock m t (rlocks s k))\<rparr>"

definition answer :: "nat \<Rightarrow> htop \<Rightarrow> htop list \<Rightarrow> res \<Rightarrow> rts \<Rightarrow> rts" where
  "answer t op ops r s = s\<lparr>at := (at s)(t := RReady), pending := (pending s)(t := ops), answers := (answers s)(t := answers s t @ [(op, r)])\<rparr>"

text \<open>One turn of the loop along a chain. A lookup reads the value after it has given the lock back; nothing writes the value of a node or
  frees a node meanwhile, so it is read here.\<close>

definition walk_next :: "htop \<Rightarrow> int \<Rightarrow> node list \<Rightarrow> nat \<Rightarrow> rpc" where
  "walk_next op slot chain i =
     (if i < length chain then
        let curr = chain ! i in
        if nd_hash curr = hashcode (op_key op) \<and> strcmp (nd_key curr) (op_key op) = 0
        then Leave slot (case op of Insert k v \<Rightarrow> Ret 1 | Lookup k \<Rightarrow> Val (nd_val curr)) i
        else Walk slot (Suc i)
      else case op of Insert k v \<Rightarrow> Append slot i | Lookup k \<Rightarrow> Leave slot (Val Null) i)"

definition walk_to :: "nat \<Rightarrow> htop \<Rightarrow> rpc \<Rightarrow> rts \<Rightarrow> rts" where
  "walk_to t op p s = (case p of Leave slot r c \<Rightarrow> goto t p (call_unlock (op_mode op) t (lock_index slot) s) | _ \<Rightarrow> goto t p s)"

inductive rt_work :: "rts \<Rightarrow> rts \<Rightarrow> bool" where
  check: "at s t = RReady \<Longrightarrow> pending s t = op # ops \<Longrightarrow> rt_work s (goto t (if resizing s \<noteq> 0 then WantMu else Slot False) s)"
| take_mu: "at s t = WantMu \<Longrightarrow> gmu s = None \<Longrightarrow> rt_work s (goto t (Slot True) (s\<lparr>gmu := Some t\<rparr>))"
| slot: "at s t = Slot g \<Longrightarrow> pending s t = op # ops \<Longrightarrow> ht_size (shared s) \<noteq> 0 \<Longrightarrow>
    slot = hashcode (op_key op) smod ht_size (shared s) \<Longrightarrow> 0 \<le> slot smod NUM_LOCKS \<Longrightarrow>
    rt_work s (goto t (Lock g slot) (call_lock (op_mode op) t (lock_index slot) s))"
| slot_fault: "at s t = Slot g \<Longrightarrow> pending s t = op # ops \<Longrightarrow>
    \<not> (ht_size (shared s) \<noteq> 0 \<and> 0 \<le> hashcode (op_key op) smod ht_size (shared s) smod NUM_LOCKS) \<Longrightarrow>
    rt_work s (s\<lparr>wrong := Some (if ht_size (shared s) = 0 then DivByZero else OutOfBounds)\<rparr>)"
| inside: "lock_work (rlocks s k) l' \<Longrightarrow> rt_work s (s\<lparr>rlocks := (rlocks s)(k := l')\<rparr>)"
| locked: "at s t = Lock g slot \<Longrightarrow> pending s t = op # ops \<Longrightarrow> pcs (rlocks s (lock_index slot)) t = Holding (op_mode op) \<Longrightarrow>
    rt_work s (goto t (Walk slot 0) (if g then s\<lparr>gmu := None\<rparr> else s))"
| walk: "at s t = Walk slot i \<Longrightarrow> pending s t = op # ops \<Longrightarrow> arr_at (store (shared s)) slot = Inr chain \<Longrightarrow>
    rt_work s (walk_to t op (walk_next op slot chain i) s)"
| walk_fault: "at s t = Walk slot i \<Longrightarrow> arr_at (store (shared s)) slot = Inl e \<Longrightarrow> rt_work s (s\<lparr>wrong := Some e\<rparr>)"
| append: "at s t = Append slot i \<Longrightarrow> pending s t = Insert key val # ops \<Longrightarrow> arr_at (store (shared s)) slot = Inr chain \<Longrightarrow>
    arr_set (store (shared s)) slot (take i chain @ [\<lparr>nd_hash = hashcode key, nd_key = key, nd_val = val\<rparr>]) = Inr st \<Longrightarrow>
    rt_work s (walk_to t (Insert key val) (Leave slot (Ret 0) i) (s\<lparr>shared := (shared s)\<lparr>store := st\<rparr>\<rparr>))"
| leave: "at s t = Leave slot r c \<Longrightarrow> pending s t = op # ops \<Longrightarrow> pcs (rlocks s (lock_index slot)) t = Idle \<Longrightarrow>
    rt_work s (if r = Ret 0 \<and> allow_resize (shared s) \<noteq> 0 \<and> MAX_COLLISION \<le> int c then goto t Resize s else answer t op ops r s)"
| set_flag: "at s t = Resize \<Longrightarrow> rt_work s (goto t ResizeMu (s\<lparr>resizing := 1\<rparr>))"
| resize_mu: "at s t = ResizeMu \<Longrightarrow> gmu s = None \<Longrightarrow> rt_work s (goto t NewSize (s\<lparr>gmu := Some t\<rparr>))"
| new_size: "at s t = NewSize \<Longrightarrow>
    rt_work s (goto t (Grab (get_prime (s32 (2 * ht_size (shared s)))) 0) (call_lock Writer t 0 s))"
| grabbed: "at s t = Grab n j \<Longrightarrow> pcs (rlocks s j) t = Holding Writer \<Longrightarrow>
    rt_work s (if int (Suc j) < NUM_LOCKS then goto t (Grab n (Suc j)) (call_lock Writer t (Suc j) s)
      else goto t (Move n 0 (replicate (nat n) [])) s)"
| move: "at s t = Move n i ns \<Longrightarrow> int i < ht_size (shared s) \<Longrightarrow> arr_at (store (shared s)) (int i) = Inr cur \<Longrightarrow>
    move_chain n cur ns = Inr ns' \<Longrightarrow> rt_work s (goto t (Move n (Suc i) ns') s)"
| move_fault: "at s t = Move n i ns \<Longrightarrow> int i < ht_size (shared s) \<Longrightarrow>
    c_bind (arr_at (store (shared s)) (int i)) (\<lambda>cur. move_chain n cur ns) = Inl e \<Longrightarrow> rt_work s (s\<lparr>wrong := Some e\<rparr>)"
| moved: "at s t = Move n i ns \<Longrightarrow> \<not> int i < ht_size (shared s) \<Longrightarrow>
    rt_work s (goto t (Swap ns) (s\<lparr>shared := (shared s)\<lparr>ht_size := n\<rparr>\<rparr>))"
| swap: "at s t = Swap ns \<Longrightarrow> rt_work s (goto t (Drop 0) (call_unlock Writer t 0 (s\<lparr>shared := (shared s)\<lparr>store := ns\<rparr>\<rparr>)))"
| dropped: "at s t = Drop j \<Longrightarrow> pcs (rlocks s j) t = Idle \<Longrightarrow>
    rt_work s (if int (Suc j) < NUM_LOCKS then goto t (Drop (Suc j)) (call_unlock Writer t (Suc j) s)
      else goto t ClearFlag (s\<lparr>gmu := None\<rparr>))"
| clear_flag: "at s t = ClearFlag \<Longrightarrow> pending s t = op # ops \<Longrightarrow> rt_work s (answer t op ops (Ret 0) (s\<lparr>resizing := 0\<rparr>))"

inductive rt_idle :: "rts \<Rightarrow> rts \<Rightarrow> bool" where
  "lock_spurious (rlocks s k) l' \<Longrightarrow> rt_idle s (s\<lparr>rlocks := (rlocks s)(k := l')\<rparr>)"

text \<open>\<open>get_prime\<close> finds a prime in the range of \<open>int\<close> when the doubled size is not above \<open>BIG_PRIME\<close>; \<open>rt_step\<close> are the steps
  until a larger table is resized.\<close>

definition roomy :: "rts \<Rightarrow> bool" where
  "roomy s \<longleftrightarrow> (\<forall>t. at s t = NewSize \<longrightarrow> 2 * ht_size (shared s) \<le> BIG_PRIME)"

definition rt_step :: "rts \<Rightarrow> rts \<Rightarrow> bool" where
  "rt_step s s' \<longleftrightarrow> wrong s = None \<and> roomy s \<and> (rt_work s s' \<or> rt_idle s s')"

inductive_cases rt_workE [consumes 1, case_names check take_mu slot slot_fault inside locked walk walk_fault append leave set_flag
    resize_mu new_size grabbed move move_fault moved swap dropped clear_flag]: "rt_work s s'"
inductive_cases rt_idleE [consumes 1, case_names spurious]: "rt_idle s s'"

text \<open>The table \<open>h\<close> of one thread handed to several.\<close>

definition rt_share :: "hstate \<Rightarrow> (nat \<Rightarrow> htop list) \<Rightarrow> rts" where
  "rt_share h ops = \<lparr>shared = tbl h, rlocks = (\<lambda>_. init_sys), gmu = None, resizing = undergoing_resize h, at = (\<lambda>_. RReady),
     pending = ops, answers = (\<lambda>_. []), wrong = None\<rparr>"

section \<open>The invariant\<close>

text \<open>What the thread at a point does with the slot lock number \<open>k\<close>.\<close>

fun expects :: "mode \<Rightarrow> rpc \<Rightarrow> nat \<Rightarrow> pc \<Rightarrow> bool" where
  "expects m (Lock g slot) k q = (if k = lock_index slot then entering m q else q = Idle)"
| "expects m (Walk slot i) k q = (if k = lock_index slot then q = Holding m else q = Idle)"
| "expects m (Append slot i) k q = (if k = lock_index slot then q = Holding m else q = Idle)"
| "expects m (Leave slot r c) k q = (if k = lock_index slot then q = Releasing m \<or> q = Idle else q = Idle)"
| "expects m (Grab n j) k q = (if k < j then q = Holding Writer else if k = j then entering Writer q else q = Idle)"
| "expects m (Move n i ns) k q = (if k < 10000 then q = Holding Writer else q = Idle)"
| "expects m (Swap ns) k q = (if k < 10000 then q = Holding Writer else q = Idle)"
| "expects m (Drop j) k q = (if k < j then q = Idle else if k = j then q = Releasing Writer \<or> q = Idle
      else if k < 10000 then q = Holding Writer else q = Idle)"
| "expects m _ k q = (q = Idle)"

fun owns :: "rpc \<Rightarrow> bool" where
  "owns (Slot g) = g"
| "owns (Lock g slot) = g"
| "owns NewSize = True"
| "owns (Grab n j) = True"
| "owns (Move n i ns) = True"
| "owns (Swap ns) = True"
| "owns (Drop j) = True"
| "owns _ = False"

definition in_range :: "htable \<Rightarrow> int \<Rightarrow> bool" where
  "in_range tb slot \<longleftrightarrow> 0 \<le> slot \<and> slot < ht_size tb"

text \<open>The thread has not met its key in the first \<open>i\<close> nodes.\<close>

definition clear_of :: "htop \<Rightarrow> node list \<Rightarrow> bool" where
  "clear_of op chain \<longleftrightarrow> (\<forall>x \<in> set chain. nd_key x \<noteq> op_key op)"

fun data_ok :: "htable \<Rightarrow> htop \<Rightarrow> rpc \<Rightarrow> bool" where
  "data_ok tb op (Lock g slot) = in_range tb slot"
| "data_ok tb op (Walk slot i) = (in_range tb slot \<and> i \<le> length (store tb ! nat slot) \<and> clear_of op (take i (store tb ! nat slot)))"
| "data_ok tb op (Append slot i) = (in_range tb slot \<and> i = length (store tb ! nat slot) \<and> op_mode op = Writer \<and> clear_of op (store tb ! nat slot))"
| "data_ok tb op (Leave slot r c) = (0 \<le> slot)"
| "data_ok tb op (Grab n j) = (ht_size tb \<le> n \<and> j < 10000)"
| "data_ok tb op (Move n i ns) = (ht_size tb \<le> n \<and> int (length ns) = n \<and> i \<le> length (store tb) \<and> placed ns \<and>
     mset (concat ns) = mset (concat (take i (store tb))))"
| "data_ok tb op (Swap ns) = (int (length ns) = ht_size tb \<and> placed ns \<and> mset (concat ns) = mset (concat (store tb)))"
| "data_ok tb op (Drop j) = (j < 10000)"
| "data_ok tb op _ = True"

definition pc_ok :: "rts \<Rightarrow> nat \<Rightarrow> bool" where
  "pc_ok s t \<longleftrightarrow> (at s t \<noteq> RReady \<longrightarrow> pending s t \<noteq> []) \<and>
     (\<forall>k. expects (op_mode (hd (pending s t))) (at s t) k (pcs (rlocks s k) t)) \<and>
     data_ok (shared s) (hd (pending s t)) (at s t)"

definition mu_ok :: "rts \<Rightarrow> bool" where
  "mu_ok s \<longleftrightarrow> (\<forall>t. gmu s = Some t \<longleftrightarrow> owns (at s t))"

text \<open>The size is that of the array, except between the two assignments.\<close>

fun swapping :: "rpc \<Rightarrow> bool" where
  "swapping (Swap ns) = True" | "swapping _ = False"

definition store_ok :: "rts \<Rightarrow> bool" where
  "store_ok s \<longleftrightarrow> 0 < length (store (shared s)) \<and> int (length (store (shared s))) \<le> ht_size (shared s) \<and>
     ((\<forall>t. \<not> swapping (at s t)) \<longrightarrow> ht_size (shared s) = int (length (store (shared s)))) \<and>
     (\<forall>x \<in> set (concat (store (shared s))). node_ok x)"

definition rt_inv :: "rts \<Rightarrow> bool" where
  "rt_inv s \<longleftrightarrow> wrong s = None \<and> (\<forall>k. lock_ok (rlocks s k)) \<and> mu_ok s \<and> store_ok s \<and> (\<forall>t. pc_ok s t) \<and>
     (\<forall>t. \<forall>op \<in> set (pending s t). ascii (op_key op))"

lemma rt_invD:
  assumes "rt_inv s"
  shows "wrong s = None" "lock_ok (rlocks s k)" "mu_ok s" "store_ok s" "pc_ok s t" "pending s t = op # ops \<Longrightarrow> ascii (op_key op)"
  using assms unfolding rt_inv_def by (auto split: list.split) (metis list.set_intros(1))


section \<open>Consequences of the invariant\<close>

lemma lock_index_less: "0 \<le> slot \<Longrightarrow> lock_index slot < 10000"
  by (simp add: lock_index_def smod_nonneg nat_less_iff)

lemma lock_index_int: "0 \<le> slot \<Longrightarrow> slot smod NUM_LOCKS = int (lock_index slot)"
  by (simp add: lock_index_def smod_nonneg)

lemma pc_okD:
  assumes "pc_ok s t"
  shows "at s t \<noteq> RReady \<Longrightarrow> \<exists>op ops. pending s t = op # ops"
    "expects (op_mode (hd (pending s t))) (at s t) k (pcs (rlocks s k) t)"
    "data_ok (shared s) (hd (pending s t)) (at s t)"
  using assms unfolding pc_ok_def by (cases "pending s t"; simp)+

lemma one_owner: "mu_ok s \<Longrightarrow> owns (at s t) \<Longrightarrow> owns (at s u) \<Longrightarrow> t = u"
  unfolding mu_ok_def by (metis option.inject)

text \<open>Two threads that hold the same slot lock hold it as readers.\<close>

lemma holders:
  assumes "rt_inv s" "pcs (rlocks s k) t = Holding Writer" "t \<noteq> u"
  shows "pcs (rlocks s k) u \<noteq> Holding m"
  using rwl_inv_exclusive [of "rlocks s k" t m u] assms rt_invD(2) [of s k] by (auto simp: lock_ok_def)

text \<open>A thread that moves the chains has all slot locks, so nobody is in a chain.\<close>

fun moving :: "rpc \<Rightarrow> bool" where
  "moving (Move n i ns) = True" | "moving (Swap ns) = True" | "moving _ = False"

fun in_slot :: "rpc \<Rightarrow> int option" where
  "in_slot (Walk slot i) = Some slot" | "in_slot (Append slot i) = Some slot" | "in_slot _ = None"

lemma moving_holds: "rt_inv s \<Longrightarrow> moving (at s t) \<Longrightarrow> k < 10000 \<Longrightarrow> pcs (rlocks s k) t = Holding Writer"
  using pc_okD(2) [OF rt_invD(5), of s t k] by (cases "at s t") auto

lemma in_slot_holds:
  "rt_inv s \<Longrightarrow> in_slot (at s t) = Some slot \<Longrightarrow> pcs (rlocks s (lock_index slot)) t = Holding (op_mode (hd (pending s t)))"
  using pc_okD(2) [OF rt_invD(5), of s t "lock_index slot"] by (cases "at s t") auto

lemma in_slot_range: "rt_inv s \<Longrightarrow> in_slot (at s t) = Some slot \<Longrightarrow> 0 \<le> slot \<and> slot < ht_size (shared s)"
  using pc_okD(3) [OF rt_invD(5), of s t] by (cases "at s t") (auto simp: in_range_def)

lemma moving_alone:
  assumes "rt_inv s" "in_slot (at s t) = Some slot"
  shows "\<not> moving (at s u)"
proof
  assume m: "moving (at s u)"
  then have "t \<noteq> u" using assms(2) by (cases "at s u") auto
  then show False
    using holders [OF assms(1) moving_holds [OF assms(1) m], of "lock_index slot" t] in_slot_holds [OF assms] in_slot_range [OF assms]
    by (auto simp: lock_index_less)
qed

lemma holding_alone:
  assumes "rt_inv s" "pcs (rlocks s (lock_index slot)) t = Holding m" "0 \<le> slot" "\<not> moving (at s t)"
  shows "\<not> moving (at s u)"
proof
  assume m: "moving (at s u)"
  then have "t \<noteq> u" using assms(4) by auto
  then show False
    using holders [OF assms(1) moving_holds [OF assms(1) m], of "lock_index slot" t] assms(2,3) by (auto simp: lock_index_less)
qed

lemma not_moving_swapping: "\<not> moving p \<Longrightarrow> \<not> swapping p"
  by (cases p) auto

lemma settled_size: "rt_inv s \<Longrightarrow> (\<And>u. \<not> moving (at s u)) \<Longrightarrow> ht_size (shared s) = int (length (store (shared s)))"
  using rt_invD(4) [of s] not_moving_swapping by (auto simp: store_ok_def)

lemma in_slot_store:
  assumes "rt_inv s" "in_slot (at s t) = Some slot"
  shows "nat slot < length (store (shared s))" "arr_at (store (shared s)) slot = Inr (store (shared s) ! nat slot)"
proof -
  have "ht_size (shared s) = int (length (store (shared s)))"
    using moving_alone [OF assms] settled_size [OF assms(1)] by blast
  then show "nat slot < length (store (shared s))" "arr_at (store (shared s)) slot = Inr (store (shared s) ! nat slot)"
    using in_slot_range [OF assms] by (auto simp: arr_at_def nat_less_iff)
qed

section \<open>Steps that leave the table alone\<close>

text \<open>\<open>rt_rest t s\<close>: the invariant for all threads but \<open>t\<close>, whose next point is \<open>p\<close>.\<close>

lemma mu_ok_goto:
  assumes "mu_ok s" "at s' = (at s)(t := p)"
    "gmu s' = gmu s \<and> owns p = owns (at s t) \<or> gmu s = None \<and> gmu s' = Some t \<and> owns p \<or> owns (at s t) \<and> gmu s' = None \<and> \<not> owns p"
  shows "mu_ok s'"
  unfolding mu_ok_def
proof
  fix u
  have o: "gmu s = Some v \<longleftrightarrow> owns (at s v)" for v using assms(1) by (simp add: mu_ok_def)
  show "(gmu s' = Some u) = owns (at s' u)"
    using assms(2,3) o [of t] o [of u] by (cases "u = t") auto
qed

lemma rt_inv_thread:
  assumes inv: "rt_inv s" and "wrong s' = wrong s" "at s' = (at s)(t := p)"
    and "\<And>u. u \<noteq> t \<Longrightarrow> pending s' u = pending s u" "\<And>u k. u \<noteq> t \<Longrightarrow> pcs (rlocks s' k) u = pcs (rlocks s k) u"
    and "\<And>k. lock_ok (rlocks s' k)" "pc_ok s' t" "set (pending s' t) \<subseteq> set (pending s t)"
    and "gmu s' = gmu s \<and> owns p = owns (at s t) \<or> gmu s = None \<and> gmu s' = Some t \<and> owns p \<or> owns (at s t) \<and> gmu s' = None \<and> \<not> owns p"
    and "store_ok s'" "\<And>u. u \<noteq> t \<Longrightarrow> data_ok (shared s') (hd (pending s u)) (at s u)"
  shows "rt_inv s'"
proof -
  have "pc_ok s' u" for u
  proof (cases "u = t")
    case False
    then show ?thesis using rt_invD(5) [OF inv, of u] assms(3,4,5,11) by (simp add: pc_ok_def)
  qed (use assms in simp)
  moreover have "mu_ok s'" using mu_ok_goto [OF rt_invD(3) [OF inv] assms(3,9)] .
  moreover have "\<forall>op \<in> set (pending s' u). ascii (op_key op)" for u
    using inv assms(4,8) unfolding rt_inv_def by (cases "u = t") auto
  ultimately show ?thesis using assms(2,6,10) rt_invD(1) [OF inv] by (simp add: rt_inv_def)
qed

lemma rt_inv_goto:
  assumes inv: "rt_inv s" and "shared s' = shared s" "wrong s' = wrong s" "at s' = (at s)(t := p)"
    and "\<And>u. u \<noteq> t \<Longrightarrow> pending s' u = pending s u" "\<And>u k. u \<noteq> t \<Longrightarrow> pcs (rlocks s' k) u = pcs (rlocks s k) u"
    and "\<And>k. lock_ok (rlocks s' k)" "pc_ok s' t" "set (pending s' t) \<subseteq> set (pending s t)"
    and "gmu s' = gmu s \<and> owns p = owns (at s t) \<or> gmu s = None \<and> gmu s' = Some t \<and> owns p \<or> owns (at s t) \<and> gmu s' = None \<and> \<not> owns p"
    and "\<not> swapping p" "\<not> swapping (at s t)"
  shows "rt_inv s'"
proof (rule rt_inv_thread [OF inv assms(3-10)])
  show "store_ok s'" using rt_invD(4) [OF inv] assms(2,4,11,12) unfolding store_ok_def by (auto split: if_splits)
  show "data_ok (shared s') (hd (pending s u)) (at s u)" for u using pc_okD(3) [OF rt_invD(5) [OF inv]] assms(2) by simp
qed

lemma step_simps [simp]:
  "shared (goto t p s) = shared s" "rlocks (goto t p s) = rlocks s" "gmu (goto t p s) = gmu s" "resizing (goto t p s) = resizing s"
  "at (goto t p s) = (at s)(t := p)" "pending (goto t p s) = pending s" "answers (goto t p s) = answers s" "wrong (goto t p s) = wrong s"
  "shared (call_lock m t k s) = shared s" "gmu (call_lock m t k s) = gmu s" "resizing (call_lock m t k s) = resizing s"
  "at (call_lock m t k s) = at s" "pending (call_lock m t k s) = pending s" "answers (call_lock m t k s) = answers s"
  "wrong (call_lock m t k s) = wrong s" "rlocks (call_lock m t k s) = (rlocks s)(k := begin_call m t (rlocks s k))"
  "shared (call_unlock m t k s) = shared s" "gmu (call_unlock m t k s) = gmu s" "resizing (call_unlock m t k s) = resizing s"
  "at (call_unlock m t k s) = at s" "pending (call_unlock m t k s) = pending s" "answers (call_unlock m t k s) = answers s"
  "wrong (call_unlock m t k s) = wrong s" "rlocks (call_unlock m t k s) = (rlocks s)(k := begin_unlock m t (rlocks s k))"
  "shared (answer t op ops r s) = shared s" "rlocks (answer t op ops r s) = rlocks s" "gmu (answer t op ops r s) = gmu s"
  "resizing (answer t op ops r s) = resizing s" "at (answer t op ops r s) = (at s)(t := RReady)"
  "pending (answer t op ops r s) = (pending s)(t := ops)" "wrong (answer t op ops r s) = wrong s"
  "answers (answer t op ops r s) = (answers s)(t := answers s t @ [(op, r)])"
  by (simp_all add: goto_def call_lock_def call_unlock_def answer_def)

lemma walk_to_simps [simp]:
  "shared (walk_to t op p s) = shared s" "at (walk_to t op p s) = (at s)(t := p)" "pending (walk_to t op p s) = pending s"
  "answers (walk_to t op p s) = answers s" "resizing (walk_to t op p s) = resizing s"
  by (simp_all add: walk_to_def split: rpc.split)

text \<open>A step inside one of the slot locks.\<close>

lemma expects_moves: "expects m p k q \<Longrightarrow> pc_moves q q' \<Longrightarrow> expects m p k q'"
  by (cases p) (auto simp: pc_moves_entering split: if_splits elim: pc_moves_cases)

lemma rt_inv_inside:
  assumes inv: "rt_inv s" and ok: "lock_ok l'" and moves: "\<And>t. pc_moves (pcs (rlocks s k) t) (pcs l' t)"
  shows "rt_inv (s\<lparr>rlocks := (rlocks s)(k := l')\<rparr>)"
proof -
  let ?s = "s\<lparr>rlocks := (rlocks s)(k := l')\<rparr>"
  have mv: "pc_moves (pcs (rlocks s j) t) (pcs (rlocks ?s j) t)" for j t using moves by (auto intro: pc_moves.intros)
  have "expects m p j (pcs (rlocks s j) t) \<Longrightarrow> expects m p j (pcs (rlocks ?s j) t)" for m p j t
    using expects_moves mv by blast
  then have "pc_ok ?s t" for t
    using rt_invD(5) [OF inv, of t] by (simp add: pc_ok_def del: fun_upd_apply)
  then show ?thesis using inv ok by (simp add: rt_inv_def mu_ok_def store_ok_def)
qed

lemma all_idle: "pc_ok s t \<Longrightarrow> (\<And>m k q. expects m (at s t) k q \<Longrightarrow> q = Idle) \<Longrightarrow> pcs (rlocks s k) t = Idle"
  using pc_okD(2) by blast

text \<open>A thread outside the slot locks goes on outside them.\<close>

fun outside :: "rpc \<Rightarrow> bool" where
  "outside (Lock g slot) = False"
| "outside (Walk slot i) = False"
| "outside (Append slot i) = False"
| "outside (Leave slot r c) = False"
| "outside (Grab n j) = False"
| "outside (Move n i ns) = False"
| "outside (Swap ns) = False"
| "outside (Drop j) = False"
| "outside _ = True"

lemma outside_expects [simp]: "outside p \<Longrightarrow> expects m p k q \<longleftrightarrow> q = Idle"
  by (cases p) auto

lemma outside_data [simp]: "outside p \<Longrightarrow> data_ok tb op p"
  by (cases p) auto

lemma outside_swapping [simp]: "outside p \<Longrightarrow> \<not> swapping p"
  by (cases p) auto

lemma outside_idle_pcs: "rt_inv s \<Longrightarrow> outside (at s t) \<Longrightarrow> pcs (rlocks s k) t = Idle"
  using pc_okD(2) [OF rt_invD(5), of s t k] by simp

lemma rt_inv_outside:
  assumes inv: "rt_inv s" and idle: "\<And>k. pcs (rlocks s k) t = Idle" and "outside p" "\<not> swapping (at s t)"
    and "shared s' = shared s" "wrong s' = wrong s" "at s' = (at s)(t := p)" "rlocks s' = rlocks s"
    and "\<And>u. u \<noteq> t \<Longrightarrow> pending s' u = pending s u" "set (pending s' t) \<subseteq> set (pending s t)" "p = RReady \<or> pending s' t \<noteq> []"
    and "gmu s' = gmu s \<and> owns p = owns (at s t) \<or> gmu s = None \<and> gmu s' = Some t \<and> owns p \<or> owns (at s t) \<and> gmu s' = None \<and> \<not> owns p"
  shows "rt_inv s'"
proof (rule rt_inv_goto [OF inv assms(5,6,7)])
  show "pc_ok s' t" using assms(3,7,11) idle by (auto simp: pc_ok_def assms(8))
qed (use assms rt_invD(2) [OF inv] in auto)

text \<open>A thread calls a lock, or gives one back.\<close>

lemma rt_inv_call:
  assumes inv: "rt_inv s" and "pcs (rlocks s k) t = Idle" "\<not> swapping (at s t)" "\<not> swapping p" "owns p = owns (at s t)" "pending s t \<noteq> []"
    and "\<And>j. expects (op_mode (hd (pending s t))) p j (if j = k then Calling m False else pcs (rlocks s j) t)"
    and "data_ok (shared s) (hd (pending s t)) p"
  shows "rt_inv (goto t p (call_lock m t k s))"
proof (rule rt_inv_goto [OF inv, where t = t and p = p])
  show "pc_ok (goto t p (call_lock m t k s)) t" using assms(6,7,8) by (simp add: pc_ok_def if_distrib cong: if_cong)
  show "lock_ok (rlocks (goto t p (call_lock m t k s)) j)" for j
    using rt_invD(2) [OF inv] lock_ok_call [OF rt_invD(2) [OF inv] assms(2)] by simp
qed (use assms in auto)

lemma rt_inv_uncall:
  assumes inv: "rt_inv s" and "pcs (rlocks s k) t = Holding m" "\<not> swapping (at s t)" "\<not> swapping p" "owns p = owns (at s t)" "pending s t \<noteq> []"
    and "\<And>j. expects (op_mode (hd (pending s t))) p j (if j = k then Releasing m else pcs (rlocks s j) t)"
    and "data_ok (shared s) (hd (pending s t)) p"
  shows "rt_inv (goto t p (call_unlock m t k s))"
proof (rule rt_inv_goto [OF inv, where t = t and p = p])
  show "pc_ok (goto t p (call_unlock m t k s)) t" using assms(6,7,8) by (simp add: pc_ok_def if_distrib cong: if_cong)
  show "lock_ok (rlocks (goto t p (call_unlock m t k s)) j)" for j
    using rt_invD(2) [OF inv] lock_ok_unlock [OF rt_invD(2) [OF inv] assms(2)] by simp
qed (use assms in auto)

text \<open>A thread goes on with the locks it has.\<close>

lemma rt_inv_keep:
  assumes inv: "rt_inv s" and "\<not> swapping (at s t)" "\<not> swapping p" "pending s t \<noteq> []"
    and "shared s' = shared s" "wrong s' = wrong s" "at s' = (at s)(t := p)" "rlocks s' = rlocks s" "pending s' = pending s"
    and "\<And>j. expects (op_mode (hd (pending s t))) p j (pcs (rlocks s j) t)" "data_ok (shared s) (hd (pending s t)) p"
    and "gmu s' = gmu s \<and> owns p = owns (at s t) \<or> owns (at s t) \<and> gmu s' = None \<and> \<not> owns p"
  shows "rt_inv s'"
proof (rule rt_inv_goto [OF inv assms(5,6,7)])
  show "pc_ok s' t" using assms by (simp add: pc_ok_def)
qed (use assms rt_invD(2) [OF inv] in auto)


section \<open>Steps that change the table\<close>

lemma set_concat_update: "set (concat (xs[i := ys])) \<subseteq> set (concat xs) \<union> set ys"
  using set_update_subset_insert [of xs i ys] by fastforce

definition appended :: "htable \<Rightarrow> int \<Rightarrow> string \<Rightarrow> ptr \<Rightarrow> htable" where
  "appended tb slot key val =
     tb\<lparr>store := (store tb)[nat slot := store tb ! nat slot @ [\<lparr>nd_hash = hashcode key, nd_key = key, nd_val = val\<rparr>]]\<rparr>"

lemma rt_inv_append:
  assumes inv: "rt_inv s" and t: "at s t = Append slot i" "pending s t = Insert key val # ops"
  shows "rt_inv (goto t (Leave slot (Ret 0) i) (call_unlock Writer t (lock_index slot) (s\<lparr>shared := appended (shared s) slot key val\<rparr>)))"
    (is "rt_inv ?s")
proof -
  have in_s: "in_slot (at s t) = Some slot" using t(1) by simp
  have w: "pcs (rlocks s (lock_index slot)) t = Holding Writer" using in_slot_holds [OF inv in_s] t(2) by simp
  have r: "0 \<le> slot" "nat slot < length (store (shared s))" using in_slot_range [OF inv in_s] in_slot_store(1) [OF inv in_s] by auto
  have a: "ascii key" using rt_invD(6) [OF inv t(2)] by simp
  show ?thesis
  proof (rule rt_inv_thread [OF inv, where t = t and p = "Leave slot (Ret 0) i"])
    show "pc_ok ?s t" using pc_okD(2) [OF rt_invD(5) [OF inv, of t]] t r(1) by (auto simp: pc_ok_def)
    show "lock_ok (rlocks ?s k)" for k
      using rt_invD(2) [OF inv] lock_ok_unlock [OF rt_invD(2) [OF inv] w] by simp
    have "node_ok \<lparr>nd_hash = hashcode key, nd_key = key, nd_val = val\<rparr>" using a by (simp add: node_ok_def)
    then have nodes: "node_ok x" if "x \<in> set (concat (store (appended (shared s) slot key val)))" for x
      using that set_concat_update [of "store (shared s)" "nat slot"] rt_invD(4) [OF inv] r(2)
      unfolding appended_def store_ok_def by (fastforce dest!: subsetD)
    have "\<not> swapping (at s u)" for u using moving_alone [OF inv in_s, of u] not_moving_swapping by blast
    then show "store_ok ?s" using rt_invD(4) [OF inv] nodes by (auto simp: store_ok_def appended_def)
    show "data_ok (shared ?s) (hd (pending s u)) (at s u)" if u: "u \<noteq> t" for u
    proof -
      have same: "store (appended (shared s) slot key val) ! nat slot' = store (shared s) ! nat slot'"
        if "in_slot (at s u) = Some slot'" for slot'
      proof -
        have "slot' \<noteq> slot" using holders [OF inv w u [symmetric]] in_slot_holds [OF inv that] by auto
        then show ?thesis using in_slot_range [OF inv that] r(1) by (simp add: appended_def eq_nat_nat_iff)
      qed
      have "\<not> moving (at s u)" using moving_alone [OF inv in_s] .
      then show ?thesis
        using pc_okD(3) [OF rt_invD(5) [OF inv, of u]] same
        by (cases "at s u") (simp_all add: in_range_def appended_def)
    qed
  qed (use t in auto)
qed

lemma rt_inv_moved:
  assumes inv: "rt_inv s" and t: "at s t = Move n i ns" "\<not> int i < ht_size (shared s)"
  shows "rt_inv (goto t (Swap ns) (s\<lparr>shared := (shared s)\<lparr>ht_size := n\<rparr>\<rparr>))" (is "rt_inv ?s")
proof -
  note d = pc_okD [OF rt_invD(5) [OF inv, of t], unfolded t]
  have ns: "ht_size (shared s) \<le> n" "int (length ns) = n" "i = length (store (shared s))" "placed ns"
      "mset (concat ns) = mset (concat (store (shared s)))"
    using d(3) t(2) rt_invD(4) [OF inv] by (auto simp: store_ok_def)
  show ?thesis
  proof (rule rt_inv_thread [OF inv, where t = t and p = "Swap ns"])
    show "pc_ok ?s t" using d(1,2) ns by (auto simp: pc_ok_def)
    show "store_ok ?s" using rt_invD(4) [OF inv] ns by (auto simp: store_ok_def)
    show "data_ok (shared ?s) (hd (pending s u)) (at s u)" if u: "u \<noteq> t" for u
    proof -
      have "\<not> owns (at s u)" using one_owner [OF rt_invD(3) [OF inv], of t u] t(1) u by auto
      then show ?thesis
        using pc_okD(3) [OF rt_invD(5) [OF inv, of u]] ns(1) by (cases "at s u") (auto simp: in_range_def)
    qed
  qed (use t rt_invD(2) [OF inv] in auto)
qed

lemma rt_inv_swap:
  assumes inv: "rt_inv s" and t: "at s t = Swap ns"
  shows "rt_inv (goto t (Drop 0) (call_unlock Writer t 0 (s\<lparr>shared := (shared s)\<lparr>store := ns\<rparr>\<rparr>)))" (is "rt_inv ?s")
proof -
  note d = pc_okD [OF rt_invD(5) [OF inv, of t], unfolded t]
  have m: "moving (at s t)" using t by simp
  have w: "pcs (rlocks s 0) t = Holding Writer" using d(2) [of 0] by simp
  have set: "set (concat ns) = set (concat (store (shared s)))" using d(3) mset_eq_setD [of "concat ns"] by simp
  show ?thesis
  proof (rule rt_inv_thread [OF inv, where t = t and p = "Drop 0"])
    show "pc_ok ?s t" using d(1,2) by (auto simp: pc_ok_def)
    show "lock_ok (rlocks ?s k)" for k
      using rt_invD(2) [OF inv] lock_ok_unlock [OF rt_invD(2) [OF inv] w] by simp
    show "store_ok ?s" using rt_invD(4) [OF inv] d(3) set by (auto simp: store_ok_def)
    show "data_ok (shared ?s) (hd (pending s u)) (at s u)" if u: "u \<noteq> t" for u
    proof -
      have "\<not> owns (at s u)" using one_owner [OF rt_invD(3) [OF inv], of t u] t u by auto
      moreover have "in_slot (at s u) = None" using moving_alone [OF inv, of u _ t] m by fastforce
      ultimately show ?thesis
        using pc_okD(3) [OF rt_invD(5) [OF inv, of u]] by (cases "at s u") (auto simp: in_range_def)
    qed
  qed (use t in auto)
qed


section \<open>Every step keeps the invariant\<close>

lemma slot_range:
  assumes inv: "rt_inv s" and op: "pending s t = op # ops"
  shows "0 \<le> hashcode (op_key op) smod ht_size (shared s)" "hashcode (op_key op) smod ht_size (shared s) < ht_size (shared s)"
    "0 < ht_size (shared s)"
proof -
  have "0 < ht_size (shared s)" using rt_invD(4) [OF inv] unfolding store_ok_def by linarith
  moreover have "0 \<le> hashcode (op_key op)" using hashcode_ok(1) [OF rt_invD(6) [OF inv op]] .
  ultimately show "0 \<le> hashcode (op_key op) smod ht_size (shared s)" "hashcode (op_key op) smod ht_size (shared s) < ht_size (shared s)"
    "0 < ht_size (shared s)" by (simp_all add: smod_nonneg)
qed

text \<open>The three outcomes of a turn of the loop.\<close>

lemma walk_cases:
  obtains (next_node) "walk_next op slot chain i = Walk slot (Suc i)" "i < length chain"
      "\<not> (nd_hash (chain ! i) = hashcode (op_key op) \<and> nd_key (chain ! i) = op_key op)"
  | (found) r where "walk_next op slot chain i = Leave slot r i" "i < length chain" "nd_key (chain ! i) = op_key op"
      "r = (case op of Insert k v \<Rightarrow> Ret 1 | Lookup k \<Rightarrow> Val (nd_val (chain ! i)))"
  | (at_end) k v where "op = Insert k v" "walk_next op slot chain i = Append slot i" "\<not> i < length chain"
  | (absent) k where "op = Lookup k" "walk_next op slot chain i = Leave slot (Val Null) i" "\<not> i < length chain"
proof (cases "i < length chain")
  case True
  then show ?thesis
    using next_node found by (cases "nd_hash (chain ! i) = hashcode (op_key op) \<and> nd_key (chain ! i) = op_key op")
      (auto simp: walk_next_def Let_def)
next
  case False
  then show ?thesis using at_end absent by (cases op) (auto simp: walk_next_def)
qed

lemma rt_inv_walk:
  assumes inv: "rt_inv s" and t: "at s t = Walk slot i" "pending s t = op # ops"
  shows "rt_inv (walk_to t op (walk_next op slot (store (shared s) ! nat slot) i) s)"
proof -
  let ?c = "store (shared s) ! nat slot"
  note d = pc_okD [OF rt_invD(5) [OF inv, of t], unfolded t, simplified]
  have r: "0 \<le> slot" using d(3) by (simp add: in_range_def)
  have leave: "rt_inv (goto t (Leave slot r i) (call_unlock m t (lock_index slot) s))" if "m = op_mode op" for r m
    unfolding that using t d r by (intro rt_inv_uncall [OF inv]) (auto split: if_splits)
  have ok: "node_ok (?c ! i)" if "i < length ?c"
    using in_slot_store(1) [OF inv, of t slot] t(1) that rt_invD(4) [OF inv] unfolding store_ok_def by (simp, metis nth_mem)
  have keep: "rt_inv (goto t p s)"
    if "p = Walk slot (Suc i) \<and> i < length ?c \<and> nd_key (?c ! i) \<noteq> op_key op \<or> p = Append slot i \<and> \<not> i < length ?c \<and> op_mode op = Writer" for p
    using t d that by (intro rt_inv_keep [OF inv, of t p]) (auto simp: clear_of_def take_Suc_conv_app_nth)
  show ?thesis
  proof (rule walk_cases [where op = op and slot = slot and chain = ?c and i = i])
    assume n: "walk_next op slot ?c i = Walk slot (Suc i)" "i < length ?c"
      "\<not> (nd_hash (?c ! i) = hashcode (op_key op) \<and> nd_key (?c ! i) = op_key op)"
    then have "nd_key (?c ! i) \<noteq> op_key op" using ok by (auto simp: node_ok_def)
    then show ?thesis using n by (simp add: walk_to_def keep)
  qed (auto simp: walk_to_def intro: keep leave)
qed

lemma rt_inv_grabbed:
  assumes inv: "rt_inv s" and t: "at s t = Grab n j" "pcs (rlocks s j) t = Holding Writer"
  shows "rt_inv (if int (Suc j) < NUM_LOCKS then goto t (Grab n (Suc j)) (call_lock Writer t (Suc j) s)
      else goto t (Move n 0 (replicate (nat n) [])) s)"
proof -
  note d = pc_okD [OF rt_invD(5) [OF inv, of t], unfolded t, simplified]
  obtain op ops where op: "pending s t = op # ops" using d(1) by auto
  have e: "expects (op_mode (hd (pending s t))) (Grab n j) k (pcs (rlocks s k) t)" for k
    using pc_okD(2) [OF rt_invD(5) [OF inv, of t], of k] t by simp
  show ?thesis
  proof (cases "int (Suc j) < NUM_LOCKS")
    case True
    have "rt_inv (goto t (Grab n (Suc j)) (call_lock Writer t (Suc j) s))"
    proof (rule rt_inv_call [OF inv])
      show "expects (op_mode (hd (pending s t))) (Grab n (Suc j)) k (if k = Suc j then Calling Writer False else pcs (rlocks s k) t)" for k
        using e [of k] t(2) by (cases k j rule: linorder_cases) auto
      show "pcs (rlocks s (Suc j)) t = Idle" using e [of "Suc j"] by simp
    qed (use True d op t in auto)
    then show ?thesis using True by simp
  next
    case False
    then have j: "j = 9999" using d(3) by simp
    have "0 < ht_size (shared s)" using slot_range(3) [OF inv op] .
    then have "int (length (replicate (nat n) [])) = n" using d(3) by simp
    moreover have "rt_inv (goto t (Move n 0 (replicate (nat n) [])) s)"
    proof (rule rt_inv_keep [OF inv, of t "Move n 0 (replicate (nat n) [])"])
      show "expects (op_mode (hd (pending s t))) (Move n 0 (replicate (nat n) [])) k (pcs (rlocks s k) t)" for k
        using e [of k] t(2) j by (cases k j rule: linorder_cases) auto
    qed (use d op t placed_empty \<open>0 < ht_size (shared s)\<close> in auto)
    ultimately show ?thesis using False by simp
  qed
qed

lemma rt_inv_dropped:
  assumes inv: "rt_inv s" and t: "at s t = Drop j" "pcs (rlocks s j) t = Idle"
  shows "rt_inv (if int (Suc j) < NUM_LOCKS then goto t (Drop (Suc j)) (call_unlock Writer t (Suc j) s)
      else goto t ClearFlag (s\<lparr>gmu := None\<rparr>))"
proof -
  note d = pc_okD [OF rt_invD(5) [OF inv, of t], unfolded t, simplified]
  obtain op ops where op: "pending s t = op # ops" using d(1) by auto
  have e: "expects (op_mode (hd (pending s t))) (Drop j) k (pcs (rlocks s k) t)" for k
    using pc_okD(2) [OF rt_invD(5) [OF inv, of t], of k] t by simp
  show ?thesis
  proof (cases "int (Suc j) < NUM_LOCKS")
    case True
    have "rt_inv (goto t (Drop (Suc j)) (call_unlock Writer t (Suc j) s))"
    proof (rule rt_inv_uncall [OF inv])
      show "expects (op_mode (hd (pending s t))) (Drop (Suc j)) k (if k = Suc j then Releasing Writer else pcs (rlocks s k) t)" for k
        using e [of k] t(2) by (cases k j rule: linorder_cases) auto
      show "pcs (rlocks s (Suc j)) t = Holding Writer" using e [of "Suc j"] True by simp
    qed (use True d op t in auto)
    then show ?thesis using True by simp
  next
    case False
    then have j: "j = 9999" using d(3) by simp
    have idle: "pcs (rlocks s k) t = Idle" for k using e [of k] t(2) j by (cases k j rule: linorder_cases) auto
    have "rt_inv (goto t ClearFlag (s\<lparr>gmu := None\<rparr>))"
      using idle t op by (intro rt_inv_outside [OF inv idle, of ClearFlag]) auto
    then show ?thesis using False by simp
  qed
qed

lemma move_slot_ok:
  assumes inv: "rt_inv s" and t: "at s t = Move n i ns" "int i < ht_size (shared s)"
  shows "i < length (store (shared s))" "arr_at (store (shared s)) (int i) = Inr (store (shared s) ! i)"
    "\<exists>ns'. move_chain n (store (shared s) ! i) ns = Inr ns' \<and> placed ns' \<and> length ns' = length ns \<and>
      mset (concat ns') = mset (concat (take (Suc i) (store (shared s))))"
proof -
  note d = pc_okD [OF rt_invD(5) [OF inv, of t], unfolded t, simplified]
  have "\<not> swapping (at s u)" for u
    using one_owner [OF rt_invD(3) [OF inv], of t u] t(1) by (cases "at s u") auto
  then have size: "ht_size (shared s) = int (length (store (shared s)))" using rt_invD(4) [OF inv] by (auto simp: store_ok_def)
  then show i: "i < length (store (shared s))" using t(2) by simp
  then show "arr_at (store (shared s)) (int i) = Inr (store (shared s) ! i)" by (simp add: arr_at_def)
  have "\<forall>x \<in> set (store (shared s) ! i). node_ok x" using rt_invD(4) [OF inv] i by (auto simp: store_ok_def)
  then obtain ns' where "move_chain (int (length ns)) (store (shared s) ! i) ns = Inr ns'" "placed ns'" "length ns' = length ns"
      "mset (concat ns') = mset (concat ns) + mset (store (shared s) ! i)"
    using move_chain_ok [of "store (shared s) ! i" ns] d(3) size i by (cases ns) auto
  then show "\<exists>ns'. move_chain n (store (shared s) ! i) ns = Inr ns' \<and> placed ns' \<and> length ns' = length ns \<and>
      mset (concat ns') = mset (concat (take (Suc i) (store (shared s))))"
    using d(3) i by (auto simp: take_Suc_conv_app_nth)
qed


lemma rt_inv_work:
  assumes inv: "rt_inv s" and room: "roomy s" and "rt_work s s'"
  shows "rt_inv s'"
  using assms(3)
proof (cases rule: rt_workE)
  case (check t op ops)
  then show ?thesis
    unfolding check(1) using outside_idle_pcs [OF inv, of t]
    by (intro rt_inv_outside [OF inv, of t "if resizing s \<noteq> 0 then WantMu else Slot False"]) auto
next
  case (take_mu t)
  then obtain op ops where "pending s t = op # ops" using pc_okD(1) [OF rt_invD(5) [OF inv, of t]] by auto
  then show ?thesis
    unfolding take_mu(1) using take_mu(2,3) outside_idle_pcs [OF inv, of t] by (intro rt_inv_outside [OF inv, of t "Slot True"]) auto
next
  case (slot t g op ops)
  note r = slot_range [OF inv slot(3)]
  show ?thesis
    unfolding slot(1) using slot(2,3) r outside_idle_pcs [OF inv, of t] by (intro rt_inv_call [OF inv]) (auto simp: in_range_def)
next
  case (slot_fault t g op ops)
  then show ?thesis using slot_range [OF inv slot_fault(3)] by (simp add: smod_nonneg)
next
  case (inside k l')
  then show ?thesis
    using rt_inv_inside [OF inv lock_ok_work [OF rt_invD(2) [OF inv] inside(2)] lock_work_moves [OF inside(2)]] by simp
next
  case (locked t g slot op ops)
  note d = pc_okD [OF rt_invD(5) [OF inv, of t], unfolded locked(2), simplified]
  show ?thesis
    unfolding locked(1) using locked(2,3,4) d
    by (intro rt_inv_keep [OF inv, of t "Walk slot 0"]) (auto simp: clear_of_def split: if_splits)
next
  case (walk t slot i op ops chain)
  have "arr_at (store (shared s)) slot = Inr (store (shared s) ! nat slot)" using in_slot_store(2) [OF inv, of t slot] walk(2) by simp
  then show ?thesis using rt_inv_walk [OF inv walk(2,3)] walk(1,4) by simp
next
  case (walk_fault t slot i e)
  then show ?thesis using in_slot_store(2) [OF inv, of t slot] by simp
next
  case (append t slot i key val ops chain st)
  have a: "in_slot (at s t) = Some slot" using append(2) by simp
  have c: "chain = store (shared s) ! nat slot" using in_slot_store(2) [OF inv a] append(4) by simp
  have "i = length chain" using pc_okD(3) [OF rt_invD(5) [OF inv, of t]] append(2) c by simp
  then have "st = store (appended (shared s) slot key val)"
    using append(5) in_slot_store(1) [OF inv a] in_slot_range [OF inv a] c by (simp add: appended_def arr_set_def split: if_splits)
  then have "(shared s)\<lparr>store := st\<rparr> = appended (shared s) slot key val" by (simp add: appended_def)
  then show ?thesis using rt_inv_append [OF inv append(2,3)] append(1) by (simp add: walk_to_def)
next
  case (leave t slot r c op ops)
  have idle: "pcs (rlocks s k) t = Idle" for k
    using pc_okD(2) [OF rt_invD(5) [OF inv, of t], of k] leave(2,4) by (auto split: if_splits)
  have "rt_inv (goto t Resize s)" using leave(2,3) idle by (intro rt_inv_outside [OF inv idle, of Resize]) auto
  moreover have "rt_inv (answer t op ops r s)" using leave(2,3) idle by (intro rt_inv_outside [OF inv idle, of RReady]) auto
  ultimately show ?thesis using leave(1) by simp
next
  case (set_flag t)
  then obtain op ops where "pending s t = op # ops" using pc_okD(1) [OF rt_invD(5) [OF inv, of t]] by auto
  then show ?thesis
    unfolding set_flag(1) using set_flag(2) outside_idle_pcs [OF inv, of t] by (intro rt_inv_outside [OF inv, of t ResizeMu]) auto
next
  case (resize_mu t)
  then obtain op ops where "pending s t = op # ops" using pc_okD(1) [OF rt_invD(5) [OF inv, of t]] by auto
  then show ?thesis
    unfolding resize_mu(1) using resize_mu(2,3) outside_idle_pcs [OF inv, of t] by (intro rt_inv_outside [OF inv, of t NewSize]) auto
next
  case (new_size t)
  then obtain op ops where op: "pending s t = op # ops" using pc_okD(1) [OF rt_invD(5) [OF inv, of t]] by auto
  have p: "0 < ht_size (shared s)" using slot_range(3) [OF inv op] .
  have room: "2 * ht_size (shared s) \<le> BIG_PRIME" using room new_size(2) unfolding roomy_def by blast
  have "s32 (2 * ht_size (shared s)) = 2 * ht_size (shared s)" using room p by (intro s32_id) simp_all
  moreover have "2 * ht_size (shared s) \<le> get_prime (2 * ht_size (shared s))" using get_prime_exists(1) p room by simp
  ultimately have "ht_size (shared s) \<le> get_prime (s32 (2 * ht_size (shared s)))" using p by simp
  then show ?thesis
    unfolding new_size(1) using new_size(2) op outside_idle_pcs [OF inv, of t] by (intro rt_inv_call [OF inv]) auto
next
  case (grabbed t n j)
  then show ?thesis using rt_inv_grabbed [OF inv grabbed(2,3)] by simp
next
  case (move t n i ns cur ns')
  note m = move_slot_ok [OF inv move(2,3)]
  have ns': "placed ns'" "length ns' = length ns" "mset (concat ns') = mset (concat (take (Suc i) (store (shared s))))"
    using m(2,3) move(4,5) by auto
  note d = pc_okD [OF rt_invD(5) [OF inv, of t], unfolded move(2), simplified]
  show ?thesis
    unfolding move(1) using move(2) d ns' m(1) by (intro rt_inv_keep [OF inv, of t "Move n (Suc i) ns'"]) auto
next
  case (move_fault t n i ns e)
  then show ?thesis using move_slot_ok(2,3) [OF inv move_fault(2,3)] by auto
next
  case (moved t n i ns)
  then show ?thesis using rt_inv_moved [OF inv moved(2,3)] by simp
next
  case (swap t ns)
  then show ?thesis using rt_inv_swap [OF inv swap(2)] by simp
next
  case (dropped t j)
  then show ?thesis using rt_inv_dropped [OF inv dropped(2,3)] by simp
next
  case (clear_flag t op ops)
  then show ?thesis
    using outside_idle_pcs [OF inv, of t] by (intro rt_inv_outside [OF inv, of t RReady]) auto
qed

lemma rt_inv_idle:
  assumes inv: "rt_inv s" and "rt_idle s s'"
  shows "rt_inv s'"
  using assms(2)
proof (cases rule: rt_idleE)
  case (spurious k l')
  then show ?thesis
    using rt_inv_inside [OF inv lock_ok_spurious [OF rt_invD(2) [OF inv] spurious(2)] lock_spurious_moves [OF spurious(2)]] by simp
qed

lemma rt_inv_step: "rt_inv s \<Longrightarrow> rt_step s s' \<Longrightarrow> rt_inv s'"
  unfolding rt_step_def using rt_inv_work rt_inv_idle by blast

definition shared_table :: "hstate \<Rightarrow> (nat \<Rightarrow> htop list) \<Rightarrow> bool" where
  "shared_table h ops \<longleftrightarrow> table_ok (tbl h) \<and> (\<forall>t. \<forall>op \<in> set (ops t). ascii (op_key op))"

lemma placed_nodes: "placed st \<Longrightarrow> \<forall>x \<in> set (concat st). node_ok x"
  unfolding placed_def by (metis (no_types, lifting) UN_E in_set_conv_nth set_concat)

lemma rt_share_inv: "shared_table h ops \<Longrightarrow> rt_inv (rt_share h ops)"
  using lock_ok_init placed_nodes [of "store (tbl h)"]
  by (simp add: shared_table_def rt_share_def rt_inv_def mu_ok_def store_ok_def pc_ok_def init_sys_def table_ok_def)

lemma rt_reachable_inv:
  assumes "reachable (rt_share h ops) rt_step s" "shared_table h ops"
  shows "rt_inv s"
  using assms by (induction rule: reachable.induct) (auto simp: rt_share_inv intro: rt_inv_step)


text \<open>Two threads for the examples.\<close>

definition example_ops :: "nat \<Rightarrow> htop list" where
  "example_ops = (\<lambda>t. if t = 0 then [Insert ''ab'' (Addr 5)] else if t = 1 then [Lookup ''ab''] else [])"

lemma example_shared: "shared_table (htable_init 4 a) example_ops"
  using init_ok(1) [of 4 a] by (auto simp: example_ops_def shared_table_def hstate_ok_def ascii_def char_val_def init_4)

end
