(* ===== verification/HtResizeMap.thy ===== *)
theory HtResizeMap
  imports HtResize
begin

text \<open>
  What the operations of \<open>HtResize\<close> mean. A step is silent, or a call, the moment at which an operation takes effect, or a return.
  The locale \<open>table_view\<close> is what such an effect has to do to an abstract content of the table; it is interpreted with a
  multiset of pairs, which every run refines, and with a map, which a run refines as long as no thread walks along a chain
  that is no longer the one of its key (\<open>HtResizeTime\<close>).
\<close>

section \<open>Concurrent objects\<close>

text \<open>A content that every operation reads or changes at one moment between its call and its return; \<open>A\<close> is what an operation may do.\<close>

record 'c conc =
  contents :: 'c
  cpcs :: "nat \<Rightarrow> apc"
  ctodo :: "nat \<Rightarrow> htop list"
  cdone :: "nat \<Rightarrow> (htop \<times> res) list"

inductive conc_step :: "(htop \<Rightarrow> 'c \<Rightarrow> res \<Rightarrow> 'c \<Rightarrow> bool) \<Rightarrow> 'c conc \<Rightarrow> 'c conc \<Rightarrow> bool" for A where
  c_call: "cpcs s t = AReady \<Longrightarrow> ctodo s t \<noteq> [] \<Longrightarrow> conc_step A s (s\<lparr>cpcs := (cpcs s)(t := ACalled)\<rparr>)"
| c_apply: "cpcs s t = ACalled \<Longrightarrow> ctodo s t = op # ops \<Longrightarrow> A op (contents s) r c \<Longrightarrow>
    conc_step A s (s\<lparr>contents := c, cpcs := (cpcs s)(t := AResult r)\<rparr>)"
| c_return: "cpcs s t = AResult r \<Longrightarrow> ctodo s t = op # ops \<Longrightarrow>
    conc_step A s (s\<lparr>cpcs := (cpcs s)(t := AReady), ctodo := (ctodo s)(t := ops), cdone := (cdone s)(t := cdone s t @ [(op, r)])\<rparr>)"

text \<open>The exact table: a map.\<close>

definition map_op :: "htop \<Rightarrow> (string \<Rightarrow> ptr option) \<Rightarrow> res \<Rightarrow> (string \<Rightarrow> ptr option) \<Rightarrow> bool" where
  "map_op op m r m' \<longleftrightarrow> apply_op op m = (r, m')"

text \<open>The loose table: a multiset of pairs. An insertion that returns 0 adds its pair, one that returns 1 has met its key; a lookup
  returns a value that was inserted with its key, or misses it.\<close>

fun bag_op :: "htop \<Rightarrow> (string \<times> ptr) multiset \<Rightarrow> res \<Rightarrow> (string \<times> ptr) multiset \<Rightarrow> bool" where
  "bag_op (Insert k v) b r b' \<longleftrightarrow> r = Ret 0 \<and> b' = add_mset (k, v) b \<or> r = Ret 1 \<and> b' = b \<and> k \<in> fst ` set_mset b"
| "bag_op (Lookup k) b r b' \<longleftrightarrow> b' = b \<and> (r = Val Null \<or> (\<exists>v. r = Val v \<and> (k, v) \<in># b))"

fun res_pc :: "rpc \<Rightarrow> apc" where
  "res_pc RReady = AReady"
| "res_pc (Leave slot r c) = AResult r"
| "res_pc Resize = AResult (Ret 0)"
| "res_pc ResizeMu = AResult (Ret 0)"
| "res_pc NewSize = AResult (Ret 0)"
| "res_pc (Grab n j) = AResult (Ret 0)"
| "res_pc (Move n i ns) = AResult (Ret 0)"
| "res_pc (Swap ns) = AResult (Ret 0)"
| "res_pc (Drop j) = AResult (Ret 0)"
| "res_pc ClearFlag = AResult (Ret 0)"
| "res_pc _ = ACalled"

definition conc_of :: "(node list list \<Rightarrow> 'c) \<Rightarrow> rts \<Rightarrow> 'c conc" where
  "conc_of C s = \<lparr>contents = C (store (shared s)), cpcs = (\<lambda>t. res_pc (at s t)), ctodo = pending s, cdone = answers s\<rparr>"

section \<open>The shape of a step\<close>

text \<open>Nothing is seen: the nodes stay, in the array as it was or placed in a new one.\<close>

definition silent :: "rts \<Rightarrow> rts \<Rightarrow> bool" where
  "silent s s' \<longleftrightarrow> mset (concat (store (shared s'))) = mset (concat (store (shared s))) \<and>
     (store (shared s') = store (shared s) \<or> placed (store (shared s'))) \<and> pending s' = pending s \<and> answers s' = answers s \<and>
     (\<forall>t. res_pc (at s' t) = res_pc (at s t))"

text \<open>An operation takes effect on the chain of \<open>slot\<close>.\<close>

fun happens :: "htable \<Rightarrow> int \<Rightarrow> htop \<Rightarrow> res \<Rightarrow> node list list \<Rightarrow> bool" where
  "happens tb slot (Insert k v) r st \<longleftrightarrow>
     r = Ret 1 \<and> st = store tb \<and> (\<exists>x \<in> set (store tb ! nat slot). nd_key x = k) \<or>
     r = Ret 0 \<and> st = store (appended tb slot k v) \<and> clear_of (Insert k v) (store tb ! nat slot)"
| "happens tb slot (Lookup k) r st \<longleftrightarrow> st = store tb \<and>
     (r = Val Null \<and> clear_of (Lookup k) (store tb ! nat slot) \<or> (\<exists>x \<in> set (store tb ! nat slot). nd_key x = k \<and> r = Val (nd_val x)))"

inductive outline :: "rts \<Rightarrow> rts \<Rightarrow> bool" where
  seen_silent: "silent s s' \<Longrightarrow> outline s s'"
| seen_call: "at s t = RReady \<Longrightarrow> pending s t \<noteq> [] \<Longrightarrow> store (shared s') = store (shared s) \<Longrightarrow> pending s' = pending s \<Longrightarrow>
    answers s' = answers s \<Longrightarrow> at s' = (at s)(t := p) \<Longrightarrow> res_pc p = ACalled \<Longrightarrow> outline s s'"
| seen_effect: "in_slot (at s t) = Some slot \<Longrightarrow> pending s t = op # ops \<Longrightarrow> happens (shared s) slot op r (store (shared s')) \<Longrightarrow>
    pending s' = pending s \<Longrightarrow> answers s' = answers s \<Longrightarrow> at s' = (at s)(t := p) \<Longrightarrow> res_pc p = AResult r \<Longrightarrow> outline s s'"
| seen_return: "res_pc (at s t) = AResult r \<Longrightarrow> pending s t = op # ops \<Longrightarrow> store (shared s') = store (shared s) \<Longrightarrow>
    pending s' = (pending s)(t := ops) \<Longrightarrow> answers s' = (answers s)(t := answers s t @ [(op, r)]) \<Longrightarrow> at s' = (at s)(t := RReady) \<Longrightarrow>
    outline s s'"

inductive_cases outlineE [consumes 1, case_names silent call effect return]: "outline s s'"

lemma silent_goto: "at s' = (at s)(t := p) \<Longrightarrow> res_pc p = res_pc (at s t) \<Longrightarrow> store (shared s') = store (shared s) \<Longrightarrow>
    pending s' = pending s \<Longrightarrow> answers s' = answers s \<Longrightarrow> outline s s'"
  by (rule seen_silent) (simp add: silent_def)

lemma outline_walk:
  assumes inv: "rt_inv s" and t: "at s t = Walk slot i" "pending s t = op # ops"
  shows "outline s (walk_to t op (walk_next op slot (store (shared s) ! nat slot) i) s)"
proof (rule walk_cases [where op = op and slot = slot and chain = "store (shared s) ! nat slot" and i = i])
  assume "walk_next op slot (store (shared s) ! nat slot) i = Walk slot (Suc i)"
  then show ?thesis using t by (intro silent_goto [of _ _ t "Walk slot (Suc i)"]) simp_all
next
  fix r
  assume r: "walk_next op slot (store (shared s) ! nat slot) i = Leave slot r i" "i < length (store (shared s) ! nat slot)"
    "nd_key (store (shared s) ! nat slot ! i) = op_key op"
    "r = (case op of Insert k v \<Rightarrow> Ret 1 | Lookup k \<Rightarrow> Val (nd_val (store (shared s) ! nat slot ! i)))"
  have "happens (shared s) slot op r (store (shared s))" using r(2,3,4) by (cases op) (auto intro: bexI [OF _ nth_mem])
  then show ?thesis using t r(1) by (intro seen_effect [of s t slot op ops r _ "Leave slot r i"]) simp_all
next
  fix k v
  assume "op = Insert k v" "walk_next op slot (store (shared s) ! nat slot) i = Append slot i"
  then show ?thesis using t by (intro silent_goto [of _ _ t "Append slot i"]) simp_all
next
  fix k
  assume a: "op = Lookup k" "walk_next op slot (store (shared s) ! nat slot) i = Leave slot (Val Null) i" "\<not> i < length (store (shared s) ! nat slot)"
  have "clear_of op (store (shared s) ! nat slot)" using pc_okD(3) [OF rt_invD(5) [OF inv, of t]] t a(3) by simp
  then have "happens (shared s) slot op (Val Null) (store (shared s))" using a(1) by simp
  then show ?thesis using t a(2) by (intro seen_effect [of s t slot op ops "Val Null" _ "Leave slot (Val Null) i"]) simp_all
qed

lemma outline_work:
  assumes inv: "rt_inv s" and "rt_work s s'" "wrong s' = None"
  shows "outline s s'"
  using assms(2)
proof (cases rule: rt_workE)
  case (check t op ops)
  then show ?thesis by (intro seen_call [of s t]) auto
next
  case (inside k l')
  then show ?thesis by (intro seen_silent) (simp add: silent_def)
next
  case (walk t slot i op ops chain)
  have "arr_at (store (shared s)) slot = Inr (store (shared s) ! nat slot)" using in_slot_store(2) [OF inv, of t slot] walk(2) by simp
  then show ?thesis using outline_walk [OF inv walk(2,3)] walk(1,4) by simp
next
  case (append t slot i key val ops chain st)
  have a: "in_slot (at s t) = Some slot" using append(2) by simp
  have c: "chain = store (shared s) ! nat slot" using in_slot_store(2) [OF inv a] append(4) by simp
  have i: "i = length chain" "clear_of (Insert key val) chain" using pc_okD(3) [OF rt_invD(5) [OF inv, of t]] append(2,3) c by simp_all
  then have "st = store (appended (shared s) slot key val)"
    using append(5) in_slot_store(1) [OF inv a] in_slot_range [OF inv a] c by (simp add: appended_def arr_set_def split: if_splits)
  then show ?thesis using append(1,3) i(2) c a by (intro seen_effect [of s t slot "Insert key val" ops "Ret 0" _ "Leave slot (Ret 0) i"]) simp_all
next
  case (leave t slot r c op ops)
  show ?thesis
  proof (cases "r = Ret 0 \<and> allow_resize (shared s) \<noteq> 0 \<and> MAX_COLLISION \<le> int c")
    case True
    then show ?thesis using leave(1,2) by (intro silent_goto [of _ _ t Resize]) simp_all
  next
    case False
    then have s': "s' = answer t op ops r s" using leave(1) False by (auto split: if_splits)
    show ?thesis unfolding s' using leave(2,3) by (intro seen_return [of s t r op ops]) simp_all
  qed
next
  case (swap t ns)
  have "placed ns" "mset (concat ns) = mset (concat (store (shared s)))"
    using pc_okD(3) [OF rt_invD(5) [OF inv, of t]] swap(2) by simp_all
  then show ?thesis using swap by (intro seen_silent) (simp add: silent_def)
next
  case (clear_flag t op ops)
  then show ?thesis by (intro seen_return [of s t "Ret 0" op ops]) simp_all
qed (use assms(3) in \<open>auto intro!: silent_goto simp: fun_upd_idem\<close>)


lemma outline_step:
  assumes inv: "rt_inv s" and "rt_step s s'"
  shows "outline s s'"
proof -
  have "wrong s' = None" using rt_inv_step [OF assms] by (simp add: rt_inv_def)
  moreover have "silent s s'" if "rt_idle s s'" using that by (auto elim!: rt_idleE simp: silent_def)
  ultimately show ?thesis using outline_work [OF inv] assms(2) seen_silent unfolding rt_step_def by blast
qed

section \<open>Views of the table\<close>

text \<open>A content \<open>C\<close> of the array follows the operations \<open>A\<close> in the states with \<open>P\<close>.\<close>

locale table_view =
  fixes C :: "node list list \<Rightarrow> 'c"
    and A :: "htop \<Rightarrow> 'c \<Rightarrow> res \<Rightarrow> 'c \<Rightarrow> bool"
    and P :: "rts \<Rightarrow> bool"
  assumes same_nodes: "P s \<Longrightarrow> rt_inv s \<Longrightarrow> mset (concat st) = mset (concat (store (shared s))) \<Longrightarrow> C st = C (store (shared s))"
    and effect: "P s \<Longrightarrow> rt_inv s \<Longrightarrow> in_slot (at s t) = Some slot \<Longrightarrow> pending s t = op # ops \<Longrightarrow> happens (shared s) slot op r st \<Longrightarrow>
      A op (C (store (shared s))) r (C st)"
begin

lemma view_step:
  assumes "P s" and inv: "rt_inv s" and "rt_step s s'"
  shows "conc_of C s' = conc_of C s \<or> conc_step A (conc_of C s) (conc_of C s')"
  using outline_step [OF inv assms(3)]
proof (cases rule: outlineE)
  case silent
  then have "C (store (shared s')) = C (store (shared s))" by (intro same_nodes [OF assms(1) inv]) (simp add: silent_def)
  then show ?thesis using silent by (simp add: silent_def conc_of_def)
next
  case (call t p)
  have "conc_of C s' = (conc_of C s)\<lparr>cpcs := (cpcs (conc_of C s))(t := ACalled)\<rparr>"
    using call by (auto simp: conc_of_def fun_eq_iff)
  then show ?thesis using c_call [of "conc_of C s" t A] call(1,2) by (simp add: conc_of_def)
next
  case (effect t slot op ops r p)
  have "A op (C (store (shared s))) r (C (store (shared s')))" using table_view.effect [OF table_view_axioms assms(1) inv effect(1-3)] .
  moreover have "res_pc (at s t) = ACalled" using effect(1) by (cases "at s t") auto
  moreover have "conc_of C s' = (conc_of C s)\<lparr>contents := C (store (shared s')), cpcs := (cpcs (conc_of C s))(t := AResult r)\<rparr>"
    using effect by (auto simp: conc_of_def fun_eq_iff)
  ultimately show ?thesis using c_apply [of "conc_of C s" t op ops A r] effect(2) by (simp add: conc_of_def)
next
  case (return t r op ops)
  have "conc_of C s' = (conc_of C s)\<lparr>cpcs := (cpcs (conc_of C s))(t := AReady), ctodo := (ctodo (conc_of C s))(t := ops),
      cdone := (cdone (conc_of C s))(t := cdone (conc_of C s) t @ [(op, r)])\<rparr>"
    using return by (auto simp: conc_of_def fun_eq_iff)
  then show ?thesis using c_return [of "conc_of C s" t r op ops A] return(1,2) by (simp add: conc_of_def)
qed

end

subsection \<open>The multiset of pairs\<close>

definition pairs :: "node list list \<Rightarrow> (string \<times> ptr) multiset" where
  "pairs st = mset (entries (concat st))"

lemma pairs_same: "mset (concat st) = mset (concat st') \<Longrightarrow> pairs st = pairs st'"
  by (simp add: pairs_def entries_def)

lemma pairs_append:
  "nat slot < length (store tb) \<Longrightarrow> pairs (store (appended tb slot key val)) = add_mset (key, val) (pairs (store tb))"
  using mset_concat_insert [of "nat slot" "store tb" "store tb ! nat slot @ [\<lparr>nd_hash = hashcode key, nd_key = key, nd_val = val\<rparr>]"]
  by (simp add: pairs_def entries_def appended_def)

lemma pairs_member: "i < length st \<Longrightarrow> x \<in> set (st ! i) \<Longrightarrow> (nd_key x, nd_val x) \<in># pairs st"
  by (force simp: pairs_def entries_def)

lemma pairs_key: "i < length st \<Longrightarrow> x \<in> set (st ! i) \<Longrightarrow> nd_key x \<in> fst ` set_mset (pairs st)"
  using pairs_member by (metis fst_conv image_eqI)

interpretation bag: table_view pairs bag_op "\<lambda>_. True"
proof unfold_locales
  fix s t slot op ops r and st :: "node list list"
  assume inv: "rt_inv s" and t: "in_slot (at s t) = Some slot" and h: "happens (shared s) slot op r st"
  note slot = in_slot_store(1) [OF inv t]
  show "bag_op op (pairs (store (shared s))) r (pairs st)"
    using h pairs_append [OF slot] pairs_member [OF slot] pairs_key [OF slot] by (cases op) auto
qed (rule pairs_same)

subsection \<open>The map\<close>

text \<open>Every node is in the chain of its key and no key is there twice; and nobody walks along a chain that is not that of its key.\<close>

definition tidy :: "rts \<Rightarrow> bool" where
  "tidy s \<longleftrightarrow> placed (store (shared s)) \<and> distinct (map nd_key (concat (store (shared s))))"

definition in_time :: "rts \<Rightarrow> bool" where
  "in_time s \<longleftrightarrow> (\<forall>t slot. in_slot (at s t) = Some slot \<longrightarrow>
     slot = hashcode (op_key (hd (pending s t))) smod ht_size (shared s))"

lemma in_time_slot:
  assumes inv: "rt_inv s" and "in_time s" and t: "in_slot (at s t) = Some slot" and op: "pending s t = op # ops"
  shows "nat slot = slot_of (length (store (shared s))) (op_key op)"
proof -
  have "ht_size (shared s) = int (length (store (shared s)))"
    using moving_alone [OF inv t] settled_size [OF inv] by blast
  moreover have "slot = hashcode (op_key op) smod ht_size (shared s)" using assms(2) t op unfolding in_time_def by (metis list.sel(1))
  moreover have "0 \<le> hashcode (op_key op)" using hashcode_ok(1) [OF rt_invD(6) [OF inv op]] .
  moreover have "0 < length (store (shared s))" using rt_invD(4) [OF inv] by (simp add: store_ok_def)
  ultimately show ?thesis by (simp add: slot_of_def smod_nonneg)
qed

lemma tidy_lookup:
  assumes inv: "rt_inv s" and "tidy s" "in_time s" and t: "in_slot (at s t) = Some slot" and op: "pending s t = op # ops"
  defines "chain \<equiv> store (shared s) ! nat slot" and "m \<equiv> map_of (entries (concat (store (shared s))))"
  shows "clear_of op chain \<Longrightarrow> m (op_key op) = None" "x \<in> set chain \<Longrightarrow> nd_key x = op_key op \<Longrightarrow> m (op_key op) = Some (nd_val x)"
proof -
  note slot = in_time_slot [OF inv assms(3) t op]
  have p: "placed (store (shared s))" "distinct (map nd_key (concat (store (shared s))))" "0 < length (store (shared s))"
    using assms(2) rt_invD(4) [OF inv] by (simp_all add: tidy_def store_ok_def)
  have m: "m (op_key op) = map_of (entries chain) (op_key op)"
    unfolding m_def chain_def slot by (rule placed_chain [OF p(1,3)])
  show "m (op_key op) = None" if "clear_of op chain" using that unfolding m by (simp add: map_of_entries_None clear_of_def)
  show "m (op_key op) = Some (nd_val x)" if x: "x \<in> set chain" "nd_key x = op_key op"
  proof -
    have "x \<in> set (concat (store (shared s)))" using x(1) in_slot_store(1) [OF inv t] by (auto simp: chain_def)
    then have "(op_key op, nd_val x) \<in> set (entries (concat (store (shared s))))" using x(2) by (force simp: entries_def)
    then show ?thesis unfolding m_def using p(2) by (intro map_of_is_SomeI) simp_all
  qed
qed

text \<open>The node that is appended in time is in its place.\<close>

lemma tidy_append:
  assumes inv: "rt_inv s" and "tidy s" "in_time s" and t: "in_slot (at s t) = Some slot" and op: "pending s t = Insert key val # ops"
    and clear: "clear_of (Insert key val) (store (shared s) ! nat slot)"
  defines "st \<equiv> store (appended (shared s) slot key val)"
  shows "placed st" "distinct (map nd_key (concat st))"
    "map_of (entries (concat st)) = (map_of (entries (concat (store (shared s)))))(key \<mapsto> val)"
proof -
  let ?n = "\<lparr>nd_hash = hashcode key, nd_key = key, nd_val = val\<rparr>" and ?st = "store (shared s)"
  note slot = in_time_slot [OF inv assms(3) t op] in_slot_store(1) [OF inv t]
  have none: "map_of (entries (concat ?st)) key = None" using tidy_lookup(1) [OF inv assms(2,3) t op clear] by simp
  have n: "node_ok ?n" using rt_invD(6) [OF inv op] by (simp add: node_ok_def)
  have p: "placed ?st" "distinct (map nd_key (concat ?st))" using assms(2) by (simp_all add: tidy_def)
  show "placed st"
    unfolding st_def appended_def using placed_update [OF p(1) slot(2) _ n] slot(1) by simp
  have m: "mset (concat st) = mset (?n # concat ?st)"
    unfolding st_def appended_def using mset_concat_insert [OF slot(2), of "?st ! nat slot @ [?n]" ?n] by simp
  have d: "distinct (map nd_key (?n # concat ?st))" using p(2) none by (auto simp: map_of_entries_None)
  show "distinct (map nd_key (concat st))" using map_of_entries_mset(2) [OF m d] .
  show "map_of (entries (concat st)) = (map_of (entries (concat ?st)))(key \<mapsto> val)"
    using map_of_entries_mset(1) [OF m d] by (simp add: entries_def)
qed

lemma happens_map:
  assumes inv: "rt_inv s" and "tidy s" "in_time s" and t: "in_slot (at s t) = Some slot" and op: "pending s t = op # ops"
    and h: "happens (shared s) slot op r st"
  shows "map_op op (map_of (entries (concat (store (shared s))))) r (map_of (entries (concat st)))"
    "placed st" "distinct (map nd_key (concat st))"
proof -
  note l = tidy_lookup [OF inv assms(2,3) t op] and a = tidy_append [OF inv assms(2,3) t]
  have "map_op op (map_of (entries (concat (store (shared s))))) r (map_of (entries (concat st))) \<and> placed st \<and>
      distinct (map nd_key (concat st))"
  proof (cases op)
    case (Insert k v)
    then show ?thesis using h l a [of k v ops] op assms(2) by (auto simp: map_op_def tidy_def simp del: map_of_eq_Some_iff)
  next
    case (Lookup k)
    then show ?thesis using h l assms(2) by (auto simp: map_op_def tidy_def simp del: map_of_eq_Some_iff)
  qed
  then show "map_op op (map_of (entries (concat (store (shared s))))) r (map_of (entries (concat st)))"
    "placed st" "distinct (map nd_key (concat st))" by simp_all
qed

interpretation map: table_view "\<lambda>st. map_of (entries (concat st))" map_op "\<lambda>s. tidy s \<and> in_time s"
proof unfold_locales
  show "map_of (entries (concat st)) = map_of (entries (concat (store (shared s))))"
    if "tidy s \<and> in_time s" "mset (concat st) = mset (concat (store (shared s)))" for s and st :: "node list list"
    using map_of_entries_mset(1) [OF that(2)] that(1) by (simp add: tidy_def)
qed (use happens_map(1) in blast)

lemma tidy_step:
  assumes inv: "rt_inv s" and "tidy s" "in_time s" "rt_step s s'"
  shows "tidy s'"
  using outline_step [OF inv assms(4)]
proof (cases rule: outlineE)
  case silent
  then show ?thesis using assms(2) map_of_entries_mset(2) [of "concat (store (shared s'))" "concat (store (shared s))"]
    by (auto simp: tidy_def silent_def)
next
  case (effect t slot op ops r p)
  then show ?thesis using happens_map(2,3) [OF inv assms(2,3)] by (auto simp: tidy_def)
qed (use assms(2) in \<open>simp_all add: tidy_def\<close>)

section \<open>What the answers say\<close>

text \<open>In the loose table an answer stays true: nothing is ever taken out.\<close>

fun holds_in :: "htop \<times> res \<Rightarrow> (string \<times> ptr) multiset \<Rightarrow> bool" where
  "holds_in (Insert k v, r) b \<longleftrightarrow> r = Ret 0 \<and> (k, v) \<in># b \<or> r = Ret 1 \<and> k \<in> fst ` set_mset b"
| "holds_in (Lookup k, r) b \<longleftrightarrow> (\<exists>v. r = Val v \<and> (v = Null \<or> (k, v) \<in># b))"

definition answers_hold :: "(string \<times> ptr) multiset conc \<Rightarrow> bool" where
  "answers_hold c \<longleftrightarrow> (\<forall>t. (\<forall>a \<in> set (cdone c t). holds_in a (contents c)) \<and>
     (\<forall>r op ops. cpcs c t = AResult r \<longrightarrow> ctodo c t = op # ops \<longrightarrow> holds_in (op, r) (contents c)))"

lemma holds_mono: "holds_in a b \<Longrightarrow> b \<subseteq># b' \<Longrightarrow> holds_in a b'"
  by (cases "(a, b)" rule: holds_in.cases) (auto dest: mset_subset_eqD)

lemma bag_op_holds: "bag_op op b r b' \<Longrightarrow> b \<subseteq># b' \<and> holds_in (op, r) b'"
  by (cases op) auto

lemma answers_hold_step: "answers_hold c \<Longrightarrow> conc_step bag_op c c' \<Longrightarrow> answers_hold c'"
proof (erule conc_step.cases, goal_cases)
  case (2 s t op ops r b)
  have "holds_in a b" if "holds_in a (contents s)" for a using holds_mono [OF that] bag_op_holds [OF 2(6)] by blast
  then show ?case using 2(1-5) bag_op_holds [OF 2(6)] by (auto simp: answers_hold_def)
qed (auto simp: answers_hold_def)

lemma bag_reachable:
  assumes "reachable (rt_share h ops) rt_step s" "shared_table h ops"
  shows "reachable (conc_of pairs (rt_share h ops)) (conc_step bag_op) (conc_of pairs s)"
  using assms
proof (induction rule: reachable.induct)
  case (reach_step s s')
  then show ?case using bag.view_step [OF TrueI rt_reachable_inv] by (metis reachable.reach_step)
qed (rule reachable.reach_start)

lemma answers_hold_run: "reachable c0 (conc_step bag_op) c \<Longrightarrow> answers_hold c0 \<Longrightarrow> answers_hold c"
  by (induction rule: reachable.induct) (auto intro: answers_hold_step)

lemma answers_hold_reachable:
  assumes "reachable (rt_share h ops) rt_step s" "shared_table h ops"
  shows "answers_hold (conc_of pairs s)"
  by (rule answers_hold_run [OF bag_reachable [OF assms]]) (simp add: answers_hold_def conc_of_def rt_share_def)

section \<open>The property\<close>

text \<open>C10: several threads on a table that may be resized, in every interleaving: no step leaves defined behaviour until
  a table of more than half of \<open>BIG_PRIME\<close> slots is resized, and every step is invisible or one step of a loose table, a multiset of
  pairs to which an insertion that returns 0 adds its pair. So a resize loses no node, whoever inserts meanwhile: every pair whose insertion was answered with 0
  is in the table, and every value that a lookup found was inserted with its key. What the loose table leaves open is
  that a lookup can miss a key.\<close>

theorem rt_step_refines:
  assumes "reachable (rt_share h ops) rt_step s" "shared_table h ops" "rt_step s s'"
  shows "wrong s' = None \<and> (conc_of pairs s' = conc_of pairs s \<or> conc_step bag_op (conc_of pairs s) (conc_of pairs s')) \<and>
    (\<forall>t k v. (Insert k v, Ret 0) \<in> set (answers s' t) \<longrightarrow> (k, v) \<in># pairs (store (shared s'))) \<and>
    (\<forall>t k v. (Lookup k, Val v) \<in> set (answers s' t) \<longrightarrow> v = Null \<or> (k, v) \<in># pairs (store (shared s')))"
proof -
  have r: "reachable (rt_share h ops) rt_step s'" using assms(1,3) by (rule reachable.reach_step)
  have inv: "rt_inv s" "rt_inv s'" using rt_reachable_inv assms r by blast+
  have "\<forall>t. \<forall>a \<in> set (answers s' t). holds_in a (pairs (store (shared s')))"
    using answers_hold_reachable [OF r assms(2)] by (simp add: answers_hold_def conc_of_def)
  then show ?thesis using bag.view_step [OF TrueI inv(1) assms(3)] rt_invD(1) [OF inv(2)] by fastforce
qed

lemma example_first_step:
  "rt_step (rt_share (htable_init 4 1) example_ops)
     (goto 0 (Slot False) (rt_share (htable_init 4 1) example_ops))"
  using rt_work.check [of "rt_share (htable_init 4 1) example_ops" 0]
  by (simp add: rt_step_def roomy_def rt_share_def init_4 example_ops_def)

theorem rt_step_refines_witness:
  "wrong (goto 0 (Slot False) (rt_share (htable_init 4 1)
     example_ops)) = None"
  using rt_step_refines [OF reach_start example_shared example_first_step] by blast

end
