(* ===== verification/HtResizeTime.thy ===== *)
theory HtResizeTime
  imports HtResizeMap
begin

text \<open>
  When the table of \<open>HtResize\<close> is an exact map: as long as no thread uses a slot that it computed before a resize. A thread falls
  behind only when the size changes while it is on its way to its chain; so never on a table that may not be resized, and
  never when it is the only thread.
\<close>

section \<open>Threads that are in time\<close>

text \<open>The steps as long as every thread walks along the chain of its key.\<close>

definition timely_step :: "rts \<Rightarrow> rts \<Rightarrow> bool" where
  "timely_step s s' \<longleftrightarrow> rt_step s s' \<and> in_time s"

definition map_view :: "rts \<Rightarrow> (string \<Rightarrow> ptr option) conc" where
  "map_view = conc_of (\<lambda>st. map_of (entries (concat st)))"

lemma timely_reachable:
  assumes "reachable (rt_share h ops) timely_step s" "shared_table h ops"
  shows "rt_inv s \<and> tidy s \<and> reachable (map_view (rt_share h ops)) (conc_step map_op) (map_view s)"
  using assms
proof (induction rule: reachable.induct)
  case reach_start
  then show ?case using rt_share_inv by (auto simp: tidy_def shared_table_def table_ok_def rt_share_def intro: reachable.intros)
next
  case (reach_step s s')
  have s: "rt_inv s" "tidy s" "reachable (map_view (rt_share h ops)) (conc_step map_op) (map_view s)"
    using reach_step.IH [OF reach_step.prems] by simp_all
  have st: "rt_step s s'" "in_time s" using reach_step.hyps(2) by (simp_all add: timely_step_def)
  have "map_view s' = map_view s \<or> conc_step map_op (map_view s) (map_view s')"
    unfolding map_view_def using map.view_step [OF _ s(1) st(1)] s(2) st(2) by blast
  then have "reachable (map_view (rt_share h ops)) (conc_step map_op) (map_view s')"
    using s(3) by (auto intro: reachable.reach_step)
  then show ?case using rt_inv_step [OF s(1) st(1)] tidy_step [OF s(1,2) st(2,1)] by blast
qed


text \<open>The slot that a thread has computed is still that of its key.\<close>

fun slot_in_use :: "rpc \<Rightarrow> int option" where
  "slot_in_use (Lock g slot) = Some slot"
| "slot_in_use (Walk slot i) = Some slot"
| "slot_in_use (Append slot i) = Some slot"
| "slot_in_use p = None"

definition up_to_date :: "rts \<Rightarrow> bool" where
  "up_to_date s \<longleftrightarrow> (\<forall>t slot. slot_in_use (at s t) = Some slot \<longrightarrow>
     slot = hashcode (op_key (hd (pending s t))) smod ht_size (shared s))"

lemma up_to_date_in_time: "up_to_date s \<Longrightarrow> in_time s"
proof -
  have "slot_in_use p = Some slot" if "in_slot p = Some slot" for p slot using that by (cases p) auto
  then show "up_to_date s \<Longrightarrow> in_time s" unfolding up_to_date_def in_time_def by blast
qed

lemma slot_in_use_walk: "slot_in_use (walk_next op slot chain i) = Some slot' \<Longrightarrow> slot' = slot"
  by (rule walk_cases [where op = op and slot = slot and chain = chain and i = i]) auto

lemma up_to_date_goto:
  assumes "up_to_date s" "at s' = (at s)(t := p)" "ht_size (shared s') = ht_size (shared s)" "\<And>u. u \<noteq> t \<Longrightarrow> pending s' u = pending s u"
    "\<And>slot. slot_in_use p = Some slot \<Longrightarrow> slot = hashcode (op_key (hd (pending s' t))) smod ht_size (shared s)"
  shows "up_to_date s'"
  using assms by (simp add: up_to_date_def)

lemma up_to_date_step:
  assumes inv: "rt_inv s" and date: "up_to_date s" and "rt_step s s'" and size: "ht_size (shared s') = ht_size (shared s)"
  shows "up_to_date s'"
proof -
  have w: "slot_in_use (at s t) = Some slot \<Longrightarrow> slot = hashcode (op_key (hd (pending s t))) smod ht_size (shared s)" for t slot
    using date by (simp add: up_to_date_def)
  have ok: "wrong s' = None" using rt_inv_step [OF inv assms(3)] by (simp add: rt_inv_def)
  consider "rt_work s s'" | "rt_idle s s'" using assms(3) by (auto simp: rt_step_def)
  then show ?thesis
  proof cases
    case 1
    then show ?thesis
    proof (cases rule: rt_workE)
      case (slot t g op ops)
      then show ?thesis
        by (intro up_to_date_goto [OF date, of _ t "Lock g (hashcode (op_key op) smod ht_size (shared s))"]) simp_all
    next
      case (locked t g slot op ops)
      then show ?thesis using w [of t slot] by (intro up_to_date_goto [OF date, of _ t "Walk slot 0"]) auto
    next
      case (walk t slot i op ops chain)
      then show ?thesis
        using w [of t slot] slot_in_use_walk [of op slot chain i]
        by (intro up_to_date_goto [OF date, of _ t "walk_next op slot chain i"]) auto
    qed (use ok size date in \<open>auto simp: up_to_date_def\<close>)
  next
    case 2
    then show ?thesis using date by (auto elim!: rt_idleE simp: up_to_date_def)
  qed
qed

section \<open>Tables that may not be resized\<close>

fun in_resize :: "rpc \<Rightarrow> bool" where
  "in_resize RReady = False"
| "in_resize WantMu = False"
| "in_resize (Slot g) = False"
| "in_resize (Lock g slot) = False"
| "in_resize (Walk slot i) = False"
| "in_resize (Append slot i) = False"
| "in_resize (Leave slot r c) = False"
| "in_resize _ = True"

definition fixed_size :: "rts \<Rightarrow> bool" where
  "fixed_size s \<longleftrightarrow> allow_resize (shared s) = 0 \<and> (\<forall>t. \<not> in_resize (at s t)) \<and> up_to_date s"

lemma walk_next_resize: "\<not> in_resize (walk_next op slot chain i)"
  by (rule walk_cases [where op = op and slot = slot and chain = chain and i = i]) auto

lemma fixed_size_step:
  assumes inv: "rt_inv s" and fixed: "fixed_size s" and "rt_step s s'"
  shows "fixed_size s'"
proof -
  have r: "\<not> in_resize (at s t)" for t using fixed by (simp add: fixed_size_def)
  have zero: "allow_resize (shared s) = 0" using fixed by (simp add: fixed_size_def)
  have "(\<forall>t. \<not> in_resize (at s' t)) \<and> allow_resize (shared s') = 0 \<and> ht_size (shared s') = ht_size (shared s)"
  proof -
    consider "rt_work s s'" | "rt_idle s s'" using assms(3) by (auto simp: rt_step_def)
    then show ?thesis
    proof cases
      case 1
      then show ?thesis
      proof (cases rule: rt_workE)
        case (move t n i ns cur ns')
        then show ?thesis using r [of t] by simp
      next
        case (moved t n i ns)
        then show ?thesis using r [of t] by simp
      next
        case (swap t ns)
        then show ?thesis using r [of t] by simp
      next
        case (dropped t j)
        then show ?thesis using r [of t] by simp
      next
        case (grabbed t n j)
        then show ?thesis using r [of t] by simp
      next
        case (set_flag t)
        then show ?thesis using r [of t] by simp
      next
        case (resize_mu t)
        then show ?thesis using r [of t] by simp
      next
        case (new_size t)
        then show ?thesis using r [of t] by simp
      qed (use r zero in \<open>auto simp: walk_next_resize\<close>)
    next
      case 2
      then show ?thesis using r zero by (auto elim!: rt_idleE)
    qed
  qed
  then show ?thesis using up_to_date_step [OF inv _ assms(3)] fixed by (simp add: fixed_size_def)
qed

section \<open>One thread\<close>

definition solo :: "nat \<Rightarrow> rts \<Rightarrow> bool" where
  "solo t s \<longleftrightarrow> (\<forall>u. u \<noteq> t \<longrightarrow> pending s u = []) \<and> up_to_date s"

lemma solo_step:
  assumes inv: "rt_inv s" and solo: "solo t s" and "rt_step s s'"
  shows "solo t s'"
proof -
  have o: "u = t" if "at s u \<noteq> RReady" for u
    using pc_okD(1) [OF rt_invD(5) [OF inv] that] solo unfolding solo_def by fastforce
  have p: "\<forall>u. u \<noteq> t \<longrightarrow> pending s' u = []"
    using assms(3) solo o by (auto simp: rt_step_def solo_def elim!: rt_workE rt_idleE)
  have "up_to_date s'"
  proof (cases "ht_size (shared s') = ht_size (shared s)")
    case True
    then show ?thesis using up_to_date_step [OF inv _ assms(3)] solo by (simp add: solo_def)
  next
    case False
    then obtain u n i ns where u: "at s u = Move n i ns" "s' = goto u (Swap ns) (s\<lparr>shared := (shared s)\<lparr>ht_size := n\<rparr>\<rparr>)"
      using assms(3) by (auto simp: rt_step_def elim!: rt_workE rt_idleE split: if_splits)
    then have "at s v = RReady" if "v \<noteq> u" for v using o [of u] o [of v] that by force
    then show ?thesis using u by (auto simp: up_to_date_def)
  qed
  then show ?thesis using p by (simp add: solo_def)
qed

section \<open>The property\<close>

definition never_behind :: "hstate \<Rightarrow> (nat \<Rightarrow> htop list) \<Rightarrow> bool" where
  "never_behind h ops \<longleftrightarrow> allow_resize (tbl h) = 0 \<or> (\<exists>t. \<forall>u. u \<noteq> t \<longrightarrow> ops u = [])"

lemma never_behind_run:
  assumes "reachable (rt_share h ops) rt_step s" "shared_table h ops" "never_behind h ops"
  shows "in_time s"
proof -
  have start: "up_to_date (rt_share h ops)" by (simp add: up_to_date_def rt_share_def)
  show ?thesis
    using assms(3) unfolding never_behind_def
  proof
    assume z: "allow_resize (tbl h) = 0"
    have "fixed_size s"
      using assms(1)
    proof (induction rule: reachable.induct)
      case reach_start
      then show ?case using z start by (simp add: fixed_size_def) (simp add: rt_share_def)
    next
      case (reach_step s s')
      then show ?case using fixed_size_step rt_reachable_inv assms(2) by blast
    qed
    then show ?thesis using up_to_date_in_time by (simp add: fixed_size_def)
  next
    assume "\<exists>t. \<forall>u. u \<noteq> t \<longrightarrow> ops u = []"
    then obtain t where t: "\<forall>u. u \<noteq> t \<longrightarrow> ops u = []" by blast
    have "solo t s"
      using assms(1)
    proof (induction rule: reachable.induct)
      case reach_start
      then show ?case using t start by (simp add: solo_def) (simp add: rt_share_def)
    next
      case (reach_step s s')
      then show ?case using solo_step rt_reachable_inv assms(2) by blast
    qed
    then show ?thesis using up_to_date_in_time by (simp add: solo_def)
  qed
qed

lemma timely_run: "reachable s0 timely_step s \<Longrightarrow> reachable s0 rt_step s"
  by (induction rule: reachable.induct) (auto simp: timely_step_def intro: reachable.intros)

lemma never_behind_timely:
  assumes "reachable (rt_share h ops) rt_step s" "shared_table h ops" "never_behind h ops"
  shows "reachable (rt_share h ops) timely_step s"
  using assms
proof (induction rule: reachable.induct)
  case (reach_step s s')
  then show ?case using never_behind_run by (auto simp: timely_step_def intro: reachable.reach_step)
qed (rule reachable.reach_start)

text \<open>C11: and what goes wrong goes wrong only there: as long as every thread walks along the chain that its key has now, the
  table with its resizes is an exact atomic map, every node is in its place and no key is there twice. A table that may not be
  resized is always such, and so is one that a single thread uses.\<close>

theorem rt_timely_exact:
  assumes "reachable (rt_share h ops) timely_step s" "shared_table h ops"
  shows "(timely_step s s' \<longrightarrow> map_view s' = map_view s \<or> conc_step map_op (map_view s) (map_view s')) \<and> tidy s \<and>
    (never_behind h ops \<longrightarrow> rt_step s s' \<longrightarrow> timely_step s s')"
proof -
  note r = timely_reachable [OF assms]
  have "never_behind h ops \<Longrightarrow> in_time s" using never_behind_run timely_run [OF assms(1)] assms(2) by blast
  then show ?thesis using map.view_step [of s s'] r by (auto simp: map_view_def timely_step_def)
qed

theorem rt_timely_exact_witness: "tidy (rt_share (htable_init 4 1) example_ops)"
  using rt_timely_exact [OF reach_start example_shared] by blast

end
