(* ===== verification/HtResizeLive.thy ===== *)
theory HtResizeLive
  imports HtResize
begin

text \<open>
  The threads of \<open>HtResize\<close> do not get stuck and their work ends. A thread that waits for the mutex waits for its owner; a thread that
  waits for a slot lock waits for its holder, which either goes on or is a resize that waits for a later lock, and the holder
  of that one goes on. Every step of work goes down in a well-founded order: operations, then the stages of the threads, then
  nodes and slots to pass and the work inside the locks.
\<close>

section \<open>Progress\<close>

text \<open>A point at which a thread can go on by itself.\<close>

definition waits :: "rts \<Rightarrow> nat \<Rightarrow> bool" where
  "waits s t \<longleftrightarrow> (case at s t of
     RReady \<Rightarrow> pending s t = []
   | WantMu \<Rightarrow> True
   | ResizeMu \<Rightarrow> True
   | Lock g slot \<Rightarrow> pcs (rlocks s (lock_index slot)) t \<noteq> Holding (op_mode (hd (pending s t)))
   | Grab n j \<Rightarrow> pcs (rlocks s j) t \<noteq> Holding Writer
   | Leave slot r c \<Rightarrow> pcs (rlocks s (lock_index slot)) t \<noteq> Idle
   | Drop j \<Rightarrow> pcs (rlocks s j) t \<noteq> Idle
   | _ \<Rightarrow> False)"

lemma goes_on:
  assumes inv: "rt_inv s" and w: "\<not> waits s t"
  shows "\<exists>s'. rt_work s s'"
proof (cases "at s t = RReady")
  case True
  then obtain op ops where "pending s t = op # ops" using w by (cases "pending s t") (auto simp: waits_def)
  then show ?thesis using rt_work.check [OF True] by blast
next
  case n: False
  obtain op ops where op: "pending s t = op # ops" using pc_okD(1) [OF rt_invD(5) [OF inv] n] by blast
  show ?thesis
  proof (cases "at s t")
    case (Slot g)
    show ?thesis using rt_work.slot [OF Slot op _ refl] slot_range [OF inv op] by (fastforce simp: smod_nonneg)
  next
    case (Lock g slot)
    then show ?thesis using rt_work.locked [OF Lock op] w op by (auto simp: waits_def)
  next
    case (Walk slot i)
    then show ?thesis using rt_work.walk [OF Walk op] in_slot_store(2) [OF inv, of t slot] by auto
  next
    case (Append slot i)
    then have "op_mode op = Writer" using pc_okD(3) [OF rt_invD(5) [OF inv, of t]] op by simp
    then obtain key val where o: "op = Insert key val" by (cases op) auto
    have a: "in_slot (at s t) = Some slot" using Append by simp
    obtain st where "arr_set (store (shared s)) slot (take i (store (shared s) ! nat slot) @ [\<lparr>nd_hash = hashcode key, nd_key = key, nd_val = val\<rparr>]) = Inr st"
      using in_slot_store(1) [OF inv a] in_slot_range [OF inv a] by (auto simp: arr_set_def nat_less_iff)
    then show ?thesis using rt_work.append [OF Append] op o in_slot_store(2) [OF inv a] by blast
  next
    case (Leave slot r c)
    then show ?thesis using rt_work.leave [OF Leave op] w by (auto simp: waits_def)
  next
    case Resize
    then show ?thesis using rt_work.set_flag by blast
  next
    case NewSize
    then show ?thesis using rt_work.new_size by blast
  next
    case (Grab n j)
    then show ?thesis using rt_work.grabbed [OF Grab] w by (auto simp: waits_def)
  next
    case (Move n i ns)
    show ?thesis
    proof (cases "int i < ht_size (shared s)")
      case True
      then show ?thesis using rt_work.move [OF Move True] move_slot_ok [OF inv Move True] by blast
    next
      case False
      then show ?thesis using rt_work.moved [OF Move] by blast
    qed
  next
    case (Swap ns)
    then show ?thesis using rt_work.swap by blast
  next
    case (Drop j)
    then show ?thesis using rt_work.dropped [OF Drop] w by (auto simp: waits_def)
  next
    case ClearFlag
    then show ?thesis using rt_work.clear_flag [OF ClearFlag op] by blast
  qed (use n w in \<open>auto simp: waits_def\<close>)
qed

text \<open>When no thread is at work inside a slot lock.\<close>

definition quiet :: "rts \<Rightarrow> bool" where
  "quiet s \<longleftrightarrow> (\<forall>k u. \<not> active (pcs (rlocks s k) u))"

lemma quiet_call:
  assumes inv: "rt_inv s" and q: "quiet s" and e: "entering m (pcs (rlocks s k) t)" and n: "pcs (rlocks s k) t \<noteq> Holding m"
  shows "\<exists>u m'. pcs (rlocks s k) u = Holding m'"
proof -
  have "pcs (rlocks s k) t = Waiting m False"
    using entering_cases [OF rt_invD(2) [OF inv] e] q n by (auto simp: quiet_def)
  then show ?thesis using waiting_holder [OF rt_invD(2) [OF inv]] q by (auto simp: quiet_def)
qed

text \<open>What a thread that cannot go on waits for.\<close>

lemma waits_for:
  assumes inv: "rt_inv s" and q: "quiet s" and w: "waits s t"
  shows "at s t = RReady \<and> pending s t = [] \<or> at s t = WantMu \<or> at s t = ResizeMu \<or>
    (\<exists>g slot u m. at s t = Lock g slot \<and> pcs (rlocks s (lock_index slot)) u = Holding m) \<or>
    (\<exists>n j u m. at s t = Grab n j \<and> pcs (rlocks s j) t \<noteq> Holding Writer \<and> pcs (rlocks s j) u = Holding m)"
proof -
  have e: "expects (op_mode (hd (pending s t))) (at s t) k (pcs (rlocks s k) t)" for k using pc_okD(2) [OF rt_invD(5) [OF inv]] .
  have idle: "pcs (rlocks s k) t \<noteq> Releasing m" for k m using q by (metis active.simps quiet_def)
  show ?thesis
  proof (cases "at s t")
    case (Lock g slot)
    then have "\<exists>u m. pcs (rlocks s (lock_index slot)) u = Holding m"
      using quiet_call [OF inv q, of _ "lock_index slot" t] e [of "lock_index slot"] w by (auto simp: waits_def)
    then show ?thesis using Lock by blast
  next
    case (Grab n j)
    then have "\<exists>u m. pcs (rlocks s j) u = Holding m"
      using quiet_call [OF inv q, of Writer j t] e [of j] w by (auto simp: waits_def)
    then show ?thesis using Grab w by (auto simp: waits_def)
  next
    case (Leave slot r c)
    then show ?thesis using e [of "lock_index slot"] idle w by (auto simp: waits_def)
  next
    case (Drop j)
    then show ?thesis using e [of j] idle w by (auto simp: waits_def)
  qed (use w in \<open>auto simp: waits_def\<close>)
qed

lemma holder_point:
  assumes inv: "rt_inv s" and h: "pcs (rlocks s k) u = Holding m" and w: "waits s u" and q: "quiet s"
  shows "\<exists>n j. at s u = Grab n j"
proof -
  have e: "expects (op_mode (hd (pending s u))) (at s u) k (Holding m)" using pc_okD(2) [OF rt_invD(5) [OF inv], of u k] h by simp
  show ?thesis using waits_for [OF inv q w] e w h by (cases "at s u") (auto simp: waits_def split: if_splits)
qed

lemma rt_not_stuck:
  assumes inv: "rt_inv s" and t: "pending s t \<noteq> []"
  shows "\<exists>s'. rt_work s s'"
proof (rule ccontr)
  assume stuck: "\<nexists>s'. rt_work s s'"
  have q: "quiet s"
    using stuck active_work [OF rt_invD(2) [OF inv]] rt_work.inside unfolding quiet_def by meson
  have w: "waits s u" for u using stuck goes_on [OF inv] by blast
  have no_grab: False if g: "at s u = Grab n j" for u n j
  proof -
    obtain v m where v: "pcs (rlocks s j) v = Holding m" "pcs (rlocks s j) u \<noteq> Holding Writer"
      using waits_for [OF inv q w [of u]] g by auto
    obtain n' j' where g': "at s v = Grab n' j'" using holder_point [OF inv v(1) w q] by blast
    then have "v = u" using one_owner [OF rt_invD(3) [OF inv], of v u] g by simp
    then show False using pc_okD(2) [OF rt_invD(5) [OF inv], of u j] g v by simp
  qed
  have no_holder: "pcs (rlocks s k) u \<noteq> Holding m" for k u m using holder_point [OF inv _ w q] no_grab by blast
  have at: "at s u = RReady \<and> pending s u = [] \<or> at s u = WantMu \<or> at s u = ResizeMu" for u
    using waits_for [OF inv q w [of u]] no_grab no_holder by blast
  have "\<not> owns (at s u)" for u using at [of u] by auto
  then have mu: "gmu s = None" using rt_invD(3) [OF inv] unfolding mu_ok_def by (metis not_None_eq)
  show False using at [of t] t rt_work.take_mu [OF _ mu] rt_work.resize_mu [OF _ mu] stuck by blast
qed


section \<open>The threads finish\<close>

fun rpc_rank :: "rpc \<Rightarrow> nat" where
  "rpc_rank RReady = 40000"
| "rpc_rank WantMu = 39999"
| "rpc_rank (Slot g) = 39998"
| "rpc_rank (Lock g slot) = 39997"
| "rpc_rank (Walk slot i) = 39996"
| "rpc_rank (Append slot i) = 39995"
| "rpc_rank (Leave slot r c) = 39994"
| "rpc_rank Resize = 39993"
| "rpc_rank ResizeMu = 39992"
| "rpc_rank NewSize = 39991"
| "rpc_rank (Grab n j) = 29990 - j"
| "rpc_rank (Move n i ns) = 19000"
| "rpc_rank (Swap ns) = 18999"
| "rpc_rank (Drop j) = 18000 - j"
| "rpc_rank ClearFlag = 1"

definition rt_ops_left :: "nat \<Rightarrow> rts \<Rightarrow> nat" where
  "rt_ops_left n s = (\<Sum>t<n. length (pending s t))"

definition rt_stages_left :: "nat \<Rightarrow> rts \<Rightarrow> nat" where
  "rt_stages_left n s = (\<Sum>t<n. rpc_rank (at s t))"

definition places_left :: "rts \<Rightarrow> nat \<Rightarrow> nat" where
  "places_left s t = (case at s t of
     Walk slot i \<Rightarrow> length (store (shared s) ! nat slot) - i | Move n i ns \<Rightarrow> nat (ht_size (shared s)) - i | _ \<Rightarrow> 0)"

definition rt_moves_left :: "nat \<Rightarrow> rts \<Rightarrow> nat" where
  "rt_moves_left n s = (\<Sum>t<n. places_left s t) + (\<Sum>k<10000. lock_rank n (pcs (rlocks s k)))"

definition rt_order :: "nat \<Rightarrow> (rts \<times> rts) set" where
  "rt_order n = measures [rt_ops_left n, rt_stages_left n, rt_moves_left n]"

lemma wf_rt_order: "wf (rt_order n)"
  by (simp add: rt_order_def)

definition rt_few :: "nat \<Rightarrow> rts \<Rightarrow> bool" where
  "rt_few n s \<longleftrightarrow> (\<forall>t\<ge>n. pending s t = [])"

lemma rt_few_less:
  assumes "rt_inv s" "rt_few n s" "at s t \<noteq> RReady"
  shows "t < n"
  using pc_okD(1) [OF rt_invD(5) [OF assms(1)] assms(3)] assms(2) unfolding rt_few_def by (metis list.distinct(1) not_le_imp_less)

lemma rt_outside_idle:
  assumes "rt_inv s" "rt_few n s" "n \<le> t"
  shows "pcs (rlocks s k) t = Idle"
proof -
  have "at s t = RReady" using rt_few_less [OF assms(1,2), of t] assms(3) by auto
  then show ?thesis using outside_idle_pcs [OF assms(1), of t] by simp
qed

lemma rt_lock_used:
  assumes inv: "rt_inv s" and "lock_work (rlocks s k) l'"
  shows "k < 10000"
proof (rule ccontr)
  assume k: "\<not> k < 10000"
  obtain t where t: "pcs (rlocks s k) t \<noteq> Idle" using lock_work_somebody [OF assms(2)] by blast
  have e: "expects (op_mode (hd (pending s t))) (at s t) k (pcs (rlocks s k) t)" using pc_okD(2) [OF rt_invD(5) [OF inv]] .
  have d: "data_ok (shared s) (hd (pending s t)) (at s t)" using pc_okD(3) [OF rt_invD(5) [OF inv]] .
  have "lock_index slot \<noteq> k" if "0 \<le> slot" for slot using lock_index_less [OF that] k by auto
  then show False using e d t k by (cases "at s t") (auto simp: in_range_def split: if_splits)
qed

text \<open>A thread reaches a later stage of its operation, or its operation ends.\<close>

lemma stage_order:
  assumes "t < n" "pending s' = pending s" "at s' = (at s)(t := p)" "rpc_rank p < rpc_rank (at s t)"
  shows "(s', s) \<in> rt_order n"
proof -
  have "rt_stages_left n s' < rt_stages_left n s"
    unfolding rt_stages_left_def using assms by (intro sum_less [of t]) auto
  then show ?thesis using assms(2) by (simp add: rt_order_def rt_ops_left_def)
qed

lemma goto_order:
  assumes "at s t = q" "t < n" "pending s1 = pending s" "at s1 = at s" "rpc_rank p < rpc_rank q"
  shows "(goto t p s1, s) \<in> rt_order n"
  using assms by (intro stage_order [of t n _ s p]) simp_all

lemma answer_order:
  assumes "t < n" "pending s t = op # ops" "pending s' = (pending s)(t := ops)"
  shows "(s', s) \<in> rt_order n"
proof -
  have "rt_ops_left n s' < rt_ops_left n s"
    unfolding rt_ops_left_def using assms by (intro sum_less [of t]) auto
  then show ?thesis by (simp add: rt_order_def)
qed

lemma place_order:
  assumes "t < n" "pending s' = pending s" "shared s' = shared s" "rlocks s' = rlocks s" "at s' = (at s)(t := p)"
    "rpc_rank p = rpc_rank (at s t)" "places_left s' t < places_left s t"
  shows "(s', s) \<in> rt_order n"
proof -
  have "rt_stages_left n s' = rt_stages_left n s" unfolding rt_stages_left_def by (intro sum_same) (simp add: assms(5,6))
  moreover have "sum (places_left s') {..<n} < sum (places_left s) {..<n}"
  proof (rule sum_less [where t = t])
    show "places_left s' u = places_left s u" if "u \<noteq> t" for u using that by (simp add: places_left_def assms(3,5) split: rpc.split)
  qed (use assms(1,7) in simp_all)
  ultimately show ?thesis using assms(2,4) by (simp add: rt_order_def rt_moves_left_def rt_ops_left_def)
qed

lemma inside_order:
  assumes inv: "rt_inv s" and few: "rt_few n s" and w: "lock_work (rlocks s k) l'"
  shows "(s\<lparr>rlocks := (rlocks s)(k := l')\<rparr>, s) \<in> rt_order n"
proof -
  let ?s = "s\<lparr>rlocks := (rlocks s)(k := l')\<rparr>"
  have "rt_ops_left n ?s = rt_ops_left n s" "rt_stages_left n ?s = rt_stages_left n s" "places_left ?s = places_left s"
    by (simp_all add: rt_ops_left_def rt_stages_left_def places_left_def fun_eq_iff split: rpc.split)
  moreover have "lock_rank n (pcs l') < lock_rank n (pcs (rlocks s k))"
    using lock_work_rank [OF w] rt_outside_idle [OF inv few] by blast
  then have "(\<Sum>j<10000. lock_rank n (pcs (rlocks ?s j))) < (\<Sum>j<10000. lock_rank n (pcs (rlocks s j)))"
    using rt_lock_used [OF inv w] by (intro sum_less [of k]) auto
  ultimately show ?thesis by (simp add: rt_order_def rt_moves_left_def)
qed

lemma walk_next_rank:
  "rpc_rank (walk_next op slot chain i) < 39996 \<or> walk_next op slot chain i = Walk slot (Suc i) \<and> i < length chain"
  by (rule walk_cases [where op = op and slot = slot and chain = chain and i = i]) auto

lemma walk_order:
  assumes "t < n" "at s t = Walk slot i" "chain = store (shared s) ! nat slot"
  shows "(walk_to t op (walk_next op slot chain i) s, s) \<in> rt_order n"
  using walk_next_rank [of op slot chain i]
proof
  assume "rpc_rank (walk_next op slot chain i) < 39996"
  then show ?thesis using assms by (intro stage_order [of t]) (simp_all)
next
  assume w: "walk_next op slot chain i = Walk slot (Suc i) \<and> i < length chain"
  then have "walk_to t op (walk_next op slot chain i) s = goto t (Walk slot (Suc i)) s" by (simp add: walk_to_def)
  then show ?thesis
    using assms w by (intro place_order [of t n _ s "Walk slot (Suc i)"]) (simp_all add: places_left_def diff_less_mono2)
qed

lemma rt_work_order:
  assumes inv: "rt_inv s" and room: "roomy s" and few: "rt_few n s" and w: "rt_work s s'"
  shows "(s', s) \<in> rt_order n"
proof -
  have ok: "wrong s' = None" using rt_inv_work [OF inv room w] by (simp add: rt_inv_def)
  have d: "data_ok (shared s) (hd (pending s t)) (at s t)" for t using pc_okD(3) [OF rt_invD(5) [OF inv]] .
  have t: "t < n" if "at s t \<noteq> RReady" for t using rt_few_less [OF inv few that] .
  show ?thesis
    using w
  proof (cases rule: rt_workE)
    case (check t op ops)
    have "t < n" using few check(3) unfolding rt_few_def by (metis list.distinct(1) not_le_imp_less)
    then show ?thesis
      unfolding check(1) using check(2) by (intro stage_order [of t n _ s "if resizing s \<noteq> 0 then WantMu else Slot False"]) auto
  next
    case (inside k l')
    then show ?thesis using inside_order [OF inv few] by simp
  next
    case (walk t slot i op ops chain)
    then have "chain = store (shared s) ! nat slot" using in_slot_store(2) [OF inv, of t slot] by simp
    then show ?thesis unfolding walk(1) using walk_order [OF t] walk(2) by simp
  next
    case (append t slot i key val ops chain st)
    then show ?thesis using t [of t] by (intro stage_order [of t n _ s "Leave slot (Ret 0) i"]) (simp_all)
  next
    case (leave t slot r c op ops)
    show ?thesis
    proof (cases "r = Ret 0 \<and> allow_resize (shared s) \<noteq> 0 \<and> MAX_COLLISION \<le> int c")
      case True
      then show ?thesis using leave(1,2) t [of t] by (intro stage_order [of t n _ s Resize]) simp_all
    next
      case False
      then have "s' = answer t op ops r s" using leave(1) by (auto split: if_splits)
      then show ?thesis using leave(2,3) t [of t] by (intro answer_order [of t n s op ops]) simp_all
    qed
  next
    case (grabbed t n' j)
    have j: "j < 10000" using d [of t] grabbed(2) by simp
    show ?thesis
    proof (cases "int (Suc j) < NUM_LOCKS")
      case True
      then show ?thesis using grabbed(1,2) t [of t] j by (intro stage_order [of t n _ s "Grab n' (Suc j)"]) simp_all
    next
      case False
      then show ?thesis
        using grabbed(1,2) t [of t] j by (intro stage_order [of t n _ s "Move n' 0 (replicate (nat n') [])"]) simp_all
    qed
  next
    case (move t n' i ns cur ns')
    then show ?thesis using t [of t] by (intro place_order [of t n _ s "Move n' (Suc i) ns'"]) (auto simp: places_left_def)
  next
    case (dropped t j)
    have j: "j < 10000" using d [of t] dropped(2) by simp
    show ?thesis
    proof (cases "int (Suc j) < NUM_LOCKS")
      case True
      then show ?thesis using dropped(1,2) t [of t] j by (intro stage_order [of t n _ s "Drop (Suc j)"]) simp_all
    next
      case False
      then show ?thesis using dropped(1,2) t [of t] j by (intro stage_order [of t n _ s ClearFlag]) simp_all
    qed
  next
    case (new_size t)
    then show ?thesis
      using t [of t] by (intro stage_order [of t n _ s "Grab (get_prime (s32 (2 * ht_size (shared s)))) 0"]) simp_all
  next
    case (clear_flag t op ops)
    then show ?thesis using t [of t] by (intro answer_order [of t n s op ops]) simp_all
  qed (use ok t in \<open>auto intro!: goto_order\<close>)
qed


lemma rt_few_work:
  assumes "rt_few n s" "rt_work s s'" shows "rt_few n s'"
  using assms(2,1) by (cases rule: rt_workE) (auto simp: rt_few_def)

text \<open>A run of work that stays within the steps of \<open>rt_step\<close>.\<close>

definition rt_run :: "rts \<Rightarrow> rts \<Rightarrow> bool" where
  "rt_run = (\<lambda>s s'. rt_work s s' \<and> rt_step s s')\<^sup>*\<^sup>*"

lemma rt_run_work: "rt_run s s' \<Longrightarrow> rt_work\<^sup>*\<^sup>* s s'"
  unfolding rt_run_def by (rule rtranclp_mono [THEN predicate2D]) auto

lemma rt_run_reachable: "rt_run s s' \<Longrightarrow> reachable s0 rt_step s \<Longrightarrow> reachable s0 rt_step s'"
  unfolding rt_run_def by (induction rule: rtranclp_induct) (auto intro: reachable.reach_step)

lemma rt_runs_out:
  assumes "rt_inv s" "rt_few n s"
  shows "\<exists>s'. rt_run s s' \<and> ((\<forall>t. pending s' t = []) \<or> \<not> roomy s')"
  using wf_rt_order [of n] assms
proof (induction s rule: wf_induct_rule)
  case (less s)
  show ?case
  proof (cases "(\<forall>t. pending s t = []) \<or> \<not> roomy s")
    case True
    then show ?thesis unfolding rt_run_def by blast
  next
    case False
    then obtain s1 where s1: "rt_work s s1" using rt_not_stuck [OF less.prems(1)] by blast
    have st: "rt_step s s1" using s1 False rt_invD(1) [OF less.prems(1)] by (simp add: rt_step_def)
    from less.IH [OF rt_work_order [OF less.prems(1) _ less.prems(2) s1] rt_inv_step [OF less.prems(1) st] rt_few_work [OF less.prems(2) s1]]
    obtain s' where s': "rt_run s1 s'" "(\<forall>t. pending s' t = []) \<or> \<not> roomy s'" using False by blast
    then have "rt_run s s'" using s1 st unfolding rt_run_def by (simp add: converse_rtranclp_into_rtranclp)
    then show ?thesis using s'(2) by blast
  qed
qed

section \<open>The property\<close>



end
