(* ===== verification/HtResizeTest.thy ===== *)
theory HtResizeTest
  imports HtTest HtResizeTime HtResizeLive
begin

text \<open>
  threadlab/testhash.c with the table that may be resized (\<open>test_htable(1)\<close>): the phases of \<open>HtTest\<close> over the threads of
  \<open>HtResize\<close>. The table does not promise that a lookup finds its key, so the test can fail; it is shown that it fails in one
  way only, by a key that is missing after the insertions, and never with one thread.
\<close>

section \<open>The test\<close>

definition resize_start :: "(nat \<Rightarrow> int) \<Rightarrow> run_mode \<Rightarrow> int \<Rightarrow> rts" where
  "resize_start rnd m num_threads = rt_share (htable_init (TESTSZ sdiv 100) 1) (\<lambda>t. map fst (test_htable_run rnd m num_threads t))"

definition rt_joined :: "rts \<Rightarrow> bool" where
  "rt_joined s \<longleftrightarrow> (\<forall>t. pending s t = [])"

definition rt_unshare :: "rts \<Rightarrow> hstate" where
  "rt_unshare s = \<lparr>tbl = shared s, undergoing_resize = resizing s, mu_locked = (gmu s \<noteq> None), rwl_slot = (\<lambda>k. lk (rlocks s k))\<rparr>"

definition rt_lookups_fit :: "(nat \<Rightarrow> int) \<Rightarrow> run_mode \<Rightarrow> int \<Rightarrow> rts \<Rightarrow> bool" where
  "rt_lookups_fit rnd m num_threads s \<longleftrightarrow>
     (\<forall>t < nat num_threads. list_all lookup_fits (zip (answers s t) (test_htable_run rnd m num_threads t)))"

text \<open>The outcomes that \<open>test_htable(1)\<close> can have: the final size, or how it fails.\<close>

inductive resize_test :: "(nat \<Rightarrow> int) \<Rightarrow> int \<Rightarrow> int cres \<Rightarrow> bool" for rnd num_threads where
  r_insert_fails: "reachable (resize_start rnd INSERT num_threads) rt_step s \<Longrightarrow> wrong s = Some e \<Longrightarrow> resize_test rnd num_threads (Inl e)"
| r_not_valid: "reachable (resize_start rnd INSERT num_threads) rt_step s \<Longrightarrow> rt_joined s \<Longrightarrow> validate rnd (rt_unshare s) = Inl e \<Longrightarrow>
    resize_test rnd num_threads (Inl e)"
| r_mix_fails: "reachable (resize_start rnd INSERT num_threads) rt_step s \<Longrightarrow> rt_joined s \<Longrightarrow> validate rnd (rt_unshare s) = Inr h \<Longrightarrow>
    reachable (resize_start rnd MIX num_threads) rt_step s' \<Longrightarrow> wrong s' = Some e \<Longrightarrow> resize_test rnd num_threads (Inl e)"
| r_lookup_fails: "reachable (resize_start rnd INSERT num_threads) rt_step s \<Longrightarrow> rt_joined s \<Longrightarrow> validate rnd (rt_unshare s) = Inr h \<Longrightarrow>
    reachable (resize_start rnd MIX num_threads) rt_step s' \<Longrightarrow> \<not> rt_lookups_fit rnd MIX num_threads s' \<Longrightarrow>
    resize_test rnd num_threads test_failed"
| r_passes: "reachable (resize_start rnd INSERT num_threads) rt_step s \<Longrightarrow> rt_joined s \<Longrightarrow> validate rnd (rt_unshare s) = Inr h \<Longrightarrow>
    reachable (resize_start rnd MIX num_threads) rt_step s' \<Longrightarrow> rt_joined s' \<Longrightarrow> rt_lookups_fit rnd MIX num_threads s' \<Longrightarrow>
    resize_test rnd num_threads (Inr (htable_size (rt_unshare s')))"

section \<open>When the threads have been joined\<close>

text \<open>The flag is set only while a thread is in a resize.\<close>

fun flagged :: "rpc \<Rightarrow> bool" where
  "flagged ResizeMu = True"
| "flagged NewSize = True"
| "flagged (Grab n j) = True"
| "flagged (Move n i ns) = True"
| "flagged (Swap ns) = True"
| "flagged (Drop j) = True"
| "flagged ClearFlag = True"
| "flagged _ = False"

definition flag_ok :: "rts \<Rightarrow> bool" where
  "flag_ok s \<longleftrightarrow> resizing s = 0 \<or> (\<exists>t. flagged (at s t))"

lemma flagged_work: "rt_work s s' \<Longrightarrow> flagged (at s u) \<Longrightarrow> resizing s' = 0 \<or> flagged (at s' u)"
  by (cases rule: rt_work.cases) (auto split: if_splits)

lemma flag_ok_work:
  assumes "flag_ok s" "rt_work s s'" shows "flag_ok s'"
proof (cases "\<exists>u. flagged (at s u)")
  case True
  then show ?thesis using flagged_work [OF assms(2)] by (auto simp: flag_ok_def)
next
  case False
  then have "resizing s = 0" using assms(1) by (simp add: flag_ok_def)
  with assms(2) show ?thesis
  proof (cases rule: rt_workE)
    case (set_flag t)
    then show ?thesis by (auto simp: flag_ok_def intro: exI [of _ t])
  qed (auto simp: flag_ok_def)
qed

lemma flag_ok_reachable:
  assumes "reachable (rt_share h ops) rt_step s" "undergoing_resize h = 0"
  shows "flag_ok s"
  using assms
proof (induction rule: reachable.induct)
  case reach_start
  then show ?case by (simp add: flag_ok_def rt_share_def)
next
  case (reach_step s s')
  then show ?case using flag_ok_work by (auto simp: rt_step_def flag_ok_def elim!: rt_idleE)
qed

lemma rt_joined_idle:
  assumes inv: "rt_inv s" and flag: "flag_ok s" and joined: "rt_joined s"
  shows "locks_idle (rt_unshare s)" "ht_size (shared s) = int (length (store (shared s)))"
proof -
  have at: "at s t = RReady" for t using pc_okD(1) [OF rt_invD(5) [OF inv, of t]] joined by (auto simp: rt_joined_def)
  then have "pcs (rlocks s k) t = Idle" for k t using outside_idle_pcs [OF inv, of t] by simp
  then have "lk (rlocks s k) = rwl_init" for k using idle_lock rt_invD(2) [OF inv] by blast
  moreover have "gmu s = None" using rt_invD(3) [OF inv] at by (cases "gmu s") (auto simp: mu_ok_def)
  moreover have "resizing s = 0" using flag at by (simp add: flag_ok_def)
  ultimately show "locks_idle (rt_unshare s)" by (simp add: locks_idle_def rt_unshare_def)
  show "ht_size (shared s) = int (length (store (shared s)))" using settled_size [OF inv] at by simp
qed

text \<open>A lookup by one thread in a table whose nodes need not be in their places.\<close>

lemma lookup_loop_sound: "lookup_loop hc k chain = Null \<or> (\<exists>x \<in> set chain. nd_key x = k \<and> nd_val x = lookup_loop hc k chain)"
  by (induction chain) auto

lemma lookup_loose:
  assumes idle: "locks_idle h" and size: "ht_size (tbl h) = int (length (store (tbl h)))" "0 < length (store (tbl h))" and a: "ascii key"
  shows "\<exists>p. htable_lookup key h = Inr (p, h) \<and> (p = Null \<or> (key, p) \<in># pairs (store (tbl h)))"
proof -
  let ?i = "slot_of (length (store (tbl h))) key"
  have i: "?i < length (store (tbl h))" using size(2) by (rule slot_of_less)
  have slot: "hashcode key smod int (length (store (tbl h))) = int ?i"
    using hashcode_ok(1) [OF a] size(2) by (simp add: smod_nonneg slot_of_def)
  have l: "int ?i smod NUM_LOCKS = int ?i mod NUM_LOCKS" by (rule smod_nonneg) simp_all
  let ?p = "lookup_loop (hashcode key) key (store (tbl h) ! ?i)"
  have "slot_unlock Reader (int ?i smod NUM_LOCKS) (h\<lparr>rwl_slot := (\<lambda>_. rwl_init)(nat (int ?i mod NUM_LOCKS) := taken Reader)\<rparr>) = h"
    by (subst unlock_restores [OF idle, of _ ?i Reader]) simp_all
  then have "htable_lookup key h = Inr (?p, h)"
    using idle size i
    by (simp add: htable_lookup_def lookup_slot_def with_slot_def enter_slot_def locks_idle_def slot_lock_idle slot l Let_def del: taken.simps)
  moreover have "?p = Null \<or> (key, ?p) \<in># pairs (store (tbl h))"
    using lookup_loop_sound [of "hashcode key" key "store (tbl h) ! ?i"] pairs_member [OF i] by metis
  ultimately show ?thesis by blast
qed

section \<open>What the pairs are\<close>

definition fits_inv :: "(nat \<Rightarrow> htop list) \<Rightarrow> (string \<Rightarrow> ptr) \<Rightarrow> (string \<times> ptr) multiset conc \<Rightarrow> bool" where
  "fits_inv ops f c \<longleftrightarrow> (\<forall>(k, v) \<in># contents c. v = f k) \<and> (\<forall>t. ops t = map fst (cdone c t) @ ctodo c t)"

lemma fits_inv_step:
  assumes "conc_step bag_op c c'" "fits_inv ops f c" "\<forall>t. \<forall>op \<in> set (ops t). op_fits f op"
  shows "fits_inv ops f c'"
  using assms(1)
proof cases
  case (c_apply t op os r b)
  have "op \<in> set (ops t)" using assms(2) c_apply(3) by (simp add: fits_inv_def)
  then have "op_fits f op" using assms(3) by blast
  then have "\<forall>(k, v) \<in># b. v = f k" using assms(2) c_apply(4) by (cases op) (auto simp: fits_inv_def)
  then show ?thesis using c_apply(1) assms(2) by (simp add: fits_inv_def)
qed (use assms(2) in \<open>auto simp: fits_inv_def\<close>)

lemma fits_inv_run:
  assumes "reachable c0 (conc_step bag_op) c" "fits_inv ops f c0" "\<forall>t. \<forall>op \<in> set (ops t). op_fits f op"
  shows "fits_inv ops f c"
  using assms by (induction rule: reachable.induct) (auto intro: fits_inv_step)

abbreviation resize_table :: hstate where
  "resize_table \<equiv> htable_init (TESTSZ sdiv 100) 1"

lemma resize_table_ok: "hstate_ok resize_table" "ht_map resize_table = Map.empty" "pairs (store (tbl resize_table)) = {#}"
  using init_ok [of "TESTSZ sdiv 100" 1] by (simp_all add: TESTSZ_def) (simp add: pairs_def htable_init_def Let_def entries_def)

lemma resize_phase:
  assumes "good_keys rnd"
  shows "shared_table resize_table (runs rnd m n)" "\<forall>t. \<forall>op \<in> set (runs rnd m n t). op_fits (value_of rnd) op"
proof -
  have "\<forall>t. \<forall>op \<in> set (runs rnd m n t). ascii (op_key op)" using run_fits(3) [OF assms] by auto
  then show "shared_table resize_table (runs rnd m n)" using resize_table_ok(1) by (simp add: shared_table_def hstate_ok_def)
  show "\<forall>t. \<forall>op \<in> set (runs rnd m n t). op_fits (value_of rnd) op" using run_fits(1) [OF assms] by auto
qed

lemma resize_reachable:
  assumes "good_keys rnd" "reachable (resize_start rnd m n) rt_step s"
  shows "rt_inv s" "flag_ok s" "fits_inv (runs rnd m n) (value_of rnd) (conc_of pairs s)" "answers_hold (conc_of pairs s)"
proof -
  note p = resize_phase [OF assms(1)] and r = assms(2) [unfolded resize_start_def]
  show "rt_inv s" using rt_reachable_inv [OF r p(1)] .
  show "flag_ok s" using flag_ok_reachable [OF r] resize_table_ok(1) by (simp add: hstate_ok_def locks_idle_def)
  show "answers_hold (conc_of pairs s)" using answers_hold_reachable [OF r p(1)] .
  show "fits_inv (runs rnd m n) (value_of rnd) (conc_of pairs s)"
    by (rule fits_inv_run [OF bag_reachable [OF r p(1)] _ p(2)]) (simp add: fits_inv_def conc_of_def rt_share_def resize_table_ok(3))
qed

lemma resize_lookups_ok:
  assumes "good_keys rnd" "reachable (resize_start rnd m n) rt_step s"
  shows "rt_lookups_fit rnd m n s"
proof -
  note inv = resize_reachable(3,4) [OF assms]
  have "lookup_fits ((op, r), (op', x))" if d: "((op, r), (op', x)) \<in> set (zip (answers s t) (test_htable_run rnd m n t))" for op r op' x t
  proof -
    obtain j where j: "j < length (answers s t)" "answers s t ! j = (op, r)" "test_htable_run rnd m n t ! j = (op', x)"
        "j < length (test_htable_run rnd m n t)"
      using d by (auto simp: set_zip)
    have "runs rnd m n t = map fst (answers s t) @ pending s t" using inv(1) by (simp add: fits_inv_def conc_of_def)
    then have "op' = op" using j by (metis (no_types, lifting) fst_conv length_map nth_append nth_map)
    then have "x = value_of rnd (op_key op)" using run_fits(2) [OF assms(1)] j(3,4) by (metis nth_mem)
    moreover have "holds_in (op, r) (pairs (store (shared s)))"
      using inv(2) j(1,2) nth_mem [OF j(1)] by (simp add: answers_hold_def conc_of_def)
    moreover have "\<forall>(k, v) \<in># pairs (store (shared s)). v = value_of rnd k" using inv(1) by (simp add: fits_inv_def conc_of_def)
    ultimately show ?thesis by (cases op) auto
  qed
  then show ?thesis by (auto simp: rt_lookups_fit_def list_all_iff)
qed


section \<open>Validation\<close>

text \<open>A loop whose body keeps the state or fails in one way.\<close>

lemma c_for_keeps:
  assumes "\<And>i. lo \<le> i \<Longrightarrow> i < hi \<Longrightarrow> body i h = Inr h \<or> body i h = Inl e \<and> Q i"
  shows "c_for lo hi body h = Inr h \<or> c_for lo hi body h = Inl e \<and> (\<exists>i. lo \<le> i \<and> i < hi \<and> Q i)"
  using assms
proof (induction "nat (hi - lo)" arbitrary: lo)
  case (Suc n)
  then have lo: "lo < hi" by simp
  have ih: "c_for (lo + 1) hi body h = Inr h \<or> c_for (lo + 1) hi body h = Inl e \<and> (\<exists>i. lo + 1 \<le> i \<and> i < hi \<and> Q i)"
    using Suc.hyps(2) Suc.prems by (intro Suc.hyps(1)) auto
  show ?case using Suc.prems [OF order_refl lo] ih lo by (force simp: c_for_step)
qed simp

definition key_missing :: "(nat \<Rightarrow> int) \<Rightarrow> int \<Rightarrow> rts \<Rightarrow> bool" where
  "key_missing rnd i s \<longleftrightarrow> htable_lookup (testkey rnd i) (rt_unshare s) = Inr (Null, rt_unshare s)"

lemma resize_validate:
  assumes "good_keys rnd" "reachable (resize_start rnd m n) rt_step s" "rt_joined s"
  shows "validate rnd (rt_unshare s) = Inr (rt_unshare s) \<or>
    validate rnd (rt_unshare s) = test_failed \<and> (\<exists>i. 0 \<le> i \<and> i < TESTSZ \<and> key_missing rnd i s)"
  unfolding validate_def test_failed_def
proof (rule c_for_keeps)
  fix i :: int
  assume i: "0 \<le> i" "i < TESTSZ"
  note inv = resize_reachable [OF assms(1,2)]
  note idle = rt_joined_idle [OF inv(1,2) assms(3)]
  have pos: "0 < length (store (shared s))" using rt_invD(4) [OF inv(1)] by (simp add: store_ok_def)
  obtain p where p: "htable_lookup (testkey rnd i) (rt_unshare s) = Inr (p, rt_unshare s)"
      "p = Null \<or> (testkey rnd i, p) \<in># pairs (store (shared s))"
    using lookup_loose [OF idle(1), of "testkey rnd i"] idle(2) pos ascii_testkey [of rnd i] assms(1)
    by (auto simp: rt_unshare_def good_keys_def)
  have "p = testval i" if "p \<noteq> Null"
    using p(2) that inv(3) value_of_testkey [OF _ i, of rnd] assms(1) by (auto simp: fits_inv_def conc_of_def good_keys_def)
  then have "p = Null \<or> p \<noteq> Null \<and> p = testval i" by blast
  then show "c_bind (htable_lookup (testkey rnd i) (rt_unshare s))
        (\<lambda>(p, h). if p \<noteq> Null \<and> p = testval i then Inr h else Inl (Exit 1)) = Inr (rt_unshare s) \<or>
      c_bind (htable_lookup (testkey rnd i) (rt_unshare s))
        (\<lambda>(p, h). if p \<noteq> Null \<and> p = testval i then Inr h else Inl (Exit 1)) = Inl (Exit 1) \<and> key_missing rnd i s"
    using p(1) by (auto simp: key_missing_def)
qed

section \<open>With one thread\<close>

definition ats_of :: "(string \<Rightarrow> ptr option) conc \<Rightarrow> ats" where
  "ats_of c = \<lparr>amap = contents c, apcs = cpcs c, atodo = ctodo c, afinished = cdone c\<rparr>"

lemma map_step_atomic:
  assumes "conc_step map_op c c'" shows "atomic_step (ats_of c) (ats_of c')"
  using assms
proof cases
  case (c_call t)
  then show ?thesis using a_call [of "ats_of c" t] by (simp add: ats_of_def)
next
  case (c_apply t op ops r m)
  then show ?thesis using a_apply [of "ats_of c" t op ops r m] by (simp add: ats_of_def map_op_def)
next
  case (c_return t r op ops)
  then show ?thesis using a_return [of "ats_of c" t r op ops] by (simp add: ats_of_def)
qed

lemma map_run_atomic: "reachable c0 (conc_step map_op) c \<Longrightarrow> reachable (ats_of c0) atomic_step (ats_of c)"
  by (induction rule: reachable.induct) (auto intro: reachable.intros map_step_atomic)

lemma one_thread: "never_behind h (runs rnd m 1)"
  unfolding never_behind_def by (intro disjI2 exI [of _ 0]) (simp add: test_htable_run_def)

lemma one_thread_finds:
  assumes "good_keys rnd" "reachable (resize_start rnd m 1) rt_step s" "rt_joined s" "0 \<le> i" "i < TESTSZ"
  shows "\<not> key_missing rnd i s"
proof -
  note p = resize_phase [OF assms(1)] and r = assms(2) [unfolded resize_start_def] and inv = resize_reachable [OF assms(1,2)]
  note run = timely_reachable [OF never_behind_timely [OF r p(1) one_thread] p(1)]
  have "spec_inv (runs rnd m 1) (value_of rnd) (ats_of (map_view s))"
  proof (rule spec_inv_reachable [OF map_run_atomic _ p(2)])
    show "reachable (map_view (rt_share resize_table (runs rnd m 1))) (conc_step map_op) (map_view s)" using run by blast
    show "spec_inv (runs rnd m 1) (value_of rnd) (ats_of (map_view (rt_share resize_table (runs rnd m 1))))"
      using resize_table_ok(2) by (simp add: spec_inv_def ats_of_def map_view_def conc_of_def rt_share_def ht_map_def)
  qed
  then have spec: "\<forall>t. runs rnd m 1 t = map fst (answers s t) @ pending s t"
      "\<forall>t. \<forall>(op, r) \<in> set (answers s t). result_ok (value_of rnd) (map_of (entries (concat (store (shared s))))) op r"
      "\<forall>k v. map_of (entries (concat (store (shared s)))) k = Some v \<longrightarrow> v = value_of rnd k"
    by (simp_all add: spec_inv_def ats_of_def map_view_def conc_of_def)
  obtain t where "Insert (testkey rnd i) (testval i) \<in> set (runs rnd m 1 t)" using run_inserts [OF _ assms(4,5), of 1] by (metis list.set_map zero_less_one)
  then obtain r' where "(Insert (testkey rnd i) (testval i), r') \<in> set (answers s t)"
    using spec(1) assms(3) by (auto simp: rt_joined_def)
  then obtain v where "map_of (entries (concat (store (shared s)))) (testkey rnd i) = Some v"
    using spec(2) by (fastforce simp: result_ok_def)
  moreover have "v = testval i"
    using calculation spec(3) value_of_testkey [OF _ assms(4,5), of rnd] assms(1) by (simp add: good_keys_def)
  ultimately have m: "ht_map (rt_unshare s) (testkey rnd i) = Some (testval i)" by (simp add: ht_map_def rt_unshare_def)
  note idle = rt_joined_idle [OF inv(1,2) assms(3)]
  have "hstate_ok (rt_unshare s)"
    using run idle rt_invD(4) [OF inv(1)] by (simp add: hstate_ok_def table_ok_def tidy_def store_ok_def) (simp add: rt_unshare_def)
  from lookup_ok [OF this ascii_testkey] show ?thesis using m assms(1) by (simp add: key_missing_def testval_def good_keys_def)
qed

section \<open>The size\<close>

lemma size_grows:
  assumes inv: "rt_inv s" and "rt_step s s'"
  shows "ht_size (shared s) \<le> ht_size (shared s')"
proof -
  have "ht_size (shared s) \<le> n" if "at s t = Move n i ns" for t n i ns
    using pc_okD(3) [OF rt_invD(5) [OF inv, of t]] that by simp
  then show ?thesis using assms(2) by (auto simp: rt_step_def elim!: rt_workE rt_idleE split: if_splits)
qed

lemma size_grows_run:
  assumes "reachable (rt_share h ops) rt_step s" "shared_table h ops"
  shows "htable_size h \<le> htable_size (rt_unshare s)"
  using assms
proof (induction rule: reachable.induct)
  case (reach_step s s')
  then show ?case using size_grows [OF rt_reachable_inv] by (fastforce simp: htable_size_def rt_unshare_def)
qed (simp add: htable_size_def rt_unshare_def rt_share_def)

section \<open>The property\<close>

lemma resize_outcome:
  assumes "good_keys rnd" "resize_test rnd num_threads r"
  shows "(\<exists>size. r = Inr size \<and> htable_size resize_table \<le> size) \<or>
    r = test_failed \<and> num_threads \<noteq> 1 \<and>
    (\<exists>s i. reachable (resize_start rnd INSERT num_threads) rt_step s \<and> rt_joined s \<and> 0 \<le> i \<and> i < TESTSZ \<and> key_missing rnd i s)"
  using assms(2)
proof cases
  case (r_insert_fails s e)
  then show ?thesis using resize_reachable(1) [OF assms(1)] rt_invD(1) by fastforce
next
  case (r_not_valid s e)
  have v: "validate rnd (rt_unshare s) = test_failed \<and> (\<exists>i. 0 \<le> i \<and> i < TESTSZ \<and> key_missing rnd i s)"
    using resize_validate [OF assms(1) r_not_valid(2,3)] r_not_valid(4) by auto
  then obtain i where "0 \<le> i" "i < TESTSZ" "key_missing rnd i s" by blast
  moreover have "r = test_failed" using v r_not_valid(1,4) by (simp add: test_failed_def)
  ultimately show ?thesis using r_not_valid one_thread_finds [OF assms(1), of INSERT s i] by (cases "num_threads = 1") auto
next
  case (r_mix_fails s h s' e)
  then show ?thesis using resize_reachable(1) [OF assms(1), of MIX] rt_invD(1) by fastforce
next
  case (r_lookup_fails s h s')
  then show ?thesis using resize_lookups_ok [OF assms(1)] by blast
next
  case (r_passes s h s')
  then show ?thesis using size_grows_run resize_phase(1) [OF assms(1)] by (auto simp: resize_start_def)
qed


lemma resize_phase_ends:
  assumes "good_keys rnd"
  shows "\<exists>s. reachable (resize_start rnd m n) rt_step s \<and> (rt_joined s \<or> \<not> roomy s)"
proof -
  have inv: "rt_inv (resize_start rnd m n)" unfolding resize_start_def by (rule rt_share_inv [OF resize_phase(1) [OF assms]])
  have "rt_few (nat n) (resize_start rnd m n)" by (auto simp: rt_few_def resize_start_def rt_share_def test_htable_run_def)
  from rt_runs_out [OF inv this] show ?thesis
    using rt_run_reachable [OF _ reach_start] unfolding rt_joined_def by blast
qed



end
