(* ===== verification/ClabArrays.thy ===== *)
theory ClabArrays
  imports CPrelude "HOL-Library.Multiset"
begin

text \<open>
  clab/mini/part1.c, part2.c and part3.c: a pointer write, the sum of an array, bubble sort, the sieve of
  Eratosthenes and the smallest divisor. An array is the list of its elements; the length \<open>n\<close> is a
  separate argument, as in the code, and an index outside the array is an error. The \<open>while\<close> loop of
  \<open>bubble_sort\<close> is a partial function; \<open>None\<close> means that it does not end.
\<close>

section \<open>part1.c\<close>

definition set_to_five :: "int list \<Rightarrow> int \<Rightarrow> int list cres" where
  "set_to_five mem p = arr_set mem p 5"

definition array_sum :: "int list \<Rightarrow> int \<Rightarrow> int cres" where
  "array_sum arr n = c_for 0 n (\<lambda>i sum. c_bind (arr_at arr i) (\<lambda>v. Inr (s32 (sum + v)))) 0"

lemma array_sum_ok: "array_sum arr (int (length arr)) = Inr (s32 (sum_list arr))"
proof -
  let ?P = "\<lambda>i s. s = s32 (sum_list (take (nat i) arr))"
  have "\<exists>s. array_sum arr (int (length arr)) = Inr s \<and> ?P (int (length arr)) s"
    unfolding array_sum_def
  proof (rule c_for_inv [where P = ?P])
    fix i s assume i: "0 \<le> i" "i < int (length arr)" "?P i s"
    have "take (nat (i + 1)) arr = take (nat i) arr @ [arr ! nat i]"
      using i by (simp add: nat_add_distrib take_Suc_conv_app_nth)
    then show "\<exists>s'. c_bind (arr_at arr i) (\<lambda>v. Inr (s32 (s + v))) = Inr s' \<and> ?P (i + 1) s'"
      using i by (simp add: arr_at_int s32_add)
  qed (simp_all add: s32_id)
  then show ?thesis by simp
qed

section \<open>part2.c\<close>

definition swap_elems :: "int list \<Rightarrow> int \<Rightarrow> int \<Rightarrow> int list cres" where
  "swap_elems arr p1 p2 =
     c_bind (arr_at arr p1) (\<lambda>temp.
     c_bind (arr_at arr p2) (\<lambda>v.
     c_bind (arr_set arr p1 v) (\<lambda>arr. arr_set arr p2 temp)))"

definition bubble_pass :: "int \<Rightarrow> int list \<Rightarrow> int list cres" where
  "bubble_pass n arr = c_for 0 (s32 (n - 1)) (\<lambda>i arr.
     c_bind (arr_at arr i) (\<lambda>a.
     c_bind (arr_at arr (i + 1)) (\<lambda>b.
     if a > b then swap_elems arr i (i + 1) else Inr arr))) arr"

definition bubble_mistakes :: "int \<Rightarrow> int list \<Rightarrow> int cres" where
  "bubble_mistakes n arr = c_for 0 (s32 (n - 1)) (\<lambda>i mistakes.
     c_bind (arr_at arr i) (\<lambda>a.
     c_bind (arr_at arr (i + 1)) (\<lambda>b.
     Inr (if a > b then mistakes + 1 else mistakes)))) 0"

partial_function (option) bubble_sort :: "int \<Rightarrow> int list \<Rightarrow> int list cres option" where
  "bubble_sort n arr =
     (case c_bind (bubble_pass n arr) (\<lambda>arr. c_bind (bubble_mistakes n arr) (\<lambda>mistakes. Inr (arr, mistakes))) of
        Inl e \<Rightarrow> Some (Inl e)
      | Inr (arr, mistakes) \<Rightarrow> if mistakes = 0 then Some (Inr arr) else bubble_sort n arr)"

text \<open>The pass as a function on lists.\<close>

fun bpass :: "int list \<Rightarrow> int list" where
  "bpass (a # b # xs) = (if a > b then b # bpass (a # xs) else a # bpass (b # xs))"
| "bpass xs = xs"

lemma bpass_mset: "mset (bpass xs) = mset xs"
  by (induction xs rule: bpass.induct) auto

lemma bpass_length [simp]: "length (bpass xs) = length xs"
  by (induction xs rule: bpass.induct) auto

lemma bpass_le: "bpass xs \<le> xs"
  by (induction xs rule: bpass.induct) auto

lemma bpass_less: "\<not> sorted xs \<Longrightarrow> bpass xs < xs"
proof (induction xs rule: bpass.induct)
  case (1 a b xs)
  show ?case
  proof (cases "a > b")
    case False
    then have "\<not> sorted (b # xs)" using 1(3) by force
    then show ?thesis using False 1(2) by simp
  qed simp
qed auto

lemma bubble_step:
  assumes "Suc i < length arr"
  shows "c_bind (arr_at arr (int i)) (\<lambda>a. c_bind (arr_at arr (int i + 1)) (\<lambda>b.
      if a > b then swap_elems arr (int i) (int i + 1) else Inr arr)) =
    Inr (if arr ! i > arr ! Suc i then arr[i := arr ! Suc i, Suc i := arr ! i] else arr)"
proof -
  have e: "int i + 1 = int (Suc i)" by simp
  show ?thesis unfolding e swap_elems_def using assms by (simp del: of_nat_Suc)
qed

lemma bubble_pass_eq:
  assumes "length arr < 2 ^ 31"
  shows "bubble_pass (int (length arr)) arr = Inr (bpass arr)"
proof -
  let ?n = "length arr"
  let ?P = "\<lambda>i xs. take (nat i) xs @ bpass (drop (nat i) xs) = bpass arr \<and> length xs = ?n"
  have s: "s32 (int ?n - 1) = int ?n - 1" using assms by (intro s32_id) simp_all
  show ?thesis
  proof (cases "arr = []")
    case True
    then show ?thesis using s by (simp add: bubble_pass_def)
  next
    case False
    have "\<exists>xs. bubble_pass (int ?n) arr = Inr xs \<and> ?P (int ?n - 1) xs"
      unfolding bubble_pass_def s
    proof (rule c_for_inv [where P = ?P])
      fix i xs assume i: "0 \<le> i" "i < int ?n - 1" "?P i xs"
      then obtain k where k: "i = int k" "Suc k < length xs" by (metis zle_int int_nat_eq nat_less_iff add.commute less_diff_eq of_nat_Suc of_nat_less_iff)
      let ?ys = "if xs ! k > xs ! Suc k then xs[k := xs ! Suc k, Suc k := xs ! k] else xs"
      have d: "drop k xs = xs ! k # xs ! Suc k # drop (Suc (Suc k)) xs"
        using k(2) by (simp add: Cons_nth_drop_Suc)
      have e: "drop (Suc k) zs = zs ! Suc k # drop (Suc (Suc k)) zs" if "length zs = length xs" for zs :: "int list"
        using k(2) that by (simp add: Cons_nth_drop_Suc)
      have "take (Suc k) ?ys @ bpass (drop (Suc k) ?ys) = take k xs @ bpass (drop k xs)"
        using k(2) unfolding d by (simp add: take_Suc_conv_app_nth e)
      then show "\<exists>s'. c_bind (arr_at xs i) (\<lambda>a. c_bind (arr_at xs (i + 1)) (\<lambda>b.
          if a > b then swap_elems xs i (i + 1) else Inr xs)) = Inr s' \<and> ?P (i + 1) s'"
        unfolding k(1) bubble_step [OF k(2)] using i(3) k by (auto simp: nat_add_distrib)
    qed (use False in \<open>simp_all add: Suc_le_eq\<close>)
    then obtain xs where xs: "bubble_pass (int ?n) arr = Inr xs" "?P (int ?n - 1) xs" by blast
    have "length (drop (?n - 1) xs) = Suc 0" using xs(2) False by (cases arr) simp_all
    then obtain y where y: "drop (?n - 1) xs = [y]" unfolding length_Suc_conv length_0_conv by blast
    have "nat (int ?n - 1) = ?n - 1" by simp
    then have "take (?n - 1) xs @ drop (?n - 1) xs = bpass arr" using xs(2) y by simp
    then have "xs = bpass arr" by simp
    then show ?thesis using xs(1) by simp
  qed
qed

lemma bubble_mistakes_eq:
  assumes "length arr < 2 ^ 31"
  shows "\<exists>m. bubble_mistakes (int (length arr)) arr = Inr m \<and> (m = 0 \<longleftrightarrow> sorted arr)"
proof -
  let ?n = "length arr"
  let ?P = "\<lambda>i (m :: int). 0 \<le> m \<and> (m = 0 \<longleftrightarrow> (\<forall>k. int k < i \<longrightarrow> arr ! k \<le> arr ! Suc k))"
  have s: "s32 (int ?n - 1) = int ?n - 1" using assms by (intro s32_id) simp_all
  show ?thesis
  proof (cases "arr = []")
    case True
    then show ?thesis using s by (simp add: bubble_mistakes_def)
  next
    case False
    have "\<exists>m. bubble_mistakes (int ?n) arr = Inr m \<and> ?P (int ?n - 1) m"
      unfolding bubble_mistakes_def s
    proof (rule c_for_inv [where P = ?P])
      fix i m assume i: "0 \<le> i" "i < int ?n - 1" "?P i m"
      then have "nat i < ?n" "nat (i + 1) = Suc (nat i)" by (simp_all add: nat_add_distrib)
      moreover have "(\<forall>k. int k < i + 1 \<longrightarrow> arr ! k \<le> arr ! Suc k) \<longleftrightarrow>
          (\<forall>k. int k < i \<longrightarrow> arr ! k \<le> arr ! Suc k) \<and> arr ! nat i \<le> arr ! Suc (nat i)"
      proof -
        have "int k < i + 1 \<longleftrightarrow> int k < i \<or> k = nat i" for k using i(1) by auto
        then show ?thesis by auto
      qed
      ultimately show "\<exists>s'. c_bind (arr_at arr i) (\<lambda>a. c_bind (arr_at arr (i + 1)) (\<lambda>b.
          Inr (if a > b then m + 1 else m))) = Inr s' \<and> ?P (i + 1) s'"
        using i by (auto simp: arr_at_int)
    qed (use False in \<open>simp_all add: Suc_le_eq\<close>)
    then obtain m where "bubble_mistakes (int ?n) arr = Inr m" "?P (int ?n - 1) m" by blast
    moreover have "(\<forall>k. int k < int ?n - 1 \<longrightarrow> arr ! k \<le> arr ! Suc k) \<longleftrightarrow> sorted arr"
      unfolding sorted_iff_nth_Suc by (auto simp: less_diff_eq)
    ultimately show ?thesis by auto
  qed
qed

text \<open>Every pass over an unsorted array makes it lexicographically smaller, among finitely many arrays.\<close>

lemma finite_smaller: "finite {ys :: int list. mset ys = mset xs \<and> ys < zs}"
proof (rule finite_subset)
  show "{ys. mset ys = mset xs \<and> ys < zs} \<subseteq> {ys. set ys \<subseteq> set xs \<and> length ys = length xs}"
    using mset_eq_setD mset_eq_length by fastforce
  show "finite {ys. set ys \<subseteq> set xs \<and> length ys = length xs}" by (rule finite_lists_length_eq) simp
qed

lemma bubble_sort_ok:
  assumes "length arr < 2 ^ 31"
  shows "bubble_sort (int (length arr)) arr = Some (Inr (sort arr))"
  using assms
proof (induction "card {ys. mset ys = mset arr \<and> ys < arr}" arbitrary: arr rule: less_induct)
  case less
  let ?b = "bpass arr"
  have len: "length ?b = length arr" by simp
  obtain m where m: "bubble_mistakes (int (length arr)) ?b = Inr m" "m = 0 \<longleftrightarrow> sorted ?b"
    using bubble_mistakes_eq [of ?b] less.prems by auto
  have step: "bubble_sort (int (length arr)) arr =
      (if m = 0 then Some (Inr ?b) else bubble_sort (int (length arr)) ?b)"
    by (subst bubble_sort.simps) (simp add: bubble_pass_eq [OF less.prems] m(1))
  show ?case
  proof (cases "sorted ?b")
    case True
    have "sort arr = ?b" using True by (intro properties_for_sort) (simp_all add: bpass_mset)
    then show ?thesis using step m(2) True by simp
  next
    case False
    have "\<not> sorted arr"
    proof
      assume "sorted arr"
      then have "bpass arr = arr" by (induction arr rule: bpass.induct) auto
      then show False using False \<open>sorted arr\<close> by simp
    qed
    then have lt: "?b < arr" by (rule bpass_less)
    have "{ys. mset ys = mset ?b \<and> ys < ?b} \<subseteq> {ys. mset ys = mset arr \<and> ys < arr}"
      using less_trans [OF _ lt] unfolding bpass_mset by blast
    moreover have "?b \<in> {ys. mset ys = mset arr \<and> ys < arr}" using lt by (simp add: bpass_mset)
    moreover have "?b \<notin> {ys. mset ys = mset ?b \<and> ys < ?b}" by simp
    ultimately have "{ys. mset ys = mset ?b \<and> ys < ?b} \<subset> {ys. mset ys = mset arr \<and> ys < arr}" by blast
    then have "card {ys. mset ys = mset ?b \<and> ys < ?b} < card {ys. mset ys = mset arr \<and> ys < arr}"
      by (rule psubset_card_mono [OF finite_smaller])
    then have "bubble_sort (int (length ?b)) ?b = Some (Inr (sort ?b))"
      using less.prems by (intro less.hyps) (simp_all only: bpass_length)
    moreover have "sort ?b = sort arr" by (rule properties_for_sort) (simp_all add: bpass_mset)
    ultimately show ?thesis using step m(2) False by simp
  qed
qed

section \<open>part3.c\<close>

definition initialize_array :: "int \<Rightarrow> int list \<Rightarrow> int list cres" where
  "initialize_array n arr = c_for 0 n (\<lambda>i arr. arr_set arr i 1) arr"

function mark_loop :: "int \<Rightarrow> int \<Rightarrow> int \<Rightarrow> int list \<Rightarrow> int list cres" where
  "mark_loop n p i arr =
     (if i < n then
        if s32 (i * p) < n then c_bind (arr_set arr (s32 (i * p)) 0) (mark_loop n p (i + 1)) else Inr arr
      else Inr arr)"
  by auto
termination by (relation "measure (\<lambda>(n, p, i, arr). nat (n - i))") auto

declare mark_loop.simps [simp del]

definition mark_multiples :: "int \<Rightarrow> int \<Rightarrow> int list \<Rightarrow> int list cres" where
  "mark_multiples n p arr = mark_loop n p 2 arr"

definition prime_number_sieves :: "int \<Rightarrow> int list \<Rightarrow> int list cres" where
  "prime_number_sieves n arr =
     c_bind (initialize_array n arr) (c_for 2 n (\<lambda>i. mark_multiples n i))"

text \<open>The search for the divisor: \<open>break\<close> ends it at the first hit. \<open>raw\<close> is the array \<open>malloc\<close>
  returned, and \<open>d\<close> the old value of \<open>*divisor\<close>.\<close>

function divisor_loop :: "int list \<Rightarrow> int \<Rightarrow> int \<Rightarrow> int \<Rightarrow> int cres" where
  "divisor_loop sieve n i d =
     (if i < n then c_bind (arr_at sieve i) (\<lambda>v.
        if v = 1 \<and> n smod i = 0 then Inr i else divisor_loop sieve n (i + 1) d)
      else Inr d)"
  by auto
termination by (relation "measure (\<lambda>(sieve, n, i, d). nat (n - i))") auto

declare divisor_loop.simps [simp del]

definition find_smallest_divisor :: "int \<Rightarrow> int list \<Rightarrow> int \<Rightarrow> (int \<times> int) cres" where
  "find_smallest_divisor n raw d =
     c_bind (prime_number_sieves (s32 (n + 1)) raw) (\<lambda>sieve.
     c_bind (divisor_loop sieve n 2 d) (\<lambda>d.
     c_bind (arr_at sieve n) (\<lambda>v. Inr (if v = 0 then 1 else 0, d))))"

definition composite :: "int \<Rightarrow> bool" where
  "composite k \<longleftrightarrow> (\<exists>p j. 2 \<le> p \<and> 2 \<le> j \<and> k = j * p)"

lemma initialize_ok:
  "\<exists>xs. initialize_array (int (length arr)) arr = Inr xs \<and> length xs = length arr \<and> (\<forall>k < length arr. xs ! k = 1)"
proof -
  let ?P = "\<lambda>i xs. length xs = length arr \<and> (\<forall>k. int k < i \<longrightarrow> xs ! k = (1 :: int))"
  have "\<exists>xs. initialize_array (int (length arr)) arr = Inr xs \<and> ?P (int (length arr)) xs"
    unfolding initialize_array_def
    by (rule c_for_inv [where P = ?P]) (auto simp: arr_set_int nth_list_update)
  then show ?thesis by auto
qed

lemma mark_loop_ok:
  assumes "0 < i" "2 \<le> p" "p < n" "n \<le> 2 ^ 30" "(i - 1) * p < n" "length arr = nat n"
  shows "\<exists>xs. mark_loop n p i arr = Inr xs \<and> length xs = nat n \<and>
    (\<forall>k < nat n. xs ! k = (if \<exists>j. i \<le> j \<and> int k = j * p then 0 else arr ! k))"
  using assms
proof (induction n p i arr rule: mark_loop.induct)
  case (1 n p i arr)
  have "i * p < 2 ^ 31" using 1(3-6) by (simp add: left_diff_distrib)
  moreover have "0 < i * p" using 1(2,3) by simp
  ultimately have s: "s32 (i * p) = i * p" by (intro s32_id) simp_all
  have none: "\<not> (\<exists>j. i \<le> j \<and> int k = j * p)" if "n \<le> i * p" "k < nat n" for k
  proof
    assume "\<exists>j. i \<le> j \<and> int k = j * p"
    then obtain j where "i \<le> j" "int k = j * p" by blast
    moreover from this have "i * p \<le> j * p" using 1(3) by (intro mult_right_mono) auto
    ultimately show False using that by linarith
  qed
  show ?case
  proof (cases "i * p < n")
    case True
    have "i \<le> i * p" using 1(2,3) by simp
    then have lt: "i < n" using True by simp
    let ?ys = "arr[nat (i * p) := 0]"
    have set: "arr_set arr (i * p) 0 = Inr ?ys" using 1(7) True \<open>0 < i * p\<close> by (intro arr_set_int) simp_all
    obtain xs where xs: "mark_loop n p (i + 1) ?ys = Inr xs" "length xs = nat n"
        "\<forall>k < nat n. xs ! k = (if \<exists>j. i + 1 \<le> j \<and> int k = j * p then 0 else ?ys ! k)"
      using 1(1) [OF lt _ , of ?ys] 1(2-7) s set True by auto
    have "xs ! k = (if \<exists>j. i \<le> j \<and> int k = j * p then 0 else arr ! k)" if k: "k < nat n" for k
    proof (cases "int k = i * p")
      case True
      then have "nat (i * p) = k" by (metis nat_int)
      then have "?ys ! k = 0" using k 1(7) by simp
      moreover have "\<exists>j. i \<le> j \<and> int k = j * p" using True by blast
      ultimately show ?thesis using xs(3) k by simp
    next
      case False
      then have "nat (i * p) \<noteq> k" using \<open>0 < i * p\<close> by auto
      then have "?ys ! k = arr ! k" by simp
      moreover have e: "(\<exists>j. i \<le> j \<and> int k = j * p) \<longleftrightarrow> (\<exists>j. i + 1 \<le> j \<and> int k = j * p)"
        using False by (metis add.commute order_le_less zless_add1_eq zle_add1_eq_le not_less)
      moreover have "xs ! k = (if \<exists>j. i + 1 \<le> j \<and> int k = j * p then 0 else ?ys ! k)" using xs(3) k by blast
      ultimately show ?thesis by (simp only: e)
    qed
    then show ?thesis using xs(1,2) lt True s set by (subst mark_loop.simps) simp
  next
    case False
    then show ?thesis using none s 1(7) by (subst mark_loop.simps) auto
  qed
qed

lemma sieve_ok:
  assumes "length arr = nat n" "2 \<le> n" "n \<le> 2 ^ 30"
  shows "\<exists>xs. prime_number_sieves n arr = Inr xs \<and> length xs = nat n \<and>
    (\<forall>k < nat n. xs ! k = (if composite (int k) then 0 else 1))"
proof -
  obtain ys where ys: "initialize_array n arr = Inr ys" "length ys = nat n" "\<forall>k < nat n. ys ! k = 1"
    using initialize_ok [of arr] assms by auto
  let ?P = "\<lambda>i xs. length xs = nat n \<and>
    (\<forall>k < nat n. xs ! k = (if \<exists>p j. 2 \<le> p \<and> p < i \<and> 2 \<le> j \<and> int k = j * p then 0 else 1 :: int))"
  have "\<exists>xs. c_for 2 n (\<lambda>i. mark_multiples n i) ys = Inr xs \<and> ?P n xs"
  proof (rule c_for_inv [where P = ?P])
    fix i xs assume i: "2 \<le> i" "i < n" "?P i xs"
    then obtain zs where zs: "mark_multiples n i xs = Inr zs" "length zs = nat n"
        "\<forall>k < nat n. zs ! k = (if \<exists>j. 2 \<le> j \<and> int k = j * i then 0 else xs ! k)"
      using mark_loop_ok [of 2 i n xs] assms(3) by (auto simp: mark_multiples_def)
    have lt: "p < i + 1 \<longleftrightarrow> p < i \<or> p = i" for p by auto
    have "zs ! k = (if \<exists>p j. 2 \<le> p \<and> p < i + 1 \<and> 2 \<le> j \<and> int k = j * p then 0 else 1)" if "k < nat n" for k
    proof -
      have "(\<exists>p j. 2 \<le> p \<and> p < i + 1 \<and> 2 \<le> j \<and> int k = j * p) \<longleftrightarrow>
          (\<exists>j. 2 \<le> j \<and> int k = j * i) \<or> (\<exists>p j. 2 \<le> p \<and> p < i \<and> 2 \<le> j \<and> int k = j * p)"
        using i(1) lt by blast
      then show ?thesis using zs(3) i(3) that by auto
    qed
    then show "\<exists>s'. mark_multiples n i xs = Inr s' \<and> ?P (i + 1) s'" using zs(1,2) by auto
  qed (use ys assms in auto)
  then obtain xs where xs: "c_for 2 n (\<lambda>i. mark_multiples n i) ys = Inr xs" "?P n xs" by blast
  have "(\<exists>p j. 2 \<le> p \<and> p < n \<and> 2 \<le> j \<and> int k = j * p) \<longleftrightarrow> composite (int k)" if "k < nat n" for k
  proof -
    have "p < n" if "2 \<le> p" "2 \<le> j" "int k = j * p" for p j
    proof -
      have "2 * p \<le> j * p" using that by (intro mult_right_mono) auto
      moreover have "int k < n" using \<open>k < nat n\<close> by simp
      ultimately show ?thesis using that by linarith
    qed
    then show ?thesis unfolding composite_def by blast
  qed
  then show ?thesis using xs ys(1) by (auto simp: prime_number_sieves_def)
qed

lemma divisor_loop_ok:
  assumes "2 \<le> i" "length sieve = nat (n + 1)"
    "\<forall>k < nat (n + 1). sieve ! k = (if composite (int k) then 0 else 1)"
  shows "\<exists>r. divisor_loop sieve n i d = Inr r \<and>
    ((\<forall>k. i \<le> k \<and> k < n \<longrightarrow> composite k \<or> \<not> k dvd n) \<and> r = d \<or>
     i \<le> r \<and> r < n \<and> \<not> composite r \<and> r dvd n \<and> (\<forall>k. i \<le> k \<and> k < r \<longrightarrow> composite k \<or> \<not> k dvd n))"
  using assms
proof (induction sieve n i d rule: divisor_loop.induct)
  case (1 sieve n i d)
  show ?case
  proof (cases "i < n")
    case True
    have at: "arr_at sieve i = Inr (if composite i then 0 else 1)"
      using True 1(2,3,4) by (simp add: arr_at_int)
    have "n smod i = n mod i" using True 1(2) by (intro smod_nonneg) simp_all
    then have dv: "n smod i = 0 \<longleftrightarrow> i dvd n" by (simp add: dvd_eq_mod_eq_0)
    show ?thesis
    proof (cases "\<not> composite i \<and> i dvd n")
      case hit: True
      then have "divisor_loop sieve n i d = Inr i" using True at dv by (subst divisor_loop.simps) simp
      then show ?thesis using hit True by auto
    next
      case miss: False
      then have "divisor_loop sieve n i d = divisor_loop sieve n (i + 1) d"
        using True at dv by (subst divisor_loop.simps) auto
      moreover have "(\<forall>k. i \<le> k \<and> k < m \<longrightarrow> composite k \<or> \<not> k dvd n) \<longleftrightarrow>
          (\<forall>k. i + 1 \<le> k \<and> k < m \<longrightarrow> composite k \<or> \<not> k dvd n)" for m
        using miss by (metis order_le_less zless_imp_add1_zle add1_zle_eq order_less_imp_le)
      ultimately show ?thesis
        using 1(1) [OF True at] miss dv 1(2-4) by fastforce
    qed
  next
    case False
    then show ?thesis by (subst divisor_loop.simps) auto
  qed
qed

text \<open>The least divisor above 1 is not composite.\<close>

lemma least_divisor:
  assumes "2 \<le> n"
  obtains p where "2 \<le> p" "p dvd n" "\<forall>k. 2 \<le> k \<and> k < p \<longrightarrow> \<not> k dvd n" "\<not> composite p"
proof -
  let ?Q = "\<lambda>m :: nat. 2 \<le> m \<and> int m dvd n"
  define m where "m = (LEAST m. ?Q m)"
  have q: "?Q (nat n)" using assms by simp
  have m: "2 \<le> m" "int m dvd n" using LeastI [of ?Q, OF q] by (simp_all add: m_def)
  have least: "\<not> k dvd n" if "2 \<le> k" "k < int m" for k
  proof
    assume "k dvd n"
    then have "m \<le> nat k" unfolding m_def using that by (intro Least_le) simp
    then show False using that by linarith
  qed
  have "\<not> composite (int m)"
  proof
    assume "composite (int m)"
    then obtain p j where pj: "2 \<le> p" "2 \<le> j" "int m = j * p" by (auto simp: composite_def)
    then have "2 * p \<le> int m" by (simp add: mult_right_mono)
    moreover have "p dvd n" using pj(3) m(2) by (metis dvd_mult_right)
    ultimately show False using least [of p] pj(1) by simp
  qed
  then show thesis using that [of "int m"] m least by simp
qed

lemma composite_iff:
  assumes "2 \<le> n"
  shows "composite n \<longleftrightarrow> (\<exists>k. 2 \<le> k \<and> k < n \<and> k dvd n)"
proof
  assume "composite n"
  then obtain p j where pj: "2 \<le> p" "2 \<le> j" "n = j * p" by (auto simp: composite_def)
  then have "2 * p \<le> n" by (simp add: mult_right_mono)
  then show "\<exists>k. 2 \<le> k \<and> k < n \<and> k dvd n" using pj by (intro exI [of _ p]) simp
next
  assume "\<exists>k. 2 \<le> k \<and> k < n \<and> k dvd n"
  then obtain k j where kj: "2 \<le> k" "k < n" "n = k * j" by (auto simp: dvd_def)
  then have "0 < k * j" by simp
  then have "0 < j" using kj(1) by (simp add: zero_less_mult_iff)
  moreover have "j \<noteq> 1" using kj by auto
  ultimately show "composite n" using kj unfolding composite_def by (intro exI [of _ j] exI [of _ k]) simp
qed

section \<open>Properties\<close>

text \<open>\<open>array_sum\<close> over the whole array is the sum of the elements, wrapped to 32 bits.\<close>

lemma array_sum_correct: "array_sum arr (int (length arr)) = Inr (s32 (sum_list arr))"
  by (rule array_sum_ok)

text \<open>C33: \<open>bubble_sort\<close> ends on every array and sorts it: the result is the sorted permutation of the
  input, and no access leaves the array.\<close>

theorem bubble_sort_correct:
  assumes "length arr < 2 ^ 31"
  shows "bubble_sort (int (length arr)) arr = Some (Inr (sort arr))"
  by (rule bubble_sort_ok [OF assms])

theorem bubble_sort_correct_witness: "bubble_sort 4 [3, -1, 2, -1] = Some (Inr [-1, -1, 2, 3])"
  using bubble_sort_correct [of "[3, -1, 2, -1]"] by simp

text \<open>For \<open>n\<close> from 2 to \<open>2 ^ 30\<close>, \<open>prime_number_sieves\<close> returns with 0 at exactly the composite indices
  and 1 elsewhere, whatever the array held.\<close>

lemma prime_number_sieves_correct:
  assumes "length arr = nat n" "2 \<le> n" "n \<le> 2 ^ 30"
  shows "\<exists>xs. prime_number_sieves n arr = Inr xs \<and> length xs = nat n \<and>
    (\<forall>k < nat n. xs ! k = (if composite (int k) then 0 else 1))"
  by (rule sieve_ok [OF assms])

text \<open>\<open>find_smallest_divisor\<close> of a composite \<open>n\<close> below \<open>2 ^ 30\<close> returns 1 and stores the smallest divisor
  above 1; for a prime it returns 0 and leaves \<open>*divisor\<close> as it was.\<close>

lemma find_smallest_divisor_correct:
  assumes "2 \<le> n" "n < 2 ^ 30" "length raw = nat (n + 1)"
  shows "\<exists>r v. find_smallest_divisor n raw d = Inr (r, v) \<and>
    (if composite n then r = 1 \<and> 2 \<le> v \<and> v < n \<and> v dvd n \<and> (\<forall>k. 2 \<le> k \<and> k < v \<longrightarrow> \<not> k dvd n)
     else r = 0 \<and> v = d)"
proof -
  have s: "s32 (n + 1) = n + 1" using assms by (intro s32_id) simp_all
  obtain xs where xs: "prime_number_sieves (n + 1) raw = Inr xs" "length xs = nat (n + 1)"
      "\<forall>k < nat (n + 1). xs ! k = (if composite (int k) then 0 else 1)"
    using sieve_ok [of raw "n + 1"] assms by auto
  obtain v where v: "divisor_loop xs n 2 d = Inr v"
      "(\<forall>k. 2 \<le> k \<and> k < n \<longrightarrow> composite k \<or> \<not> k dvd n) \<and> v = d \<or>
       2 \<le> v \<and> v < n \<and> \<not> composite v \<and> v dvd n \<and> (\<forall>k. 2 \<le> k \<and> k < v \<longrightarrow> composite k \<or> \<not> k dvd n)"
    using divisor_loop_ok [OF _ xs(2,3), of 2 d] by auto
  have at: "arr_at xs n = Inr (if composite n then 0 else 1)" using xs assms(1) by (simp add: arr_at_int)
  have run: "find_smallest_divisor n raw d = Inr (if composite n then 1 else 0, v)"
    by (simp add: find_smallest_divisor_def s xs(1) v(1) at)
  obtain p where p: "2 \<le> p" "p dvd n" "\<forall>k. 2 \<le> k \<and> k < p \<longrightarrow> \<not> k dvd n" "\<not> composite p"
    by (rule least_divisor [OF assms(1)])
  show ?thesis
  proof (cases "composite n")
    case True
    then obtain k where "2 \<le> k" "k < n" "k dvd n" using composite_iff [OF assms(1)] by blast
    then have "p < n" using p(3) by (metis linorder_not_le order_le_less_trans)
    then have "2 \<le> v \<and> v < n \<and> \<not> composite v \<and> v dvd n \<and> (\<forall>k. 2 \<le> k \<and> k < v \<longrightarrow> composite k \<or> \<not> k dvd n)"
      using v(2) p by blast
    moreover from this have "v = p" using p by (metis linorder_neqE_linordered_idom)
    ultimately show ?thesis using run p True by auto
  next
    case False
    then have "\<not> (\<exists>k. 2 \<le> k \<and> k < n \<and> k dvd n)" using composite_iff [OF assms(1)] by blast
    then have "v = d" using v(2) by blast
    then show ?thesis using run False by simp
  qed
qed

end
