(* ===== verification/ClabPoint.thy ===== *)
theory ClabPoint
  imports CDouble
begin

text \<open>
  clab/mini/part4.c: points in the plane with \<open>double\<close> coordinates.
\<close>

record point =
  x_coord :: double
  y_coord :: double

definition set_point :: "double \<Rightarrow> double \<Rightarrow> point \<Rightarrow> point" where
  "set_point x y pt = pt\<lparr>x_coord := x, y_coord := y\<rparr>"

definition point_dist :: "point \<Rightarrow> point \<Rightarrow> double" where
  "point_dist pt1 pt2 =
     (let dx = dsub (x_coord pt1) (x_coord pt2);
          dy = dsub (y_coord pt1) (y_coord pt2)
      in dsqrt (dadd (dmul dx dx) (dmul dy dy)))"

definition moderate :: "real \<Rightarrow> bool" where
  "moderate d \<longleftrightarrow> d = 0 \<or> 2 powi (- 500) \<le> \<bar>d\<bar> \<and> \<bar>d\<bar> \<le> 2 powi 500"

lemma square_moderate:
  assumes "moderate d" shows "d\<^sup>2 = 0 \<or> 2 powi (- 1000) \<le> d\<^sup>2 \<and> d\<^sup>2 \<le> 2 powi 1000"
proof (cases "d = 0")
  case False
  have d: "2 powi (- 500) \<le> \<bar>d\<bar>" "\<bar>d\<bar> \<le> 2 powi 500" using assms False unfolding moderate_def by blast+
  have "(2 powi (- 500))\<^sup>2 \<le> \<bar>d\<bar>\<^sup>2" by (rule power_mono [OF d(1)]) simp
  moreover have "\<bar>d\<bar>\<^sup>2 \<le> (2 powi 500)\<^sup>2" by (rule power_mono [OF d(2)]) simp
  moreover have "(2::real) powi (- 1000) = (2 powi (- 500))\<^sup>2" "(2::real) powi 1000 = (2 powi 500)\<^sup>2"
    by (simp_all only: power_int_power') simp_all
  ultimately show ?thesis unfolding power2_abs by presburger
qed simp

text \<open>One coordinate: the difference and its square, three roundings.\<close>

lemma squared_difference:
  assumes "moderate (a - b)"
  shows "\<exists>s. dmul (dsub (Fin a) (Fin b)) (dsub (Fin a) (Fin b)) = Fin s \<and> near 3 s ((a - b)\<^sup>2)"
proof -
  let ?d = "a - b"
  have m: "\<bar>?d\<bar> = 0 \<or> 2 powi (- 1010) \<le> \<bar>?d\<bar> \<and> \<bar>?d\<bar> \<le> 2 powi 1010"
    using assms powi_le_iff [of "- 1010" "- 500"] powi_le_iff [of 500 1010] unfolding moderate_def by linarith
  have n: "near 1 (rnd \<bar>?d\<bar>) \<bar>?d\<bar>" "to_double \<bar>?d\<bar> = Fin (rnd \<bar>?d\<bar>)"
    using near_to_double [OF near_exact _ m] by simp_all
  have "to_double ?d = Fin (rnd ?d)"
  proof (cases "0 \<le> ?d")
    case False
    then show ?thesis using n(2) to_double_minus [of "- ?d"] rnd_minus [of "- ?d"] by simp
  qed (use n(2) in simp)
  then have 1: "dsub (Fin a) (Fin b) = Fin (rnd ?d)" by (simp add: dsub_def)
  have "near 2 (rnd \<bar>?d\<bar> * rnd \<bar>?d\<bar>) (\<bar>?d\<bar> * \<bar>?d\<bar>)" using near_mult [OF n(1) n(1)] by (simp add: numeral_2_eq_2)
  then have n2: "near 2 (rnd ?d * rnd ?d) (?d\<^sup>2)"
    unfolding dbl.abs_round [symmetric] by (simp add: power2_eq_square)
  have "?d\<^sup>2 = 0 \<or> 2 powi (- 1010) \<le> ?d\<^sup>2 \<and> ?d\<^sup>2 \<le> 2 powi 1010"
    using square_moderate [OF assms] powi_le_iff [of "- 1010" "- 1000"] powi_le_iff [of 1000 1010] by linarith
  from near_to_double [OF n2 _ this] show ?thesis by (simp add: 1 numeral_3_eq_3 numeral_2_eq_2)
qed

text \<open>C38: when the differences of the coordinates are zero or of moderate size, \<open>point_dist\<close> neither
  overflows nor underflows, and its result is the Euclidean distance up to the relative error of three
  roundings.\<close>

theorem point_dist_accurate:
  assumes "moderate (x1 - x2)" "moderate (y1 - y2)"
  shows "\<exists>d. point_dist (set_point (Fin x1) (Fin y1) p) (set_point (Fin x2) (Fin y2) q) = Fin d \<and>
    near 3 d (sqrt ((x1 - x2)\<^sup>2 + (y1 - y2)\<^sup>2))"
proof -
  let ?e = "(x1 - x2)\<^sup>2 + (y1 - y2)\<^sup>2"
  obtain sx sy where s: "dmul (dsub (Fin x1) (Fin x2)) (dsub (Fin x1) (Fin x2)) = Fin sx" "near 3 sx ((x1 - x2)\<^sup>2)"
      "dmul (dsub (Fin y1) (Fin y2)) (dsub (Fin y1) (Fin y2)) = Fin sy" "near 3 sy ((y1 - y2)\<^sup>2)"
    using squared_difference [OF assms(1)] squared_difference [OF assms(2)] by blast
  have e: "?e = 0 \<or> 2 powi (- 1000) \<le> ?e \<and> ?e \<le> 2 powi 1001"
    using square_moderate [OF assms(1)] square_moderate [OF assms(2)] power_int_add [of "2::real" 1000 1]
      zero_le_power2 [of "x1 - x2"] zero_le_power2 [of "y1 - y2"] by auto
  then have "?e = 0 \<or> 2 powi (- 1010) \<le> ?e \<and> ?e \<le> 2 powi 1010"
    using powi_le_iff [of "- 1010" "- 1000"] powi_le_iff [of 1001 1010] by linarith
  from near_to_double [OF near_add [OF s(2,4)] _ this]
  have 1: "to_double (sx + sy) = Fin (rnd (sx + sy))" "near 4 (rnd (sx + sy)) ?e" by simp_all
  have n: "near 2 (sqrt (rnd (sx + sy))) (sqrt ?e)" using near_sqrt [of 2] 1(2) by simp
  have "0 \<le> (1 - unit_roundoff) ^ 4 * ?e" by (simp add: unit_roundoff_def)
  then have pos: "\<not> rnd (sx + sy) < 0" using 1(2) unfolding near_def by linarith
  have "sqrt ?e = 0 \<or> 2 powi (- 1010) \<le> sqrt ?e \<and> sqrt ?e \<le> 2 powi 1010"
  proof (cases "?e = 0")
    case False
    have eq: "2 * - 500 = (- 1000 :: int)" "2 * 501 = (1002 :: int)" by simp_all
    have h: "2 powi (2 * - 500) \<le> ?e" "?e \<le> 2 powi (2 * 501)"
      using False e powi_le_iff [of 1001 1002] unfolding eq by linarith+
    have "2 powi (- 500) \<le> sqrt ?e" using real_sqrt_le_mono [OF h(1)] unfolding sqrt_powi .
    moreover have "sqrt ?e \<le> 2 powi 501" using real_sqrt_le_mono [OF h(2)] unfolding sqrt_powi .
    ultimately show ?thesis using powi_le_iff [of "- 1010" "- 500"] powi_le_iff [of 501 1010] by linarith
  qed simp
  from near_to_double [OF n _ this] show ?thesis
    using s(1,3) 1(1) pos by (simp add: point_dist_def set_point_def numeral_3_eq_3 numeral_2_eq_2)
qed

theorem point_dist_accurate_witness:
  "\<exists>d. point_dist (set_point (Fin 4) (Fin 6) \<lparr>x_coord = Fin 0, y_coord = NaN\<rparr>)
      (set_point (Fin 1) (Fin 2) \<lparr>x_coord = Fin 0, y_coord = Fin 0\<rparr>) = Fin d \<and>
    near 3 d (sqrt ((4 - 1)\<^sup>2 + (6 - 2)\<^sup>2))"
  by (rule point_dist_accurate) (simp_all add: moderate_def power_int_minus)

lemma point_dist_self:
  assumes "x_coord p = Fin x" "y_coord p = Fin y" shows "point_dist p p = Fin 0"
  using assms by (simp add: point_dist_def dsub_def to_double_def)

lemma point_dist_nan: "x_coord p = NaN \<Longrightarrow> point_dist p q = NaN"
  by (simp add: point_dist_def dsub_def)

end
