(* ===== verification/ClabTree.thy ===== *)
theory ClabTree
  imports CPrelude
begin

text \<open>
  clab/mini/part7.c: the sorted binary tree of strings. Nodes are not shared, so a subtree is a value:
  \<open>TNull\<close> is the null pointer and \<open>TUninit\<close> a pointer field that was never written, which must not be read.
  The field \<open>count\<close> of part7.h is never used. The arrays that the traversals fill hold string pointers,
  \<open>None\<close> for NULL; \<open>malloc\<close> is taken to succeed.
\<close>

datatype tnode = TNull | TUninit | TNode "string option" tnode tnode

definition child :: "tnode \<Rightarrow> tnode cres" where
  "child t = (if t = TUninit then Inl Uninitialised else Inr t)"

definition alloc_tnode :: "string \<Rightarrow> tnode" where
  "alloc_tnode s = TNode (Some s) TNull TNull"

definition init_tree :: tnode where
  "init_tree = TNode None TUninit TUninit"

fun tree_insert :: "tnode \<Rightarrow> string \<Rightarrow> (int \<times> tnode) cres" where
  "tree_insert TNull s = Inl NullDeref"
| "tree_insert TUninit s = Inl Uninitialised"
| "tree_insert (TNode None l r) s = Inr (0, TNode (Some s) l r)"
| "tree_insert (TNode (Some x) l r) s =
     (let path = strcmp x s in
      if path > 0 then
        c_bind (child l) (\<lambda>_.
        if l = TNull then Inr (0, TNode (Some x) (alloc_tnode s) r)
        else c_bind (tree_insert l s) (\<lambda>(v, l'). Inr (v, TNode (Some x) l' r)))
      else if path < 0 then
        c_bind (child r) (\<lambda>_.
        if r = TNull then Inr (0, TNode (Some x) l (alloc_tnode s))
        else c_bind (tree_insert r s) (\<lambda>(v, r'). Inr (v, TNode (Some x) l r')))
      else Inr (1, TNode (Some x) l r))"

text \<open>The traversals: the position and the array after the visit.\<close>

fun preorder_do :: "tnode \<Rightarrow> string option list \<Rightarrow> int \<Rightarrow> int \<Rightarrow> (int \<times> string option list) cres" where
  "preorder_do TNull result cur_position result_max =
     (if cur_position \<ge> result_max then Inr (cur_position, result) else Inl NullDeref)"
| "preorder_do TUninit result cur_position result_max = Inl Uninitialised"
| "preorder_do (TNode x l r) result cur_position result_max =
     (if cur_position \<ge> result_max then Inr (cur_position, result)
      else c_bind (arr_set result cur_position x) (\<lambda>result.
        c_bind (child l) (\<lambda>_.
        c_bind (if l \<noteq> TNull then preorder_do l result (cur_position + 1) result_max
                else Inr (cur_position + 1, result)) (\<lambda>(cur_position, result).
        c_bind (child r) (\<lambda>_.
        if r \<noteq> TNull then preorder_do r result cur_position result_max else Inr (cur_position, result))))))"

definition preorder :: "tnode \<Rightarrow> string option list \<Rightarrow> int \<Rightarrow> (int \<times> string option list) cres" where
  "preorder t result result_max = preorder_do t result 0 result_max"

fun inorder_do :: "tnode \<Rightarrow> string option list \<Rightarrow> int \<Rightarrow> int \<Rightarrow> (int \<times> string option list) cres" where
  "inorder_do TNull result cur_position max_result =
     (if cur_position \<ge> max_result then Inr (cur_position, result) else Inl NullDeref)"
| "inorder_do TUninit result cur_position max_result = Inl Uninitialised"
| "inorder_do (TNode x l r) result cur_position max_result =
     (if cur_position \<ge> max_result then Inr (cur_position, result)
      else c_bind (child l) (\<lambda>_.
        c_bind (if l \<noteq> TNull then inorder_do l result cur_position max_result
                else Inr (cur_position, result)) (\<lambda>(cur_position, result).
        c_bind (arr_set result cur_position x) (\<lambda>result.
        c_bind (child r) (\<lambda>_.
        if r \<noteq> TNull then inorder_do r result (cur_position + 1) max_result
        else Inr (cur_position + 1, result))))))"

definition inorder :: "tnode \<Rightarrow> string option list \<Rightarrow> int \<Rightarrow> (int \<times> string option list) cres" where
  "inorder t result max_result = inorder_do t result 0 max_result"

text \<open>\<open>del_tree\<close>: the number of nodes it frees, if it gets through.\<close>

fun del_tree :: "tnode \<Rightarrow> int cres" where
  "del_tree TNull = Inr 0"
| "del_tree TUninit = Inl Uninitialised"
| "del_tree (TNode x l r) =
     c_bind (child l) (\<lambda>_.
     c_bind (if l \<noteq> TNull then del_tree l else Inr 0) (\<lambda>m.
     c_bind (child r) (\<lambda>_.
     c_bind (if r \<noteq> TNull then del_tree r else Inr 0) (\<lambda>n. Inr (m + n + 1)))))"

section \<open>Sorted trees\<close>

fun elems :: "tnode \<Rightarrow> string list" where
  "elems (TNode (Some x) l r) = elems l @ x # elems r"
| "elems _ = []"

fun whole :: "tnode \<Rightarrow> bool" where
  "whole TNull = True"
| "whole (TNode (Some x) l r) = (whole l \<and> whole r)"
| "whole _ = False"

fun bst :: "tnode \<Rightarrow> bool" where
  "bst TNull = True"
| "bst (TNode (Some x) l r) = ((\<forall>y \<in> set (elems l). y < x) \<and> (\<forall>y \<in> set (elems r). x < y) \<and> bst l \<and> bst r)"
| "bst _ = False"

lemma bst_whole: "bst t \<Longrightarrow> whole t"
  by (induction t rule: bst.induct) auto

lemma bst_sorted: "bst t \<Longrightarrow> sorted (elems t) \<and> distinct (elems t)"
proof (induction t rule: bst.induct)
  case (2 x l r)
  then have s: "sorted (elems l)" "distinct (elems l)" "sorted (elems r)" "distinct (elems r)"
      "\<forall>y \<in> set (elems l). y < x" "\<forall>y \<in> set (elems r). x < y" by auto
  have "\<forall>y \<in> set (elems l). \<forall>z \<in> set (elems r). y < z" using s(5,6) by (meson order_less_trans)
  then show ?case using s by (auto simp: sorted_append intro: less_imp_le)
qed auto

lemma tree_insert_ok:
  "bst t \<Longrightarrow> t \<noteq> TNull \<Longrightarrow> \<exists>t'. tree_insert t s = Inr (if s \<in> set (elems t) then 1 else 0, t') \<and>
     bst t' \<and> t' \<noteq> TNull \<and> set (elems t') = insert s (set (elems t))"
proof (induction t s rule: tree_insert.induct)
  case (4 x l r s)
  have p: "0 < strcmp x s \<longleftrightarrow> s < x" "strcmp x s < 0 \<longleftrightarrow> x < s" by (simp_all add: strcmp_order)
  have b: "bst l" "bst r" "\<forall>y \<in> set (elems l). y < x" "\<forall>y \<in> set (elems r). x < y" using "4.prems"(1) by auto
  have c: "child l = Inr l" "child r = Inr r" using b by (auto simp: child_def)
  consider "s < x" | "x < s" | "s = x" by (meson linorder_less_linear)
  then show ?case
  proof cases
    case 1
    then have nr: "s \<notin> set (elems r)" using b(4) by fastforce
    show ?thesis
    proof (cases "l = TNull")
      case True
      then show ?thesis using 1 p c b nr by (auto simp: alloc_tnode_def)
    next
      case False
      obtain l' where "tree_insert l s = Inr (if s \<in> set (elems l) then 1 else 0, l')" "bst l'"
          "set (elems l') = insert s (set (elems l))"
        using "4.IH"(1) [of "strcmp x s" l] 1 p c b False by auto
      then show ?thesis using 1 p c b nr False by auto
    qed
  next
    case 2
    then have nl: "s \<notin> set (elems l)" using b(3) by fastforce
    show ?thesis
    proof (cases "r = TNull")
      case True
      then show ?thesis using 2 p c b nl by (auto simp: alloc_tnode_def)
    next
      case False
      have np: "\<not> 0 < strcmp x s" using p 2 by auto
      obtain r' where "tree_insert r s = Inr (if s \<in> set (elems r) then 1 else 0, r')" "bst r'"
          "set (elems r') = insert s (set (elems r))"
        using "4.IH"(2) [of "strcmp x s" r] 2 p np c b False by auto
      then show ?thesis using 2 p np c b nl False by auto
    qed
  next
    case 3
    have z: "strcmp x x = 0" by simp
    show ?thesis using 3 b by (simp add: Let_def z insert_absorb)
  qed
qed auto


fun insert_all :: "tnode \<Rightarrow> string list \<Rightarrow> tnode cres" where
  "insert_all t [] = Inr t"
| "insert_all t (s # ss) = c_bind (tree_insert t s) (\<lambda>(_, t). insert_all t ss)"

lemma insert_all_ok:
  "bst t \<Longrightarrow> t \<noteq> TNull \<Longrightarrow> \<exists>t'. insert_all t ss = Inr t' \<and> bst t' \<and> t' \<noteq> TNull \<and>
     set (elems t') = set ss \<union> set (elems t)"
proof (induction ss arbitrary: t)
  case (Cons s ss)
  obtain v t1 where 1: "tree_insert t s = Inr (v, t1)" "bst t1" "t1 \<noteq> TNull"
      "set (elems t1) = insert s (set (elems t))"
    using tree_insert_ok [OF Cons.prems] by blast
  show ?case using Cons.IH [OF 1(2,3)] 1 by simp
qed simp

section \<open>Traversals\<close>

definition put :: "string option list \<Rightarrow> nat \<Rightarrow> string list \<Rightarrow> string option list" where
  "put r i xs = take i r @ map Some xs @ drop (i + length xs) r"

lemma put_Nil [simp]: "put r i [] = r"
  by (simp add: put_def)

lemma put_put: "i + length xs \<le> length r \<Longrightarrow> put (put r i xs) (i + length xs) ys = put r i (xs @ ys)"
  by (cases xs) (auto simp: put_def min_def ac_simps)

lemma length_put [simp]: "i + length xs \<le> length r \<Longrightarrow> length (put r i xs) = length r"
  by (simp add: put_def)

lemma arr_set_put: "i < length r \<Longrightarrow> arr_set r (int i) (Some x) = Inr (put r i [x])"
  by (simp add: put_def upd_conv_take_nth_drop)

lemma whole_child: "whole t \<Longrightarrow> child t = Inr t"
  by (cases t) (auto simp: child_def)

fun pre :: "tnode \<Rightarrow> string list" where
  "pre (TNode (Some x) l r) = x # pre l @ pre r"
| "pre _ = []"

lemma preorder_do_whole:
  "whole t \<Longrightarrow> t \<noteq> TNull \<Longrightarrow> pos \<le> m \<Longrightarrow> m \<le> length res \<Longrightarrow>
     preorder_do t res (int pos) (int m) =
       Inr (int (pos + length (take (m - pos) (pre t))), put res pos (take (m - pos) (pre t)))"
proof (induction t arbitrary: pos res)
  case (TNode x l r)
  obtain y where x: "x = Some y" using TNode.prems(1) by (cases x) auto
  have w: "whole l" "whole r" using TNode.prems(1) x by auto
  show ?case
  proof (cases "pos < m")
    case False
    then show ?thesis using TNode.prems by simp
  next
    case True
    define k where "k = m - Suc pos"
    define L where "L = take k (pre l)"
    define R where "R = take (k - length L) (pre r)"
    have mk: "m - pos = Suc k" using True by (simp add: k_def)
    have lenL: "length L \<le> k" by (simp add: L_def)
    have lenR: "length R \<le> k - length L" by (simp add: R_def)
    have kb: "Suc pos + k = m" using True by (simp add: k_def)
    define r1 where "r1 = put res pos [y]"
    have r1: "arr_set res (int pos) x = Inr r1" "length r1 = length res"
      using arr_set_put [of pos res y] True TNode.prems x by (simp_all add: r1_def del: arr_set_nth)
    have left: "(if l \<noteq> TNull then preorder_do l r1 (int pos + 1) (int m) else Inr (int pos + 1, r1)) =
        Inr (int (Suc pos + length L), put r1 (Suc pos) L)"
    proof (cases "l = TNull")
      case True
      then have "L = []" by (simp add: L_def)
      then show ?thesis using True by simp
    next
      case False
      have "preorder_do l r1 (int (Suc pos)) (int m) = Inr (int (Suc pos + length L), put r1 (Suc pos) L)"
        unfolding L_def k_def using TNode.prems True r1 w False by (intro TNode.IH(1)) auto
      then show ?thesis using False by (simp add: add.commute)
    qed
    define r2 where "r2 = put r1 (Suc pos) L"
    have lr2: "length r2 = length res" unfolding r2_def using r1 lenL kb TNode.prems by simp
    define p2 where "p2 = Suc pos + length L"
    have p2: "p2 \<le> m" "m - p2 = k - length L" using lenL kb by (simp_all add: p2_def)
    have right: "(if r \<noteq> TNull then preorder_do r r2 (int p2) (int m) else Inr (int p2, r2)) =
        Inr (int (p2 + length R), put r2 p2 R)"
    proof (cases "r = TNull")
      case True
      then have "R = []" by (simp add: R_def)
      then show ?thesis using True by simp
    next
      case False
      have "preorder_do r r2 (int p2) (int m) = Inr (int (p2 + length R), put r2 p2 R)"
        unfolding R_def p2(2) [symmetric] using TNode.prems lr2 w False p2 by (intro TNode.IH(2)) auto
      then show ?thesis using False by simp
    qed
    have out: "take (m - pos) (pre (TNode x l r)) = y # L @ R"
      by (simp add: mk x L_def R_def min_def)
    have puts: "put r2 p2 R = put res pos (y # L @ R)"
    proof -
      have "r2 = put res pos (y # L)" unfolding r2_def r1_def
        using put_put [of pos "[y]" res L] True TNode.prems by simp
      then show ?thesis unfolding p2_def using put_put [of pos "y # L" res R] lenL kb TNode.prems by simp
    qed
    have left': "(if l \<noteq> TNull then preorder_do l r1 (int pos + 1) (int m) else Inr (int pos + 1, r1)) =
        Inr (int p2, r2)" using left by (simp only: r2_def p2_def)
    have "preorder_do (TNode x l r) res (int pos) (int m) = Inr (int (p2 + length R), put r2 p2 R)"
      using True r1 w left' right by (simp add: whole_child)
    then show ?thesis by (simp only: out puts) (simp add: p2_def)
  qed
qed auto

lemma inorder_do_whole:
  "whole t \<Longrightarrow> t \<noteq> TNull \<Longrightarrow> pos + length (elems t) \<le> m \<Longrightarrow> m \<le> length res \<Longrightarrow>
     inorder_do t res (int pos) (int m) = Inr (int (pos + length (elems t)), put res pos (elems t))"
proof (induction t arbitrary: pos res)
  case (TNode x l r)
  obtain y where x: "x = Some y" using TNode.prems(1) by (cases x) auto
  have w: "whole l" "whole r" using TNode.prems(1) x by auto
  have room: "pos + length (elems l) + 1 + length (elems r) \<le> m" using TNode.prems(3) x by simp
  have left: "(if l \<noteq> TNull then inorder_do l res (int pos) (int m) else Inr (int pos, res)) =
      Inr (int (pos + length (elems l)), put res pos (elems l))"
    using TNode.IH(1) [of pos res] w room TNode.prems(4) by auto
  define p1 where "p1 = pos + length (elems l)"
  define r1 where "r1 = put res pos (elems l)"
  define r2 where "r2 = put r1 p1 [y]"
  have r2: "arr_set r1 (int p1) x = Inr r2" "length r2 = length res"
    using arr_set_put [of p1 r1 y] room TNode.prems(4) x
    by (simp_all add: r2_def r1_def p1_def del: arr_set_nth)
  have right: "(if r \<noteq> TNull then inorder_do r r2 (int p1 + 1) (int m) else Inr (int p1 + 1, r2)) =
      Inr (int (Suc p1 + length (elems r)), put r2 (Suc p1) (elems r))"
  proof (cases "r = TNull")
    case False
    have "inorder_do r r2 (int (Suc p1)) (int m) =
        Inr (int (Suc p1 + length (elems r)), put r2 (Suc p1) (elems r))"
      using w room r2 TNode.prems(4) False by (intro TNode.IH(2)) (auto simp: p1_def)
    then show ?thesis using False by (simp add: add.commute)
  qed simp
  have puts: "put r2 (Suc p1) (elems r) = put res pos (elems (TNode x l r))"
  proof -
    have "r2 = put res pos (elems l @ [y])" unfolding r2_def r1_def p1_def
      using put_put [of pos "elems l" res "[y]"] room TNode.prems(4) by simp
    then show ?thesis unfolding p1_def
      using put_put [of pos "elems l @ [y]" res "elems r"] room TNode.prems(4) x by simp
  qed
  have nm: "\<not> m \<le> pos" using room by simp
  have "inorder_do (TNode x l r) res (int pos) (int m) =
      Inr (int (Suc p1 + length (elems r)), put r2 (Suc p1) (elems r))"
    using r2 w left right by (simp add: nm whole_child r1_def [symmetric] p1_def [symmetric])
  then show ?case by (simp only: puts) (simp add: p1_def x)
qed auto


section \<open>The properties\<close>

text \<open>\<open>insert\<close> on a sorted tree always returns: 1 and no change of the stored strings when the string is
  there, 0 when it is new; the tree stays sorted without duplicates and holds exactly the old strings
  and the new one.\<close>

lemma tree_insert_correct:
  assumes "bst t" "t \<noteq> TNull"
  shows "\<exists>t'. tree_insert t s = Inr (if s \<in> set (elems t) then 1 else 0, t') \<and> bst t' \<and>
    sorted (elems t') \<and> distinct (elems t') \<and> set (elems t') = insert s (set (elems t))"
proof -
  obtain t' where "tree_insert t s = Inr (if s \<in> set (elems t) then 1 else 0, t')" "bst t'"
      "set (elems t') = insert s (set (elems t))"
    using tree_insert_ok [OF assms] by blast
  then show ?thesis using bst_sorted by (intro exI [of _ t']) simp
qed



text \<open>\<open>preorder\<close> respects the size it is given: on every complete tree it writes exactly the first
  \<open>result_max\<close> strings of the preorder sequence at the front of the array, returns how many it wrote,
  and touches nothing beyond.\<close>

lemma preorder_correct:
  assumes "whole t" "t \<noteq> TNull" "m \<le> length res"
  shows "preorder t res (int m) =
    Inr (int (length (take m (pre t))), map Some (take m (pre t)) @ drop (length (take m (pre t))) res)"
  using preorder_do_whole [OF assms(1,2), of 0 m res] assms(3) by (simp add: preorder_def put_def)

text \<open>\<open>inorder\<close> does not respect the size it is given: it checks the position before visiting the left
  child and not again before it stores the node's own string, so a node with a left child and an array
  of one element is written out of bounds.\<close>

lemma inorder_overflows:
  "inorder (TNode (Some y) (TNode (Some x) TNull TNull) TNull) [v] 1 = Inl OutOfBounds"
  by (simp add: inorder_def child_def arr_set_def)

text \<open>The tree that \<open>init_tree\<close> returns has children pointers that were never written: the first
  \<open>insert\<close> stores its string in the root, and every later \<open>insert\<close> of another string, and every
  traversal with room, reads an uninitialised pointer.\<close>

lemma init_tree_uninitialised:
  "\<exists>t. tree_insert init_tree s = Inr (0, t) \<and>
    (s' \<noteq> s \<longrightarrow> tree_insert t s' = Inl Uninitialised) \<and> preorder t [v] 1 = Inl Uninitialised \<and>
    inorder t [v] 1 = Inl Uninitialised \<and> del_tree t = Inl Uninitialised"
proof -
  have "s' \<noteq> s \<Longrightarrow> strcmp s s' \<noteq> 0" by auto
  then have "s' \<noteq> s \<longrightarrow> tree_insert (TNode (Some s) TUninit TUninit) s' = Inl Uninitialised"
    by (auto simp: child_def Let_def)
  then show ?thesis by (simp add: init_tree_def preorder_def inorder_def child_def arr_set_def)
qed

end
