(* ===== verification/TreeTest.thy ===== *)
theory TreeTest
  imports ClabTree
begin

text \<open>
  clab/mini/part7_harness.c, the test program of part7.c, and panic_cond.h. The argument \<open>new_tree\<close> is what
  \<open>init_tree\<close> returns, \<open>rnd k\<close> the result of the \<open>k\<close>-th call of \<open>rand\<close>, and \<open>mem\<close> what \<open>malloc\<close> leaves in an array of
  string pointers. \<open>qsort\<close> with \<open>strcmp\<close> sorts the strings. What is printed is left out, also the
  statement of \<open>concat_strings\<close> whose semicolon is missing; freed memory is not used again.
\<close>

section \<open>Helpers\<close>

definition panic_cond :: "bool \<Rightarrow> unit cres" where
  "panic_cond cond = c_assert cond"

definition str_of :: "string option \<Rightarrow> string cres" where
  "str_of p = (case p of None \<Rightarrow> Inl NullDeref | Some s \<Rightarrow> Inr s)"

definition concat_strings :: "string option list \<Rightarrow> int \<Rightarrow> string cres" where
  "concat_strings list n =
     (let debug_strlen = 10000 in
      c_for 0 n (\<lambda>i debug_str. c_bind (arr_at list i) (\<lambda>p. c_bind (str_of p) (\<lambda>s.
        if debug_strlen < length debug_str + length s + 2 then Inl OutOfBounds
        else let debug_str = debug_str @ s @ '' '' in
          c_bind (c_assert (length debug_str < debug_strlen)) (\<lambda>_. Inr debug_str)))) [])"

fun rand_chars :: "(nat \<Rightarrow> int) \<Rightarrow> nat \<Rightarrow> nat \<Rightarrow> string" where
  "rand_chars rnd k 0 = []"
| "rand_chars rnd k (Suc n) = char_of (rnd k smod 9 + 49) # rand_chars rnd (Suc k) n"

fun gen_rand_strings :: "(nat \<Rightarrow> int) \<Rightarrow> nat \<Rightarrow> nat \<Rightarrow> nat \<Rightarrow> string list" where
  "gen_rand_strings rnd k 0 n_chars = []"
| "gen_rand_strings rnd k (Suc num_strings) n_chars =
     rand_chars rnd k n_chars # gen_rand_strings rnd (k + n_chars) num_strings n_chars"

definition qsort_strings :: "string list \<Rightarrow> string list" where
  "qsort_strings strings = sort strings"

definition fresh_array :: "(nat \<Rightarrow> string option) \<Rightarrow> nat \<Rightarrow> string option list" where
  "fresh_array mem n = map mem [0..<n]"

section \<open>The tests\<close>

definition challenge_question :: "tnode \<Rightarrow> (nat \<Rightarrow> int) \<Rightarrow> int \<Rightarrow> unit cres" where
  "challenge_question new_tree rnd num_nodes =
     (let strings = gen_rand_strings rnd 0 (nat num_nodes) 20 in
      c_bind (insert_all new_tree strings) (\<lambda>tree. c_bind (del_tree tree) (\<lambda>_.
      c_bind (insert_all new_tree (qsort_strings strings)) (\<lambda>tree. c_bind (del_tree tree) (\<lambda>_. Inr ())))))"

fun insert_new :: "tnode \<Rightarrow> string list \<Rightarrow> tnode cres" where
  "insert_new tree [] = Inr tree"
| "insert_new tree (s # ss) =
     c_bind (tree_insert tree s) (\<lambda>(ret, tree). c_bind (panic_cond (ret = 0)) (\<lambda>_. insert_new tree ss))"

definition check_strings :: "string option list \<Rightarrow> string option list \<Rightarrow> int \<Rightarrow> unit cres" where
  "check_strings expected result n = c_for 0 n (\<lambda>j _.
     c_bind (arr_at expected j) (\<lambda>p. c_bind (arr_at result j) (\<lambda>q.
     c_bind (str_of p) (\<lambda>x. c_bind (str_of q) (\<lambda>y.
     c_bind (concat_strings expected n) (\<lambda>_. c_bind (concat_strings result n) (\<lambda>_.
     panic_cond (strcmp x y = 0)))))))) ()"

definition NUM_NODES :: int where "NUM_NODES = 5"

definition test_tree :: "(tnode \<Rightarrow> string option list \<Rightarrow> int \<Rightarrow> (int \<times> string option list) cres) \<Rightarrow>
    tnode \<Rightarrow> string list \<Rightarrow> string list \<Rightarrow> string option list \<Rightarrow> string option list cres" where
  "test_tree traverse new_tree strings expected result =
     c_bind (insert_new new_tree strings) (\<lambda>tree.
     c_bind (traverse tree result NUM_NODES) (\<lambda>(ret, result).
     c_bind (panic_cond (ret = NUM_NODES)) (\<lambda>_.
     c_bind (check_strings (map Some expected) result NUM_NODES) (\<lambda>_.
     c_bind (del_tree tree) (\<lambda>_. Inr result)))))"

fun test_trees :: "(tnode \<Rightarrow> string option list \<Rightarrow> int \<Rightarrow> (int \<times> string option list) cres) \<Rightarrow>
    tnode \<Rightarrow> (string list \<times> string list) list \<Rightarrow> string option list \<Rightarrow> string option list cres" where
  "test_trees traverse new_tree [] result = Inr result"
| "test_trees traverse new_tree ((strings, expected) # tests) result =
     c_bind (test_tree traverse new_tree strings expected result) (test_trees traverse new_tree tests)"

definition test_strings :: "string list list" where
  "test_strings =
     [[''000'', ''111'', ''222'', ''333'', ''444''], [''444'', ''333'', ''222'', ''111'', ''000''],
      [''222'', ''111'', ''333'', ''000'', ''444''], [''000'', ''111'', ''333'', ''222'', ''444''],
      [''222'', ''000'', ''444'', ''111'', ''333'']]"

definition preorder_results :: "string list list" where
  "preorder_results =
     [[''000'', ''111'', ''222'', ''333'', ''444''], [''444'', ''333'', ''222'', ''111'', ''000''],
      [''222'', ''111'', ''000'', ''333'', ''444''], [''000'', ''111'', ''333'', ''222'', ''444''],
      [''222'', ''000'', ''111'', ''444'', ''333'']]"

text \<open>The insertion of strings that may occur twice; \<open>seen_before\<close> is indexed by their values.\<close>

fun insert_seen :: "int \<Rightarrow> string list \<Rightarrow> tnode \<Rightarrow> bool list \<Rightarrow> tnode cres" where
  "insert_seen num_nodes [] tree seen_before = Inr tree"
| "insert_seen num_nodes (s # ss) tree seen_before =
     (let val = atoi s in
      c_bind (c_assert (0 < val \<and> val < num_nodes)) (\<lambda>_.
      c_bind (tree_insert tree s) (\<lambda>(ret, tree).
      c_bind (arr_at seen_before val) (\<lambda>seen.
      if \<not> seen then
        c_bind (panic_cond (ret = 0)) (\<lambda>_.
        c_bind (arr_set seen_before val True) (\<lambda>seen_before. insert_seen num_nodes ss tree seen_before))
      else c_bind (panic_cond (ret = 1)) (\<lambda>_. insert_seen num_nodes ss tree seen_before)))))"

text \<open>The loop that drops duplicates; \<open>nodup\<close> is the part of the array that is written.\<close>

fun drop_dups :: "string list \<Rightarrow> string list \<Rightarrow> string list" where
  "drop_dups [] nodup = nodup"
| "drop_dups (s # ss) nodup = drop_dups ss (if nodup = [] \<or> strcmp s (last nodup) \<noteq> 0 then nodup @ [s] else nodup)"

definition check_sorted :: "string list \<Rightarrow> string option list \<Rightarrow> unit cres" where
  "check_sorted nodup result = c_for 0 (int (length nodup)) (\<lambda>i _.
     c_bind (arr_at result i) (\<lambda>q. c_bind (str_of q) (\<lambda>x. c_bind (arr_at nodup i) (\<lambda>y.
     panic_cond (strcmp x y = 0))))) ()"

definition test_duplicates :: "tnode \<Rightarrow> (nat \<Rightarrow> int) \<Rightarrow> (nat \<Rightarrow> string option) \<Rightarrow> unit cres" where
  "test_duplicates new_tree rnd mem =
     (let num_nodes = 1000;
          strings = gen_rand_strings rnd 0 (nat num_nodes) 3;
          seen_before = replicate (nat num_nodes) False
      in c_bind (insert_seen num_nodes strings new_tree seen_before) (\<lambda>tree.
         let nodup = drop_dups (qsort_strings strings) [] in
         c_bind (inorder tree (fresh_array mem (nat num_nodes)) num_nodes) (\<lambda>(ret, result).
         c_bind (panic_cond (ret = int (length nodup))) (\<lambda>_.
         c_bind (check_sorted nodup result) (\<lambda>_. c_bind (del_tree tree) (\<lambda>_. Inr ()))))))"

text \<open>The options, as \<open>getopt\<close> delivers them; \<open>None\<close> stands for a command line without any.\<close>

fun option_n :: "(char \<times> string) list \<Rightarrow> int" where
  "option_n [] = 0"
| "option_n ((c, arg) # opts) = (if c = CHR ''n'' then atoi arg else option_n opts)"

definition part7_main :: "tnode \<Rightarrow> (nat \<Rightarrow> int) \<Rightarrow> (nat \<Rightarrow> string option) \<Rightarrow> (char \<times> string) list option \<Rightarrow> int cres" where
  "part7_main new_tree rnd mem args = (case args of
     Some opts \<Rightarrow> let num_nodes = option_n opts in
       if num_nodes \<le> 0 then Inl (Exit 1)
       else c_bind (challenge_question new_tree rnd num_nodes) (\<lambda>_. Inr 0)
   | None \<Rightarrow> let sorted_strings = qsort_strings (hd test_strings) in
       c_bind (test_trees preorder new_tree (zip test_strings preorder_results) (fresh_array mem (nat NUM_NODES))) (\<lambda>result.
       c_bind (test_trees inorder new_tree (map (\<lambda>strings. (strings, sorted_strings)) test_strings) result) (\<lambda>_.
       c_bind (test_duplicates new_tree rnd mem) (\<lambda>_. Inr 0))))"


section \<open>Random strings\<close>

definition digit :: "char \<Rightarrow> bool" where
  "digit c \<longleftrightarrow> 49 \<le> char_val c \<and> char_val c \<le> 57"

lemma rand_chars_digits:
  assumes "\<forall>k. 0 \<le> rnd k"
  shows "length (rand_chars rnd k n) = n \<and> (\<forall>c \<in> set (rand_chars rnd k n). digit c)"
proof (induction n arbitrary: k)
  case (Suc n)
  have "0 \<le> rnd k smod 9" "rnd k smod 9 < 9" using assms by (simp_all add: smod_nonneg)
  then show ?case using Suc by (simp add: digit_def char_val_char_of)
qed simp

lemma gen_rand_strings_digits:
  assumes "\<forall>k. 0 \<le> rnd k"
  shows "\<forall>s \<in> set (gen_rand_strings rnd k m n). length s = n \<and> (\<forall>c \<in> set s. digit c)"
  using rand_chars_digits [OF assms] by (induction m arbitrary: k) simp_all

lemma length_gen_rand_strings [simp]: "length (gen_rand_strings rnd k m n) = m"
  by (induction m arbitrary: k) simp_all

definition number :: "string \<Rightarrow> bool" where
  "number s \<longleftrightarrow> length s = 3 \<and> (\<forall>c \<in> set s. digit c)"

lemma number_cases:
  assumes "number s"
  obtains a b c where "s = [a, b, c]" "digit a" "digit b" "digit c"
  using assms by (auto simp: number_def numeral_3_eq_3 length_Suc_conv)

lemma atoi_number:
  assumes "digit a" "digit b" "digit c"
  shows "atoi [a, b, c] = 100 * (char_val a - 48) + 10 * (char_val b - 48) + (char_val c - 48)"
proof -
  have "a \<noteq> CHR ''-''" "a \<noteq> CHR ''+''" using assms(1) by (auto simp: digit_def char_val_def)
  then show ?thesis using assms by (simp add: atoi_def digit_def)
qed

lemma atoi_range: "number s \<Longrightarrow> 0 < atoi s \<and> atoi s < 1000"
  by (erule number_cases) (simp add: atoi_number digit_def)

lemma last_digit:
  "10 * a + b = 10 * x + y \<Longrightarrow> 0 \<le> b \<Longrightarrow> b < 10 \<Longrightarrow> 0 \<le> y \<Longrightarrow> y < 10 \<Longrightarrow> a = x \<and> b = (y::int)"
  by (cases a x rule: linorder_cases) linarith+

lemma atoi_inject:
  assumes "number s" "number t" "atoi s = atoi t"
  shows "s = t"
proof -
  obtain a b c where s: "s = [a, b, c]" "digit a" "digit b" "digit c" using assms(1) by (rule number_cases)
  obtain x y z where t: "t = [x, y, z]" "digit x" "digit y" "digit z" using assms(2) by (rule number_cases)
  have e: "10 * (10 * (char_val a - 48) + (char_val b - 48)) + (char_val c - 48) =
      10 * (10 * (char_val x - 48) + (char_val y - 48)) + (char_val z - 48)"
    using assms(3) s t by (simp add: atoi_number)
  have 1: "10 * (char_val a - 48) + (char_val b - 48) = 10 * (char_val x - 48) + (char_val y - 48) \<and>
      char_val c - 48 = char_val z - 48"
    using s(4) t(4) unfolding digit_def by (intro last_digit [OF e]) linarith+
  have 2: "char_val a - 48 = char_val x - 48 \<and> char_val b - 48 = char_val y - 48"
    using s(3) t(3) unfolding digit_def by (intro last_digit [OF conjunct1 [OF 1]]) linarith+
  show ?thesis using 1 2 char_val_inj by (simp add: s(1) t(1))
qed

section \<open>The tests pass\<close>

lemma tree_insert_new [simp]: "tree_insert (TNode None TNull TNull) s = Inr (0, alloc_tnode s)"
  by (simp add: alloc_tnode_def)

declare tree_insert.simps(3) [simp del]

lemma alloc_bst [simp]: "bst (alloc_tnode s)" "alloc_tnode s \<noteq> TNull" "elems (alloc_tnode s) = [s]"
  by (simp_all add: alloc_tnode_def)

lemma del_tree_whole: "whole t \<Longrightarrow> del_tree t = Inr (int (length (elems t)))"
proof (induction t)
  case (TNode x l r)
  then obtain y where x: "x = Some y" by (cases x) auto
  have "whole l" "whole r" using TNode.prems x by auto
  then show ?case using TNode.IH x by (auto simp: whole_child)
qed auto

lemma challenge_ok: "0 < n \<Longrightarrow> challenge_question (TNode None TNull TNull) rnd n = Inr ()"
proof -
  assume n: "0 < n"
  have ok: "\<exists>t. insert_all (TNode None TNull TNull) ss = Inr t \<and> bst t" if "ss \<noteq> []" for ss
    using that insert_all_ok [of "alloc_tnode (hd ss)" "tl ss"] by (cases ss) auto
  define ss where "ss = gen_rand_strings rnd 0 (nat n) 20"
  have "length ss = nat n" by (simp add: ss_def)
  then have "ss \<noteq> []" "sort ss \<noteq> []" using n by (auto simp flip: length_greater_0_conv)
  then obtain t u where "insert_all (TNode None TNull TNull) ss = Inr t" "bst t"
      "insert_all (TNode None TNull TNull) (sort ss) = Inr u" "bst u"
    using ok by meson
  then show ?thesis
    unfolding challenge_question_def by (simp add: ss_def [symmetric] qsort_strings_def del_tree_whole bst_whole)
qed

lemma insert_new_ok:
  "bst t \<Longrightarrow> t \<noteq> TNull \<Longrightarrow> distinct ss \<Longrightarrow> set ss \<inter> set (elems t) = {} \<Longrightarrow>
     \<exists>t'. insert_new t ss = Inr t' \<and> bst t' \<and> t' \<noteq> TNull \<and> set (elems t') = set ss \<union> set (elems t)"
proof (induction ss arbitrary: t)
  case (Cons s ss)
  obtain t1 where 1: "tree_insert t s = Inr (0, t1)" "bst t1" "t1 \<noteq> TNull" "set (elems t1) = insert s (set (elems t))"
    using tree_insert_ok [OF Cons.prems(1,2), of s] Cons.prems(4) by auto
  show ?case using Cons.IH [OF 1(2,3)] 1 Cons.prems(3,4) by (auto simp: panic_cond_def)
qed simp


lemma concat_strings_ok:
  assumes "length xs \<le> 5" "\<forall>p \<in> set xs. \<exists>s. p = Some s \<and> length s = 3"
  shows "\<exists>s. concat_strings xs (int (length xs)) = Inr s"
proof -
  define body where "body = (\<lambda>i debug_str. c_bind (arr_at xs i) (\<lambda>p. c_bind (str_of p) (\<lambda>s.
      if 10000 < length debug_str + length s + 2 then Inl OutOfBounds
      else let debug_str = debug_str @ s @ '' '' in
        c_bind (c_assert (length debug_str < 10000)) (\<lambda>_. Inr debug_str))))"
  have "\<exists>s. c_for 0 (int (length xs)) body [] = Inr s \<and> int (length s) = 4 * int (length xs)"
  proof (rule c_for_inv)
    fix i :: int and s :: string
    assume i: "0 \<le> i" "i < int (length xs)" "int (length s) = 4 * i"
    then obtain x where x: "xs ! nat i = Some x" "length x = 3" using assms(2) by (metis nat_less_iff nth_mem)
    have "length s < 20" using i assms(1) by linarith
    then show "\<exists>s'. body i s = Inr s' \<and> int (length s') = 4 * (i + 1)"
      using i x by (simp add: body_def arr_at_int str_of_def)
  qed simp_all
  then show ?thesis unfolding concat_strings_def Let_def body_def by blast
qed

lemma check_strings_ok:
  assumes "length xs = 5" "\<forall>s \<in> set xs. length s = 3"
  shows "check_strings (map Some xs) (map Some xs) NUM_NODES = Inr ()"
proof -
  obtain s where s: "concat_strings (map Some xs) 5 = Inr s"
    using concat_strings_ok [of "map Some xs"] assms by auto
  have "\<exists>u. c_for 0 5 (\<lambda>j _. c_bind (arr_at (map Some xs) j) (\<lambda>p. c_bind (arr_at (map Some xs) j) (\<lambda>q.
     c_bind (str_of p) (\<lambda>x. c_bind (str_of q) (\<lambda>y.
     c_bind (concat_strings (map Some xs) 5) (\<lambda>_. c_bind (concat_strings (map Some xs) 5) (\<lambda>_.
     panic_cond (strcmp x y = 0)))))))) () = Inr u \<and> True"
    by (rule c_for_inv) (auto simp: s arr_at_int assms(1) str_of_def panic_cond_def)
  then show ?thesis by (simp add: check_strings_def NUM_NODES_def)
qed

lemma test_tree_ok:
  assumes "insert_new new_tree strings = Inr tree" "whole tree"
    and "traverse tree result 5 = Inr (5, map Some expected)" "length expected = 5" "\<forall>s \<in> set expected. length s = 3"
  shows "test_tree traverse new_tree strings expected result = Inr (map Some expected)"
  using assms check_strings_ok [OF assms(4,5)] by (simp add: test_tree_def panic_cond_def del_tree_whole NUM_NODES_def)

abbreviation zeroed :: tnode where "zeroed \<equiv> TNode None TNull TNull"

text \<open>The trees of the first tests.\<close>

definition row_trees :: "tnode list" where
  "row_trees = map (\<lambda>strings. case insert_new zeroed strings of Inr t \<Rightarrow> t | Inl _ \<Rightarrow> TUninit) test_strings"

lemma rows: "map (insert_new zeroed) test_strings = map Inr row_trees"
  "map pre row_trees = preorder_results" "list_all whole row_trees"
  "map elems row_trees = replicate 5 (qsort_strings (hd test_strings))"
  by code_simp+

lemma test_trees_ok:
  assumes "\<forall>(strings, expected) \<in> set tests. length expected = 5 \<and> (\<forall>s \<in> set expected. length s = 3) \<and>
      (\<exists>tree. insert_new new_tree strings = Inr tree \<and> whole tree \<and>
        (\<forall>result. length result = 5 \<longrightarrow> traverse tree result 5 = Inr (5, map Some expected)))"
    and "length result = 5"
  shows "\<exists>r. test_trees traverse new_tree tests result = Inr r \<and> length r = 5"
  using assms
proof (induction tests arbitrary: result)
  case (Cons x tests)
  obtain strings expected where x: "x = (strings, expected)" by (cases x)
  obtain tree where t: "insert_new new_tree strings = Inr tree" "whole tree"
      "traverse tree result 5 = Inr (5, map Some expected)" "length expected = 5" "\<forall>s \<in> set expected. length s = 3"
    using Cons.prems x by auto
  have "test_tree traverse new_tree strings expected result = Inr (map Some expected)"
    using t by (rule test_tree_ok)
  then show ?case using Cons.IH [of "map Some expected"] Cons.prems(1) t(4) x by simp
qed simp

lemma row_ok:
  assumes "i < 5"
  shows "insert_new zeroed (test_strings ! i) = Inr (row_trees ! i)" "whole (row_trees ! i)"
    "pre (row_trees ! i) = preorder_results ! i" "elems (row_trees ! i) = qsort_strings (hd test_strings)"
    "length (preorder_results ! i) = 5" "\<forall>s \<in> set (preorder_results ! i). length s = 3"
    "length (qsort_strings (hd test_strings)) = 5" "\<forall>s \<in> set (qsort_strings (hd test_strings)). length s = 3"
proof -
  have l: "length test_strings = 5" "length row_trees = 5" "length preorder_results = 5"
    by (simp_all add: test_strings_def row_trees_def preorder_results_def)
  show "insert_new zeroed (test_strings ! i) = Inr (row_trees ! i)" using arg_cong [OF rows(1), of "\<lambda>xs. xs ! i"] assms l by simp
  show "whole (row_trees ! i)" using rows(3) assms l by (simp add: list_all_length)
  show "pre (row_trees ! i) = preorder_results ! i" using arg_cong [OF rows(2), of "\<lambda>xs. xs ! i"] assms l by simp
  show "elems (row_trees ! i) = qsort_strings (hd test_strings)" using arg_cong [OF rows(4), of "\<lambda>xs. xs ! i"] assms l by simp
  have "\<forall>xs \<in> set preorder_results. length xs = 5 \<and> (\<forall>s \<in> set xs. length s = 3)" by (simp add: preorder_results_def)
  then show "length (preorder_results ! i) = 5" "\<forall>s \<in> set (preorder_results ! i). length s = 3"
    using assms l by (metis nth_mem)+
  show "length (qsort_strings (hd test_strings)) = 5" "\<forall>s \<in> set (qsort_strings (hd test_strings)). length s = 3"
    by (simp_all add: qsort_strings_def test_strings_def)
qed

lemma num_test_strings: "length test_strings = 5"
  by (simp add: test_strings_def)

lemma row_not_null: "i < 5 \<Longrightarrow> row_trees ! i \<noteq> TNull"
  using row_ok(3,5) [of i] by auto

lemma preorder_tests_ok:
  assumes "length result = 5"
  shows "\<exists>r. test_trees preorder zeroed (zip test_strings preorder_results) result = Inr r \<and> length r = 5"
proof (rule test_trees_ok [OF _ assms], clarify)
  fix strings expected assume "(strings, expected) \<in> set (zip test_strings preorder_results)"
  then obtain i where i: "i < 5" "strings = test_strings ! i" "expected = preorder_results ! i"
    using num_test_strings by (auto simp: in_set_zip)
  have "preorder (row_trees ! i) result 5 = Inr (5, map Some expected)" if "length result = 5" for result
    using preorder_correct [OF row_ok(2) row_not_null, OF i(1,1), of 5 result] that row_ok(3,5) [OF i(1)] i(3) by simp
  then show "length expected = 5 \<and> (\<forall>s \<in> set expected. length s = 3) \<and>
      (\<exists>tree. insert_new zeroed strings = Inr tree \<and> whole tree \<and>
        (\<forall>result. length result = 5 \<longrightarrow> preorder tree result 5 = Inr (5, map Some expected)))"
    using row_ok [OF i(1)] i by blast
qed

lemma inorder_full:
  assumes "whole t" "t \<noteq> TNull" "length (elems t) \<le> m" "m \<le> length res"
  shows "inorder t res (int m) = Inr (int (length (elems t)), map Some (elems t) @ drop (length (elems t)) res)"
  using inorder_do_whole [OF assms(1,2), of 0 m res] assms(3,4) by (simp add: inorder_def put_def)

lemma inorder_tests_ok:
  assumes "length result = 5"
  shows "\<exists>r. test_trees inorder zeroed (map (\<lambda>strings. (strings, qsort_strings (hd test_strings))) test_strings) result = Inr r \<and>
    length r = 5"
proof (rule test_trees_ok [OF _ assms], clarify)
  fix strings expected
  assume "(strings, expected) \<in> set (map (\<lambda>strings. (strings, qsort_strings (hd test_strings))) test_strings)"
  then obtain i where i: "i < 5" "strings = test_strings ! i" "expected = qsort_strings (hd test_strings)"
    using num_test_strings by (auto simp: in_set_conv_nth)
  have "inorder (row_trees ! i) result 5 = Inr (5, map Some expected)" if "length result = 5" for result
    using inorder_full [OF row_ok(2) row_not_null, OF i(1,1), of 5 result] that row_ok(4,7) [OF i(1)] i(3) by simp
  then show "length expected = 5 \<and> (\<forall>s \<in> set expected. length s = 3) \<and>
      (\<exists>tree. insert_new zeroed strings = Inr tree \<and> whole tree \<and>
        (\<forall>result. length result = 5 \<longrightarrow> inorder tree result 5 = Inr (5, map Some expected)))"
    using row_ok [OF i(1)] i by blast
qed

section \<open>Duplicates\<close>

definition usable :: "tnode \<Rightarrow> bool" where
  "usable t \<longleftrightarrow> bst t \<and> t \<noteq> TNull \<or> t = zeroed"

lemma tree_insert_usable:
  assumes "usable t"
  shows "\<exists>t'. tree_insert t s = Inr (if s \<in> set (elems t) then 1 else 0, t') \<and> usable t' \<and>
    set (elems t') = insert s (set (elems t))"
  using assms tree_insert_ok [of t s] unfolding usable_def by (elim disjE) auto

lemma insert_seen_ok:
  assumes "usable t" "\<forall>s \<in> set ss. number s" "length seen = 1000"
    "\<forall>s. number s \<longrightarrow> seen ! nat (atoi s) = (s \<in> set (elems t))"
  shows "\<exists>t'. insert_seen 1000 ss t seen = Inr t' \<and> usable t' \<and> set (elems t') = set ss \<union> set (elems t)"
  using assms
proof (induction ss arbitrary: t seen)
  case (Cons s ss)
  have s: "number s" "0 < atoi s" "atoi s < 1000" using Cons.prems(2) atoi_range by auto
  obtain t1 where t1: "tree_insert t s = Inr (if s \<in> set (elems t) then 1 else 0, t1)" "usable t1"
      "set (elems t1) = insert s (set (elems t))"
    using tree_insert_usable [OF Cons.prems(1)] by blast
  have at: "arr_at seen (atoi s) = Inr (s \<in> set (elems t))" "arr_set seen (atoi s) True = Inr (seen[nat (atoi s) := True])"
    using Cons.prems(3,4) s by (simp_all add: arr_at_int arr_set_int)
  show ?case
  proof (cases "s \<in> set (elems t)")
    case True
    then have "set (elems t1) = set (elems t)" using t1(3) by auto
    then show ?thesis
      using Cons.IH [OF t1(2), of seen] Cons.prems(2,3,4) True s at t1(1) by (simp add: panic_cond_def insert_absorb)
  next
    case False
    have "seen[nat (atoi s) := True] ! nat (atoi u) = (u \<in> set (elems t1))" if "number u" for u
    proof (cases "u = s")
      case True
      then show ?thesis using t1(3) s Cons.prems(3) by simp
    next
      case False
      then have "nat (atoi u) \<noteq> nat (atoi s)" using atoi_inject [OF that s(1)] atoi_range [OF that] s by (metis eq_nat_nat_iff less_imp_le)
      then show ?thesis using that False t1(3) Cons.prems(4) by simp
    qed
    then show ?thesis
      using Cons.IH [OF t1(2), of "seen[nat (atoi s) := True]"] Cons.prems(2,3) False s at t1 by (simp add: panic_cond_def)
  qed
qed simp

lemma drop_dups_ok:
  "sorted (acc @ ss) \<Longrightarrow> distinct acc \<Longrightarrow>
     sorted (drop_dups ss acc) \<and> distinct (drop_dups ss acc) \<and> set (drop_dups ss acc) = set acc \<union> set ss"
proof (induction ss arbitrary: acc)
  case (Cons s ss)
  show ?case
  proof (cases "acc = [] \<or> s \<noteq> last acc")
    case True
    have "s \<notin> set acc"
    proof
      assume "s \<in> set acc"
      then obtain as where a: "acc = as @ [last acc]" by (metis append_butlast_last_id empty_iff list.set(1))
      have "s \<in> set as" using \<open>s \<in> set acc\<close> True a by (metis Un_iff empty_iff insert_iff list.set set_append)
      then have "s \<le> last acc" using Cons.prems(1) a by (metis sorted_append append_assoc append_Cons append_Nil list.set_intros(1))
      moreover have "last acc \<le> s" using Cons.prems(1) \<open>s \<in> set acc\<close> by (cases acc rule: rev_cases) (auto simp: sorted_append)
      ultimately show False using True \<open>s \<in> set acc\<close> by auto
    qed
    then show ?thesis using Cons.IH [of "acc @ [s]"] Cons.prems True by auto
  next
    case False
    have "sorted (acc @ ss)" using Cons.prems(1) by (auto simp: sorted_append)
    moreover have "s \<in> set acc" using False by auto
    ultimately show ?thesis using Cons.IH [of acc] Cons.prems(2) False by (auto simp: insert_absorb)
  qed
qed simp

lemma check_sorted_ok: "check_sorted xs (map Some xs @ rest) = Inr ()"
proof -
  have "\<exists>u. c_for 0 (int (length xs)) (\<lambda>i _. c_bind (arr_at (map Some xs @ rest) i) (\<lambda>q.
     c_bind (str_of q) (\<lambda>x. c_bind (arr_at xs i) (\<lambda>y. panic_cond (strcmp x y = 0))))) () = Inr u \<and> True"
  proof (rule c_for_inv)
    fix i :: int and u :: unit
    assume i: "0 \<le> i" "i < int (length xs)"
    then have "nat i < length xs" by simp
    then have "arr_at (map Some xs @ rest) i = Inr (Some (xs ! nat i))" "arr_at xs i = Inr (xs ! nat i)"
      using i by (simp_all add: arr_at_int nth_append)
    then show "\<exists>v. c_bind (arr_at (map Some xs @ rest) i) (\<lambda>q.
       c_bind (str_of q) (\<lambda>x. c_bind (arr_at xs i) (\<lambda>y. panic_cond (strcmp x y = 0)))) = Inr v \<and> True"
      by (simp add: str_of_def panic_cond_def)
  qed simp_all
  then show ?thesis by (simp add: check_sorted_def)
qed

lemma test_duplicates_ok:
  assumes "\<forall>k. 0 \<le> rnd k"
  shows "test_duplicates zeroed rnd mem = Inr ()"
proof -
  define ss where "ss = gen_rand_strings rnd 0 1000 3"
  have num: "\<forall>s \<in> set ss. number s" using gen_rand_strings_digits [OF assms] by (simp add: ss_def number_def)
  have len: "length ss = 1000" by (simp add: ss_def)
  have start: "\<forall>s. number s \<longrightarrow> replicate 1000 False ! nat (atoi s) = (s \<in> set (elems zeroed))"
  proof (intro allI impI)
    fix s assume "number s"
    then have "nat (atoi s) < 1000" using atoi_range [of s] by linarith
    then show "replicate 1000 False ! nat (atoi s) = (s \<in> set (elems zeroed))" by (simp only: nth_replicate) simp
  qed
  obtain t where t: "insert_seen 1000 ss zeroed (replicate 1000 False) = Inr t" "usable t" "set (elems t) = set ss"
    using insert_seen_ok [OF _ num _ start] by (auto simp: usable_def)
  have "elems t \<noteq> []" using t(3) len by auto
  then have b: "bst t" "t \<noteq> TNull" using t(2) by (auto simp: usable_def)
  define xs where "xs = drop_dups (sort ss) []"
  have xs: "sorted xs" "distinct xs" "set xs = set ss" using drop_dups_ok [of "[]" "sort ss"] by (simp_all add: xs_def)
  have e: "elems t = xs" using sorted_distinct_set_unique [of "elems t" xs] bst_sorted [OF b(1)] xs t(3) by simp
  have "length xs = card (set ss)" using xs distinct_card by metis
  then have l: "length xs \<le> 1000" using card_length [of ss] len by simp
  have "inorder t (fresh_array mem 1000) 1000 =
      Inr (int (length xs), map Some xs @ drop (length xs) (fresh_array mem 1000))"
    using inorder_full [OF bst_whole [OF b(1)] b(2), of 1000 "fresh_array mem 1000"] l e by (simp add: fresh_array_def)
  then show ?thesis
    using t(1) del_tree_whole [OF bst_whole [OF b(1)]] check_sorted_ok [of xs]
    by (simp add: test_duplicates_def ss_def [symmetric] xs_def [symmetric] qsort_strings_def panic_cond_def)
qed

lemma part7_main_ok:
  assumes "\<forall>k. 0 \<le> rnd k"
  shows "part7_main zeroed rnd mem args =
    (case args of None \<Rightarrow> Inr 0 | Some opts \<Rightarrow> if 0 < option_n opts then Inr 0 else Inl (Exit 1))"
proof (cases args)
  case None
  obtain r where r: "test_trees preorder zeroed (zip test_strings preorder_results) (fresh_array mem 5) = Inr r" "length r = 5"
    using preorder_tests_ok [of "fresh_array mem 5"] by (auto simp: fresh_array_def)
  obtain r' where "test_trees inorder zeroed (map (\<lambda>strings. (strings, qsort_strings (hd test_strings))) test_strings) r = Inr r'"
    using inorder_tests_ok [OF r(2)] by blast
  with None r(1) test_duplicates_ok [OF assms] show ?thesis
    by (simp add: part7_main_def NUM_NODES_def Let_def)
next
  case (Some opts)
  then show ?thesis using challenge_ok [of "option_n opts" rnd] by (auto simp: part7_main_def Let_def)
qed

section \<open>The properties\<close>

text \<open>The test program of part7.c passes for every sequence of random numbers when the memory of the root is zero
  where \<open>init_tree\<close> does not write it: without options all ten small trees and the thousand random
  strings with their duplicates, with \<open>-n\<close> the insertion in random and in sorted order; every insertion reports
  what it should, both traversals give the expected strings, and every tree can be deleted.\<close>

lemma part7_harness_passes:
  assumes "\<forall>k. 0 \<le> rnd k"
  shows "part7_main (TNode None TNull TNull) rnd mem args =
    (case args of None \<Rightarrow> Inr 0 | Some opts \<Rightarrow> if 0 < option_n opts then Inr 0 else Inl (Exit 1))"
  using assms by (rule part7_main_ok)

text \<open>As written, \<open>init_tree\<close> leaves the children unset, and the first test already reads them: the
  second string is compared with the first one and the left or right child is followed.\<close>

lemma part7_harness_uninitialised: "part7_main init_tree rnd mem None = Inl Uninitialised"
proof -
  have "test_strings = [''000'', ''111'', ''222'', ''333'', ''444''] # tl test_strings"
    "preorder_results = hd preorder_results # tl preorder_results"
    by (simp_all add: test_strings_def preorder_results_def)
  then have z: "zip test_strings preorder_results =
      ([''000'', ''111'', ''222'', ''333'', ''444''], hd preorder_results) # zip (tl test_strings) (tl preorder_results)"
    by (metis zip_Cons_Cons)
  have "insert_new init_tree [''000'', ''111'', ''222'', ''333'', ''444''] = Inl Uninitialised" by code_simp
  then show ?thesis by (simp add: part7_main_def z test_tree_def)
qed

end
