(* ===== verification/ClabToken.thy ===== *)
theory ClabToken
  imports CPrelude
begin

text \<open>
  clab/mini/part8.c: \<open>string_token\<close>, a destructive tokenizer. The memory is the array that holds the
  string and its terminator; a \<open>char *\<close> into it is an index, \<open>None\<close> the null pointer. The result is the
  array, the returned pointer and what \<open>*saveptr\<close> holds afterwards.
\<close>

section \<open>The function\<close>

text \<open>The first loop: where it stops, and \<open>done\<close>.\<close>

function scan_token :: "char list \<Rightarrow> char \<Rightarrow> int \<Rightarrow> (int \<times> bool) cres" where
  "scan_token mem delim str =
     (if 0 \<le> str \<and> str < int (length mem) then
        if mem ! nat str \<noteq> delim then
          if mem ! nat str = NUL then Inr (str, True) else scan_token mem delim (str + 1)
        else Inr (str, False)
      else Inl OutOfBounds)"
  by pat_completeness auto
termination by (relation "measure (\<lambda>(mem, delim, str). nat (int (length mem) - str))") auto

text \<open>The second loop, which overwrites the delimiters.\<close>

function skip_delims :: "char list \<Rightarrow> char \<Rightarrow> int \<Rightarrow> (char list \<times> int \<times> bool) cres" where
  "skip_delims mem delim str =
     (if 0 \<le> str \<and> str < int (length mem) then
        if mem ! nat str = delim then
          if mem ! nat str = NUL then Inr (mem, str, True)
          else skip_delims (mem[nat str := NUL]) delim (str + 1)
        else Inr (mem, str, False)
      else Inl OutOfBounds)"
  by pat_completeness auto
termination by (relation "measure (\<lambda>(mem, delim, str). nat (int (length mem) - str))") auto

declare scan_token.simps [simp del] skip_delims.simps [simp del]

definition string_token ::
  "char list \<Rightarrow> int option \<Rightarrow> char \<Rightarrow> int option \<Rightarrow> (char list \<times> int option \<times> int option) cres" where
  "string_token mem str delim saveptr =
     (let beginning_pointer = (if str = None then saveptr else str) in
      case beginning_pointer of
        None \<Rightarrow> Inr (mem, None, saveptr)
      | Some str \<Rightarrow>
          c_bind (scan_token mem delim str) (\<lambda>(str, finished).
            if \<not> finished then
              c_bind (skip_delims mem delim str) (\<lambda>(mem, str, finished).
              c_bind (arr_at mem str) (\<lambda>c.
                if finished \<or> c = NUL then Inr (mem, beginning_pointer, None)
                else Inr (mem, beginning_pointer, Some str)))
            else Inr (mem, beginning_pointer, None)))"

section \<open>One call\<close>

lemma scan_token_ok:
  assumes "cstring s" "delim \<noteq> NUL"
  shows "scan_token (p @ s @ NUL # q) delim (int (length p)) =
    Inr (int (length p + length (takeWhile (\<lambda>c. c \<noteq> delim) s)), delim \<notin> set s)"
  using assms(1)
proof (induction s arbitrary: p)
  case Nil
  then show ?case using assms(2) by (subst scan_token.simps) auto
next
  case (Cons c s)
  show ?case
  proof (cases "c = delim")
    case True
    then show ?thesis by (subst scan_token.simps) simp
  next
    case False
    have "scan_token ((p @ [c]) @ s @ NUL # q) delim (int (length (p @ [c]))) =
        Inr (int (length (p @ [c]) + length (takeWhile (\<lambda>c. c \<noteq> delim) s)), delim \<notin> set s)"
      using Cons.prems by (intro Cons.IH) simp
    then show ?thesis using False Cons.prems by (subst scan_token.simps) (auto simp: add.commute)
  qed
qed

lemma skip_delims_ok:
  assumes "cstring s" "delim \<noteq> NUL"
  shows "skip_delims (p @ s @ NUL # q) delim (int (length p)) =
    (let ds = takeWhile (\<lambda>c. c = delim) s; rest = dropWhile (\<lambda>c. c = delim) s in
     Inr (p @ replicate (length ds) NUL @ rest @ NUL # q, int (length p + length ds), False))"
  using assms(1)
proof (induction s arbitrary: p)
  case Nil
  then show ?case using assms(2) by (subst skip_delims.simps) (auto simp: Let_def)
next
  case (Cons c s)
  show ?case
  proof (cases "c = delim")
    case False
    then show ?thesis by (subst skip_delims.simps) simp
  next
    case True
    have "skip_delims ((p @ [NUL]) @ s @ NUL # q) delim (int (length (p @ [NUL]))) =
        (let ds = takeWhile (\<lambda>c. c = delim) s; rest = dropWhile (\<lambda>c. c = delim) s in
         Inr ((p @ [NUL]) @ replicate (length ds) NUL @ rest @ NUL # q,
              int (length (p @ [NUL]) + length ds), False))"
      using Cons.prems by (intro Cons.IH) simp
    then show ?thesis using True assms(2)
      by (subst skip_delims.simps) (auto simp: Let_def add.commute)
  qed
qed

lemma string_token_ok:
  assumes "cstring s" "delim \<noteq> NUL" and str: "(if str = None then saveptr else str) = Some (int (length p))"
    and t: "t = takeWhile (\<lambda>c. c \<noteq> delim) s" and r: "r = dropWhile (\<lambda>c. c \<noteq> delim) s"
    and ds: "ds = takeWhile (\<lambda>c. c = delim) r" and rest: "rest = dropWhile (\<lambda>c. c = delim) r"
  shows "string_token (p @ s @ [NUL]) str delim saveptr =
    Inr (p @ t @ replicate (length ds) NUL @ rest @ [NUL], Some (int (length p)),
      if rest = [] then None else Some (int (length p + length t + length ds)))"
proof (cases "delim \<in> set s")
  case False
  then have nd: "\<forall>c \<in> set s. c \<noteq> delim" by auto
  have "t = s" "r = []" unfolding t r using nd by (simp_all add: takeWhile_eq_all_conv dropWhile_eq_Nil_conv)
  then show ?thesis using scan_token_ok [OF assms(1,2), of p "[]"] str False ds rest
    by (simp add: string_token_def t [symmetric])
next
  case True
  have s: "s = t @ r" using t r by simp
  have cr: "cstring r" using assms(1) s by simp
  have cx: "cstring rest" using cr rest by (auto simp: cstring_def dest: set_dropWhileD)
  have scan: "scan_token (p @ s @ [NUL]) delim (int (length p)) = Inr (int (length p + length t), False)"
    using scan_token_ok [OF assms(1,2), of p "[]"] True t by simp
  have skip: "skip_delims (p @ s @ [NUL]) delim (int (length p + length t)) =
      Inr (p @ t @ replicate (length ds) NUL @ rest @ [NUL], int (length p + length t + length ds), False)"
    using skip_delims_ok [OF cr assms(2), of "p @ t" "[]"] s ds rest by (simp add: Let_def)
  let ?mem = "p @ t @ replicate (length ds) NUL @ rest @ [NUL]"
  have "?mem ! (length p + length t + length ds) = (rest @ [NUL]) ! 0"
    by (simp add: nth_append)
  then have c: "arr_at ?mem (int (length p + length t + length ds)) = Inr ((rest @ [NUL]) ! 0)"
    by (subst arr_at_nth) simp_all
  have nz: "rest \<noteq> [] \<Longrightarrow> rest ! 0 \<noteq> NUL" using cstring_nth [OF cx, of 0] by simp
  show ?thesis using scan skip c nz str by (cases rest) (simp_all add: string_token_def)
qed

section \<open>Splitting a string\<close>

text \<open>The loop a caller runs (the example in the comment of part8.c), with fuel: the tokens as C strings.\<close>

definition string_at :: "char list \<Rightarrow> int \<Rightarrow> char list" where
  "string_at mem i = takeWhile (\<lambda>c. c \<noteq> NUL) (drop (nat i) mem)"

fun all_tokens :: "nat \<Rightarrow> char list \<Rightarrow> int option \<Rightarrow> char \<Rightarrow> int option \<Rightarrow> char list list cres" where
  "all_tokens 0 mem str delim saveptr = Inl Loops"
| "all_tokens (Suc n) mem str delim saveptr =
     c_bind (string_token mem str delim saveptr) (\<lambda>(mem, token, saveptr).
       case token of None \<Rightarrow> Inr []
       | Some i \<Rightarrow> c_bind (all_tokens n mem None delim saveptr) (\<lambda>ts. Inr (string_at mem i # ts)))"

fun split_at :: "char \<Rightarrow> char list \<Rightarrow> char list list" where
  "split_at delim [] = [[]]"
| "split_at delim (c # s) =
     (if c = delim then [] # split_at delim s
      else case split_at delim s of [] \<Rightarrow> [[c]] | w # ws \<Rightarrow> (c # w) # ws)"

abbreviation pieces :: "char \<Rightarrow> char list \<Rightarrow> char list list" where
  "pieces delim s \<equiv> filter (\<lambda>w. w \<noteq> []) (split_at delim s)"

lemma split_at_not_Nil: "split_at delim s \<noteq> []"
  by (cases s) (auto split: list.split)

lemma split_at_append: "delim \<notin> set t \<Longrightarrow> split_at delim (t @ delim # s) = t # split_at delim s"
  by (induction t) auto

lemma split_at_none: "delim \<notin> set t \<Longrightarrow> split_at delim t = [t]"
  by (induction t) auto

lemma pieces_dropWhile: "pieces delim (dropWhile (\<lambda>c. c = delim) s) = pieces delim s"
  by (induction s) auto

lemma pieces_step:
  "pieces delim s = filter (\<lambda>w. w \<noteq> []) [takeWhile (\<lambda>c. c \<noteq> delim) s] @
     pieces delim (dropWhile (\<lambda>c. c = delim) (dropWhile (\<lambda>c. c \<noteq> delim) s))"
proof -
  let ?t = "takeWhile (\<lambda>c. c \<noteq> delim) s" and ?r = "dropWhile (\<lambda>c. c \<noteq> delim) s"
  have s: "s = ?t @ ?r" by simp
  have nt: "delim \<notin> set ?t" by (auto dest: set_takeWhileD)
  show ?thesis
  proof (cases ?r)
    case Nil
    then have ts: "?t = s" using takeWhile_dropWhile_id [of "\<lambda>c. c \<noteq> delim" s] by simp
    show ?thesis unfolding ts Nil using split_at_none [OF nt [unfolded ts]] by simp
  next
    case (Cons c r)
    then have "c = delim" using hd_dropWhile [of "\<lambda>c. c \<noteq> delim" s] by simp
    then have "split_at delim s = ?t # split_at delim r"
      using s Cons split_at_append [OF nt, of r] by simp
    then show ?thesis using Cons \<open>c = delim\<close> by (simp add: pieces_dropWhile)
  qed
qed

lemma all_tokens_ok:
  assumes "cstring s" "delim \<noteq> NUL" "length s < n"
    and str: "(if str = None then saveptr else str) = Some (int (length p))"
  shows "all_tokens (Suc n) (p @ s @ [NUL]) str delim saveptr =
    Inr ((if s = [] \<or> hd s = delim then [[]] else []) @ pieces delim s)"
  using assms
proof (induction n arbitrary: s p str saveptr)
  case (Suc n)
  define t where "t = takeWhile (\<lambda>c. c \<noteq> delim) s"
  define r where "r = dropWhile (\<lambda>c. c \<noteq> delim) s"
  define ds where "ds = takeWhile (\<lambda>c. c = delim) r"
  define rest where "rest = dropWhile (\<lambda>c. c = delim) r"
  have s: "s = t @ ds @ rest" by (simp add: t_def r_def ds_def rest_def)
  have cs: "cstring t" "cstring rest" using Suc.prems(1) s by simp_all
  have step: "string_token (p @ s @ [NUL]) str delim saveptr =
      Inr (p @ t @ replicate (length ds) NUL @ rest @ [NUL], Some (int (length p)),
        if rest = [] then None else Some (int (length p + length t + length ds)))"
    by (rule string_token_ok [OF Suc.prems(1,2,4) t_def r_def ds_def rest_def])
  let ?mem = "p @ t @ replicate (length ds) NUL @ rest @ [NUL]"
  have tok: "string_at ?mem (int (length p)) = t"
  proof -
    have tw: "takeWhile (\<lambda>c. c \<noteq> NUL) (t @ x) = t @ takeWhile (\<lambda>c. c \<noteq> NUL) x" for x
      using cs(1) by (intro takeWhile_append2) (auto simp: cstring_def)
    have "rest = [] \<or> ds \<noteq> []"
    proof (cases ds)
      case Nil
      then have "r = []" using hd_dropWhile [of "\<lambda>c. c \<noteq> delim" s] unfolding ds_def r_def
        by (cases "dropWhile (\<lambda>c. c \<noteq> delim) s") auto
      then show ?thesis by (simp add: rest_def)
    qed simp
    then show ?thesis by (cases ds) (auto simp: string_at_def tw)
  qed
  have head: "filter (\<lambda>w. w \<noteq> []) [t] = (if s = [] \<or> hd s = delim then [] else [t])"
      "(s = [] \<or> hd s = delim) = (t = [])"
    by (cases s; simp add: t_def)+
  show ?case
  proof (cases "rest = []")
    case True
    have "all_tokens (Suc n) ?mem None delim None = Inr []" by (simp add: string_token_def)
    then have "all_tokens (Suc (Suc n)) (p @ s @ [NUL]) str delim saveptr = Inr [t]"
      using step tok True by (subst all_tokens.simps) simp
    moreover have "pieces delim s = filter (\<lambda>w. w \<noteq> []) [t]"
      using pieces_step [of delim s] True unfolding t_def [symmetric] r_def [symmetric] rest_def [symmetric] by simp
    ultimately show ?thesis using head by auto
  next
    case False
    have ts: "t \<noteq> [] \<or> ds \<noteq> []"
    proof (cases s)
      case Nil
      then show ?thesis using False by (simp add: rest_def r_def)
    next
      case (Cons c s')
      then show ?thesis by (cases "c = delim") (simp_all add: t_def r_def ds_def)
    qed
    have len: "length rest < n" using Suc.prems(3) ts s by (cases t; cases ds) auto
    have hr: "hd rest \<noteq> delim" using False hd_dropWhile [of "\<lambda>c. c = delim" r] by (simp add: rest_def)
    have "all_tokens (Suc n) ((p @ t @ replicate (length ds) NUL) @ rest @ [NUL]) None delim
        (Some (int (length p + length t + length ds))) = Inr ([] @ pieces delim rest)"
      using Suc.IH [of rest None "Some (int (length p + length t + length ds))" "p @ t @ replicate (length ds) NUL"]
        cs(2) Suc.prems(2) len False hr by simp
    then have "all_tokens (Suc (Suc n)) (p @ s @ [NUL]) str delim saveptr = Inr (t # pieces delim rest)"
      using step tok False by (subst all_tokens.simps) simp
    moreover have "pieces delim s = filter (\<lambda>w. w \<noteq> []) [t] @ pieces delim rest"
      using pieces_step [of delim s] unfolding t_def [symmetric] r_def [symmetric] rest_def [symmetric] .
    ultimately show ?thesis using head by auto
  qed
qed simp

section \<open>The properties\<close>

text \<open>Calling \<open>string_token\<close> on a string and then on the null pointer until it returns null ends, never
  leaves the array, and returns the maximal delimiter-free pieces of the string in order; only a string that
  is empty or begins with the delimiter has one empty token in front of them (the comment promises the
  next non-delimiter character, and null for a string that has none).\<close>

lemma string_token_splits:
  assumes "cstring s" "delim \<noteq> NUL"
  shows "all_tokens (length s + 2) (s @ [NUL]) (Some 0) delim saveptr =
    Inr ((if s = [] \<or> hd s = delim then [[]] else []) @ filter (\<lambda>w. w \<noteq> []) (split_at delim s))"
  using all_tokens_ok [OF assms, of "Suc (length s)" "Some 0" saveptr "[]"] by simp

end
