(* ===== verification/ClabList.thy ===== *)
theory ClabList
  imports CPrelude
begin

text \<open>
  clab/mini/part5.c: singly linked lists of integers. The memory is a partial map from addresses to
  nodes. \<open>alloc_node\<close> and \<open>free_node\<close> are defined outside the file (in a prebuilt object), so they are
  arguments. The loops run along \<open>next\<close> pointers and do not end on a cyclic list, so they are
  \<open>partial_function\<close>s: \<open>None\<close> would be a run that does not end.
\<close>

section \<open>Nodes\<close>

record lnode =
  nd_value :: int
  nd_next :: ptr

type_synonym nheap = "nat \<Rightarrow> lnode option"

definition nd :: "nheap \<Rightarrow> ptr \<Rightarrow> lnode cres" where
  "nd h p = (case p of
     Null \<Rightarrow> Inl NullDeref
   | Addr a \<Rightarrow> (case h a of None \<Rightarrow> Inl BadPointer | Some n \<Rightarrow> Inr n))"

definition nd_set :: "(lnode \<Rightarrow> lnode) \<Rightarrow> ptr \<Rightarrow> nheap \<Rightarrow> nheap cres" where
  "nd_set f p h = (case p of
     Null \<Rightarrow> Inl NullDeref
   | Addr a \<Rightarrow> (case h a of None \<Rightarrow> Inl BadPointer | Some n \<Rightarrow> Inr (h(a \<mapsto> f n))))"

section \<open>The operations\<close>

definition list_insert :: "(nheap \<Rightarrow> ptr \<times> nheap) \<Rightarrow> ptr \<Rightarrow> int \<Rightarrow> nheap \<Rightarrow> nheap cres" where
  "list_insert alloc_node head v h =
     c_bind (c_assert (head \<noteq> Null)) (\<lambda>_.
     let (add, h) = alloc_node h in
     c_bind (nd_set (\<lambda>n. n\<lparr>nd_value := v\<rparr>) add h) (\<lambda>h.
     c_bind (nd h head) (\<lambda>hd.
     c_bind (nd_set (\<lambda>n. n\<lparr>nd_next := nd_next hd\<rparr>) add h) (\<lambda>h.
     nd_set (\<lambda>n. n\<lparr>nd_next := add\<rparr>) head h))))"

partial_function (option) end_loop :: "nheap \<Rightarrow> ptr \<Rightarrow> ptr cres option" where
  "end_loop h temp =
     (case nd h temp of
        Inl e \<Rightarrow> Some (Inl e)
      | Inr n \<Rightarrow> if nd_next n \<noteq> Null then end_loop h (nd_next n) else Some (Inr temp))"

definition list_end :: "nheap \<Rightarrow> ptr \<Rightarrow> ptr cres option" where
  "list_end h head =
     (case nd h head of
        Inl e \<Rightarrow> Some (Inl e)
      | Inr n \<Rightarrow> if nd_next n = Null then Some (Inr head) else end_loop h head)"

partial_function (option) size_loop :: "nheap \<Rightarrow> ptr \<Rightarrow> int \<Rightarrow> int cres option" where
  "size_loop h temp count =
     (case nd h temp of
        Inl e \<Rightarrow> Some (Inl e)
      | Inr n \<Rightarrow> if nd_next n \<noteq> Null then size_loop h (nd_next n) (s32 (count + 1)) else Some (Inr count))"

definition list_size :: "nheap \<Rightarrow> ptr \<Rightarrow> int cres option" where
  "list_size h head = size_loop h head 1"

text \<open>\<open>list_find\<close> returns the node and what it stores through \<open>predp\<close>.\<close>

partial_function (option) find_loop :: "nheap \<Rightarrow> int \<Rightarrow> ptr \<Rightarrow> ptr \<Rightarrow> (ptr \<times> ptr) cres option" where
  "find_loop h v temp prev =
     (if temp \<noteq> Null then
        (case nd h temp of
           Inl e \<Rightarrow> Some (Inl e)
         | Inr n \<Rightarrow> if nd_value n = v then Some (Inr (temp, prev)) else find_loop h v (nd_next n) temp)
      else Some (Inr (Null, Null)))"

definition list_find :: "nheap \<Rightarrow> ptr \<Rightarrow> int \<Rightarrow> (ptr \<times> ptr) cres option" where
  "list_find h head v =
     (if head = Null then Some (Inl AssertFail)
      else case nd h head of
        Inl e \<Rightarrow> Some (Inl e)
      | Inr n \<Rightarrow> if nd_value n = v then Some (Inr (head, Null)) else find_loop h v head Null)"

text \<open>\<open>list_remove\<close> returns its result, the new \<open>*headp\<close> and the memory.\<close>

definition list_remove ::
  "(ptr \<Rightarrow> nheap \<Rightarrow> nheap) \<Rightarrow> ptr \<Rightarrow> int \<Rightarrow> nheap \<Rightarrow> (int \<times> ptr \<times> nheap) cres option" where
  "list_remove free_node head v h =
     (if head = Null then Some (Inl AssertFail)
      else case nd h head of
        Inl e \<Rightarrow> Some (Inl e)
      | Inr n \<Rightarrow>
          if nd_value n = v then Some (Inr (1, nd_next n, free_node head h))
          else case list_find h head v of
            None \<Rightarrow> None
          | Some (Inl e) \<Rightarrow> Some (Inl e)
          | Some (Inr (rem, prev)) \<Rightarrow>
              if rem \<noteq> Null then
                Some (c_bind (nd h rem) (\<lambda>r.
                  c_bind (nd_set (\<lambda>n. n\<lparr>nd_next := nd_next r\<rparr>) prev h) (\<lambda>h.
                  Inr (1, head, free_node rem h))))
              else Some (Inr (0, head, h)))"

section \<open>Lists in memory\<close>

text \<open>The nodes on the way from \<open>p\<close> to \<open>q\<close>, with address and value.\<close>

fun seg :: "nheap \<Rightarrow> ptr \<Rightarrow> (nat \<times> int) list \<Rightarrow> ptr \<Rightarrow> bool" where
  "seg h p [] q \<longleftrightarrow> p = q"
| "seg h p ((a, v) # xs) q \<longleftrightarrow> p = Addr a \<and> (\<exists>n. h a = Some n \<and> nd_value n = v \<and> seg h (nd_next n) xs q)"

abbreviation chain :: "nheap \<Rightarrow> ptr \<Rightarrow> (nat \<times> int) list \<Rightarrow> bool" where
  "chain h p xs \<equiv> seg h p xs Null"

lemma seg_append: "seg h p (xs @ ys) q \<longleftrightarrow> (\<exists>r. seg h p xs r \<and> seg h r ys q)"
proof (induction xs arbitrary: p)
  case (Cons x xs)
  then show ?case by (cases x) (simp add: Cons.IH, blast)
qed simp

lemma seg_cong: "(\<And>a. a \<in> fst ` set xs \<Longrightarrow> h' a = h a) \<Longrightarrow> seg h' p xs q \<longleftrightarrow> seg h p xs q"
proof (induction xs arbitrary: p)
  case (Cons x xs)
  then show ?case by (cases x) auto
qed simp

lemma seg_upd: "a \<notin> fst ` set xs \<Longrightarrow> seg (h(a := n)) p xs q \<longleftrightarrow> seg h p xs q"
  by (rule seg_cong) auto

lemma chain_Addr: "chain h (Addr a) xs \<Longrightarrow> \<exists>v ys. xs = (a, v) # ys"
  by (cases xs) auto

lemma chain_unique: "chain h p xs \<Longrightarrow> chain h p ys \<Longrightarrow> xs = ys"
proof (induction xs arbitrary: p ys)
  case Nil
  then show ?case by (cases ys) auto
next
  case (Cons x xs)
  then show ?case by (cases ys; cases x) fastforce+
qed

lemma chain_distinct: "chain h p xs \<Longrightarrow> distinct (map fst xs)"
proof (induction xs arbitrary: p)
  case (Cons x xs)
  obtain a v where x: "x = (a, v)" by (cases x)
  then obtain n where n: "p = Addr a" "h a = Some n" "chain h (nd_next n) xs" using Cons.prems by auto
  have "a \<notin> fst ` set xs"
  proof
    assume "a \<in> fst ` set xs"
    then obtain w us vs where us: "xs = us @ (a, w) # vs" by (auto dest: split_list)
    then have "chain h (Addr a) ((a, w) # vs)" using n(3) by (auto simp: seg_append)
    then have "(a, w) # vs = x # xs" using chain_unique Cons.prems n(1) by blast
    then show False using us by (auto dest: arg_cong [of _ _ length])
  qed
  then show ?case using Cons.IH [OF n(3)] x by simp
qed simp

section \<open>Searching\<close>

lemma find_loop_found:
  "seg h p (ys @ (b, v) # zs) Null \<Longrightarrow> v \<notin> snd ` set ys \<Longrightarrow>
     find_loop h v p prev = Some (Inr (Addr b, if ys = [] then prev else Addr (fst (last ys))))"
proof (induction ys arbitrary: p prev)
  case Nil
  then show ?case by (subst find_loop.simps) (auto simp: nd_def)
next
  case (Cons y ys)
  obtain a w where y: "y = (a, w)" by (cases y)
  then obtain n where n: "p = Addr a" "h a = Some n" "nd_value n = w" "seg h (nd_next n) (ys @ (b, v) # zs) Null"
    using Cons.prems(1) by auto
  have "find_loop h v (nd_next n) p = Some (Inr (Addr b, if ys = [] then p else Addr (fst (last ys))))"
    using Cons.prems(2) n(4) by (intro Cons.IH) auto
  moreover have "w \<noteq> v" using Cons.prems(2) y by auto
  ultimately show ?case using n y by (subst find_loop.simps) (simp add: nd_def)
qed

lemma find_loop_missing:
  "chain h p xs \<Longrightarrow> v \<notin> snd ` set xs \<Longrightarrow> find_loop h v p prev = Some (Inr (Null, Null))"
proof (induction xs arbitrary: p prev)
  case Nil
  then show ?case by (subst find_loop.simps) simp
next
  case (Cons x xs)
  then obtain a w n where "x = (a, w)" "p = Addr a" "h a = Some n" "nd_value n = w" "chain h (nd_next n) xs"
    by (cases x) auto
  then show ?case using Cons by (subst find_loop.simps) (auto simp: nd_def)
qed

lemma end_loop_last: "chain h p xs \<Longrightarrow> xs \<noteq> [] \<Longrightarrow> end_loop h p = Some (Inr (Addr (fst (last xs))))"
proof (induction xs arbitrary: p)
  case (Cons x xs)
  then obtain a w n where x: "x = (a, w)" "p = Addr a" "h a = Some n" "chain h (nd_next n) xs"
    by (cases x) auto
  show ?case
  proof (cases xs)
    case Nil
    then show ?thesis using x by (subst end_loop.simps) (simp add: nd_def)
  next
    case (Cons y ys)
    then have "nd_next n \<noteq> Null" using x(4) by (cases y) auto
    then show ?thesis using Cons.IH [OF x(4)] x Cons by (subst end_loop.simps) (simp add: nd_def)
  qed
qed simp

lemma size_loop_length:
  "chain h p xs \<Longrightarrow> xs \<noteq> [] \<Longrightarrow> 0 < c \<Longrightarrow> c + int (length xs) \<le> 2 ^ 31 \<Longrightarrow>
     size_loop h p c = Some (Inr (c + int (length xs) - 1))"
proof (induction xs arbitrary: p c)
  case (Cons x xs)
  then obtain a w n where x: "x = (a, w)" "p = Addr a" "h a = Some n" "chain h (nd_next n) xs"
    by (cases x) auto
  show ?case
  proof (cases xs)
    case Nil
    then show ?thesis using x by (subst size_loop.simps) (simp add: nd_def)
  next
    case (Cons y ys)
    then have nn: "nd_next n \<noteq> Null" using x(4) by (cases y) auto
    have s: "s32 (c + 1) = c + 1" using Cons.prems(3,4) Cons by (intro s32_id) auto
    have "size_loop h (nd_next n) (c + 1) = Some (Inr (c + 1 + int (length xs) - 1))"
      using Cons.prems(3,4) Cons x(4) by (intro Cons.IH) auto
    then show ?thesis using nn s x by (subst size_loop.simps) (simp add: nd_def)
  qed
qed simp

section \<open>Updating\<close>

fun drop_value :: "int \<Rightarrow> (nat \<times> int) list \<Rightarrow> (nat \<times> int) list" where
  "drop_value v [] = []"
| "drop_value v ((a, w) # xs) = (if w = v then xs else (a, w) # drop_value v xs)"

lemma drop_value_missing: "v \<notin> snd ` set xs \<Longrightarrow> drop_value v xs = xs"
  by (induction v xs rule: drop_value.induct) auto

lemma drop_value_found: "v \<notin> snd ` set ys \<Longrightarrow> drop_value v (ys @ (b, v) # zs) = ys @ zs"
  by (induction v ys rule: drop_value.induct) auto

lemma split_value:
  assumes "v \<in> snd ` set xs"
  obtains ys b zs where "xs = ys @ (b, v) # zs" "v \<notin> snd ` set ys"
proof -
  have "v \<in> set (map snd xs)" using assms by simp
  then obtain us vs where "map snd xs = us @ v # vs" "v \<notin> set us" by (blast dest: split_list_first)
  then obtain ys x zs where "xs = ys @ x # zs" "map snd ys = us" "snd x = v"
    by (auto simp: map_eq_append_conv)
  then show thesis using that [of ys "fst x" zs] \<open>v \<notin> set us\<close> by (metis prod.collapse set_map)
qed

text \<open>The node before the removed one is made to point behind it, and the removed one is freed.\<close>

lemma unlink_chain:
  assumes c: "chain h p (us @ (c, w) # (b, v) # zs)"
  shows "\<exists>n m. h c = Some n \<and> h b = Some m \<and>
    chain ((h(c \<mapsto> n\<lparr>nd_next := nd_next m\<rparr>))(b := None)) p (us @ (c, w) # zs)"
proof -
  have d: "distinct (map fst (us @ (c, w) # (b, v) # zs))" using chain_distinct [OF c] .
  then have away: "b \<notin> fst ` set us" "c \<notin> fst ` set us" "b \<noteq> c" "b \<notin> fst ` set zs" "c \<notin> fst ` set zs"
    by auto
  obtain n m where nm: "seg h p us (Addr c)" "h c = Some n" "nd_value n = w" "nd_next n = Addr b"
      "h b = Some m" "chain h (nd_next m) zs"
    using c by (auto simp: seg_append)
  let ?h = "(h(c \<mapsto> n\<lparr>nd_next := nd_next m\<rparr>))(b := None)"
  have "seg ?h p us (Addr c)" "chain ?h (nd_next m) zs"
    using nm(1,6) away by (simp_all add: seg_upd)
  then have "chain ?h p (us @ (c, w) # zs)" using away(3) nm(3) by (auto simp: seg_append)
  then show ?thesis using nm by blast
qed

section \<open>The properties\<close>

text \<open>\<open>list_insert\<close> puts the new node right behind the head.\<close>

lemma list_insert_correct:
  assumes c: "chain h (Addr a) ((a, w) # xs)"
    and alloc: "alloc_node h = (Addr b, h(b \<mapsto> n))" "h b = None"
  shows "\<exists>h'. list_insert alloc_node (Addr a) v h = Inr h' \<and> chain h' (Addr a) ((a, w) # (b, v) # xs)"
proof -
  obtain m where m: "h a = Some m" "nd_value m = w" "chain h (nd_next m) xs" using c by auto
  have ab: "a \<noteq> b" using m(1) alloc(2) by auto
  have away: "a \<notin> fst ` set xs" using chain_distinct [OF c] by simp
  have new: "b \<notin> fst ` set xs"
  proof
    assume "b \<in> fst ` set xs"
    then obtain u us vs where "xs = us @ (b, u) # vs" by (auto dest: split_list)
    then show False using m(3) alloc(2) by (auto simp: seg_append)
  qed
  let ?n = "n\<lparr>nd_value := v, nd_next := nd_next m\<rparr>"
  let ?h = "h(b \<mapsto> ?n, a \<mapsto> m\<lparr>nd_next := Addr b\<rparr>)"
  have "list_insert alloc_node (Addr a) v h = Inr ?h"
    using m ab alloc by (simp add: list_insert_def nd_set_def nd_def fun_upd_twist)
  moreover have "chain ?h (nd_next m) xs" using m(3) away new by (simp add: seg_upd)
  ultimately show ?thesis using m(2) ab by auto
qed

text \<open>\<open>list_end\<close> returns the last node and \<open>list_size\<close> the number of nodes of a list below \<open>2 ^ 31\<close> nodes;
  both loops end.\<close>

lemma list_end_correct: "chain h p xs \<Longrightarrow> xs \<noteq> [] \<Longrightarrow> list_end h p = Some (Inr (Addr (fst (last xs))))"
proof -
  assume c: "chain h p xs" "xs \<noteq> []"
  then obtain a w ys n where x: "xs = (a, w) # ys" "p = Addr a" "h a = Some n" "chain h (nd_next n) ys"
    by (cases xs) auto
  have "ys = []" if "nd_next n = Null" using that x(4) by (cases ys) auto
  then show ?thesis using end_loop_last [OF c] x by (auto simp: list_end_def nd_def)
qed

lemma list_size_correct:
  "chain h p xs \<Longrightarrow> xs \<noteq> [] \<Longrightarrow> length xs < 2 ^ 31 \<Longrightarrow> list_size h p = Some (Inr (int (length xs)))"
  using size_loop_length [of h p xs 1] by (simp add: list_size_def)

lemma list_find_correct:
  assumes "chain h p xs" "xs \<noteq> []"
  shows "list_find h p v = Some (Inr (case dropWhile (\<lambda>x. snd x \<noteq> v) xs of
      [] \<Rightarrow> (Null, Null)
    | (b, _) # _ \<Rightarrow> (Addr b, let ys = takeWhile (\<lambda>x. snd x \<noteq> v) xs in
        if ys = [] then Null else Addr (fst (last ys)))))"
proof -
  obtain a w xs' n where x: "xs = (a, w) # xs'" "p = Addr a" "h a = Some n" "nd_value n = w"
    using assms by (cases xs) auto
  show ?thesis
  proof (cases "v \<in> snd ` set xs")
    case False
    then have dw: "dropWhile (\<lambda>x. snd x \<noteq> v) xs = []" by (auto simp: dropWhile_eq_Nil_conv)
    have "list_find h p v = Some (Inr (Null, Null))"
      using False find_loop_missing [OF assms(1) False] x by (auto simp: list_find_def nd_def)
    then show ?thesis unfolding dw by simp
  next
    case True
    then obtain ys b zs where ys: "xs = ys @ (b, v) # zs" "v \<notin> snd ` set ys" by (rule split_value)
    have p: "\<forall>y \<in> set ys. snd y \<noteq> v" using ys(2) by auto
    have "takeWhile (\<lambda>x. snd x \<noteq> v) xs = ys" "dropWhile (\<lambda>x. snd x \<noteq> v) xs = (b, v) # zs"
      using p unfolding ys(1) by (auto simp: takeWhile_append dropWhile_append)
    moreover have "find_loop h v p Null = Some (Inr (Addr b, if ys = [] then Null else Addr (fst (last ys))))"
      using find_loop_found [of h p ys b v zs Null] assms(1) ys by simp
    moreover have "w = v \<Longrightarrow> ys = []" using x(1) ys by (cases ys) auto
    moreover have "ys = [] \<Longrightarrow> a = b \<and> w = v" using x(1) ys by simp
    ultimately show ?thesis using x by (auto simp: list_find_def nd_def Let_def)
  qed
qed

text \<open>\<open>list_remove\<close> always ends. When the value is in the list it returns 1, and what \<open>*headp\<close> then
  points to is the list without the first node that holds the value, whose memory is freed; when it is not
  it returns 0 and changes nothing.\<close>

lemma list_remove_correct:
  assumes "chain h (Addr a) xs" "\<forall>b g. free_node (Addr b) g = g(b := None)"
  shows "\<exists>r p h'. list_remove free_node (Addr a) v h = Some (Inr (r, p, h')) \<and> chain h' p (drop_value v xs) \<and>
    (if v \<in> snd ` set xs then r = 1 \<and> (\<exists>b. (b, v) \<in> set xs \<and> dom h' = dom h - {b})
     else r = 0 \<and> h' = h)"
proof (cases "v \<in> snd ` set xs")
  case False
  obtain w xs' n where x: "xs = (a, w) # xs'" "h a = Some n" "nd_value n = w"
    using assms(1) by (cases xs) auto
  have "list_find h (Addr a) v = Some (Inr (Null, Null))"
    using find_loop_missing [OF assms(1) False] False x by (auto simp: list_find_def nd_def)
  then show ?thesis using False assms(1) x drop_value_missing [OF False] by (auto simp: list_remove_def nd_def)
next
  case True
  then obtain ys b zs where ys: "xs = ys @ (b, v) # zs" "v \<notin> snd ` set ys" by (rule split_value)
  have dv: "drop_value v xs = ys @ zs" using drop_value_found [OF ys(2)] ys(1) by simp
  show ?thesis
  proof (cases ys rule: rev_cases)
    case Nil
    then obtain n where n: "b = a" "h a = Some n" "nd_value n = v" "chain h (nd_next n) zs"
      using assms(1) ys(1) by auto
    have "a \<notin> fst ` set zs" using chain_distinct [OF assms(1)] ys(1) Nil n(1) by simp
    then have "chain (h(a := None)) (nd_next n) zs" using n(4) by (simp add: seg_upd)
    moreover have "list_remove free_node (Addr a) v h = Some (Inr (1, nd_next n, h(a := None)))"
      using n assms(2) by (simp add: list_remove_def nd_def)
    ultimately show ?thesis using True dv Nil n(1) ys(1) by (intro exI conjI) auto
  next
    case (snoc us x)
    obtain c w where x: "x = (c, w)" by (cases x)
    have ch: "chain h (Addr a) (us @ (c, w) # (b, v) # zs)" using assms(1) ys(1) snoc x by simp
    obtain n m where nm: "h c = Some n" "h b = Some m"
        "chain ((h(c \<mapsto> n\<lparr>nd_next := nd_next m\<rparr>))(b := None)) (Addr a) (us @ (c, w) # zs)"
      using unlink_chain [OF ch] by blast
    obtain k where k: "h a = Some k" "nd_value k \<noteq> v"
      using assms(1) ys snoc by (cases us) (auto simp: x)
    have "find_loop h v (Addr a) Null = Some (Inr (Addr b, Addr c))"
      using find_loop_found [of h "Addr a" ys b v zs Null] assms(1) ys snoc x by simp
    then have "list_remove free_node (Addr a) v h =
        Some (Inr (1, Addr a, (h(c \<mapsto> n\<lparr>nd_next := nd_next m\<rparr>))(b := None)))"
      using k nm assms(2) by (simp add: list_remove_def list_find_def nd_def nd_set_def)
    moreover have "dom ((h(c \<mapsto> n\<lparr>nd_next := nd_next m\<rparr>))(b := None)) = dom h - {b}" using nm(1) by auto
    ultimately show ?thesis using True dv nm(3) ys(1) snoc x by (intro exI conjI) auto
  qed
qed

end
