(* ===== verification/BinaryLab.thy ===== *)
theory BinaryLab
  imports ClabList
begin

text \<open>
  binarylab/ex1.c to ex5.c: five functions rewritten from machine code. The nodes of ex5.c have the shape of
  those of part5.c (a value and a pointer), so it runs on the same memory.
\<close>

definition ex1 :: "int \<Rightarrow> int \<Rightarrow> int \<Rightarrow> int" where
  "ex1 a b c = (let b = s32 (b + a) in if c = b then 1 else 0)"

fun ex2_loop :: "char list \<Rightarrow> int \<Rightarrow> int" where
  "ex2_loop [] count = count"
| "ex2_loop (c # tmp) count =
     (if c = NUL then count else ex2_loop tmp (if c = CHR ''a'' then s32 (count + 1) else count))"

definition ex2 :: "char list \<Rightarrow> int" where
  "ex2 ptr = ex2_loop ptr 0"

text \<open>\<open>rd\<close> and \<open>rs\<close> are indices into one array, so they may overlap.\<close>

definition ex3_body :: "int \<Rightarrow> int \<Rightarrow> int \<Rightarrow> char list \<Rightarrow> char list cres" where
  "ex3_body rd rs index mem =
     c_bind (arr_at mem (rd + index)) (\<lambda>tmp.
     c_bind (arr_at mem (rs + index)) (\<lambda>c.
     c_bind (arr_set mem (rd + index) c) (\<lambda>mem.
     arr_set mem (rs + index) tmp)))"

definition ex3 :: "int \<Rightarrow> int \<Rightarrow> int \<Rightarrow> char list \<Rightarrow> char list cres" where
  "ex3 rd rs b mem = c_for 0 b (ex3_body rd rs) mem"

function ex4 :: "int \<Rightarrow> int" where
  "ex4 rd = (if rd < 2 then rd else s32 (ex4 (rd - 2) + ex4 (rd - 1)))"
  by auto
termination by (relation "measure nat") auto

declare ex4.simps [simp del]

partial_function (option) ex5_loop :: "nheap \<Rightarrow> ptr \<Rightarrow> int cres option" where
  "ex5_loop h temp =
     (case nd h temp of
        Inl e \<Rightarrow> Some (Inl e)
      | Inr n \<Rightarrow>
          if nd_next n \<noteq> Null then
            (case nd h (nd_next n) of
               Inl e \<Rightarrow> Some (Inl e)
             | Inr k \<Rightarrow> if nd_value k < nd_value n then Some (Inr 0) else ex5_loop h (nd_next n))
          else Some (Inr 1))"

definition ex5 :: "nheap \<Rightarrow> ptr \<Rightarrow> int cres option" where
  "ex5 h head = (if head = Null then Some (Inr 1) else ex5_loop h head)"

section \<open>Their results\<close>

lemma ex2_count: "cstring s \<Longrightarrow> length s < 2 ^ 31 \<Longrightarrow> ex2 s = int (count_list s (CHR ''a''))"
proof -
  have "cstring s \<Longrightarrow> 0 \<le> k \<Longrightarrow> k + int (length s) < 2 ^ 31 \<Longrightarrow>
      ex2_loop s k = k + int (count_list s (CHR ''a''))" for s k
  proof (induction s arbitrary: k)
    case (Cons c s)
    then show ?case by (auto simp: s32_id)
  qed simp
  then show "cstring s \<Longrightarrow> length s < 2 ^ 31 \<Longrightarrow> ex2 s = int (count_list s (CHR ''a''))"
    unfolding ex2_def by force
qed

lemma ex3_swaps:
  assumes "rd + n \<le> rs" "rs + n \<le> length mem"
  shows "\<exists>mem'. ex3 (int rd) (int rs) (int n) mem = Inr mem' \<and> length mem' = length mem \<and>
    (\<forall>k < length mem. mem' ! k =
      (if rd \<le> k \<and> k < rd + n then mem ! (rs + (k - rd))
       else if rs \<le> k \<and> k < rs + n then mem ! (rd + (k - rs)) else mem ! k))"
proof -
  define P where "P i mem' \<longleftrightarrow> length mem' = length mem \<and> (\<forall>k < length mem. mem' ! k =
      (if rd \<le> k \<and> int k < int rd + i then mem ! (rs + (k - rd))
       else if rs \<le> k \<and> int k < int rs + i then mem ! (rd + (k - rs)) else mem ! k))" for i mem'
  have "\<exists>mem'. c_for 0 (int n) (ex3_body (int rd) (int rs)) mem = Inr mem' \<and> P (int n) mem'"
  proof (rule c_for_inv [where P = P])
    show "P 0 mem" by (auto simp: P_def)
    fix i s
    assume i: "0 \<le> i" "i < int n" and s: "P i s"
    obtain j where j: "i = int j" "j < n" using i by (metis of_nat_less_iff zero_le_imp_eq_int)
    have len: "length s = length mem" using s by (simp add: P_def)
    have b: "rd + j < length s" "rs + j < length s" "rd + j < rs" using assms j(2) len by linarith+
    have old: "s ! (rd + j) = mem ! (rd + j)" "s ! (rs + j) = mem ! (rs + j)"
      using s b assms j len by (auto simp: P_def)
    let ?s = "s[rd + j := s ! (rs + j), rs + j := s ! (rd + j)]"
    have "ex3_body (int rd) (int rs) i s = Inr ?s"
      using b by (simp add: ex3_body_def j(1) flip: of_nat_add)
    moreover have "P (i + 1) ?s"
      unfolding P_def
    proof (intro conjI allI impI)
      show "length ?s = length mem" using len by simp
      fix k assume k: "k < length mem"
      consider "k = rd + j" | "k = rs + j" | "k \<noteq> rd + j" "k \<noteq> rs + j" by blast
      then show "?s ! k = (if rd \<le> k \<and> int k < int rd + (i + 1) then mem ! (rs + (k - rd))
          else if rs \<le> k \<and> int k < int rs + (i + 1) then mem ! (rd + (k - rs)) else mem ! k)"
      proof cases
        case 1
        then show ?thesis using b old j by simp
      next
        case 2
        then show ?thesis using b old j by simp
      next
        case 3
        then have "?s ! k = s ! k" by simp
        moreover have "int k < int rd + (i + 1) \<longleftrightarrow> int k < int rd + i" "int k < int rs + (i + 1) \<longleftrightarrow> int k < int rs + i"
          using 3 j by auto
        ultimately show ?thesis using s k by (simp add: P_def)
      qed
    qed
    ultimately show "\<exists>s'. ex3_body (int rd) (int rs) i s = Inr s' \<and> P (i + 1) s'" by blast
  qed simp
  then obtain mem' where m: "ex3 (int rd) (int rs) (int n) mem = Inr mem'" "P (int n) mem'"
    by (auto simp: ex3_def)
  have "int k < int a + int n \<longleftrightarrow> k < a + n" for k a by linarith
  then show ?thesis using m unfolding P_def by (intro exI [of _ mem']) simp
qed

text \<open>The comment of ex4.c says the sum of the first Fibonacci numbers; it is the Fibonacci number itself.\<close>

fun fib :: "nat \<Rightarrow> int" where
  "fib 0 = 0"
| "fib (Suc 0) = 1"
| "fib (Suc (Suc n)) = fib n + fib (Suc n)"

lemma ex4_fib: "ex4 (int n) = s32 (fib n)"
proof (induction n rule: fib.induct)
  case (3 n)
  have "ex4 (int (Suc (Suc n))) = s32 (ex4 (int n) + ex4 (int (Suc n)))"
    by (subst ex4.simps) (simp add: algebra_simps)
  also have "\<dots> = s32 (s32 (fib n) + s32 (fib (Suc n)))" by (simp only: 3)
  also have "\<dots> = s32 (fib n + fib (Suc n))" by (metis s32_add add.commute)
  finally show ?case by simp
qed (simp_all add: ex4.simps s32_id)

lemma ex5_sorted: "chain h p xs \<Longrightarrow> ex5 h p = Some (Inr (if sorted (map snd xs) then 1 else 0))"
proof -
  have "chain h p xs \<Longrightarrow> xs \<noteq> [] \<Longrightarrow> ex5_loop h p = Some (Inr (if sorted (map snd xs) then 1 else 0))"
  proof (induction xs arbitrary: p)
    case (Cons x xs)
    obtain a v n where x: "x = (a, v)" "p = Addr a" "h a = Some n" "nd_value n = v" "chain h (nd_next n) xs"
      using Cons.prems(1) by (cases x) auto
    show ?case
    proof (cases xs)
      case Nil
      then show ?thesis using x by (subst ex5_loop.simps) (simp add: nd_def)
    next
      case (Cons y ys)
      obtain b w k where y: "y = (b, w)" "nd_next n = Addr b" "h b = Some k" "nd_value k = w"
        using x(5) Cons by (cases y) auto
      have IH: "ex5_loop h (Addr b) = Some (Inr (if sorted (map snd xs) then 1 else 0))"
        using Cons.IH [of "nd_next n"] x(5) Cons y(2) by simp
      have so: "sorted (map snd (x # xs)) \<longleftrightarrow> v \<le> w \<and> sorted (map snd xs)"
        using x(1) y(1) Cons by auto
      have "ex5_loop h p = (if w < v then Some (Inr 0) else ex5_loop h (Addr b))"
        using x y by (subst ex5_loop.simps) (simp add: nd_def)
      then show ?thesis using IH so by auto
    qed
  qed simp
  then show "chain h p xs \<Longrightarrow> ex5 h p = Some (Inr (if sorted (map snd xs) then 1 else 0))"
    by (cases xs) (auto simp: ex5_def)
qed

end
