(* ===== verification/ClabBits.thy ===== *)
theory ClabBits
  imports CPrelude
begin

unbundle bit_operations_syntax

text \<open>
  clab/mini/part6.c: three exercises on bits. A \<open>float\<close> is the 32-bit word that represents it, an
  \<open>unsigned char\<close> an 8-bit word. A shift by a negative amount or by 32 and more is undefined in C.
\<close>

definition get_exponent_field :: "32 word \<Rightarrow> 8 word" where
  "get_exponent_field f =
     (let ret = f; ret = push_bit 1 ret; ret = drop_bit 24 ret in ucast ret)"

definition clear_msb :: "32 word \<Rightarrow> int \<Rightarrow> 32 word cres" where
  "clear_msb number b =
     (if b = 0 then Inr number
      else if b < 0 \<or> 32 \<le> b then Inl ShiftRange
      else let clear = drop_bit (nat b) 0xffffffff in Inr (number AND clear))"

definition bit_at_index :: "8 word list \<Rightarrow> int \<Rightarrow> int \<Rightarrow> 8 word cres" where
  "bit_at_index array array_size i =
     c_bind (c_assert (i < s32 (array_size * 8))) (\<lambda>_.
     let position = i sdiv 8; bit_position = i smod 8; bit_mask = 0x80 :: int;
         bit_mask = (if bit_position > 0 then drop_bit (nat bit_position) bit_mask else bit_mask) in
     c_bind (arr_at array position) (\<lambda>byte. Inr (if uint byte AND bit_mask \<noteq> 0 then 1 else 0)))"

text \<open>The exponent is the eight bits from bit 23 on.\<close>

lemma get_exponent_field_correct: "bit (get_exponent_field f) n \<longleftrightarrow> n < 8 \<and> bit f (23 + n)"
  unfolding get_exponent_field_def Let_def bit_ucast_iff bit_drop_bit_eq comp_apply bit_push_bit_iff
  by auto

text \<open>\<open>clear_msb\<close> keeps the low \<open>32 - b\<close> bits for \<open>b\<close> from 0 to 31. The comment promises 0 for \<open>b = 40\<close>,
  where the shift is undefined.\<close>

lemma clear_msb_correct: "0 \<le> b \<Longrightarrow> b < 32 \<Longrightarrow> clear_msb number b = Inr (take_bit (32 - nat b) number)"
proof -
  assume b: "0 \<le> b" "b < 32"
  have ones: "(0xffffffff :: 32 word) = mask 32" by (simp add: mask_eq_exp_minus_1)
  have "bit (drop_bit (nat b) (0xffffffff :: 32 word)) n \<longleftrightarrow> n < 32 - nat b" for n
    unfolding ones using b by (auto simp: bit_simps)
  then have "number AND drop_bit (nat b) 0xffffffff = take_bit (32 - nat b) number"
    by (intro bit_eqI) (auto simp: bit_and_iff bit_take_bit_iff)
  moreover have "take_bit 32 number = number" by (rule bit_eqI) (simp add: bit_simps)
  ultimately show ?thesis using b by (simp add: clear_msb_def)
qed

lemma clear_msb_undefined: "32 \<le> b \<Longrightarrow> clear_msb number b = Inl ShiftRange"
  by (simp add: clear_msb_def)

text \<open>\<open>bit_at_index\<close> counts bits from the most significant one of the first byte.\<close>

lemma bit_at_index_correct:
  assumes "i < 8 * length array" "length array < 2 ^ 28"
  shows "bit_at_index array (int (length array)) (int i) =
    Inr (if bit (array ! (i div 8)) (7 - i mod 8) then 1 else 0)"
proof -
  have s: "s32 (int (length array) * 8) = int (length array) * 8" using assms(2) by (intro s32_id) auto
  have ints: "int i sdiv 8 = int (i div 8)" "int i smod 8 = int (i mod 8)"
    by (simp_all add: sdiv_nonneg smod_nonneg zdiv_int zmod_int)
  have m: "(if int (i mod 8) > 0 then drop_bit (nat (int (i mod 8))) (0x80 :: int) else 0x80) = 2 ^ (7 - i mod 8)"
  proof -
    have "i mod 8 < 8" by simp
    then consider "i mod 8 = 0" | "i mod 8 = 1" | "i mod 8 = 2" | "i mod 8 = 3" | "i mod 8 = 4" | "i mod 8 = 5"
      | "i mod 8 = 6" | "i mod 8 = 7" by linarith
    then show ?thesis by cases (simp_all add: drop_bit_eq_div)
  qed
  have len: "i div 8 < length array" using assms(1) by simp
  have b: "uint w AND 2 ^ k \<noteq> 0 \<longleftrightarrow> bit w k" if "k < 8" for w :: "8 word" and k
    using that by (simp add: and_exp_eq_0_iff_not_bit bit_uint_iff)
  have lt: "int i < int (length array) * 8" using assms(1) by linarith
  show ?thesis
    unfolding bit_at_index_def s ints Let_def m using b [of "7 - i mod 8"] lt len by simp
qed

text \<open>A negative index below -7 passes the assertion and is read before the array.\<close>

lemma bit_at_index_negative: "length array < 2 ^ 28 \<Longrightarrow> bit_at_index array (int (length array)) (- 8) = Inl OutOfBounds"
proof -
  assume "length array < 2 ^ 28"
  then have "s32 (int (length array) * 8) = int (length array) * 8" by (intro s32_id) auto
  then show ?thesis by (simp add: bit_at_index_def Let_def signed_divide_int_def)
qed

end
