(* ===== verification/Spec2Isabelle.thy ===== *)
theory Spec2Isabelle
  imports RkTest BmTest HtTest RwTest RwPriority MdMain MmNaive Fsecs Dealloc HtResizeTest ClabArrays ClabPoint TreeTest ClabToken BinaryLab ClabBits
begin

text \<open>
  \<^bold>\<open>The programs.\<close> The repository holds the C programs of a course on computer systems, each in a directory
  under src/:

  \<^item> rklab: \<open>rkgrep\<close> searches patterns in a text file with a naive matcher, with the Rabin-Karp algorithm, or
    with Rabin-Karp behind a Bloom filter; a Boyer-Moore matcher stands beside it.
  \<^item> threadlab: a hash table with chaining whose slots are protected by reader-writer locks, and the lock.
  \<^item> malloclab: two memory allocators over a simulated break, and the driver that checks and measures them.
  \<^item> clab and binarylab: exercises on arrays, lists, trees, bits and strings.

  \<^bold>\<open>The theories\<close>, each with a text at its head that says what it models:

  \<^item> \<open>CPrelude\<close>: results of C functions (a value or a \<open>c_error\<close>), 32 and 64 bit wrapping, characters, strings,
    arrays, counting loops, pointers, reachability; the locale \<open>inductive_invariant\<close>.
  \<^item> \<open>RkHash\<close>, \<open>RkMatch\<close> (rkgrep.c), \<open>Bloom\<close> (bloom.c), \<open>RkBloom\<close> (the front end of rkgrep.c),
    \<open>RkGrepMain\<close> (rkgrep_main.c), \<open>BmGrep\<close> (bmgrep.c). The scanning loops rely on the locale \<open>rolling_hash\<close>,
    which \<open>RkHash\<close> interprets with \<open>rkhash_init\<close> and \<open>rkhash_next\<close>, and the Bloom front end on the locale
    \<open>membership_filter\<close>, which \<open>Bloom\<close> interprets.
  \<^item> \<open>RwLock\<close> (rwlock.c): one function for every stretch of code that holds the mutex, and the step relation
    \<open>rwl_step\<close> that interleaves any number of threads; three interpretations of \<open>inductive_invariant\<close> give
    safety, wake-ups of writers, and wake-ups of readers when no writer sets a time limit.
  \<^item> \<open>HtHash\<close> and \<open>HTable\<close> (htable.c): hash code and primes; the table with its locks. The locales \<open>map_store\<close>
    and \<open>roomy_store\<close> are the contract of a table and are interpreted with \<open>htable_insert\<close> and \<open>htable_lookup\<close>.
  \<^item> \<open>RwClient\<close>: a lock as its clients see it, with the proof that it does not get stuck and that its work is bounded.
    \<open>HtThreads\<close> (htable.c): insertion and lookup by any number of threads, one node of a chain at a time, over whole
    locks of \<open>RwLock\<close>; its contract is an atomic map.
  \<^item> \<open>HtResize\<close>, \<open>HtResizeMap\<close>, \<open>HtResizeTime\<close>, \<open>HtResizeLive\<close> (htable.c): the same with resizing, the mutex and the flag; the
    invariant, the contract (locale \<open>table_view\<close>, interpreted with a multiset of pairs and with a map), when the table is an exact
    map, and progress.
  \<^item> The test programs: \<open>RkTest\<close> (rkgrep_test.c), \<open>BmTest\<close> (bmgrep_test.c), \<open>RwTest\<close> and \<open>RwPriority\<close> (testrwlock.c), \<open>HtTest\<close>
    and \<open>HtResizeTest\<close> (testhash.c, tester.c), \<open>TreeTest\<close> (part7_harness.c). The results of \<open>rand\<close> are a
    function of the number of the call. A test with threads is a step relation; the theorems say how it can end in every interleaving
    and that it can be run to its end.
  \<^item> \<open>MemLib\<close> (memlib.c), \<open>MmList\<close> (headers, doubly linked lists, chunks that tile the heap), \<open>Mm\<close> (the
    functions of mm.c), \<open>MmInv\<close>, \<open>MmHeap\<close>, \<open>MmAlloc\<close> (lists, heap, search: the invariant and its preservation),
    \<open>AllocSpec\<close> (the locale \<open>allocator\<close>), \<open>MmSpec\<close> and \<open>MmNaive\<close> (its two instances mm.c and mm-naive.c).
  \<^item> \<open>MmDriver\<close>, \<open>MdUtil\<close>, \<open>MdTrace\<close>, \<open>MdScore\<close> and \<open>MdMain\<close> (mdriver.c): the range lists and interpreters of a
    trace, what they compute, the reader of trace files, the performance index, and \<open>main\<close>. This theory
    states what the whole does.
  \<^item> \<open>CDouble\<close>: the values and operations of \<open>double\<close>, and the locale \<open>rounding\<close>, which is interpreted with the rounding
    of IEEE 754. \<open>Ftimer\<close> (ftimer.c), \<open>Fcyc\<close> (fcyc.c), \<open>Clock\<close> (clock.c) and \<open>Fsecs\<close>
    (fsecs.c with each of its timing methods) use it.
  \<^item> \<open>Dealloc\<close>: \<open>htable_destroy\<close>, \<open>bloom_free\<close>, \<open>free_trace\<close>, \<open>mem_deinit\<close> on the set of allocated addresses.
  \<^item> \<open>ClabArrays\<close> (part1.c to part3.c), \<open>ClabPoint\<close> (part4.c), \<open>ClabList\<close> (part5.c), \<open>ClabBits\<close> (part6.c), \<open>ClabTree\<close> (part7.c),
    \<open>ClabToken\<close> (part8.c), \<open>BinaryLab\<close> (ex1.c to ex5.c).

  \<^bold>\<open>State.\<close> A C struct is a record with its fields; a struct in dynamic memory is an entry of a map from
  addresses where its address matters (mm.c, mm-naive.c, part5.c, ex5.c) and a value where nothing aliases it
  (chains of the hash table, trees of part7.c, range lists). Functions that change state return the new state. Leaving defined
  behaviour is a \<open>c_error\<close>: null and wild pointers, bounds, uninitialised reads, division by zero, shifts,
  failed assertions, a deadlock of the only thread, \<open>exit\<close>. Signed arithmetic is wrapped (\<open>s32\<close>, \<open>s64\<close>)
  where it is not shown to stay in range.

  \<^bold>\<open>Loops and fuel.\<close> Loops are structural or have a measure, except: loops that follow pointers in shared
  memory use fuel (\<open>heap_fuel\<close>, one more than the bytes of the heap, which no loop over distinct headers can use up;
  \<open>Loops\<close> is the result of one that does) or are partial functions whose \<open>None\<close> is a run without end
  (\<open>bubble_sort\<close>, \<open>bm_loop\<close>, \<open>free_linked_list\<close>, the loops of \<open>ClabList\<close> and \<open>BinaryLab\<close>); the theorems show that they end.

  \<^bold>\<open>What is shown.\<close> The allocators: aligned, disjoint blocks, preserved contents, a sorted and fully coalesced
  free list, acceptance by the driver, a utilisation of at most one, a performance index between 0 and 100. The
  lock: mutual exclusion, refinement of an abstract lock, exact counters, priority of writers, which wake-ups are lost and which are not. The table: it is a map, through
  insertion, lookup and resizing; with several threads and a fixed size it is linearizable; with resizes no node is lost,
  no thread is stuck, and it is linearizable as long as no thread uses a slot that it computed before a resize. The matchers:
  agreement with exhaustive search. The reader of traces: what it accepts is well formed. The test programs: which pass for every
  sequence of random numbers and every interleaving, and which fail. And the
  places where the code leaves its contract, each as a theorem about the model of the code as written.

  \<^bold>\<open>Not modelled.\<close> The sign of a zero of type \<open>double\<close>; the text that the programs print where it is not their
  result; \<open>rwl_destroy\<close>, which only destroys POSIX objects; the clock readings of the test programs. \<open>malloc\<close> of
  the C library is taken to succeed for sizes that an \<open>int\<close> can give.
  The threads of the hash table access its size and \<open>undergoing_resize\<close> without a lock; the accesses are taken to be sequentially
  consistent. Resizing above half of \<open>BIG_PRIME\<close> slots with several threads is left out.
\<close>

section \<open>The malloc lab as a whole\<close>

text \<open>C1: the driver and mm.c as a whole: with usable options and trace files, a C library that has memory and a
  clock that advances, \<open>main\<close> of mdriver.c runs to its end; every trace passes, no error is counted, and
  the average performance index it prints is a number between 0 and 100.\<close>

theorem mdriver_main_passes:
  assumes "parse_opts opts start_options = Inr opt" "\<forall>name \<in> set (fst (choose_files opt)). good_trace env (tracedir opt @ name)"
    and "libc_serves env" "\<forall>i. clock_advances (libc_clock env i) \<and> clock_advances (mm_clock env i)"
    and "0 < a" "16 dvd a" "a + MAX_HEAP < 2 ^ 63"
  shows "\<exists>r x. mdriver_main env opts (Addr a) m h = Inr r \<and> num_errors r = 0 \<and> numcorrect r = num_traces r \<and>
    num_traces r = int (length (fst (choose_files opt))) \<and> average_index r = Fin x \<and> 0 \<le> x \<and> x \<le> 100"
  using assms by (rule mdriver_main_ok)

theorem mdriver_main_passes_witness:
  "\<exists>r x. mdriver_main example_env [(CHR ''v'', []), (CHR ''f'', ''a.rep'')] (Addr 4096)
      (fresh_heap 16 junk_hdrs junk_bytes) 0 = Inr r \<and> num_errors r = 0 \<and> numcorrect r = num_traces r \<and>
    num_traces r = 1 \<and> average_index r = Fin x \<and> 0 \<le> x \<and> x \<le> 100"
proof -
  let ?opt = "start_options\<lparr>verbose := 1, num_tracefiles := 1, tracefiles := Some [''a.rep''], tracedir := ''./''\<rparr>"
  have f: "choose_files ?opt = ([''a.rep''], 1)" by (simp add: choose_files_def)
  show ?thesis
    using mdriver_main_passes [of "[(CHR ''v'', []), (CHR ''f'', ''a.rep'')]" ?opt example_env 4096
        "fresh_heap 16 junk_hdrs junk_bytes" 0] example_good f
    by (simp add: libc_serves_def example_env_def clock_advances_def)
qed

end
